(* ===== verification/Prelude.thy ===== *)
theory Prelude
  imports Main "HOL-Library.Word" "HOL-Library.AList"
begin

text \<open>
  Shared vocabulary of the development: the machine integers of the Rust source, the saturating
  operations of its standard library, little-endian byte strings, and the two containers the code
  iterates over.

  A Rust \<open>HashMap\<close> or \<open>DashMap\<close> that the code iterates over is an association list
  (\<open>HOL-Library.AList\<close>) whose keys are distinct: the order of the list is the unspecified order
  of the iteration, and no theorem depends on it. A \<open>HashSet\<close> is a list without repetitions in
  the same way. A Rust \<open>usize\<close> that takes part in bit arithmetic is a 64-bit word (the code is
  built for 64-bit targets); a \<open>usize\<close> that only counts is a \<open>nat\<close>.
\<close>

unbundle bit_operations_syntax

section \<open>Machine integers\<close>

type_synonym u8 = "8 word"
type_synonym u16 = "16 word"
type_synonym u32 = "32 word"
type_synonym u64 = "64 word"

definition sat_add :: "'a::len word \<Rightarrow> 'a word \<Rightarrow> 'a word" where
  "sat_add a b = (if unat a + unat b < 2 ^ LENGTH('a) then a + b else - 1)"

definition sat_sub :: "'a::len word \<Rightarrow> 'a word \<Rightarrow> 'a word" where
  "sat_sub a b = (if a < b then 0 else a - b)"

definition sat_mul :: "'a::len word \<Rightarrow> 'a word \<Rightarrow> 'a word" where
  "sat_mul a b = (if unat a * unat b < 2 ^ LENGTH('a) then a * b else - 1)"

lemma unat_max_word: "unat (- 1 :: 'a::len word) = 2 ^ LENGTH('a) - 1"
  by (simp add: unsigned_minus_1_eq_mask mask_eq_exp_minus_1)

lemma unat_sat_add:
  "unat (sat_add a b) = min (unat a + unat b) (2 ^ LENGTH('a) - 1)" for a b :: "'a::len word"
proof (cases "unat a + unat b < 2 ^ LENGTH('a)")
  case True
  then have "unat (a + b) = unat a + unat b" by (simp add: unat_word_ariths)
  with True show ?thesis by (simp add: sat_add_def)
next
  case False
  then show ?thesis by (simp add: sat_add_def unat_max_word)
qed

lemma unat_sat_sub:
  "unat (sat_sub a b) = unat a - unat b" for a b :: "'a::len word"
  by (auto simp: sat_sub_def word_less_nat_alt unat_sub word_le_nat_alt)

lemma unat_sat_mul:
  "unat (sat_mul a b) = min (unat a * unat b) (2 ^ LENGTH('a) - 1)" for a b :: "'a::len word"
proof (cases "unat a * unat b < 2 ^ LENGTH('a)")
  case True
  then have "unat (a * b) = unat a * unat b" by (simp add: unat_word_ariths)
  with True show ?thesis by (simp add: sat_mul_def)
next
  case False
  then show ?thesis by (simp add: sat_mul_def unat_max_word)
qed

definition le_bytes16 :: "u16 \<Rightarrow> u8 list" where
  "le_bytes16 x = map (\<lambda>i. ucast (drop_bit (8 * i) x)) [0..<2]"

definition le_bytes32 :: "u32 \<Rightarrow> u8 list" where
  "le_bytes32 x = map (\<lambda>i. ucast (drop_bit (8 * i) x)) [0..<4]"

definition le_bytes64 :: "u64 \<Rightarrow> u8 list" where
  "le_bytes64 x = map (\<lambda>i. ucast (drop_bit (8 * i) x)) [0..<8]"

text \<open>
  The 64-bit XXH3 hash with a seed is third-party code (\<open>xxhash-rust\<close>): a parameter of every
  definition that uses it. Nothing is assumed of it.
\<close>

type_synonym xxh3 = "u8 list \<Rightarrow> u64 \<Rightarrow> u64"

section \<open>Hash sets as lists without repetitions\<close>

definition hs_insert :: "'a \<Rightarrow> 'a list \<Rightarrow> bool \<times> 'a list" where
  "hs_insert x s = (if x \<in> set s then (False, s) else (True, x # s))"

definition hs_remove :: "'a \<Rightarrow> 'a list \<Rightarrow> bool \<times> 'a list" where
  "hs_remove x s = (x \<in> set s, removeAll x s)"

lemma hs_insert_simps [simp]:
  "fst (hs_insert x s) \<longleftrightarrow> x \<notin> set s"
  "set (snd (hs_insert x s)) = insert x (set s)"
  by (auto simp: hs_insert_def)

lemma hs_remove_simps [simp]:
  "fst (hs_remove x s) \<longleftrightarrow> x \<in> set s"
  "set (snd (hs_remove x s)) = set s - {x}"
  by (auto simp: hs_remove_def)

lemma distinct_hs_insert [simp]: "distinct (snd (hs_insert x s)) \<longleftrightarrow> distinct s"
  by (auto simp: hs_insert_def)

lemma distinct_hs_remove [simp]: "distinct s \<Longrightarrow> distinct (snd (hs_remove x s))"
  by (simp add: hs_remove_def distinct_removeAll)

lemma length_hs_insert: "length (snd (hs_insert x s)) = (if x \<in> set s then length s else Suc (length s))"
  by (simp add: hs_insert_def)

lemma length_hs_remove:
  "distinct s \<Longrightarrow> length (snd (hs_remove x s)) = (if x \<in> set s then length s - 1 else length s)"
  by (simp add: hs_remove_def distinct_remove1_removeAll [symmetric] length_remove1)

section \<open>Hash maps as association lists\<close>

abbreviation keys_distinct :: "('k \<times> 'v) list \<Rightarrow> bool" where
  "keys_distinct m \<equiv> distinct (map fst m)"

lemma map_of_update [simp]: "map_of (AList.update k v m) = (map_of m)(k \<mapsto> v)"
  by (rule update_conv')

lemma map_of_delete [simp]: "map_of (AList.delete k m) = (map_of m)(k := None)"
  by (rule delete_conv')

lemma keys_distinct_update [simp]: "keys_distinct m \<Longrightarrow> keys_distinct (AList.update k v m)"
  by (rule distinct_update)

lemma keys_distinct_delete [simp]: "keys_distinct m \<Longrightarrow> keys_distinct (AList.delete k m)"
  by (rule distinct_delete)

lemma keys_distinct_filter [simp]: "keys_distinct m \<Longrightarrow> keys_distinct (filter P m)"
  by (rule distinct_map_filter)

lemma map_of_filter_value:
  assumes "keys_distinct m"
  shows "map_of (filter (\<lambda>e. P (fst e) (snd e)) m) k =
    (case map_of m k of None \<Rightarrow> None | Some v \<Rightarrow> if P k v then Some v else None)"
  using assms
  by (induction m) (auto simp: image_iff split: option.splits dest: map_of_SomeD)

lemma map_of_in_set_iff: "keys_distinct m \<Longrightarrow> map_of m k = Some v \<longleftrightarrow> (k, v) \<in> set m"
  by (auto dest: map_of_SomeD)

lemma map_of_map_value:
  "map_of (map (\<lambda>e. (fst e, f (fst e) (snd e))) m) k = map_option (f k) (map_of m k)"
  by (induction m) auto

section \<open>Code that may panic\<close>

text \<open>
  A call that may panic is an \<open>option\<close>, \<open>None\<close> the panic. \<open>returns r P\<close>: the call returns, with a
  result that satisfies \<open>P\<close>. The collection \<open>returns_simps\<close> reduces it through the ways calls are composed.
\<close>

definition returns :: "'a option \<Rightarrow> ('a \<Rightarrow> bool) \<Rightarrow> bool" where
  "returns r P \<longleftrightarrow> (\<exists>y. r = Some y \<and> P y)"

named_theorems returns_simps

lemma returns_Some [returns_simps]: "returns (Some y) P \<longleftrightarrow> P y"
  by (simp add: returns_def)

lemma returns_map [returns_simps]: "returns (map_option f r) P \<longleftrightarrow> returns r (\<lambda>y. P (f y))"
  by (auto simp: returns_def)

lemma returns_case [returns_simps]:
  "returns (case r of None \<Rightarrow> None | Some y \<Rightarrow> k y) P \<longleftrightarrow> returns r (\<lambda>y. returns (k y) P)"
  by (auto simp: returns_def split: option.splits)

lemma returns_if [returns_simps]: "returns (if b then r else r') P \<longleftrightarrow> (if b then returns r P else returns r' P)"
  by simp

lemma returns_mono: "returns r P \<Longrightarrow> (\<And>y. P y \<Longrightarrow> Q y) \<Longrightarrow> returns r Q"
  by (auto simp: returns_def)

fun try_fold :: "('a \<Rightarrow> 'w \<Rightarrow> 'w option) \<Rightarrow> 'a list \<Rightarrow> 'w \<Rightarrow> 'w option" where
  "try_fold f [] w = Some w"
| "try_fold f (x # xs) w = (case f x w of None \<Rightarrow> None | Some w' \<Rightarrow> try_fold f xs w')"

lemma try_fold_append:
  "try_fold f (xs @ [x]) w = (case try_fold f xs w of None \<Rightarrow> None | Some w' \<Rightarrow> f x w')"
  by (induction xs arbitrary: w) (auto split: option.splits)

lemma returns_try_fold:
  "(\<And>x w. I w \<Longrightarrow> returns (f x w) I) \<Longrightarrow> I w \<Longrightarrow> returns (try_fold f xs w) I"
  by (induction xs arbitrary: w) (auto simp: returns_simps intro: returns_mono)

end
