(* ===== verification/Ids.thy ===== *)
theory Ids
  imports Prelude "HOL-Library.Char_ord" "HOL-Library.List_Lexorder"
begin

text \<open>
  The identifier types of \<open>crates/hier-kv-gateway-core/src/ids.rs\<close>. The source wraps
  \<open>Arc<str>\<close> and compares contents, so each wrapper is a datatype over \<open>string\<close> (a list of
  bytes); the orders of \<open>RegionId\<close> and \<open>BackendId\<close> are the byte-wise orders the source defines.
\<close>

section \<open>Wrappers over strings\<close>

datatype region_id = RegionId (region_str: string)

datatype region_tier = Cloud | Edge | Device

datatype backend_instance_id = BackendInstanceId (instance_str: string)

datatype backend_id = BackendId (b_region: region_id) (b_instance: backend_instance_id)

datatype indexer_domain_id = IndexerDomainId u64

datatype pool_id = PoolId (pool_domain: indexer_domain_id) (pool_region: region_id)

datatype instance_id = InstanceId (inst_str: string)

datatype request_id = RequestId (request_str: string)

datatype session_id = SessionId (session_str: string)

datatype tenant_id = TenantId (tenant_str: string)

record worker_with_rank =
  worker_id :: u64
  dp_rank :: u32

definition worker_from_id :: "u64 \<Rightarrow> worker_with_rank" where
  "worker_from_id w = \<lparr>worker_id = w, dp_rank = 0\<rparr>"

section \<open>Orders\<close>

instantiation region_id :: linorder
begin

definition less_eq_region_id :: "region_id \<Rightarrow> region_id \<Rightarrow> bool" where
  "less_eq_region_id a b \<longleftrightarrow> region_str a \<le> region_str b"

definition less_region_id :: "region_id \<Rightarrow> region_id \<Rightarrow> bool" where
  "less_region_id a b \<longleftrightarrow> region_str a < region_str b"

instance
  by standard (auto simp: less_eq_region_id_def less_region_id_def region_id.expand)

end

definition backend_cmp :: "backend_id \<Rightarrow> backend_id \<Rightarrow> bool" where
  "backend_cmp a b \<longleftrightarrow> b_region a < b_region b \<or>
     (b_region a = b_region b \<and> instance_str (b_instance a) \<le> instance_str (b_instance b))"

instantiation backend_id :: linorder
begin

definition less_eq_backend_id :: "backend_id \<Rightarrow> backend_id \<Rightarrow> bool" where
  "less_eq_backend_id a b \<longleftrightarrow> backend_cmp a b"

definition less_backend_id :: "backend_id \<Rightarrow> backend_id \<Rightarrow> bool" where
  "less_backend_id a b \<longleftrightarrow> backend_cmp a b \<and> \<not> backend_cmp b a"

instance
  by standard
    (auto simp: less_eq_backend_id_def less_backend_id_def backend_cmp_def
      intro!: backend_id.expand backend_instance_id.expand)

end

section \<open>Parsing and printing of backend identifiers\<close>

definition find_char :: "char \<Rightarrow> string \<Rightarrow> nat option" where
  "find_char c s = (if c \<in> set s then Some (length (takeWhile (\<lambda>x. x \<noteq> c) s)) else None)"

definition backend_parse :: "string \<Rightarrow> backend_id option" where
  "backend_parse s =
     (case find_char (CHR ''/'') s of
        None \<Rightarrow> None
      | Some slash \<Rightarrow>
          (let region = take slash s; inst = drop (slash + 1) s
           in if region = [] \<or> inst = [] then None
              else Some (BackendId (RegionId region) (BackendInstanceId inst))))"

text \<open>The error of \<open>FromStr\<close>; the source formats it as a message around the input.\<close>

datatype backend_id_error = InvalidBackendId string

definition backend_from_str :: "string \<Rightarrow> backend_id_error + backend_id" where
  "backend_from_str s =
     (case backend_parse s of Some b \<Rightarrow> Inr b | None \<Rightarrow> Inl (InvalidBackendId s))"

definition backend_display :: "backend_id \<Rightarrow> string" where
  "backend_display b = region_str (b_region b) @ ''/'' @ instance_str (b_instance b)"

lemma find_char_append:
  "c \<notin> set s \<Longrightarrow> find_char c (s @ c # t) = Some (length s)"
  by (induction s) (auto simp: find_char_def)

lemma find_char_split:
  assumes "find_char c s = Some n"
  shows "s = take n s @ c # drop (n + 1) s" "c \<notin> set (take n s)"
proof -
  have c: "c \<in> set s" and n: "n = length (takeWhile (\<lambda>x. x \<noteq> c) s)"
    using assms by (auto simp: find_char_def split: if_splits)
  have t: "take n s = takeWhile (\<lambda>x. x \<noteq> c) s"
    by (simp add: n takeWhile_eq_take [symmetric])
  obtain rest where d: "dropWhile (\<lambda>x. x \<noteq> c) s = c # rest"
    using c by (metis (mono_tags, lifting) dropWhile_eq_Nil_conv hd_dropWhile list.exhaust_sel)
  have s: "s = takeWhile (\<lambda>x. x \<noteq> c) s @ c # rest"
    using takeWhile_dropWhile_id[of "\<lambda>x. x \<noteq> c" s] by (simp add: d)
  have "drop (n + 1) s = rest" by (subst s) (simp add: n)
  then show "s = take n s @ c # drop (n + 1) s" using s by (simp add: t)
  show "c \<notin> set (take n s)" unfolding t by (auto dest: set_takeWhileD)
qed

lemma backend_parse_eq_Some_iff:
  "backend_parse s = Some b \<longleftrightarrow>
     s = backend_display b \<and> CHR ''/'' \<notin> set (region_str (b_region b)) \<and>
     region_str (b_region b) \<noteq> [] \<and> instance_str (b_instance b) \<noteq> []"
proof
  assume p: "backend_parse s = Some b"
  then obtain n where n: "find_char (CHR ''/'') s = Some n"
    by (auto simp: backend_parse_def split: option.splits)
  with p have b: "b = BackendId (RegionId (take n s)) (BackendInstanceId (drop (n + 1) s))"
    and ne: "take n s \<noteq> []" "drop (n + 1) s \<noteq> []"
    by (auto simp: backend_parse_def Let_def split: if_splits)
  have "s = backend_display b"
    using find_char_split(1)[OF n] unfolding b by (simp add: backend_display_def)
  then show "s = backend_display b \<and> CHR ''/'' \<notin> set (region_str (b_region b)) \<and>
     region_str (b_region b) \<noteq> [] \<and> instance_str (b_instance b) \<noteq> []"
    using find_char_split(2)[OF n] ne unfolding b by simp
next
  assume r: "s = backend_display b \<and> CHR ''/'' \<notin> set (region_str (b_region b)) \<and>
     region_str (b_region b) \<noteq> [] \<and> instance_str (b_instance b) \<noteq> []"
  then have "find_char (CHR ''/'') s = Some (length (region_str (b_region b)))"
    by (auto simp: backend_display_def find_char_append)
  with r show "backend_parse s = Some b"
    by (cases b; cases "b_region b"; cases "b_instance b")
      (auto simp: backend_parse_def backend_display_def Let_def)
qed

text \<open>Backend identifiers as text: printing a parsed identifier gives the text back, printing then
  parsing gives the identifier back exactly when the region is non-empty and free of slashes and the
  instance is non-empty, and \<open>FromStr\<close> fails on every other text with the text in the error.\<close>

theorem backend_id_text:
  "(backend_from_str s = Inr b \<longrightarrow> backend_display b = s) \<and>
   (backend_from_str (backend_display b) = Inr b \<longleftrightarrow>
      CHR ''/'' \<notin> set (region_str (b_region b)) \<and> region_str (b_region b) \<noteq> [] \<and>
      instance_str (b_instance b) \<noteq> []) \<and>
   ((\<forall>b'. backend_from_str s \<noteq> Inr b') \<longrightarrow> backend_from_str s = Inl (InvalidBackendId s))"
  using backend_parse_eq_Some_iff[of s b] backend_parse_eq_Some_iff[of "backend_display b" b]
  by (auto simp: backend_from_str_def split: option.splits)

theorem backend_id_text_witness:
  "backend_display (BackendId (RegionId ''eu'') (BackendInstanceId ''a/b'')) = ''eu/a/b''"
  using backend_id_text[of "''eu/a/b''" "BackendId (RegionId ''eu'') (BackendInstanceId ''a/b'')"]
  by (simp add: backend_from_str_def backend_parse_def find_char_def)

end
