(* ===== verification/KvEvent.thy ===== *)
theory KvEvent
  imports Ids
begin

text \<open>
  KV cache events and block hashes, \<open>crates/hier-kv-gateway-core/src/kv_event.rs\<close>.
\<close>

section \<open>Events\<close>

datatype kv_cache_event =
    Stored (ev_worker: worker_with_rank) (ev_hashes: "u64 list")
      (ev_parent: "u64 option") (ev_tokens: "u64 list")
  | Removed (ev_worker: worker_with_rank) (ev_hashes: "u64 list")
  | Clear (ev_worker: worker_with_rank)
  | Reset (ev_worker: worker_with_rank) (ev_generation: u64)

section \<open>Block hashes\<close>

record block_hash_input =
  bh_tokens :: "u32 list"
  bh_kv_block_size :: u32
  bh_cache_namespace :: "string option"
  bh_lora_name :: "string option"

definition XXH3_SEED :: u64 where
  "XXH3_SEED = 1337"

definition NS_SALT :: u64 where
  "NS_SALT = 0x4e535f4c4f5f4c4f"

definition LORA_SALT :: u64 where
  "LORA_SALT = 0x4c524f5f4c4f5f4c"

definition str_bytes :: "string \<Rightarrow> u8 list" where
  "str_bytes s = map (\<lambda>c. of_nat (of_char c)) s"

definition mix_name :: "xxh3 \<Rightarrow> u64 \<Rightarrow> string option \<Rightarrow> u64 \<Rightarrow> u64" where
  "mix_name xxh salt name seed =
     (case name of
        None \<Rightarrow> seed
      | Some s \<Rightarrow> if s = [] then seed else (seed + xxh (str_bytes s) salt) XOR salt)"

definition compute_seed :: "xxh3 \<Rightarrow> string option \<Rightarrow> string option \<Rightarrow> u64" where
  "compute_seed xxh ns lora = mix_name xxh LORA_SALT lora (mix_name xxh NS_SALT ns XXH3_SEED)"

definition block_bytes :: "u32 list \<Rightarrow> u8 list" where
  "block_bytes ts = concat (map le_bytes32 ts)"

function hash_windows :: "xxh3 \<Rightarrow> u64 \<Rightarrow> nat \<Rightarrow> u32 list \<Rightarrow> nat \<Rightarrow> u64 list" where
  "hash_windows xxh seed stride tokens start =
     (if 0 < stride \<and> start + stride \<le> length tokens
      then xxh (block_bytes (take stride (drop start tokens))) seed
             # hash_windows xxh seed stride tokens (start + stride)
      else [])"
  by pat_completeness auto
termination
  by (relation "measure (\<lambda>(_, _, stride, tokens, start). Suc (length tokens) - start)") auto

declare hash_windows.simps [simp del]

definition compute_block_hashes :: "xxh3 \<Rightarrow> block_hash_input \<Rightarrow> u64 list" where
  "compute_block_hashes xxh inp =
     (if bh_kv_block_size inp = 0 then []
      else hash_windows xxh (compute_seed xxh (bh_cache_namespace inp) (bh_lora_name inp))
             (unat (bh_kv_block_size inp)) (bh_tokens inp) 0)"

lemma hash_windows_eq_map:
  assumes "0 < stride"
  shows "hash_windows xxh seed stride tokens start =
    map (\<lambda>k. xxh (block_bytes (take stride (drop (start + k * stride) tokens))) seed)
      [0..<(length tokens - start) div stride]"
  using assms
proof (induction xxh seed stride tokens start rule: hash_windows.induct)
  case (1 xxh seed stride tokens start)
  show ?case
  proof (cases "start + stride \<le> length tokens")
    case True
    define n where "n = (length tokens - (start + stride)) div stride"
    have "(length tokens - start) div stride = Suc n"
      using True "1.prems" unfolding n_def by (subst le_div_geq) (auto simp: diff_diff_left)
    moreover have "[0..<Suc n] = 0 # map Suc [0..<n]"
      by (simp add: upt_conv_Cons map_Suc_upt del: upt_Suc)
    ultimately show ?thesis
      using True "1.prems" "1.IH"
      by (simp add: hash_windows.simps[of xxh seed stride tokens start] n_def [symmetric] ac_simps)
  next
    case False
    then have "(length tokens - start) div stride = 0" using "1.prems" by (simp add: div_eq_0_iff)
    with False show ?thesis by (simp add: hash_windows.simps[of xxh seed stride tokens start])
  qed
qed

lemma compute_block_hashes_eq_map:
  "compute_block_hashes xxh inp =
     (let b = unat (bh_kv_block_size inp) in
      map (\<lambda>k. xxh (block_bytes (take b (drop (k * b) (bh_tokens inp))))
                (compute_seed xxh (bh_cache_namespace inp) (bh_lora_name inp)))
        [0..<length (bh_tokens inp) div b])"
  by (auto simp: compute_block_hashes_def hash_windows_eq_map unat_gt_0 Let_def)

section \<open>Properties of the block hashes\<close>

lemma window_of_prefix:
  fixes t :: "u32 list"
  assumes "k < n"
  shows "take b (drop (k * b) t) = take b (drop (k * b) (take (n * b) t))"
proof -
  have "b + k * b \<le> n * b" using mult_le_mono1[of "Suc k" n b] assms by simp
  then show ?thesis by (simp add: drop_take min_absorb1 le_diff_conv2)
qed

text \<open>Block hashes respect prefixes: two requests of the same block size, namespace and adapter
  whose token sequences agree on the first \<open>n\<close> blocks have the same first \<open>n\<close> block hashes, so an
  overlap of hashes measures a shared prefix; and the number of hashes is that of the complete
  blocks.\<close>

theorem block_hashes_prefix:
  assumes "inp' = inp\<lparr>bh_tokens := ts\<rparr>" "b = unat (bh_kv_block_size inp)" "0 < b"
    and "take (n * b) (bh_tokens inp) = take (n * b) ts"
  shows "take n (compute_block_hashes xxh inp) = take n (compute_block_hashes xxh inp') \<and>
    length (compute_block_hashes xxh inp) = length (bh_tokens inp) div b"
proof
  let ?t = "bh_tokens inp" and ?s = "compute_seed xxh (bh_cache_namespace inp) (bh_lora_name inp)"
  let ?H = "\<lambda>t. map (\<lambda>k. xxh (block_bytes (take b (drop (k * b) t))) ?s) [0..<length t div b]"
  have H: "compute_block_hashes xxh inp = ?H ?t" "compute_block_hashes xxh inp' = ?H ts"
    by (simp_all add: compute_block_hashes_eq_map assms(1,2) Let_def)
  show "length (compute_block_hashes xxh inp) = length ?t div b" by (simp add: H)
  have pre: "take n (?H t) =
      map (\<lambda>k. xxh (block_bytes (take b (drop (k * b) (take (n * b) t)))) ?s) [0..<min n (length t div b)]" for t
  proof -
    have "take n (?H t) =
        map (\<lambda>k. xxh (block_bytes (take b (drop (k * b) t))) ?s) [0..<min n (length t div b)]"
      by (cases "n \<le> length t div b") (simp_all add: take_map min_def)
    moreover have "take b (drop (k * b) t) = take b (drop (k * b) (take (n * b) t))"
      if "k \<in> set [0..<min n (length t div b)]" for k
      using window_of_prefix[of k n] that by simp
    ultimately show ?thesis by (simp cong: map_cong)
  qed
  have "min n (length ?t div b) = min n (length ts div b)"
  proof -
    have "min n (length t div b) = length (take (n * b) t) div b" for t :: "u32 list"
    proof (cases "n * b \<le> length t")
      case True
      then have "n \<le> length t div b" using assms(3) by (simp add: less_eq_div_iff_mult_less_eq)
      then show ?thesis using True assms(3) by (simp add: min_def)
    next
      case False
      then have "length t div b < n" using assms(3) by (simp add: div_less_iff_less_mult)
      then show ?thesis using False by (simp add: min_def)
    qed
    then show ?thesis using assms(4) by metis
  qed
  then show "take n (compute_block_hashes xxh inp) = take n (compute_block_hashes xxh inp')"
    using pre[of ?t] pre[of ts] assms(4) by (simp add: H)
qed

definition sample_input :: block_hash_input where
  "sample_input = \<lparr>bh_tokens = [1, 2, 3, 4, 5], bh_kv_block_size = 2,
     bh_cache_namespace = Some ''t'', bh_lora_name = None\<rparr>"

theorem block_hashes_prefix_witness:
  "take 2 (compute_block_hashes (\<lambda>_ s. s) sample_input) =
    take 2 (compute_block_hashes (\<lambda>_ s. s) (sample_input\<lparr>bh_tokens := [1, 2, 3, 4, 9, 9]\<rparr>))"
  using block_hashes_prefix[where inp = sample_input and b = 2 and n = 2 and xxh = "\<lambda>_ s. s",
      OF refl, of "[1, 2, 3, 4, 9, 9]"]
  by (simp add: sample_input_def)

end
