(* ===== verification/PrefixQuery.thy ===== *)
theory PrefixQuery
  imports Prelude
begin

text \<open>
  The contract of an overlap query, shared by the exact radix tree, the local cuckoo lanes and the
  cross-region lanes: the number of leading block hashes of a request that an index holds. A client
  (the KV-aware routing) only relies on the three laws of the locale \<open>prefix_query\<close>; the lemmas of
  the locale are what it may conclude, and each index interprets the locale on its own query.
\<close>

section \<open>The counting loop\<close>

fun overlap_loop :: "(u64 \<Rightarrow> bool) \<Rightarrow> u64 list \<Rightarrow> u32 \<Rightarrow> u32" where
  "overlap_loop hit [] overlap = overlap"
| "overlap_loop hit (h # hs) overlap =
     (if hit h then overlap_loop hit hs (overlap + 1) else overlap)"

lemma unat_Suc_u32: "unat (a :: u32) + 1 < 2 ^ 32 \<Longrightarrow> unat (a + 1) = unat a + 1"
  by (simp add: unat_word_ariths)

lemma overlap_loop_takeWhile:
  "unat overlap + length hs < 2 ^ 32 \<Longrightarrow>
    unat (overlap_loop hit hs overlap) = unat overlap + length (takeWhile hit hs)"
proof (induction hs arbitrary: overlap)
  case Nil
  then show ?case by simp
next
  case (Cons h hs)
  then have "unat (overlap + 1) = unat overlap + 1" by (intro unat_Suc_u32) simp
  with Cons show ?case by simp
qed

section \<open>The contract\<close>

locale prefix_query =
  fixes query :: "u64 list \<Rightarrow> u32" and present :: "u64 list \<Rightarrow> bool"
  assumes query_le: "length hs < 2 ^ 32 \<Longrightarrow> unat (query hs) \<le> length hs"
    and query_present: "length hs < 2 ^ 32 \<Longrightarrow> 0 < k \<Longrightarrow> k \<le> unat (query hs) \<Longrightarrow> present (take k hs)"
    and query_stops: "length hs < 2 ^ 32 \<Longrightarrow> unat (query hs) < length hs \<Longrightarrow>
      \<not> present (take (Suc (unat (query hs))) hs)"
begin

lemma query_ge_iff:
  assumes "length hs < 2 ^ 32" "n \<le> length hs"
  shows "n \<le> unat (query hs) \<longleftrightarrow> (\<forall>k. 0 < k \<and> k \<le> n \<longrightarrow> present (take k hs))"
proof
  assume "n \<le> unat (query hs)"
  then show "\<forall>k. 0 < k \<and> k \<le> n \<longrightarrow> present (take k hs)"
    using query_present[OF assms(1)] by auto
next
  assume P: "\<forall>k. 0 < k \<and> k \<le> n \<longrightarrow> present (take k hs)"
  show "n \<le> unat (query hs)"
  proof (rule ccontr)
    assume "\<not> n \<le> unat (query hs)"
    then have "unat (query hs) < length hs" "Suc (unat (query hs)) \<le> n" using assms(2) by auto
    then show False using query_stops[OF assms(1)] P by blast
  qed
qed

lemma query_full_iff:
  assumes "length hs < 2 ^ 32"
  shows "unat (query hs) = length hs \<longleftrightarrow> (\<forall>k. 0 < k \<and> k \<le> length hs \<longrightarrow> present (take k hs))"
  using query_ge_iff[OF assms order_refl] query_le[OF assms] by (metis order_antisym order_refl)

lemma query_take:
  assumes "length hs < 2 ^ 32"
  shows "unat (query (take n hs)) = min n (unat (query hs))"
proof -
  let ?q = "unat (query hs)" and ?m = "min n (length hs)"
  have len: "length (take n hs) < 2 ^ 32" "length (take n hs) = ?m" using assms by auto
  have iff: "k \<le> unat (query (take n hs)) \<longleftrightarrow> k \<le> min n ?q" if "k \<le> ?m" for k
  proof -
    have "k \<le> unat (query (take n hs)) \<longleftrightarrow> (\<forall>j. 0 < j \<and> j \<le> k \<longrightarrow> present (take j (take n hs)))"
      using query_ge_iff[OF len(1)] that by simp
    also have "\<dots> \<longleftrightarrow> (\<forall>j. 0 < j \<and> j \<le> k \<longrightarrow> present (take j hs))"
    proof -
      have "take j (take n hs) = take j hs" if "j \<le> k" for j
        using that \<open>k \<le> ?m\<close> by (simp add: take_take min_absorb1)
      then show ?thesis by auto
    qed
    also have "\<dots> \<longleftrightarrow> k \<le> ?q" using query_ge_iff[OF assms, of k] that by simp
    finally show ?thesis using that by simp
  qed
  have "unat (query (take n hs)) \<le> ?m" using query_le[OF len(1)] len(2) by simp
  moreover have "min n ?q \<le> ?m" using query_le[OF assms] by auto
  ultimately show ?thesis using iff by (meson order_antisym order_refl)
qed

lemma query_append: "length (xs @ ys) < 2 ^ 32 \<Longrightarrow> unat (query xs) \<le> unat (query (xs @ ys))"
  using query_take[of "xs @ ys" "length xs"] by simp

end

section \<open>Queries that test one hash at a time\<close>

lemma prefix_query_loop:
  "prefix_query (\<lambda>hs. overlap_loop hit hs 0) (\<lambda>p. p \<noteq> [] \<and> hit (last p))"
proof
  fix hs :: "u64 list"
  assume len: "length hs < 2 ^ 32"
  then have q: "unat (overlap_loop hit hs 0) = length (takeWhile hit hs)"
    by (simp add: overlap_loop_takeWhile)
  then show "unat (overlap_loop hit hs 0) \<le> length hs" by (simp add: length_takeWhile_le)
  have last: "last (take (Suc k) hs) = hs ! k" if "k < length hs" for k
    using that by (simp add: take_Suc_conv_app_nth)
  {
    fix k assume k: "0 < k" "k \<le> unat (overlap_loop hit hs 0)"
    then obtain j where j: "k = Suc j" "j < length (takeWhile hit hs)" using q by (cases k) auto
    then have "j < length hs" using length_takeWhile_le[of hit hs] by simp
    moreover have "hit (hs ! j)" using j(2) nth_mem takeWhile_nth[of j hit hs] set_takeWhileD by metis
    ultimately show "take k hs \<noteq> [] \<and> hit (last (take k hs))" using last j by auto
  next
    assume "unat (overlap_loop hit hs 0) < length hs"
    then show "\<not> (take (Suc (unat (overlap_loop hit hs 0))) hs \<noteq> [] \<and>
        hit (last (take (Suc (unat (overlap_loop hit hs 0))) hs)))"
      using q nth_length_takeWhile[of hit hs] last by simp
  }
qed

end
