(* ===== verification/Radix.thy ===== *)
theory Radix
  imports KvEvent PrefixQuery
begin

text \<open>
  The exact index of KV blocks, \<open>crates/hier-kv-gateway-metadata/src/radix_tree.rs\<close>: a tree whose
  non-root nodes are blocks of request prefixes, each with the set of backends that hold it, and the
  background worker that serialises the commands on it.
\<close>

section \<open>Nodes\<close>

type_synonym radix_owner = "backend_id \<times> u32"

datatype node = Node (n_hash: u64) (n_owners: "radix_owner list") (n_children: "(u64 \<times> node) list")
  (n_ref_count: u32)

definition node_new :: "u64 \<Rightarrow> node" where
  "node_new h = Node h [] [] 0"

definition set_children :: "(u64 \<times> node) list \<Rightarrow> node \<Rightarrow> node" where
  "set_children cs n = Node (n_hash n) (n_owners n) cs (n_ref_count n)"

definition node_add_owner :: "radix_owner \<Rightarrow> node \<Rightarrow> node" where
  "node_add_owner ow n =
     (let (inserted, os) = hs_insert ow (n_owners n)
      in if inserted then Node (n_hash n) os (n_children n) (sat_add (n_ref_count n) 1) else n)"

definition node_remove_owner :: "radix_owner \<Rightarrow> node \<Rightarrow> node" where
  "node_remove_owner ow n =
     (let (removed, os) = hs_remove ow (n_owners n)
      in if removed then Node (n_hash n) os (n_children n) (sat_sub (n_ref_count n) 1) else n)"

definition is_owned_by :: "backend_id \<Rightarrow> node \<Rightarrow> bool" where
  "is_owned_by b n \<longleftrightarrow> list_ex (\<lambda>(b', _). b' = b) (n_owners n)"

section \<open>Operations on the tree\<close>

record tree_state =
  t_root :: node
  t_backends :: "backend_id list"

definition tree_default :: tree_state where
  "tree_default = \<lparr>t_root = node_new 0, t_backends = []\<rparr>"

fun store_path :: "radix_owner \<Rightarrow> u64 list \<Rightarrow> node \<Rightarrow> node" where
  "store_path ow [] n = n"
| "store_path ow (h # hs) n =
     (let child = (case map_of (n_children n) h of None \<Rightarrow> node_new h | Some c \<Rightarrow> c)
      in set_children (AList.update h (store_path ow hs (node_add_owner ow child)) (n_children n)) n)"

definition tree_apply_stored :: "backend_id \<Rightarrow> u64 list \<Rightarrow> tree_state \<Rightarrow> tree_state" where
  "tree_apply_stored b hs t = t\<lparr>t_root := store_path (b, 0) hs (t_root t)\<rparr>"

primrec remove_owners_by_hash :: "radix_owner \<Rightarrow> u64 set \<Rightarrow> node \<Rightarrow> bool \<times> node" where
  "remove_owners_by_hash ow H (Node h os cs rc) =
     (let n1 = (if h \<in> H then node_remove_owner ow (Node h os cs rc) else Node h os cs rc);
          rs = map (map_prod id (remove_owners_by_hash ow H)) cs;
          cs' = map (\<lambda>(k, e, c). (k, c)) (filter (\<lambda>(k, e, c). \<not> e) rs)
      in (n_ref_count n1 = 0 \<and> cs' = [], set_children cs' n1))"

definition tree_apply_removed :: "backend_id \<Rightarrow> u64 list \<Rightarrow> tree_state \<Rightarrow> tree_state" where
  "tree_apply_removed b hs t =
     (let rs = map (map_prod id (remove_owners_by_hash (b, 0) (set hs))) (n_children (t_root t));
          cs' = map (\<lambda>(k, e, c). (k, c)) (filter (\<lambda>(k, e, c). \<not> e) rs)
      in t\<lparr>t_root := set_children cs' (t_root t)\<rparr>)"

primrec clear_backend_recursive :: "backend_id \<Rightarrow> node \<Rightarrow> bool \<times> node" where
  "clear_backend_recursive b (Node h os cs rc) =
     (let os' = filter (\<lambda>(b', _). b' \<noteq> b) os;
          removed = length os - length os';
          rc' = sat_sub rc (of_nat removed);
          rs = map (map_prod id (clear_backend_recursive b)) cs;
          cs' = map (\<lambda>(k, e, c). (k, c)) (filter (\<lambda>(k, e, c). \<not> e) rs)
      in (rc' = 0 \<and> cs' = [], Node h os' cs' rc'))"

definition clear_backend :: "backend_id \<Rightarrow> tree_state \<Rightarrow> tree_state" where
  "clear_backend b t =
     t\<lparr>t_backends := snd (hs_remove b (t_backends t)),
       t_root := snd (clear_backend_recursive b (t_root t))\<rparr>"

fun tree_apply_event :: "backend_id \<Rightarrow> kv_cache_event \<Rightarrow> tree_state \<Rightarrow> tree_state" where
  "tree_apply_event b (Stored _ hs _ _) t =
     tree_apply_stored b hs (t\<lparr>t_backends := snd (hs_insert b (t_backends t))\<rparr>)"
| "tree_apply_event b (Removed _ hs) t = tree_apply_removed b hs t"
| "tree_apply_event b (Clear _) t = clear_backend b t"
| "tree_apply_event b (Reset _ _) t = clear_backend b t"

fun find_matches_from :: "backend_id \<Rightarrow> u64 list \<Rightarrow> node \<Rightarrow> u32 \<Rightarrow> u32" where
  "find_matches_from b [] n overlap = overlap"
| "find_matches_from b (h # hs) n overlap =
     (case map_of (n_children n) h of
        None \<Rightarrow> overlap
      | Some child \<Rightarrow>
          if \<not> is_owned_by b child then overlap else find_matches_from b hs child (overlap + 1))"

definition find_matches :: "u64 list \<Rightarrow> backend_id \<Rightarrow> tree_state \<Rightarrow> u32" where
  "find_matches hs b t = find_matches_from b hs (t_root t) 0"

definition bump_score :: "(backend_id \<times> u32) list \<Rightarrow> radix_owner \<Rightarrow> (backend_id \<times> u32) list" where
  "bump_score scores ow =
     AList.update (fst ow) ((case map_of scores (fst ow) of None \<Rightarrow> 0 | Some s \<Rightarrow> s) + 1) scores"

fun find_all_from :: "u64 list \<Rightarrow> node \<Rightarrow> (backend_id \<times> u32) list \<Rightarrow> (backend_id \<times> u32) list" where
  "find_all_from [] n scores = scores"
| "find_all_from (h # hs) n scores =
     (case map_of (n_children n) h of
        None \<Rightarrow> scores
      | Some child \<Rightarrow>
          if n_owners child = [] then scores
          else find_all_from hs child (foldl bump_score scores (n_owners child)))"

definition find_all_matches :: "u64 list \<Rightarrow> tree_state \<Rightarrow> (backend_id \<times> u32) list" where
  "find_all_matches hs t = find_all_from hs (t_root t) []"

definition tree_remove_backend :: "backend_id \<Rightarrow> tree_state \<Rightarrow> tree_state" where
  "tree_remove_backend b t = clear_backend b t"

section \<open>Statistics\<close>

record radix_stats =
  total_nodes :: nat
  total_blocks :: nat
  rs_backends :: nat
  rs_depth :: nat

lemma size_child: "(k, c) \<in> set cs \<Longrightarrow> size c < size (Node h os cs rc)"
  by (induction cs) auto

function stats_recursive :: "node \<Rightarrow> nat \<Rightarrow> nat \<times> nat \<times> nat" where
  "stats_recursive n depth =
     fold (\<lambda>kc (nodes, blocks, d).
         let (n', b', d') = stats_recursive (snd kc) (depth + 1) in (nodes + n', blocks + b', max d d'))
       (n_children n) (1, length (n_owners n), depth)"
  by pat_completeness auto
termination
  by (relation "measure (\<lambda>(n, _). size n)") (auto, metis node.exhaust_sel size_child)

declare stats_recursive.simps [simp del]

definition tree_stats :: "tree_state \<Rightarrow> radix_stats" where
  "tree_stats t =
     (let (nodes, blocks, d) = fold (\<lambda>kc (nodes, blocks, d).
            let (n', b', d') = stats_recursive (snd kc) 1 in (nodes + n', blocks + b', max d d'))
          (n_children (t_root t)) (0, 0, 0)
      in \<lparr>total_nodes = nodes, total_blocks = blocks, rs_backends = length (t_backends t), rs_depth = d\<rparr>)"

section \<open>The worker thread and its handles\<close>

datatype radix_command =
    ApplyEvent backend_id kv_cache_event
  | FindMatches "u64 list" backend_id
  | FindAllMatches "u64 list"
  | RemoveBackend backend_id
  | Stats
  | Shutdown

datatype radix_reply =
    ROk | ROverlap u32 | RScores "(backend_id \<times> u32) list" | RUnit | RStats radix_stats

text \<open>The worker runs until \<open>Shutdown\<close>; then its receiver is dropped and every send fails.\<close>

record radix_worker =
  rw_alive :: bool
  rw_state :: tree_state

fun worker_step :: "radix_command \<Rightarrow> radix_worker \<Rightarrow> radix_reply option \<times> radix_worker" where
  "worker_step (ApplyEvent b ev) w = (Some ROk, w\<lparr>rw_state := tree_apply_event b ev (rw_state w)\<rparr>)"
| "worker_step (FindMatches hs b) w = (Some (ROverlap (find_matches hs b (rw_state w))), w)"
| "worker_step (FindAllMatches hs) w = (Some (RScores (find_all_matches hs (rw_state w))), w)"
| "worker_step (RemoveBackend b) w = (Some RUnit, w\<lparr>rw_state := tree_remove_backend b (rw_state w)\<rparr>)"
| "worker_step Stats w = (Some (RStats (tree_stats (rw_state w))), w)"
| "worker_step Shutdown w = (None, w\<lparr>rw_alive := False\<rparr>)"

definition worker_send :: "radix_command \<Rightarrow> radix_worker \<Rightarrow> radix_reply option \<times> radix_worker" where
  "worker_send cmd w = (if rw_alive w then worker_step cmd w else (None, w))"

definition radix_new :: radix_worker where
  "radix_new = \<lparr>rw_alive = True, rw_state = tree_default\<rparr>"

datatype radix_error = WorkerTerminated

definition radix_apply_event :: "backend_id \<Rightarrow> kv_cache_event \<Rightarrow> radix_worker \<Rightarrow> (radix_error + unit) \<times> radix_worker" where
  "radix_apply_event b ev w =
     (case worker_send (ApplyEvent b ev) w of
        (Some ROk, w') \<Rightarrow> (Inr (), w')
      | (_, w') \<Rightarrow> (Inl WorkerTerminated, w'))"

definition radix_find_matches :: "u64 list \<Rightarrow> backend_id \<Rightarrow> radix_worker \<Rightarrow> u32" where
  "radix_find_matches hs b w =
     (case fst (worker_send (FindMatches hs b) w) of Some (ROverlap n) \<Rightarrow> n | _ \<Rightarrow> 0)"

definition radix_find_all_matches :: "u64 list \<Rightarrow> radix_worker \<Rightarrow> (backend_id \<times> u32) list" where
  "radix_find_all_matches hs w =
     (case fst (worker_send (FindAllMatches hs) w) of Some (RScores m) \<Rightarrow> m | _ \<Rightarrow> [])"

definition radix_remove_backend :: "backend_id \<Rightarrow> radix_worker \<Rightarrow> radix_worker" where
  "radix_remove_backend b w = snd (worker_send (RemoveBackend b) w)"

definition radix_stats_call :: "radix_worker \<Rightarrow> radix_stats" where
  "radix_stats_call w =
     (case fst (worker_send Stats w) of Some (RStats s) \<Rightarrow> s
      | _ \<Rightarrow> \<lparr>total_nodes = 0, total_blocks = 0, rs_backends = 0, rs_depth = 0\<rparr>)"

definition radix_shutdown :: "radix_worker \<Rightarrow> radix_worker" where
  "radix_shutdown w = snd (worker_send Shutdown w)"

text \<open>Dropping any handle, a clone included, sends \<open>Shutdown\<close>.\<close>

definition radix_drop_handle :: "radix_worker \<Rightarrow> radix_worker" where
  "radix_drop_handle w = radix_shutdown w"

end
