(* ===== verification/RadixProof.thy ===== *)
theory RadixProof
  imports Radix "HOL-Library.Sublist"
begin

text \<open>
  What the radix tree promises: its nodes refine an abstract map from request prefixes to the
  backends that hold them, queries are exact on that map, and emptied nodes are reclaimed.
\<close>

section \<open>Owners of a path\<close>

fun own_at :: "node \<Rightarrow> u64 list \<Rightarrow> radix_owner set" where
  "own_at n [] = set (n_owners n)"
| "own_at n (h # p) = (case map_of (n_children n) h of None \<Rightarrow> {} | Some c \<Rightarrow> own_at c p)"

definition live :: "node \<Rightarrow> bool" where
  "live n \<longleftrightarrow> n_owners n \<noteq> [] \<or> n_children n \<noteq> []"

lemma node_simps [simp]:
  "n_hash (set_children cs n) = n_hash n" "n_owners (set_children cs n) = n_owners n"
  "n_children (set_children cs n) = cs" "n_ref_count (set_children cs n) = n_ref_count n"
  "n_hash (node_new h) = h" "n_owners (node_new h) = []" "n_children (node_new h) = []"
  "n_ref_count (node_new h) = 0"
  by (simp_all add: set_children_def node_new_def)

lemma node_owner_simps [simp]:
  "n_hash (node_add_owner ow n) = n_hash n" "n_children (node_add_owner ow n) = n_children n"
  "set (n_owners (node_add_owner ow n)) = insert ow (set (n_owners n))"
  "n_hash (node_remove_owner ow n) = n_hash n" "n_children (node_remove_owner ow n) = n_children n"
  "set (n_owners (node_remove_owner ow n)) = set (n_owners n) - {ow}"
  by (auto simp: node_add_owner_def node_remove_owner_def hs_insert_def hs_remove_def)

lemma own_at_cong_root:
  "n_children m = n_children n \<Longrightarrow> own_at m (h # p) = own_at n (h # p)"
  by simp

lemma own_at_new [simp]: "own_at (node_new h) p = {}"
  by (cases p) simp_all

section \<open>Well-formed trees\<close>

primrec node_ok :: "backend_id set \<Rightarrow> node \<Rightarrow> bool" where
  "node_ok F (Node h os cs rc) \<longleftrightarrow>
     distinct os \<and> set os \<subseteq> F \<times> {0} \<and> rc = of_nat (length os) \<and> keys_distinct cs \<and>
     (\<forall>kc\<in>set cs. fst kc = n_hash (snd kc) \<and> live (snd kc)) \<and>
     (\<forall>kb\<in>set (map (map_prod id (node_ok F)) cs). snd kb)"

lemma node_ok_iff:
  "node_ok F n \<longleftrightarrow> distinct (n_owners n) \<and> set (n_owners n) \<subseteq> F \<times> {0} \<and>
     n_ref_count n = of_nat (length (n_owners n)) \<and> keys_distinct (n_children n) \<and>
     (\<forall>(k, c)\<in>set (n_children n). k = n_hash c \<and> live c \<and> node_ok F c)"
  by (cases n) auto

lemma node_ok_child:
  "node_ok F n \<Longrightarrow> map_of (n_children n) h = Some c \<Longrightarrow> n_hash c = h \<and> live c \<and> node_ok F c"
  by (auto simp: node_ok_iff [of F n] dest!: map_of_SomeD)

lemma node_okD:
  assumes "node_ok F n"
  shows "distinct (n_owners n)" "set (n_owners n) \<subseteq> F \<times> {0}"
    "n_ref_count n = of_nat (length (n_owners n))" "keys_distinct (n_children n)"
    "(k, c) \<in> set (n_children n) \<Longrightarrow> k = n_hash c \<and> live c \<and> node_ok F c"
  using assms by (auto simp: node_ok_iff[of F n])

lemma node_ok_new [simp]: "node_ok F (node_new h)"
  by (simp add: node_ok_iff[of F "node_new h"])

lemma of_nat_of_unat: "unat (x :: u32) = n \<Longrightarrow> x = of_nat n"
  by auto

lemma owners_length:
  assumes "distinct os" "set os \<subseteq> F \<times> {0 :: u32}" "finite F" "card F < 2 ^ 32"
  shows "length os < 2 ^ 32" "unat (of_nat (length os) :: u32) = length os"
proof -
  have "length os = card (set os)" using assms(1) by (simp add: distinct_card)
  also have "\<dots> \<le> card (F \<times> {0 :: u32})" using assms by (intro card_mono) auto
  finally show "length os < 2 ^ 32" using assms(4) by (simp add: card_cartesian_product)
  then show "unat (of_nat (length os) :: u32) = length os" by (simp add: unat_of_nat)
qed

lemma ref_count_zero:
  assumes "node_ok F n" "finite F" "card F < 2 ^ 32"
  shows "n_ref_count n = 0 \<longleftrightarrow> n_owners n = []"
proof -
  have "unat (n_ref_count n) = length (n_owners n)"
    using owners_length(2)[OF node_okD(1,2)[OF assms(1)] assms(2,3)] node_okD(3)[OF assms(1)] by simp
  then show ?thesis by (metis length_0_conv unat_0_iff)
qed

lemma node_ok_add_owner:
  assumes ok: "node_ok F n" and F: "finite F" "card F < 2 ^ 32" and b: "b \<in> F"
  shows "node_ok F (node_add_owner (b, 0) n)"
proof (cases "(b, 0) \<in> set (n_owners n)")
  case True
  then show ?thesis using ok by (simp add: node_add_owner_def hs_insert_def)
next
  case False
  let ?os = "(b, 0) # n_owners n"
  have os: "distinct ?os" "set ?os \<subseteq> F \<times> {0}" using False node_okD(1,2)[OF ok] b by auto
  note len = owners_length[OF os F]
  have "unat (n_ref_count n) = length (n_owners n)"
    using owners_length(2)[OF node_okD(1,2)[OF ok] F] node_okD(3)[OF ok] by simp
  then have "unat (sat_add (n_ref_count n) 1) = length ?os"
    using len(1) by (simp add: unat_sat_add)
  then have "sat_add (n_ref_count n) 1 = of_nat (length ?os)" by (rule of_nat_of_unat)
  then show ?thesis
    using False node_okD[OF ok] os
    by (auto simp: node_add_owner_def hs_insert_def node_ok_iff[of F "Node _ _ _ _"] simp del: node_ok.simps)
qed

lemma node_ok_sub_owners:
  assumes ok: "node_ok F n" and F: "finite F" "card F < 2 ^ 32"
    and os: "distinct os" "set os \<subseteq> set (n_owners n)"
  shows "sat_sub (n_ref_count n) (of_nat (length (n_owners n) - length os)) = of_nat (length os)"
proof -
  have d: "distinct (n_owners n)" "set (n_owners n) \<subseteq> F \<times> {0}"
    and rc: "n_ref_count n = of_nat (length (n_owners n))" using node_okD[OF ok] by simp_all
  have le: "length os \<le> length (n_owners n)"
    using os d(1) by (metis card_mono distinct_card finite_set)
  have bound: "length (n_owners n) < 2 ^ 32" by (rule owners_length(1)[OF d F])
  then have "unat (sat_sub (n_ref_count n) (of_nat (length (n_owners n) - length os))) = length os"
  proof -
    define d where "d = length (n_owners n) - length os"
    have d: "d < 2 ^ 32" "length (n_owners n) - d = length os" using bound le by (simp_all add: d_def)
    have "unat (n_ref_count n) = length (n_owners n)" using bound by (simp add: rc unat_of_nat)
    then show ?thesis using d by (simp add: unat_sat_sub unat_of_nat d_def [symmetric])
  qed
  then show ?thesis by (rule of_nat_of_unat)
qed

section \<open>Storing a path\<close>

lemma own_at_update_child:
  "own_at (set_children (AList.update h c cs) n) (k # p) =
    (if k = h then own_at c p else own_at (set_children cs n) (k # p))"
  by simp

lemma store_path_root [simp]:
  "n_hash (store_path ow hs n) = n_hash n" "n_owners (store_path ow hs n) = n_owners n"
  "n_ref_count (store_path ow hs n) = n_ref_count n"
  by (cases hs; simp add: Let_def)+

lemma own_at_store_path:
  "own_at (store_path ow hs n) p = (if p \<noteq> [] \<and> prefix p hs then insert ow (own_at n p) else own_at n p)"
proof (induction hs arbitrary: n p)
  case Nil
  then show ?case by auto
next
  case (Cons h hs)
  show ?case
  proof (cases p)
    case Nil
    then show ?thesis by (simp add: Let_def)
  next
    case (Cons k q)
    define child where "child = (case map_of (n_children n) h of None \<Rightarrow> node_new h | Some c \<Rightarrow> c)"
    have child: "own_at child q = own_at n (h # q)" for q
      by (simp add: child_def split: option.splits)
    have top: "own_at (node_add_owner ow child) q = (if q = [] then insert ow (own_at child q) else own_at child q)" for q
      by (cases q) simp_all
    have "own_at (store_path ow (h # hs) n) p =
        (if k = h then own_at (store_path ow hs (node_add_owner ow child)) q else own_at n (k # q))"
      by (simp add: Cons child_def [symmetric])
    then show ?thesis
      unfolding Cons.IH top child by (auto simp: Cons)
  qed
qed

lemma node_ok_store_path:
  assumes "node_ok F n" "finite F" "card F < 2 ^ 32" "b \<in> F"
  shows "node_ok F (store_path (b, 0) hs n)"
  using assms(1)
proof (induction hs arbitrary: n)
  case Nil
  then show ?case by simp
next
  case (Cons h hs)
  define child where "child = (case map_of (n_children n) h of None \<Rightarrow> node_new h | Some c \<Rightarrow> c)"
  have ch: "node_ok F child" "n_hash child = h"
    using node_ok_child[OF Cons.prems, of h] by (auto simp: child_def split: option.splits)
  define c' where "c' = store_path (b, 0) hs (node_add_owner (b, 0) child)"
  have c': "node_ok F c'" "n_hash c' = h" "live c'"
  proof -
    show "node_ok F c'" unfolding c'_def by (rule Cons.IH[OF node_ok_add_owner[OF ch(1) assms(2-4)]])
    show "n_hash c' = h" by (simp add: c'_def ch)
    have "(b, 0) \<in> set (n_owners c')" by (simp add: c'_def)
    then show "live c'" by (auto simp: live_def)
  qed
  have eq: "store_path (b, 0) (h # hs) n = set_children (AList.update h c' (n_children n)) n"
    by (simp add: c'_def child_def)
  have mem: "(k, c) \<in> set (AList.update h c' (n_children n)) \<Longrightarrow> (k, c) \<in> set (n_children n) \<or> (k, c) = (h, c')" for k c
    using Cons.prems map_of_in_set_iff[of "AList.update h c' (n_children n)" k c]
      map_of_in_set_iff[of "n_children n" k c]
    by (auto simp: node_ok_iff[of F n] split: if_splits)
  show ?case
    unfolding eq node_ok_iff[of F "set_children _ _"]
    using node_okD[OF Cons.prems] c' mem by fastforce
qed

section \<open>Removing and reclaiming\<close>

abbreviation pruned :: "(node \<Rightarrow> bool \<times> node) \<Rightarrow> (u64 \<times> node) list \<Rightarrow> (u64 \<times> node) list" where
  "pruned f cs \<equiv> map (\<lambda>(k, e, c). (k, c)) (filter (\<lambda>(k, e, c). \<not> e) (map (map_prod id f) cs))"

lemma map_of_pruned:
  assumes "keys_distinct cs"
  shows "map_of (pruned f cs) h =
    (case map_of cs h of None \<Rightarrow> None | Some c \<Rightarrow> if fst (f c) then None else Some (snd (f c)))"
  using assms
proof (induction cs)
  case Nil
  then show ?case by simp
next
  case (Cons kc cs)
  obtain k c where kc: "kc = (k, c)" by (cases kc)
  have "map_of cs k = None" using Cons.prems by (simp add: kc map_of_eq_None_iff)
  then show ?case using Cons by (auto simp: kc case_prod_beta split: option.splits)
qed

lemma keys_distinct_pruned:
  assumes "keys_distinct cs"
  shows "keys_distinct (pruned f cs)"
proof -
  have "map fst (pruned f cs) = map fst (filter (\<lambda>(k, c). \<not> fst (f c)) cs)"
    by (induction cs) (auto simp: case_prod_beta)
  then show ?thesis using assms by (simp add: distinct_map_filter)
qed

lemma set_pruned: "(k, c') \<in> set (pruned f cs) \<longleftrightarrow> (\<exists>c. (k, c) \<in> set cs \<and> \<not> fst (f c) \<and> c' = snd (f c))"
proof -
  have "set (pruned f cs) = {(k, snd (f c)) |k c. (k, c) \<in> set cs \<and> \<not> fst (f c)}"
    by (induction cs) (auto simp: case_prod_beta)
  then show ?thesis by auto
qed

lemma not_live_own: "\<not> live n \<Longrightarrow> own_at n p = {}"
  by (cases p) (auto simp: live_def)

lemma own_at_pruned:
  assumes "keys_distinct cs" "\<forall>(k, c)\<in>set cs. fst (f c) \<longrightarrow> \<not> live (snd (f c))"
  shows "own_at (set_children (pruned f cs) n) (h # p) =
    (case map_of cs h of None \<Rightarrow> {} | Some c \<Rightarrow> own_at (snd (f c)) p)"
  using assms(2) not_live_own
  by (auto simp: map_of_pruned[OF assms(1)] simp del: map_map split: option.splits dest!: map_of_SomeD)

lemma node_ok_pruned:
  assumes ok: "node_ok F m" and cs: "keys_distinct cs"
    and f: "\<forall>(k, c)\<in>set cs. k = n_hash c \<and> n_hash (snd (f c)) = n_hash c \<and> node_ok F (snd (f c)) \<and>
      (fst (f c) \<longleftrightarrow> \<not> live (snd (f c)))"
  shows "node_ok F (set_children (pruned f cs) m)"
  unfolding node_ok_iff[of F "set_children _ _"]
  using node_okD(1-3)[OF ok] keys_distinct_pruned[OF cs, of f] f
  by (fastforce simp: set_pruned simp del: map_map set_map set_filter)

lemma remove_owners_unfold:
  "remove_owners_by_hash ow H n =
    (let n1 = (if n_hash n \<in> H then node_remove_owner ow n else n);
         cs' = pruned (remove_owners_by_hash ow H) (n_children n)
     in (n_ref_count n1 = 0 \<and> cs' = [], set_children cs' n1))"
  by (cases n) (simp add: Let_def)

lemma clear_backend_unfold:
  "clear_backend_recursive b n =
    (let os' = filter (\<lambda>(b', _). b' \<noteq> b) (n_owners n);
         rc' = sat_sub (n_ref_count n) (of_nat (length (n_owners n) - length os'));
         cs' = pruned (clear_backend_recursive b) (n_children n)
     in (rc' = 0 \<and> cs' = [], Node (n_hash n) os' cs' rc'))"
  by (cases n) (simp add: Let_def)

lemma node_ok_remove_owner:
  assumes "node_ok F n" "finite F" "card F < 2 ^ 32"
  shows "node_ok F (node_remove_owner ow n)"
proof (cases "ow \<in> set (n_owners n)")
  case False
  then show ?thesis using assms by (simp add: node_remove_owner_def hs_remove_def)
next
  case True
  let ?os = "removeAll ow (n_owners n)"
  have d: "distinct ?os" "set ?os \<subseteq> set (n_owners n)"
    using node_okD(1)[OF assms(1)] by (auto simp: distinct_removeAll)
  have "length (n_owners n) - length ?os = 1"
    using True node_okD(1)[OF assms(1)] length_hs_remove[of "n_owners n" ow]
    by (cases "n_owners n") (auto simp: hs_remove_def)
  then have "sat_sub (n_ref_count n) 1 = of_nat (length ?os)"
    using node_ok_sub_owners[OF assms d] by simp
  then show ?thesis
    using True node_okD[OF assms(1)] d
    by (auto simp: node_remove_owner_def hs_remove_def node_ok_iff[of F "Node _ _ _ _"] simp del: node_ok.simps)
qed

lemma node_ok_filter_owners:
  assumes "node_ok F n" "finite F" "card F < 2 ^ 32" and os': "os' = filter P (n_owners n)"
  shows "node_ok F (Node (n_hash n) os' (n_children n)
    (sat_sub (n_ref_count n) (of_nat (length (n_owners n) - length os'))))"
proof -
  have d: "distinct os'" "set os' \<subseteq> set (n_owners n)" using node_okD(1)[OF assms(1)] by (auto simp: os')
  then have "set os' \<subseteq> F \<times> {0}" using node_okD(2)[OF assms(1)] by blast
  then show ?thesis
    using node_ok_sub_owners[OF assms(1-3) d] node_okD[OF assms(1)] d
    by (auto simp: node_ok_iff[of F "Node _ _ _ _"] simp del: node_ok.simps)
qed

text \<open>What a reclaiming traversal does to a subtree: owners are filtered by a path-dependent test.\<close>

definition filtered :: "backend_id set \<Rightarrow> (u64 list \<Rightarrow> radix_owner \<Rightarrow> bool) \<Rightarrow> node \<Rightarrow> bool \<times> node \<Rightarrow> bool" where
  "filtered F keep n r \<longleftrightarrow> node_ok F (snd r) \<and> n_hash (snd r) = n_hash n \<and>
     (fst r \<longleftrightarrow> \<not> live (snd r)) \<and> (\<forall>p. own_at (snd r) p = {ow \<in> own_at n p. keep (n_hash n # p) ow})"

lemma filtered_step:
  assumes m: "node_ok F m" "n_hash m = n_hash n" "n_children m = n_children n"
    "set (n_owners m) = {ow \<in> set (n_owners n). keep [n_hash n] ow}"
    and n: "node_ok F n" and F: "finite F" "card F < 2 ^ 32"
    and f: "\<And>k c. (k, c) \<in> set (n_children n) \<Longrightarrow> filtered F keep c (f c)"
    and keep: "\<And>h k p ow. keep (h # k # p) ow = keep (k # p) ow"
  shows "filtered F keep n (n_ref_count m = 0 \<and> pruned f (n_children n) = [],
    set_children (pruned f (n_children n)) m)"
proof -
  let ?r = "set_children (pruned f (n_children n)) m"
  have kd: "keys_distinct (n_children n)" using node_okD(4)[OF n] .
  have ok: "node_ok F ?r"
    by (rule node_ok_pruned[OF m(1) kd]) (use node_okD(5)[OF n] f in \<open>auto simp: filtered_def\<close>)
  have flag: "n_ref_count m = 0 \<and> pruned f (n_children n) = [] \<longleftrightarrow> \<not> live ?r"
    using ref_count_zero[OF m(1) F] by (simp add: live_def)
  have own: "own_at ?r p = {ow \<in> own_at n p. keep (n_hash n # p) ow}" for p
  proof (cases p)
    case Nil
    then show ?thesis using m(4) by simp
  next
    case (Cons h q)
    have "own_at ?r p = (case map_of (n_children n) h of None \<Rightarrow> {} | Some c \<Rightarrow> own_at (snd (f c)) q)"
      unfolding Cons by (rule own_at_pruned[OF kd]) (use f in \<open>auto simp: filtered_def\<close>)
    also have "\<dots> = {ow \<in> own_at n p. keep (n_hash n # p) ow}"
    proof (cases "map_of (n_children n) h")
      case None
      then show ?thesis by (simp add: Cons)
    next
      case (Some c)
      then have "n_hash c = h" "filtered F keep c (f c)"
        using node_ok_child[OF n] f[OF map_of_SomeD] by auto
      with Some show ?thesis by (simp add: Cons keep filtered_def)
    qed
    finally show ?thesis .
  qed
  show ?thesis using ok flag own m(2) by (simp add: filtered_def)
qed

lemma remove_owners_filtered:
  assumes "node_ok F n" "finite F" "card F < 2 ^ 32"
  shows "filtered F (\<lambda>p o'. last p \<in> H \<longrightarrow> o' \<noteq> ow) n (remove_owners_by_hash ow H n)"
  using assms(1)
proof (induction n)
  case (Node h os cs rc)
  let ?n = "Node h os cs rc"
  have "filtered F (\<lambda>p o'. last p \<in> H \<longrightarrow> o' \<noteq> ow) c (remove_owners_by_hash ow H c)"
    if "(k, c) \<in> set cs" for k c
    by (rule Node.IH[OF that]) (use node_okD(5)[OF Node.prems, of k c] that in auto)
  then show ?case
    unfolding remove_owners_unfold[of ow H ?n] Let_def
    by (intro filtered_step) (use node_ok_remove_owner[OF Node.prems assms(2,3)] Node.prems assms in auto)
qed

lemma clear_backend_filtered:
  assumes "node_ok F n" "finite F" "card F < 2 ^ 32"
  shows "filtered F (\<lambda>p o'. fst o' \<noteq> b) n (clear_backend_recursive b n)"
  using assms(1)
proof (induction n)
  case (Node h os cs rc)
  let ?n = "Node h os cs rc" and ?os = "filter (\<lambda>(b', _). b' \<noteq> b) os"
  let ?m = "Node h ?os cs (sat_sub rc (of_nat (length os - length ?os)))"
  have IH: "filtered F (\<lambda>p o'. fst o' \<noteq> b) c (clear_backend_recursive b c)" if "(k, c) \<in> set cs" for k c
    by (rule Node.IH[OF that]) (use node_okD(5)[OF Node.prems, of k c] that in auto)
  have m: "node_ok F ?m" using node_ok_filter_owners[OF Node.prems assms(2,3) refl] by simp
  have eq: "clear_backend_recursive b ?n =
      (n_ref_count ?m = 0 \<and> pruned (clear_backend_recursive b) cs = [],
       set_children (pruned (clear_backend_recursive b) cs) ?m)"
    by (simp add: Let_def set_children_def)
  have "filtered F (\<lambda>p o'. fst o' \<noteq> b) ?n
      (n_ref_count ?m = 0 \<and> pruned (clear_backend_recursive b) (n_children ?n) = [],
       set_children (pruned (clear_backend_recursive b) (n_children ?n)) ?m)"
    by (rule filtered_step[OF m _ _ _ Node.prems assms(2,3)]) (use IH in auto)
  then show ?case by (simp only: eq node.sel)
qed

section \<open>The tree against the abstract index\<close>

definition holders :: "tree_state \<Rightarrow> u64 list \<Rightarrow> backend_id set" where
  "holders t p = fst ` own_at (t_root t) p"

definition tree_ok :: "backend_id set \<Rightarrow> tree_state \<Rightarrow> bool" where
  "tree_ok F t \<longleftrightarrow> node_ok F (t_root t) \<and> n_owners (t_root t) = []"

fun prefix_step :: "kv_cache_event \<Rightarrow> backend_id \<Rightarrow> (u64 list \<Rightarrow> backend_id set) \<Rightarrow> u64 list \<Rightarrow> backend_id set" where
  "prefix_step (Stored _ hs _ _) b O' = (\<lambda>p. if p \<noteq> [] \<and> prefix p hs then insert b (O' p) else O' p)"
| "prefix_step (Removed _ hs) b O' = (\<lambda>p. if p \<noteq> [] \<and> last p \<in> set hs then O' p - {b} else O' p)"
| "prefix_step (Clear _) b O' = (\<lambda>p. O' p - {b})"
| "prefix_step (Reset _ _) b O' = (\<lambda>p. O' p - {b})"

lemma tree_ok_default: "tree_ok F tree_default"
  by (simp add: tree_ok_def tree_default_def)

lemma own_at_ranks:
  assumes "node_ok F n" "(b, r) \<in> own_at n p"
  shows "r = 0 \<and> b \<in> F"
  using assms
proof (induction p arbitrary: n)
  case Nil
  then show ?case using node_okD(2)[OF Nil.prems(1)] by auto
next
  case (Cons h p)
  then show ?case using node_ok_child[OF Cons.prems(1), of h] by (auto split: option.splits)
qed

lemma tree_stored:
  assumes "tree_ok F t" "finite F" "card F < 2 ^ 32" "b \<in> F"
  shows "tree_ok F (tree_apply_stored b hs t)"
    and "holders (tree_apply_stored b hs t) p =
      (if p \<noteq> [] \<and> prefix p hs then insert b (holders t p) else holders t p)"
  using node_ok_store_path[of F "t_root t" b hs] assms
  by (auto simp: tree_ok_def tree_apply_stored_def holders_def own_at_store_path)

lemma tree_cleared:
  assumes "tree_ok F t" "finite F" "card F < 2 ^ 32"
  shows "tree_ok F (clear_backend b t)"
    and "holders (clear_backend b t) p = holders t p - {b}"
proof -
  have fl: "filtered F (\<lambda>p o'. fst o' \<noteq> b) (t_root t) (clear_backend_recursive b (t_root t))"
    using clear_backend_filtered assms by (simp add: tree_ok_def)
  have "n_owners (snd (clear_backend_recursive b (t_root t))) = []"
    using assms(1) by (simp add: clear_backend_unfold tree_ok_def Let_def)
  then show "tree_ok F (clear_backend b t)"
    using fl by (simp add: tree_ok_def clear_backend_def filtered_def)
  show "holders (clear_backend b t) p = holders t p - {b}"
    using fl by (auto simp: holders_def clear_backend_def filtered_def)
qed

lemma tree_removed:
  assumes "tree_ok F t" "finite F" "card F < 2 ^ 32"
  shows "tree_ok F (tree_apply_removed b hs t)"
    and "holders (tree_apply_removed b hs t) p =
      (if p \<noteq> [] \<and> last p \<in> set hs then holders t p - {b} else holders t p)"
proof -
  let ?n = "t_root t" and ?f = "remove_owners_by_hash (b, 0) (set hs)"
  let ?keep = "\<lambda>p o'. last p \<in> set hs \<longrightarrow> o' \<noteq> (b, 0 :: u32)"
  have n: "node_ok F ?n" "n_owners ?n = []" using assms(1) by (simp_all add: tree_ok_def)
  have f: "filtered F ?keep c (?f c)" if "(k, c) \<in> set (n_children ?n)" for k c
    by (rule remove_owners_filtered[OF _ assms(2,3)]) (use node_okD(5)[OF n(1) that] in simp)
  have fl: "filtered F ?keep ?n (n_ref_count ?n = 0 \<and> pruned ?f (n_children ?n) = [],
      set_children (pruned ?f (n_children ?n)) ?n)"
    by (rule filtered_step[OF n(1) _ _ _ n(1) assms(2,3)]) (use f n in auto)
  have eq: "t_root (tree_apply_removed b hs t) = set_children (pruned ?f (n_children ?n)) ?n"
    by (simp add: tree_apply_removed_def Let_def)
  show ok: "tree_ok F (tree_apply_removed b hs t)"
    using fl n(2) by (simp add: tree_ok_def eq filtered_def)
  show "holders (tree_apply_removed b hs t) p =
      (if p \<noteq> [] \<and> last p \<in> set hs then holders t p - {b} else holders t p)"
  proof (cases "p = []")
    case True
    then show ?thesis using ok n(2) by (simp add: holders_def tree_ok_def)
  next
    case False
    then have "own_at (t_root (tree_apply_removed b hs t)) p = {o' \<in> own_at ?n p. ?keep p o'}"
      using fl by (simp add: filtered_def eq)
    then show ?thesis
      using False own_at_ranks[OF n(1)] by (force simp: holders_def image_iff)
  qed
qed

lemma tree_event:
  assumes "tree_ok F t" "finite F" "card F < 2 ^ 32" "b \<in> F"
  shows "tree_ok F (tree_apply_event b ev t)"
    and "holders (tree_apply_event b ev t) = prefix_step ev b (holders t)"
proof -
  have t': "tree_ok F (t\<lparr>t_backends := bs\<rparr>)" "holders (t\<lparr>t_backends := bs\<rparr>) = holders t" for bs
    using assms(1) by (simp_all add: tree_ok_def holders_def [abs_def])
  show "tree_ok F (tree_apply_event b ev t)"
    using tree_stored(1)[OF t'(1) assms(2-4)] tree_removed(1)[OF assms(1-3)] tree_cleared(1)[OF assms(1-3)]
    by (cases ev) simp_all
  show "holders (tree_apply_event b ev t) = prefix_step ev b (holders t)"
    using tree_stored(2)[OF t'(1) assms(2-4)] tree_removed(2)[OF assms(1-3)] tree_cleared(2)[OF assms(1-3)]
    by (cases ev) (simp_all add: fun_eq_iff t'(2))
qed

type_synonym tree_feed = "(kv_cache_event \<times> backend_id) list"

definition tree_run :: "tree_feed \<Rightarrow> tree_state \<Rightarrow> tree_state" where
  "tree_run evs t = fold (\<lambda>(ev, b). tree_apply_event b ev) evs t"

definition prefix_run :: "tree_feed \<Rightarrow> (u64 list \<Rightarrow> backend_id set) \<Rightarrow> u64 list \<Rightarrow> backend_id set" where
  "prefix_run evs O' = fold (\<lambda>(ev, b). prefix_step ev b) evs O'"

lemma tree_run_refines:
  assumes "tree_ok F t" "finite F" "card F < 2 ^ 32" "snd ` set evs \<subseteq> F"
  shows "tree_ok F (tree_run evs t) \<and> holders (tree_run evs t) = prefix_run evs (holders t)"
  using assms
proof (induction evs arbitrary: t)
  case Nil
  then show ?case by (simp add: tree_run_def prefix_run_def)
next
  case (Cons e evs)
  obtain ev b where e: "e = (ev, b)" by (cases e)
  have b: "b \<in> F" "snd ` set evs \<subseteq> F" using Cons.prems(4) by (auto simp: e)
  show ?case
    using Cons.IH[OF tree_event(1)[OF Cons.prems(1-3) b(1)] Cons.prems(2,3) b(2)]
      tree_event(2)[OF Cons.prems(1-3) b(1)]
    by (simp add: e tree_run_def prefix_run_def)
qed

lemma holders_default: "holders tree_default = (\<lambda>_. {})"
  by (simp add: fun_eq_iff holders_def tree_default_def)

section \<open>Queries\<close>

lemma is_owned_by_iff: "is_owned_by b n \<longleftrightarrow> b \<in> fst ` set (n_owners n)"
  by (force simp: is_owned_by_def list_ex_iff)

lemma find_matches_from_spec:
  assumes "unat overlap + length hs < 2 ^ 32"
  obtains k where "unat (find_matches_from b hs n overlap) = unat overlap + k" "k \<le> length hs"
    "\<And>j. 0 < j \<Longrightarrow> j \<le> k \<Longrightarrow> b \<in> fst ` own_at n (take j hs)"
    "k < length hs \<Longrightarrow> b \<notin> fst ` own_at n (take (Suc k) hs)"
  using assms
proof (induction hs arbitrary: n overlap thesis)
  case Nil
  show ?case by (rule Nil.prems(1)[of 0]) simp_all
next
  case (Cons h hs)
  show ?case
  proof (cases "\<exists>c. map_of (n_children n) h = Some c \<and> is_owned_by b c")
    case False
    then have "find_matches_from b (h # hs) n overlap = overlap" by (auto split: option.splits)
    then show ?thesis
      using False Cons.prems(1)[of 0] by (auto simp: is_owned_by_iff split: option.splits)
  next
    case True
    then obtain c where c: "map_of (n_children n) h = Some c" "is_owned_by b c" by blast
    have u: "unat (overlap + 1) = unat overlap + 1" using Cons.prems(2) by (intro unat_Suc_u32) simp
    then have "unat (overlap + 1) + length hs < 2 ^ 32" using Cons.prems(2) by simp
    then obtain k where k: "unat (find_matches_from b hs c (overlap + 1)) = unat (overlap + 1) + k"
      "k \<le> length hs" "\<And>j. 0 < j \<Longrightarrow> j \<le> k \<Longrightarrow> b \<in> fst ` own_at c (take j hs)"
      "k < length hs \<Longrightarrow> b \<notin> fst ` own_at c (take (Suc k) hs)"
      using Cons.IH by blast
    show ?thesis
    proof (rule Cons.prems(1)[of "Suc k"])
      show "unat (find_matches_from b (h # hs) n overlap) = unat overlap + Suc k" using c k u by simp
      show "Suc k \<le> length (h # hs)" using k by simp
      fix j :: nat assume j: "0 < j" "j \<le> Suc k"
      show "b \<in> fst ` own_at n (take j (h # hs))"
      proof (cases "j = 1")
        case True
        then show ?thesis using c by (simp add: is_owned_by_iff)
      next
        case False
        then show ?thesis using c j k(3)[of "j - 1"] by (simp add: take_Cons')
      qed
    next
      assume "Suc k < length (h # hs)"
      then show "b \<notin> fst ` own_at n (take (Suc (Suc k)) (h # hs))" using c k(4) by simp
    qed
  qed
qed

interpretation tree_query: prefix_query "\<lambda>hs. find_matches hs b t" "\<lambda>p. b \<in> holders t p" for b t
proof
  fix hs :: "u64 list"
  assume "length hs < 2 ^ 32"
  then obtain k where k: "unat (find_matches hs b t) = k" "k \<le> length hs"
    "\<And>j. 0 < j \<Longrightarrow> j \<le> k \<Longrightarrow> b \<in> holders t (take j hs)"
    "k < length hs \<Longrightarrow> b \<notin> holders t (take (Suc k) hs)"
    using find_matches_from_spec[of 0 hs b "t_root t"] by (auto simp: find_matches_def holders_def)
  show "unat (find_matches hs b t) \<le> length hs" using k by simp
  show "\<And>j. 0 < j \<Longrightarrow> j \<le> unat (find_matches hs b t) \<Longrightarrow> b \<in> holders t (take j hs)" using k by simp
  show "unat (find_matches hs b t) < length hs \<Longrightarrow> b \<notin> holders t (take (Suc (unat (find_matches hs b t))) hs)"
    using k by simp
qed

section \<open>The batched query\<close>

definition score_of :: "(backend_id \<times> u32) list \<Rightarrow> backend_id \<Rightarrow> u32" where
  "score_of m b = (case map_of m b of None \<Rightarrow> 0 | Some s \<Rightarrow> s)"

lemma score_of_bumps:
  assumes "distinct (map fst os)"
  shows "score_of (foldl bump_score m os) b = score_of m b + (if b \<in> fst ` set os then 1 else 0)"
  using assms
proof (induction os arbitrary: m)
  case Nil
  then show ?case by simp
next
  case (Cons ow os)
  have "score_of (bump_score m ow) b = score_of m b + (if b = fst ow then 1 else 0)"
    by (simp add: score_of_def bump_score_def)
  then show ?case using Cons by auto
qed

lemma owners_distinct_backends: "node_ok F n \<Longrightarrow> distinct (map fst (n_owners n))"
proof -
  assume "node_ok F n"
  then have "distinct (n_owners n)" "set (n_owners n) \<subseteq> F \<times> {0}" by (rule node_okD)+
  then show ?thesis by (auto simp: distinct_map inj_on_def)
qed

lemma find_all_absent:
  assumes "node_ok F n" "\<And>k. 0 < k \<Longrightarrow> k \<le> length hs \<Longrightarrow> b \<notin> fst ` own_at n (take k hs)"
  shows "score_of (find_all_from hs n m) b = score_of m b"
  using assms
proof (induction hs arbitrary: n m)
  case Nil
  then show ?case by simp
next
  case (Cons h hs)
  show ?case
  proof (cases "map_of (n_children n) h")
    case None
    then show ?thesis by simp
  next
    case (Some c)
    have c: "node_ok F c" using node_ok_child[OF Cons.prems(1) Some] by simp
    have sub: "b \<notin> fst ` own_at c (take k hs)" if "k \<le> length hs" for k
      using Cons.prems(2)[of "Suc k"] that Some by simp
    have "b \<notin> fst ` set (n_owners c)" using sub[of 0] by simp
    then have "score_of (foldl bump_score m (n_owners c)) b = score_of m b"
      by (simp add: score_of_bumps[OF owners_distinct_backends[OF c]])
    then show ?thesis using Some Cons.IH[OF c sub] by simp
  qed
qed

lemma find_all_closed:
  assumes "node_ok F n"
    "\<And>j k. 0 < j \<Longrightarrow> j \<le> k \<Longrightarrow> k \<le> length hs \<Longrightarrow> b \<in> fst ` own_at n (take k hs) \<Longrightarrow> b \<in> fst ` own_at n (take j hs)"
  shows "score_of (find_all_from hs n m) b = find_matches_from b hs n (score_of m b)"
  using assms
proof (induction hs arbitrary: n m)
  case Nil
  then show ?case by simp
next
  case (Cons h hs)
  show ?case
  proof (cases "map_of (n_children n) h")
    case None
    then show ?thesis by simp
  next
    case (Some c)
    have c: "node_ok F c" using node_ok_child[OF Cons.prems(1) Some] by simp
    have closed: "b \<in> fst ` own_at c (take j hs)"
      if "j \<le> k" "k \<le> length hs" "b \<in> fst ` own_at c (take k hs)" for j k
      using Cons.prems(2)[of "Suc j" "Suc k"] that Some by simp
    show ?thesis
    proof (cases "is_owned_by b c")
      case True
      then have "n_owners c \<noteq> []" by (auto simp: is_owned_by_def)
      moreover have "score_of (foldl bump_score m (n_owners c)) b = score_of m b + 1"
        using True by (simp add: score_of_bumps[OF owners_distinct_backends[OF c]] is_owned_by_iff)
      ultimately show ?thesis
        using Some True Cons.IH[OF c closed, where m = "foldl bump_score m (n_owners c)"] by simp
    next
      case False
      then have "b \<notin> fst ` own_at c (take 0 hs)" by (simp add: is_owned_by_iff)
      then have "b \<notin> fst ` own_at n (take k (h # hs))" if "0 < k" "k \<le> length (h # hs)" for k
        using closed[of 0 "k - 1"] that Some by (cases k) auto
      then have "score_of (find_all_from (h # hs) n m) b = score_of m b"
        by (intro find_all_absent[OF Cons.prems(1)])
      then show ?thesis using Some False by simp
    qed
  qed
qed

lemma live_owned:
  assumes "node_ok F n" "live n"
  shows "\<exists>p. own_at n p \<noteq> {}"
  using assms
proof (induction n)
  case (Node h os cs rc)
  show ?case
  proof (cases "os = []")
    case False
    then show ?thesis by (intro exI[of _ "[]"]) simp
  next
    case True
    then obtain k c where kc: "(k, c) \<in> set cs" using Node.prems(2) by (cases cs) (auto simp: live_def)
    then have c: "live c" "node_ok F c" "map_of cs k = Some c"
      using node_okD(4,5)[OF Node.prems(1)] map_of_in_set_iff[of cs k c] by auto
    then obtain p where "own_at c p \<noteq> {}" using Node.IH[OF kc] by auto
    then show ?thesis using c(3) by (intro exI[of _ "k # p"]) simp
  qed
qed

section \<open>Properties of the radix tree\<close>

text \<open>C5. The tree is an exact prefix index: after any feed of events of a fleet of fewer than 2^32
  backends, \<open>find_matches\<close> answers at least \<open>n\<close> exactly when the backend holds each of the first
  \<open>n\<close> prefixes of the request in the abstract index, where \<open>Stored\<close> adds the backend to every prefix
  of its path, \<open>Removed\<close> drops it from every prefix that ends in a removed block, and \<open>Clear\<close> and
  \<open>Reset\<close> drop it everywhere.\<close>

theorem radix_find_matches_exact:
  assumes "finite fleet" "card fleet < 2 ^ 32" "snd ` set evs \<subseteq> fleet"
    and "length hs < 2 ^ 32" "n \<le> length hs"
  shows "n \<le> unat (find_matches hs b (tree_run evs tree_default)) \<longleftrightarrow>
    (\<forall>k. 0 < k \<and> k \<le> n \<longrightarrow> b \<in> prefix_run evs (\<lambda>_. {}) (take k hs))"
  using tree_query.query_ge_iff[OF assms(4,5), of b "tree_run evs tree_default"]
    tree_run_refines[OF tree_ok_default assms(1-3)]
  by (simp add: holders_default)

abbreviation rw :: worker_with_rank where
  "rw \<equiv> \<lparr>worker_id = 1, dp_rank = 0\<rparr>"

abbreviation ra :: backend_id where
  "ra \<equiv> BackendId (RegionId ''eu'') (BackendInstanceId ''a'')"

abbreviation rb :: backend_id where
  "rb \<equiv> BackendId (RegionId ''eu'') (BackendInstanceId ''b'')"

theorem radix_find_matches_exact_witness:
  "2 \<le> unat (find_matches [1, 2, 3] ra (tree_run [(Stored rw [1, 2] None [], ra)] tree_default))"
proof -
  have "\<forall>k. 0 < k \<and> k \<le> 2 \<longrightarrow> ra \<in> prefix_run [(Stored rw [1, 2] None [], ra)] (\<lambda>_. {}) (take k [1, 2, 3])"
    by (auto simp: prefix_run_def take_Cons' le_Suc_eq numeral_2_eq_2)
  then show ?thesis
    by (subst radix_find_matches_exact[of "{ra}"]) simp_all
qed

text \<open>No leaks: when the events leave no backend holding any prefix, every node has been reclaimed
  and the tree is the empty root again.\<close>

theorem radix_reclaims:
  assumes "finite fleet" "card fleet < 2 ^ 32" "snd ` set evs \<subseteq> fleet"
    and "\<forall>p. prefix_run evs (\<lambda>_. {}) p = {}"
  shows "n_children (t_root (tree_run evs tree_default)) = []"
proof (rule ccontr)
  let ?t = "tree_run evs tree_default"
  assume "n_children (t_root ?t) \<noteq> []"
  then have "live (t_root ?t)" by (simp add: live_def)
  moreover have ok: "tree_ok fleet ?t" "holders ?t = prefix_run evs (\<lambda>_. {})"
    using tree_run_refines[OF tree_ok_default assms(1-3)] by (simp_all add: holders_default)
  ultimately obtain p where "own_at (t_root ?t) p \<noteq> {}" using live_owned unfolding tree_ok_def by blast
  then have "holders ?t p \<noteq> {}" by (simp add: holders_def)
  then show False using ok(2) assms(4) by simp
qed

theorem radix_reclaims_witness:
  "n_children (t_root (tree_run [(Stored rw [1, 2] None [], ra), (Stored rw [1] None [], rb),
     (Removed rw [1, 2], ra), (Clear rw, rb)] tree_default)) = []"
  by (rule radix_reclaims[of "{ra, rb}"]) (auto simp: prefix_run_def prefix_Cons)

text \<open>The batched query agrees with the single one for a backend that holds every prefix of each
  prefix of the request it holds.\<close>

theorem radix_find_all_agrees:
  assumes "finite fleet" "card fleet < 2 ^ 32" "snd ` set evs \<subseteq> fleet"
    and "\<forall>j k. 0 < j \<and> j \<le> k \<and> k \<le> length hs \<and> b \<in> prefix_run evs (\<lambda>_. {}) (take k hs) \<longrightarrow>
      b \<in> prefix_run evs (\<lambda>_. {}) (take j hs)"
  shows "score_of (find_all_matches hs (tree_run evs tree_default)) b =
    find_matches hs b (tree_run evs tree_default)"
proof -
  let ?t = "tree_run evs tree_default"
  have ok: "tree_ok fleet ?t" "holders ?t = prefix_run evs (\<lambda>_. {})"
    using tree_run_refines[OF tree_ok_default assms(1-3)] by (simp_all add: holders_default)
  have "score_of (find_all_from hs (t_root ?t) []) b = find_matches_from b hs (t_root ?t) (score_of [] b)"
  proof (rule find_all_closed)
    show "node_ok fleet (t_root ?t)" using ok(1) by (simp add: tree_ok_def)
    fix j k :: nat
    assume "0 < j" "j \<le> k" "k \<le> length hs" "b \<in> fst ` own_at (t_root ?t) (take k hs)"
    then show "b \<in> fst ` own_at (t_root ?t) (take j hs)"
      using assms(4) by (fold holders_def) (auto simp: ok(2))
  qed
  then show ?thesis by (simp add: find_all_matches_def find_matches_def score_of_def)
qed

theorem radix_find_all_agrees_witness:
  "score_of (find_all_matches [1, 2] (tree_run [(Stored rw [1, 2] None [], ra)] tree_default)) ra =
    find_matches [1, 2] ra (tree_run [(Stored rw [1, 2] None [], ra)] tree_default)"
  by (rule radix_find_all_agrees[of "{ra}"]) (auto simp: prefix_run_def intro: take_is_prefix)

text \<open>Without that condition the batched query over-counts: it keeps adding a backend's later
  blocks after a block the backend does not hold, as long as some other backend holds the missing
  one, while the single query stops there.\<close>

definition gap_feed :: tree_feed where
  "gap_feed = [(Stored rw [1, 2] None [], ra), (Stored rw [1, 2] None [], rb), (Removed rw [1], ra)]"

theorem radix_find_all_overcounts:
  "score_of (find_all_matches [1, 2] (tree_run gap_feed tree_default)) ra = 1 \<and>
   find_matches [1, 2] ra (tree_run gap_feed tree_default) = 0"
  by (simp add: gap_feed_def tree_run_def tree_default_def tree_apply_stored_def tree_apply_removed_def
      node_new_def node_add_owner_def node_remove_owner_def hs_insert_def hs_remove_def set_children_def
      find_all_matches_def find_matches_def bump_score_def score_of_def is_owned_by_def sat_add_def
      sat_sub_def Let_def)

text \<open>Handles: while the worker is alive every call is served from the tree; once any handle (a
  clone too) has been dropped, the worker has stopped, so later events fail with an internal error
  and leave the tree alone, and every overlap query answers zero.\<close>

theorem radix_handle_calls:
  "(rw_alive w \<longrightarrow>
      radix_apply_event b ev w = (Inr (), w\<lparr>rw_state := tree_apply_event b ev (rw_state w)\<rparr>) \<and>
      radix_find_matches hs b w = find_matches hs b (rw_state w)) \<and>
   radix_apply_event b ev (radix_drop_handle w) = (Inl WorkerTerminated, radix_drop_handle w) \<and>
   radix_find_matches hs b (radix_drop_handle w) = 0 \<and>
   radix_find_all_matches hs (radix_drop_handle w) = [] \<and>
   rw_state (radix_drop_handle w) = rw_state w"
  by (cases "rw_alive w")
    (simp_all add: radix_apply_event_def radix_find_matches_def radix_find_all_matches_def
      radix_drop_handle_def radix_shutdown_def worker_send_def)

theorem radix_handle_calls_witness:
  "radix_apply_event ra (Stored rw [1] None []) radix_new =
     (Inr (), radix_new\<lparr>rw_state := tree_apply_event ra (Stored rw [1] None []) tree_default\<rparr>)"
  using radix_handle_calls[of radix_new ra "Stored rw [1] None []" "[1]"] by (simp add: radix_new_def)

end
