(* ===== verification/Cuckoo.thy ===== *)
theory Cuckoo
  imports Prelude "HOL-Library.Multiset"
begin

text \<open>
  The stateless cuckoo-filter primitives of
  \<open>crates/hier-kv-gateway-metadata/src/cuckoo_filter.rs\<close>: addressing (\<open>probe\<close>,
  \<open>alt_index\<close>), the four 16-bit slots of a packed 64-bit bucket, the bit-parallel membership
  test, and the snapshot and delta structures.
\<close>

section \<open>Constants\<close>

definition FINGERPRINT_BITS :: nat where
  "FINGERPRINT_BITS = 16"

definition FP_PER_BUCKET :: nat where
  "FP_PER_BUCKET = 4"

definition MAX_KICKS :: nat where
  "MAX_KICKS = 500"

definition BUCKETS_PER_LANE :: nat where
  "BUCKETS_PER_LANE = 65536"

definition BUCKET_MASK :: u64 where
  "BUCKET_MASK = of_nat BUCKETS_PER_LANE - 1"

type_synonym fp = u16
type_synonym packed = u64

definition ALT_MIX_DOMAIN :: u64 where
  "ALT_MIX_DOMAIN = 0x9E3779B97F4A7C15"

section \<open>Addressing\<close>

definition alt_index :: "xxh3 \<Rightarrow> u64 \<Rightarrow> fp \<Rightarrow> u64" where
  "alt_index xxh idx f =
     (let mixed = xxh (le_bytes16 f) ALT_MIX_DOMAIN;
          delta = mixed AND BUCKET_MASK;
          delta' = (if delta = 0 then 1 else delta)
      in (idx XOR delta') AND BUCKET_MASK)"

definition probe :: "xxh3 \<Rightarrow> u64 \<Rightarrow> fp \<times> u64" where
  "probe xxh hash =
     (let mixed = xxh (le_bytes64 hash) 0;
          f = (ucast mixed :: u16) OR 1;
          bucket = drop_bit 16 mixed AND BUCKET_MASK
      in (f, bucket))"

section \<open>Slots of a packed bucket\<close>

definition slot :: "packed \<Rightarrow> nat \<Rightarrow> fp" where
  "slot b i = ucast (drop_bit (i * FINGERPRINT_BITS) b)"

definition with_slot :: "packed \<Rightarrow> nat \<Rightarrow> fp \<Rightarrow> packed" where
  "with_slot b i f =
     (let shift = i * FINGERPRINT_BITS;
          msk = push_bit shift (ucast (- 1 :: u16) :: u64)
      in (b AND NOT msk) OR push_bit shift (ucast f :: u64))"

definition bucket_contains :: "packed \<Rightarrow> fp \<Rightarrow> bool" where
  "bucket_contains b f =
     (let repeated = (ucast f :: u64) * 0x0001000100010001;
          different = b XOR repeated;
          high_bits = 0x8000800080008000
      in (different - 0x0001000100010001) AND NOT different AND high_bits \<noteq> 0)"

definition first_match :: "packed \<Rightarrow> fp \<Rightarrow> nat option" where
  "first_match b f = List.find (\<lambda>i. slot b i = f) [0..<FP_PER_BUCKET]"

definition first_empty :: "packed \<Rightarrow> nat option" where
  "first_empty b = List.find (\<lambda>i. slot b i = 0) [0..<FP_PER_BUCKET]"

definition try_insert :: "packed \<Rightarrow> fp \<Rightarrow> bool \<times> packed" where
  "try_insert b f =
     (case first_empty b of Some i \<Rightarrow> (True, with_slot b i f) | None \<Rightarrow> (False, b))"

definition try_delete :: "packed \<Rightarrow> fp \<Rightarrow> bool \<times> packed" where
  "try_delete b f =
     (case first_match b f of Some i \<Rightarrow> (True, with_slot b i 0) | None \<Rightarrow> (False, b))"

section \<open>Snapshot and delta\<close>

record ckf_snapshot =
  snap_sequence :: u64
  snap_buckets :: "packed list"

record ckf_delta =
  delta_sequence :: u64
  delta_prev_sequence :: u64
  delta_buckets :: "(u64 \<times> packed) list"

section \<open>Bits and slots\<close>

lemmas ckf_consts = FINGERPRINT_BITS_def FP_PER_BUCKET_def BUCKETS_PER_LANE_def

lemma BUCKET_MASK_eq: "BUCKET_MASK = mask 16"
  by (simp add: BUCKET_MASK_def BUCKETS_PER_LANE_def mask_eq_exp_minus_1)

lemma bit_slot: "bit (slot b i) n \<longleftrightarrow> n < 16 \<and> bit b (16 * i + n)"
  by (auto simp: slot_def FINGERPRINT_BITS_def bit_simps ac_simps)

lemma bit_with_slot:
  "i < 4 \<Longrightarrow> bit (with_slot b i f) n \<longleftrightarrow>
     n < 64 \<and> (if 16 * i \<le> n \<and> n < 16 * i + 16 then bit f (n - 16 * i) else bit b n)"
  by (auto simp: with_slot_def FINGERPRINT_BITS_def Let_def bit_simps mult.commute dest: bit_imp_le_length)

lemma slot_with_slot:
  assumes "i < FP_PER_BUCKET" "j < FP_PER_BUCKET"
  shows "slot (with_slot b i f) j = (if i = j then f else slot b j)"
proof (rule bit_word_eqI)
  fix n :: nat assume n: "n < LENGTH(16)"
  have "i = j \<or> i < j \<or> j < i" by auto
  with assms n show "bit (slot (with_slot b i f) j) n = bit (if i = j then f else slot b j) n"
    by (auto simp: bit_slot bit_with_slot FP_PER_BUCKET_def)
qed

lemma with_slot_slot: "i < FP_PER_BUCKET \<Longrightarrow> with_slot b i (slot b i) = b"
  by (rule bit_word_eqI) (auto simp: bit_slot bit_with_slot FP_PER_BUCKET_def)

lemma packed_eqI:
  assumes "\<And>i. i < FP_PER_BUCKET \<Longrightarrow> slot b i = slot c i"
  shows "b = c"
proof (rule bit_word_eqI)
  fix n :: nat assume n: "n < LENGTH(64)"
  then have "n div 16 < FP_PER_BUCKET" by (simp add: FP_PER_BUCKET_def)
  then have "slot b (n div 16) = slot c (n div 16)" by (rule assms)
  then have "bit (slot b (n div 16)) (n mod 16) = bit (slot c (n div 16)) (n mod 16)" by simp
  then show "bit b n = bit c n" by (simp add: bit_slot)
qed

lemma slot_xor: "slot (b XOR c) i = slot b i XOR slot c i"
  by (rule bit_word_eqI) (auto simp: bit_slot bit_simps dest: bit_imp_le_length)

lemma uint_slot: "uint (slot b i) = uint b div 2 ^ (16 * i) mod 65536"
proof -
  have "uint (slot b i) = take_bit 16 (drop_bit (16 * i) (uint b))"
    by (rule bit_eqI) (auto simp: bit_slot bit_simps)
  then show ?thesis by (simp add: take_bit_eq_mod drop_bit_eq_div)
qed

lemma slot_of_int: "i < FP_PER_BUCKET \<Longrightarrow> slot (word_of_int x) i = word_of_int (x div 2 ^ (16 * i))"
proof (rule bit_word_eqI)
  fix n :: nat assume i: "i < FP_PER_BUCKET" and n: "n < LENGTH(16)"
  have "bit (x div 2 ^ (16 * i)) n \<longleftrightarrow> bit x (16 * i + n)"
    by (simp only: drop_bit_eq_div [symmetric] bit_drop_bit_eq o_def)
  with i n show "bit (slot (word_of_int x) i) n = bit (word_of_int (x div 2 ^ (16 * i)) :: u16) n"
    by (simp add: bit_slot bit_word_of_int_iff FP_PER_BUCKET_def)
qed

lemma div_diff_no_borrow:
  fixes x y k :: int
  assumes "0 < k" "y mod k \<le> x mod k"
  shows "(x - y) div k = x div k - y div k"
proof -
  have e: "x - y = (x mod k - y mod k) + k * (x div k - y div k)"
    using mult_div_mod_eq[of k x] mult_div_mod_eq[of k y]
    unfolding right_diff_distrib by linarith
  have "(x mod k - y mod k) div k = 0"
    using assms pos_mod_bound[of k x] pos_mod_sign[of k y]
    by (intro div_pos_pos_trivial) linarith+
  with assms(1) show ?thesis unfolding e by simp
qed

lemma mod_limb: "(x::int) mod 2 ^ (16 * Suc i) = 2 ^ (16 * i) * (x div 2 ^ (16 * i) mod 65536) + x mod 2 ^ (16 * i)"
proof -
  have e: "(2::int) ^ (16 * Suc i) = 2 ^ (16 * i) * 65536"
    by (simp add: power_add)
  show ?thesis unfolding e by (rule zmod_zmult2_eq) simp
qed

lemma lt4: "i < FP_PER_BUCKET \<longleftrightarrow> i = 0 \<or> i = 1 \<or> i = 2 \<or> i = 3"
  by (auto simp: FP_PER_BUCKET_def)

lemma limb_shift:
  assumes "0 \<le> a" "a < (65536::int)"
  shows "(a + 65536 * b) div 65536 = b" "(a + 65536 * b) mod 65536 = a"
  using assms by (simp_all add: div_mult_self2 [of 65536 a b])

lemma low_limbs_ge:
  assumes "i \<le> FP_PER_BUCKET" "\<forall>j<i. slot d j \<noteq> 0"
  shows "0x0001000100010001 mod 2 ^ (16 * i) \<le> uint d mod 2 ^ (16 * i)"
  using assms
proof (induction i)
  case 0
  then show ?case by simp
next
  case (Suc i)
  have i: "i < FP_PER_BUCKET" using Suc.prems(1) by simp
  have "slot d i \<noteq> 0" using Suc.prems(2) by simp
  then have "1 \<le> uint (slot d i)"
    using uint_0_iff[of "slot d i"] unsigned_greater_eq[of "slot d i", where ?'a = int] by linarith
  then have one: "1 \<le> uint d div 2 ^ (16 * i) mod 65536" by (simp add: uint_slot)
  have m: "(0x0001000100010001::int) div 2 ^ (16 * i) mod 65536 = 1"
    using i unfolding lt4 by (elim disjE) simp_all
  have ih: "0x0001000100010001 mod 2 ^ (16 * i) \<le> uint d mod 2 ^ (16 * i)"
    using Suc by simp
  have "(2::int) ^ (16 * i) * 1 \<le> 2 ^ (16 * i) * (uint d div 2 ^ (16 * i) mod 65536)"
    using one by (intro mult_left_mono) simp_all
  with ih show ?case unfolding mod_limb m by linarith
qed

lemma slot_minus_ones:
  assumes "i < FP_PER_BUCKET" "\<forall>j<i. slot d j \<noteq> 0"
  shows "slot (d - 0x0001000100010001) i = slot d i - 1"
proof -
  have d: "d - 0x0001000100010001 = word_of_int (uint d - 0x0001000100010001)"
    by (metis wi_hom_sub word_of_int_numeral word_of_int_uint)
  have "(uint d - 0x0001000100010001) div 2 ^ (16 * i) =
      uint d div 2 ^ (16 * i) - 0x0001000100010001 div 2 ^ (16 * i)"
    using assms by (intro div_diff_no_borrow low_limbs_ge) simp_all
  then have "slot (d - 0x0001000100010001) i =
      word_of_int (uint d div 2 ^ (16 * i)) - word_of_int (0x0001000100010001 div 2 ^ (16 * i))"
    unfolding d slot_of_int[OF assms(1)] by (simp only: wi_hom_sub)
  moreover have "(word_of_int (0x0001000100010001 div 2 ^ (16 * i)) :: u16) = 1"
    using assms(1) unfolding lt4 by (elim disjE) simp_all
  moreover have "slot d i = word_of_int (uint d div 2 ^ (16 * i))"
    using slot_of_int[OF assms(1), of "uint d"] by simp
  ultimately show ?thesis by simp
qed

definition zero_test :: "u64 \<Rightarrow> u64" where
  "zero_test d = (d - 0x0001000100010001) AND NOT d AND 0x8000800080008000"

lemma slot_and: "slot (b AND c) i = slot b i AND slot c i"
  by (rule bit_word_eqI) (auto simp: bit_slot bit_simps dest: bit_imp_le_length)

lemma slot_not: "i < FP_PER_BUCKET \<Longrightarrow> slot (NOT b) i = NOT (slot b i)"
  by (rule bit_word_eqI) (auto simp: bit_slot bit_simps FP_PER_BUCKET_def)

lemma slot_high: "i < FP_PER_BUCKET \<Longrightarrow> slot 0x8000800080008000 i = 0x8000"
  unfolding FP_PER_BUCKET_def
  by (cases "i = 0"; cases "i = 1"; cases "i = 2"; cases "i = 3") (simp_all add: slot_def FINGERPRINT_BITS_def)

lemma all4: "(\<forall>i<FP_PER_BUCKET. P i) \<longleftrightarrow> P 0 \<and> P 1 \<and> P 2 \<and> P 3"
  unfolding FP_PER_BUCKET_def
  by (auto simp: numeral_eq_Suc less_Suc_eq)

lemma ex4: "(\<exists>i<FP_PER_BUCKET. P i) \<longleftrightarrow> P 0 \<or> P 1 \<or> P 2 \<or> P 3"
  using all4[of "\<lambda>i. \<not> P i"] by blast

lemma top_bit_decrement:
  assumes "(a::u16) \<noteq> 0"
  shows "(a - 1) AND NOT a AND 0x8000 = 0"
proof (rule bit_word_eqI)
  fix n :: nat assume "n < LENGTH(16)"
  have top: "bit (x::u16) 15 \<longleftrightarrow> 32768 \<le> uint x" for x
  proof -
    have "0 \<le> uint x" "uint x < 65536" using uint_bounded[of x] by simp_all
    then have "uint x div 32768 = (if 32768 \<le> uint x then 1 else 0)"
      using div_pos_pos_trivial[of "uint x" 32768] div_pos_pos_trivial[of "uint x - 32768" 32768]
        div_add_self2[of 32768 "uint x - 32768"] by auto
    then have "odd (uint x div 32768) = (32768 \<le> uint x)" by simp
    moreover have "bit x 15 \<longleftrightarrow> bit (uint x) 15" by (simp add: bit_uint_iff)
    moreover have "bit (uint x) 15 \<longleftrightarrow> odd (uint x div 32768)" by (simp add: bit_iff_odd)
    ultimately show ?thesis by simp
  qed
  have "uint (a - 1) = uint a - 1"
  proof -
    have "1 \<le> uint a" using assms uint_0_iff[of a] uint_ge_0[of a] by linarith
    then show ?thesis using uint_sub_lem[of 1 a] by simp
  qed
  moreover have "bit (0x8000::u16) n \<longleftrightarrow> n = 15"
  proof -
    have e: "(0x8000::u16) = 2 ^ 15" by simp
    show ?thesis unfolding e bit_exp_iff by auto
  qed
  ultimately show "bit ((a - 1) AND NOT a AND 0x8000) n = bit (0::u16) n"
    using top[of a] top[of "a - 1"] by (auto simp: bit_simps)
qed

lemma zero_test_iff: "zero_test d \<noteq> 0 \<longleftrightarrow> (\<exists>i<FP_PER_BUCKET. slot d i = 0)"
proof
  assume "zero_test d \<noteq> 0"
  show "\<exists>i<FP_PER_BUCKET. slot d i = 0"
  proof (rule ccontr)
    assume "\<not> ?thesis"
    then have nz: "slot d i \<noteq> 0" if "i < FP_PER_BUCKET" for i using that by blast
    have "zero_test d = 0"
    proof (rule packed_eqI)
      fix i assume i: "i < FP_PER_BUCKET"
      then have "slot (d - 0x0001000100010001) i = slot d i - 1"
        by (intro slot_minus_ones) (use nz in auto)
      with i show "slot (zero_test d) i = slot 0 i"
        using top_bit_decrement[OF nz[OF i]]
        by (simp add: zero_test_def slot_and slot_not slot_high and.assoc) (simp add: slot_def)
    qed
    with \<open>zero_test d \<noteq> 0\<close> show False by simp
  qed
next
  assume "\<exists>i<FP_PER_BUCKET. slot d i = 0"
  then obtain i where i: "i < FP_PER_BUCKET" "slot d i = 0" "\<forall>j<i. slot d j \<noteq> 0"
    using exists_least_iff[of "\<lambda>i. i < FP_PER_BUCKET \<and> slot d i = 0"] by fastforce
  then have "slot (d - 0x0001000100010001) i = - 1"
    using slot_minus_ones[of i d] by simp
  with i have "slot (zero_test d) i = 0x8000"
    by (simp add: zero_test_def slot_and slot_not slot_high)
  then show "zero_test d \<noteq> 0" by (auto simp: slot_def)
qed

lemma slot_repeated:
  assumes "i < FP_PER_BUCKET"
  shows "slot ((ucast f :: u64) * 0x0001000100010001) i = f"
proof -
  have m: "(0x0001000100010001::int) = 1 + 65536 * (1 + 65536 * (1 + 65536))" by simp
  have u: "(ucast f :: u64) * 0x0001000100010001 = word_of_int (uint f * 0x0001000100010001)"
    by (metis word_of_int_numeral wi_hom_mult ucast_eq)
  have f: "0 \<le> uint f" "uint f < 65536" using uint_bounded[of f] by simp_all
  define x where "x = uint f * 0x0001000100010001"
  have x: "x = uint f + 65536 * (uint f + 65536 * (uint f + 65536 * uint f))"
    unfolding x_def by simp
  have d: "x div 4294967296 = x div 65536 div 65536"
    "x div 281474976710656 = x div 65536 div 65536 div 65536"
    by (simp_all add: zdiv_zmult2_eq [symmetric])
  have l: "x mod 65536 = uint f" "x div 65536 mod 65536 = uint f"
    "x div 65536 div 65536 mod 65536 = uint f" "x div 65536 div 65536 div 65536 mod 65536 = uint f"
    unfolding x limb_shift[OF f] using f by simp_all
  have "x div 2 ^ (16 * i) mod 65536 = uint f"
    using assms[unfolded lt4] by (elim disjE) (simp_all add: d l)
  then have "(word_of_int (x div 2 ^ (16 * i)) :: u16) = word_of_int (uint f)"
    by (simp only: word_of_int_eq_iff take_bit_eq_mod) simp
  with assms show ?thesis by (simp add: u slot_of_int x_def [symmetric])
qed

lemma bucket_contains_iff: "bucket_contains b f \<longleftrightarrow> (\<exists>i<FP_PER_BUCKET. slot b i = f)"
proof -
  have "bucket_contains b f \<longleftrightarrow> zero_test (b XOR ucast f * 0x0001000100010001) \<noteq> 0"
    by (simp add: bucket_contains_def zero_test_def Let_def)
  also have "\<dots> \<longleftrightarrow> (\<exists>i<FP_PER_BUCKET. slot b i XOR f = 0)"
    by (simp only: zero_test_iff slot_xor) (metis slot_repeated)
  also have "\<dots> \<longleftrightarrow> (\<exists>i<FP_PER_BUCKET. slot b i = f)"
    by (metis xor.assoc xor.left_neutral xor_self_eq)
  finally show ?thesis .
qed

section \<open>The multiset of fingerprints of a bucket\<close>

definition slots :: "packed \<Rightarrow> fp list" where
  "slots b = map (slot b) [0..<FP_PER_BUCKET]"

definition fps :: "packed \<Rightarrow> fp multiset" where
  "fps b = filter_mset (\<lambda>f. f \<noteq> 0) (mset (slots b))"

lemma length_slots [simp]: "length (slots b) = FP_PER_BUCKET"
  by (simp add: slots_def)

lemma nth_slots [simp]: "i < FP_PER_BUCKET \<Longrightarrow> slots b ! i = slot b i"
  by (simp add: slots_def)

lemma in_set_slots: "f \<in> set (slots b) \<longleftrightarrow> (\<exists>i<FP_PER_BUCKET. slot b i = f)"
  by (auto simp: slots_def)

lemma slots_with_slot: "i < FP_PER_BUCKET \<Longrightarrow> slots (with_slot b i f) = (slots b)[i := f]"
  by (rule nth_equalityI) (auto simp: slot_with_slot nth_list_update)

lemma fps_with_slot:
  assumes "i < FP_PER_BUCKET"
  shows "fps (with_slot b i f) = (fps b - {#slot b i#}) + (if f = 0 then {#} else {#f#})"
proof -
  have m: "slot b i \<in># mset (slots b)"
    using assms by (auto simp: in_set_slots)
  have "mset (slots (with_slot b i f)) = add_mset f (mset (slots b) - {#slot b i#})"
    using assms by (simp add: slots_with_slot mset_update)
  moreover have "filter_mset (\<lambda>f. f \<noteq> 0) (mset (slots b) - {#slot b i#}) = fps b - {#slot b i#}"
    using m by (cases "slot b i = 0") (auto simp: fps_def filter_diff_mset diff_single_trivial)
  ultimately show ?thesis by (simp add: fps_def)
qed

lemma fps_nonzero: "f \<in># fps b \<Longrightarrow> f \<noteq> 0"
  by (simp add: fps_def)

lemma in_fps_iff: "f \<in># fps b \<longleftrightarrow> f \<noteq> 0 \<and> (\<exists>i<FP_PER_BUCKET. slot b i = f)"
  by (auto simp: fps_def in_set_slots)

lemma bucket_contains_fps: "f \<noteq> 0 \<Longrightarrow> bucket_contains b f \<longleftrightarrow> f \<in># fps b"
  by (simp add: bucket_contains_iff in_fps_iff)

lemma slot_0 [simp]: "slot 0 i = 0"
  by (simp add: slot_def)

lemma fps_0 [simp]: "fps 0 = {#}"
  by (auto simp: fps_def slots_def filter_mset_eq_mempty_iff)

lemma find_upt_Some: "List.find P [0..<n] = Some i \<Longrightarrow> i < n \<and> P i"
  by (auto simp: find_Some_iff)

lemma find_upt_None: "List.find P [0..<n] = None \<longleftrightarrow> (\<forall>i<n. \<not> P i)"
  by (auto simp: find_None_iff)

lemma try_insert_cases:
  assumes "f \<noteq> 0" "try_insert b f = (ok, b')"
  shows "if ok then fps b' = add_mset f (fps b) else b' = b \<and> 0 \<notin> set (slots b)"
proof (cases "first_empty b")
  case None
  then have "\<forall>i<FP_PER_BUCKET. slot b i \<noteq> 0"
    by (simp add: first_empty_def find_upt_None)
  with None assms show ?thesis
    by (auto simp: try_insert_def in_set_slots)
next
  case (Some i)
  then have "i < FP_PER_BUCKET" "slot b i = 0"
    unfolding first_empty_def by (auto dest: find_upt_Some)
  moreover have "0 \<notin># fps b" by (simp add: fps_def)
  ultimately show ?thesis
    using assms Some by (auto simp: try_insert_def fps_with_slot diff_single_trivial)
qed

lemma try_delete_cases:
  assumes "f \<noteq> 0" "try_delete b f = (ok, b')"
  shows "if ok then f \<in># fps b \<and> fps b' = fps b - {#f#} else b' = b \<and> f \<notin># fps b"
proof (cases "first_match b f")
  case None
  then have "\<forall>i<FP_PER_BUCKET. slot b i \<noteq> f"
    by (simp add: first_match_def find_upt_None)
  with None assms show ?thesis
    by (auto simp: try_delete_def in_fps_iff)
next
  case (Some i)
  then have "i < FP_PER_BUCKET" "slot b i = f"
    unfolding first_match_def by (auto dest: find_upt_Some)
  then show ?thesis
    using assms Some by (auto simp: try_delete_def fps_with_slot in_fps_iff)
qed

section \<open>Candidate buckets\<close>

definition in_lane :: "u64 \<Rightarrow> bool" where
  "in_lane i \<longleftrightarrow> unat i < BUCKETS_PER_LANE"

lemma in_lane_iff_mask: "in_lane i \<longleftrightarrow> i AND BUCKET_MASK = i"
proof -
  have "i AND BUCKET_MASK = take_bit 16 i" by (simp add: BUCKET_MASK_eq take_bit_eq_mask)
  moreover have "take_bit 16 i = i \<longleftrightarrow> unat (take_bit 16 i) = unat i"
    by (rule word_unat_eq_iff)
  moreover have "unat (take_bit 16 i) = unat i mod 65536"
    by (simp only: unsigned_take_bit_eq) (simp add: take_bit_eq_mod)
  ultimately show ?thesis
    using mod_less_divisor[of 65536 "unat i"] by (auto simp: in_lane_def BUCKETS_PER_LANE_def)
qed

lemma in_lane_and_mask [simp]: "in_lane (i AND BUCKET_MASK)"
  by (simp add: in_lane_iff_mask and.assoc)

text \<open>
  What the filter relies on in its addressing: every fingerprint has two candidate buckets, and
  each of them is computed from the other one and the fingerprint alone.
\<close>

locale candidate_buckets =
  fixes alt :: "u64 \<Rightarrow> fp \<Rightarrow> u64"
  assumes alt_in_lane: "in_lane (alt i f)"
    and alt_alt: "in_lane i \<Longrightarrow> alt (alt i f) f = i"
    and alt_neq: "in_lane i \<Longrightarrow> alt i f \<noteq> i"
begin

lemma alt_swap: "in_lane i \<Longrightarrow> in_lane j \<Longrightarrow> alt i f = j \<longleftrightarrow> alt j f = i"
  using alt_alt by blast

lemma same_pair: "in_lane i \<Longrightarrow> j \<in> {i, alt i f} \<Longrightarrow> {j, alt j f} = {i, alt i f}"
  using alt_alt by auto

end

lemma alt_index_in_lane: "in_lane (alt_index xxh i f)"
  by (simp add: alt_index_def Let_def)

lemma alt_index_delta:
  obtains d where "d \<noteq> 0" "in_lane d" "\<And>i. in_lane i \<Longrightarrow> alt_index xxh i f = i XOR d"
proof -
  define d where "d = (let m = xxh (le_bytes16 f) ALT_MIX_DOMAIN AND BUCKET_MASK in if m = 0 then 1 else m)"
  have one: "in_lane 1" by (simp add: in_lane_def BUCKETS_PER_LANE_def)
  have d: "d \<noteq> 0" "in_lane d" using one by (auto simp: d_def Let_def)
  moreover have "alt_index xxh i f = i XOR d" if "in_lane i" for i
  proof -
    have e: "alt_index xxh i f = (i XOR d) AND BUCKET_MASK"
      by (simp add: alt_index_def d_def Let_def)
    have "(i XOR d) AND BUCKET_MASK = (i AND BUCKET_MASK) XOR (d AND BUCKET_MASK)"
      by (rule bit_word_eqI) (auto simp: bit_simps)
    with that d(2) show ?thesis
      by (simp add: e in_lane_iff_mask)
  qed
  ultimately show ?thesis by (rule that)
qed

interpretation cuckoo: candidate_buckets "alt_index xxh" for xxh
proof
  fix i f
  show "in_lane (alt_index xxh i f)" by (rule alt_index_in_lane)
  assume i: "in_lane i"
  obtain d where d: "d \<noteq> 0" "in_lane d" "\<And>i. in_lane i \<Longrightarrow> alt_index xxh i f = i XOR d"
    by (rule alt_index_delta [of xxh f]) blast
  show "alt_index xxh (alt_index xxh i f) f = i"
    using d(3)[OF alt_index_in_lane[of xxh i f]] d(3)[OF i] by (simp add: xor.assoc)
  show "alt_index xxh i f \<noteq> i"
  proof
    assume "alt_index xxh i f = i"
    then have "i XOR (i XOR d) = i XOR i" using d(3)[OF i] by simp
    with d(1) show False by (simp add: xor.assoc [symmetric])
  qed
qed

lemma probe_fp_odd: "bit (fst (probe xxh h)) 0"
  by (simp add: probe_def Let_def bit_or_iff)

lemma probe_fp_nonzero: "fst (probe xxh h) \<noteq> 0"
proof
  assume "fst (probe xxh h) = 0"
  then have "bit (0 :: fp) 0" by (metis probe_fp_odd)
  then show False by simp
qed

lemma probe_in_lane: "in_lane (snd (probe xxh h))"
  by (simp add: probe_def Let_def)

end
