(* ===== verification/Producer.thy ===== *)
theory Producer
  imports Cuckoo KvEvent
begin

text \<open>
  The CKF producer, \<open>crates/hier-kv-gateway-metadata/src/ckf_producer.rs\<close>: one lane of cuckoo
  buckets, the table of hash owners, and the publication of snapshots and deltas. The fixed vector
  of \<open>BUCKETS_PER_LANE\<close> buckets is a function on bucket indices; every index the code uses
  satisfies \<open>in_lane\<close>, so no access is out of range.
\<close>

section \<open>State\<close>

record hash_entry =
  he_refcount :: u32
  he_owners :: "backend_id list"

record ckf_producer =
  buckets :: "u64 \<Rightarrow> packed"
  num_items :: u64
  dirty_buckets :: "u64 list"
  pub_seq :: u64
  hash_refcount :: "(u64 \<times> hash_entry) list"
  worker_hashes :: "(backend_id \<times> u64 list) list"
  rng_state :: u64

definition CKF_PRODUCER_DEFAULT_SEED :: u64 where
  "CKF_PRODUCER_DEFAULT_SEED = 0xA7C54B7E38A12F5D"

definition producer_with_seed :: "u64 \<Rightarrow> ckf_producer" where
  "producer_with_seed seed =
     \<lparr>buckets = (\<lambda>_. 0), num_items = 0, dirty_buckets = [], pub_seq = 0,
      hash_refcount = [], worker_hashes = [], rng_state = seed\<rparr>"

definition producer_new :: ckf_producer where
  "producer_new = producer_with_seed CKF_PRODUCER_DEFAULT_SEED"

section \<open>The pseudo-random generator\<close>

definition next_random :: "ckf_producer \<Rightarrow> u64 \<times> ckf_producer" where
  "next_random p =
     (let st = rng_state p + 0x9E3779B97F4A7C15;
          z1 = (st XOR drop_bit 30 st) * 0xBF58476D1CE4E5B9;
          z2 = (z1 XOR drop_bit 27 z1) * 0x94D049BB133111EB
      in (z2 XOR drop_bit 31 z2, p\<lparr>rng_state := st\<rparr>))"

section \<open>Insertion with eviction, deletion\<close>

definition mark_dirty :: "u64 \<Rightarrow> ckf_producer \<Rightarrow> ckf_producer" where
  "mark_dirty i p = p\<lparr>dirty_buckets := snd (hs_insert i (dirty_buckets p))\<rparr>"

definition set_bucket :: "u64 \<Rightarrow> packed \<Rightarrow> ckf_producer \<Rightarrow> ckf_producer" where
  "set_bucket i b p = p\<lparr>buckets := (buckets p)(i := b)\<rparr>"

definition incr_items :: "ckf_producer \<Rightarrow> ckf_producer" where
  "incr_items p = p\<lparr>num_items := num_items p + 1\<rparr>"

definition decr_items :: "ckf_producer \<Rightarrow> ckf_producer" where
  "decr_items p = p\<lparr>num_items := sat_sub (num_items p) 1\<rparr>"

definition rollback :: "(u64 \<times> packed) list \<Rightarrow> ckf_producer \<Rightarrow> ckf_producer" where
  "rollback touched p = fold (\<lambda>(idx, before) p. set_bucket idx before p) (rev touched) p"

fun kick_loop :: "xxh3 \<Rightarrow> nat \<Rightarrow> ckf_producer \<Rightarrow> u64 \<Rightarrow> fp \<Rightarrow> (u64 \<times> packed) list
    \<Rightarrow> bool \<times> ckf_producer" where
  "kick_loop xxh 0 p current_bucket current_fp touched = (False, rollback touched p)"
| "kick_loop xxh (Suc n) p current_bucket current_fp touched =
     (let before = buckets p current_bucket;
          (r, p1) = next_random p;
          slot_idx = unat (r AND 3);
          evicted = slot before slot_idx;
          after = with_slot before slot_idx current_fp;
          p2 = set_bucket current_bucket after p1;
          touched' = touched @ [(current_bucket, before)];
          next_bucket = alt_index xxh current_bucket evicted;
          (ok, b) = try_insert (buckets p2 next_bucket) evicted
      in if ok then
           (True, incr_items (fold (\<lambda>(idx, _). mark_dirty idx) touched'
              (mark_dirty next_bucket (set_bucket next_bucket b p2))))
         else kick_loop xxh n p2 next_bucket evicted touched')"

definition insert_fingerprint :: "xxh3 \<Rightarrow> u64 \<Rightarrow> ckf_producer \<Rightarrow> bool \<times> ckf_producer" where
  "insert_fingerprint xxh hash p =
     (let (f, bucket_a) = probe xxh hash;
          bucket_b = alt_index xxh bucket_a f;
          (ok_a, ba) = try_insert (buckets p bucket_a) f
      in if ok_a then (True, incr_items (mark_dirty bucket_a (set_bucket bucket_a ba p)))
         else
           (let (ok_b, bb) = try_insert (buckets p bucket_b) f
            in if ok_b then (True, incr_items (mark_dirty bucket_b (set_bucket bucket_b bb p)))
               else
                 (let (r, p1) = next_random p;
                      current_bucket = (if r AND 1 = 0 then bucket_a else bucket_b)
                  in kick_loop xxh MAX_KICKS p1 current_bucket f [])))"

definition delete_fingerprint :: "xxh3 \<Rightarrow> u64 \<Rightarrow> ckf_producer \<Rightarrow> ckf_producer" where
  "delete_fingerprint xxh hash p =
     (let (f, bucket_a) = probe xxh hash;
          bucket_b = alt_index xxh bucket_a f;
          (ok_a, ba) = try_delete (buckets p bucket_a) f
      in if ok_a then decr_items (mark_dirty bucket_a (set_bucket bucket_a ba p))
         else
           (let (ok_b, bb) = try_delete (buckets p bucket_b) f
            in if ok_b then decr_items (mark_dirty bucket_b (set_bucket bucket_b bb p)) else p))"

section \<open>Events\<close>

definition entry_or_default :: "ckf_producer \<Rightarrow> u64 \<Rightarrow> hash_entry" where
  "entry_or_default p hash =
     (case map_of (hash_refcount p) hash of
        None \<Rightarrow> \<lparr>he_refcount = 0, he_owners = []\<rparr>
      | Some e \<Rightarrow> e)"

definition hashes_of :: "ckf_producer \<Rightarrow> backend_id \<Rightarrow> u64 list" where
  "hashes_of p w = (case map_of (worker_hashes p) w of None \<Rightarrow> [] | Some s \<Rightarrow> s)"

definition add_owner :: "u64 \<Rightarrow> backend_id \<Rightarrow> ckf_producer \<Rightarrow> ckf_producer" where
  "add_owner hash w p =
     (let entry = entry_or_default p hash
      in p\<lparr>hash_refcount := AList.update hash
             \<lparr>he_refcount = he_refcount entry + 1,
              he_owners = snd (hs_insert w (he_owners entry))\<rparr> (hash_refcount p),
           worker_hashes := AList.update w (snd (hs_insert hash (hashes_of p w))) (worker_hashes p)\<rparr>)"

definition prod_apply_stored :: "xxh3 \<Rightarrow> u64 \<Rightarrow> backend_id \<Rightarrow> ckf_producer \<Rightarrow> ckf_producer" where
  "prod_apply_stored xxh hash w p =
     (let entry = entry_or_default p hash;
          first_owner = (he_owners entry = []);
          inserted = fst (hs_insert w (he_owners entry))
      in if \<not> inserted then p\<lparr>hash_refcount := AList.update hash entry (hash_refcount p)\<rparr>
         else
           (let p1 = add_owner hash w p
            in if first_owner then snd (insert_fingerprint xxh hash p1) else p1))"

definition drop_owner :: "xxh3 \<Rightarrow> u64 \<Rightarrow> backend_id \<Rightarrow> hash_entry \<Rightarrow> ckf_producer \<Rightarrow> ckf_producer" where
  "drop_owner xxh hash w entry p =
     (let entry' = \<lparr>he_refcount = sat_sub (he_refcount entry) 1,
                    he_owners = snd (hs_remove w (he_owners entry))\<rparr>;
          p1 = p\<lparr>hash_refcount := AList.update hash entry' (hash_refcount p)\<rparr>
      in if he_refcount entry' = 0
         then (let p2 = delete_fingerprint xxh hash p1
               in p2\<lparr>hash_refcount := AList.delete hash (hash_refcount p2)\<rparr>)
         else p1)"

definition forget_hash :: "u64 \<Rightarrow> backend_id \<Rightarrow> ckf_producer \<Rightarrow> ckf_producer" where
  "forget_hash hash w p =
     (case map_of (worker_hashes p) w of
        None \<Rightarrow> p
      | Some s \<Rightarrow> p\<lparr>worker_hashes := AList.update w (snd (hs_remove hash s)) (worker_hashes p)\<rparr>)"

definition prod_apply_removed :: "xxh3 \<Rightarrow> u64 \<Rightarrow> backend_id \<Rightarrow> ckf_producer \<Rightarrow> ckf_producer" where
  "prod_apply_removed xxh hash w p =
     (case map_of (hash_refcount p) hash of
        None \<Rightarrow> p
      | Some entry \<Rightarrow>
          if w \<notin> set (he_owners entry) then p
          else drop_owner xxh hash w entry (forget_hash hash w p))"

definition clear_hash :: "xxh3 \<Rightarrow> backend_id \<Rightarrow> u64 \<Rightarrow> ckf_producer \<Rightarrow> ckf_producer" where
  "clear_hash xxh w hash p =
     (case map_of (hash_refcount p) hash of
        None \<Rightarrow> p
      | Some entry \<Rightarrow> drop_owner xxh hash w entry p)"

definition prod_apply_clear :: "xxh3 \<Rightarrow> backend_id \<Rightarrow> ckf_producer \<Rightarrow> ckf_producer" where
  "prod_apply_clear xxh w p =
     (let hashes = hashes_of p w;
          p1 = p\<lparr>worker_hashes := AList.delete w (worker_hashes p)\<rparr>
      in fold (clear_hash xxh w) hashes p1)"

definition reset_internal :: "ckf_producer \<Rightarrow> ckf_producer" where
  "reset_internal p =
     p\<lparr>buckets := (\<lambda>_. 0), num_items := 0, dirty_buckets := [], hash_refcount := [],
       worker_hashes := []\<rparr>"

fun prod_apply_event :: "xxh3 \<Rightarrow> kv_cache_event \<Rightarrow> backend_id \<Rightarrow> ckf_producer \<Rightarrow> ckf_producer" where
  "prod_apply_event xxh (Stored _ hs _ _) w p = fold (\<lambda>h. prod_apply_stored xxh h w) hs p"
| "prod_apply_event xxh (Removed _ hs) w p = fold (\<lambda>h. prod_apply_removed xxh h w) hs p"
| "prod_apply_event xxh (Clear _) w p = prod_apply_clear xxh w p"
| "prod_apply_event xxh (Reset _ _) w p = reset_internal p"

section \<open>Publication\<close>

definition snapshot :: "ckf_producer \<Rightarrow> ckf_snapshot \<times> ckf_producer" where
  "snapshot p =
     (let p1 = p\<lparr>pub_seq := pub_seq p + 1, dirty_buckets := []\<rparr>
      in (\<lparr>snap_sequence = pub_seq p1,
           snap_buckets = map (\<lambda>i. buckets p1 (of_nat i)) [0..<BUCKETS_PER_LANE]\<rparr>, p1))"

definition delta :: "ckf_producer \<Rightarrow> ckf_delta option \<times> ckf_producer" where
  "delta p =
     (if dirty_buckets p = [] then (None, p)
      else
        (let p1 = p\<lparr>pub_seq := pub_seq p + 1, dirty_buckets := []\<rparr>
         in (Some \<lparr>delta_sequence = pub_seq p1, delta_prev_sequence = pub_seq p,
                   delta_buckets = map (\<lambda>i. (i, buckets p i)) (sort (dirty_buckets p))\<rparr>, p1)))"

definition tracked_hashes :: "ckf_producer \<Rightarrow> nat" where
  "tracked_hashes p = length (hash_refcount p)"

section \<open>Frames\<close>

lemma set_bucket_simps [simp]:
  "buckets (set_bucket i b p) = (buckets p)(i := b)"
  "dirty_buckets (set_bucket i b p) = dirty_buckets p"
  "hash_refcount (set_bucket i b p) = hash_refcount p"
  "worker_hashes (set_bucket i b p) = worker_hashes p"
  "pub_seq (set_bucket i b p) = pub_seq p"
  by (simp_all add: set_bucket_def)

lemma mark_dirty_simps [simp]:
  "buckets (mark_dirty i p) = buckets p"
  "set (dirty_buckets (mark_dirty i p)) = insert i (set (dirty_buckets p))"
  "distinct (dirty_buckets (mark_dirty i p)) = distinct (dirty_buckets p)"
  "hash_refcount (mark_dirty i p) = hash_refcount p"
  "worker_hashes (mark_dirty i p) = worker_hashes p"
  "pub_seq (mark_dirty i p) = pub_seq p"
  by (simp_all add: mark_dirty_def)

lemma items_simps [simp]:
  "buckets (incr_items p) = buckets p" "buckets (decr_items p) = buckets p"
  "dirty_buckets (incr_items p) = dirty_buckets p" "dirty_buckets (decr_items p) = dirty_buckets p"
  "hash_refcount (incr_items p) = hash_refcount p" "hash_refcount (decr_items p) = hash_refcount p"
  "worker_hashes (incr_items p) = worker_hashes p" "worker_hashes (decr_items p) = worker_hashes p"
  "pub_seq (incr_items p) = pub_seq p" "pub_seq (decr_items p) = pub_seq p"
  by (simp_all add: incr_items_def decr_items_def)

lemma next_random_frame:
  assumes "next_random p = (r, p')"
  shows "buckets p' = buckets p" "dirty_buckets p' = dirty_buckets p"
    "hash_refcount p' = hash_refcount p" "worker_hashes p' = worker_hashes p" "pub_seq p' = pub_seq p"
  using assms by (auto simp: next_random_def Let_def)

lemma mark_all_dirty_simps [simp]:
  "buckets (fold (\<lambda>(idx, _). mark_dirty idx) ts p) = buckets p"
  "set (dirty_buckets (fold (\<lambda>(idx, _). mark_dirty idx) ts p)) = fst ` set ts \<union> set (dirty_buckets p)"
  "distinct (dirty_buckets (fold (\<lambda>(idx, _). mark_dirty idx) ts p)) = distinct (dirty_buckets p)"
  "hash_refcount (fold (\<lambda>(idx, _). mark_dirty idx) ts p) = hash_refcount p"
  "worker_hashes (fold (\<lambda>(idx, _). mark_dirty idx) ts p) = worker_hashes p"
  "pub_seq (fold (\<lambda>(idx, _). mark_dirty idx) ts p) = pub_seq p"
  by (induction ts arbitrary: p) auto

lemma rollback_simps [simp]:
  "rollback [] p = p"
  "rollback (ts @ [(i, b)]) p = rollback ts (set_bucket i b p)"
  by (simp_all add: rollback_def)

lemma rollback_frame [simp]:
  "dirty_buckets (rollback ts p) = dirty_buckets p"
  "hash_refcount (rollback ts p) = hash_refcount p"
  "worker_hashes (rollback ts p) = worker_hashes p"
  "pub_seq (rollback ts p) = pub_seq p"
  by (induction ts arbitrary: p rule: rev_induct; force)+

lemma rollback_buckets_cong:
  "buckets p = buckets q \<Longrightarrow> buckets (rollback ts p) = buckets (rollback ts q)"
proof (induction ts arbitrary: p q rule: rev_induct)
  case Nil
  then show ?case by simp
next
  case (snoc t ts)
  obtain i b where t: "t = (i, b)" by (cases t)
  show ?case unfolding t rollback_simps by (rule snoc.IH) (simp add: snoc.prems)
qed

section \<open>The eviction loop moves fingerprints within their pair of buckets\<close>

definition load :: "xxh3 \<Rightarrow> (u64 \<Rightarrow> packed) \<Rightarrow> u64 \<Rightarrow> fp \<Rightarrow> nat" where
  "load xxh B i f = count (fps (B i)) f + count (fps (B (alt_index xxh i f))) f"

definition in_pair :: "xxh3 \<Rightarrow> u64 \<Rightarrow> u64 \<Rightarrow> fp \<Rightarrow> bool" where
  "in_pair xxh j i f \<longleftrightarrow> j = i \<or> j = alt_index xxh i f"

lemma in_pair_alt:
  "in_lane i \<Longrightarrow> in_lane j \<Longrightarrow> in_pair xxh (alt_index xxh j f) i f \<longleftrightarrow> in_pair xxh j i f"
  using cuckoo.alt_alt by (metis in_pair_def)

lemma load_add:
  assumes "in_lane i" "fps b = add_mset g (fps (B j))"
  shows "load xxh (B(j := b)) i f = load xxh B i f + (if f = g \<and> in_pair xxh j i f then 1 else 0)"
  using assms cuckoo.alt_neq[OF assms(1), of xxh f]
  by (auto simp: load_def in_pair_def)

lemma load_remove:
  assumes "in_lane i" "g \<in># fps (B j)" "fps b = fps (B j) - {#g#}"
  shows "load xxh (B(j := b)) i f = load xxh B i f - (if f = g \<and> in_pair xxh j i f then 1 else 0)"
proof -
  have "fps (B j) = add_mset g (fps ((B(j := b)) j))" using assms by simp
  then have "load xxh ((B(j := b))(j := B j)) i f =
      load xxh (B(j := b)) i f + (if f = g \<and> in_pair xxh j i f then 1 else 0)"
    by (rule load_add [OF assms(1)])
  then show ?thesis by simp
qed

lemma load_swap:
  assumes "in_lane i" "fps (B j) = add_mset e m" "fps b = add_mset c m"
  shows "load xxh (B(j := b)) i f + (if f = e \<and> in_pair xxh j i f then 1 else 0)
       = load xxh B i f + (if f = c \<and> in_pair xxh j i f then 1 else 0)"
proof (cases "in_pair xxh j i f")
  case True
  then show ?thesis
    using assms(2,3) cuckoo.alt_neq[OF assms(1), of xxh f]
    by (cases "f = e"; cases "f = c") (auto simp: load_def in_pair_def)
next
  case False
  then have "i \<noteq> j" "alt_index xxh i f \<noteq> j" by (auto simp: in_pair_def)
  with False show ?thesis by (simp add: load_def)
qed

lemma fps_replace:
  assumes "k < FP_PER_BUCKET" "0 \<notin> set (slots b)" "c \<noteq> 0"
  obtains m where "fps b = add_mset (slot b k) m" "fps (with_slot b k c) = add_mset c m" "slot b k \<noteq> 0"
proof -
  have nz: "slot b k \<noteq> 0" using assms by (auto simp: in_set_slots)
  then have "slot b k \<in># fps b" using assms by (auto simp: in_fps_iff)
  then have "fps b = add_mset (slot b k) (fps b - {#slot b k#})" by simp
  moreover have "fps (with_slot b k c) = add_mset c (fps b - {#slot b k#})"
    using assms by (simp add: fps_with_slot)
  ultimately show ?thesis using nz by (rule that)
qed

lemma slot_idx_bound: "unat (r AND 3 :: u64) < FP_PER_BUCKET"
proof -
  have "r AND 3 = take_bit 2 r" by (simp add: take_bit_eq_mask mask_eq_exp_minus_1)
  then have "unat (r AND 3) = unat r mod 4"
    by (simp only: unsigned_take_bit_eq) (simp add: take_bit_eq_mod)
  then show ?thesis by (simp add: FP_PER_BUCKET_def)
qed

text \<open>
  Everything the rest of the development needs of an insertion: either one fingerprint is added to
  the pair of its hash and nothing else changes its pair, with every changed bucket marked, or the
  buckets and the marks are as before.
\<close>

definition insertion :: "xxh3 \<Rightarrow> u64 \<Rightarrow> fp \<Rightarrow> ckf_producer \<Rightarrow> bool \<Rightarrow> ckf_producer \<Rightarrow> bool" where
  "insertion xxh j c p ok p' \<longleftrightarrow>
     (if ok then (\<forall>i f. in_lane i \<longrightarrow> load xxh (buckets p') i f =
               load xxh (buckets p) i f + (if f = c \<and> in_pair xxh j i f then 1 else 0)) \<and>
             set (dirty_buckets p) \<subseteq> set (dirty_buckets p') \<and>
             (\<forall>k. buckets p' k \<noteq> buckets p k \<longrightarrow> k \<in> set (dirty_buckets p')) \<and>
             (\<forall>k\<in>set (dirty_buckets p'). k \<in> set (dirty_buckets p) \<or> in_lane k) \<and>
             dirty_buckets p' \<noteq> []
      else buckets p' = buckets p \<and> dirty_buckets p' = dirty_buckets p) \<and>
     (distinct (dirty_buckets p) \<longrightarrow> distinct (dirty_buckets p')) \<and>
     hash_refcount p' = hash_refcount p \<and> worker_hashes p' = worker_hashes p \<and>
     pub_seq p' = pub_seq p"

lemma kick_loop_insertion:
  assumes "in_lane cur" "c \<noteq> 0" "0 \<notin> set (slots (buckets p cur))"
    and "kick_loop xxh n p cur c touched = (ok, p')"
    and "buckets (rollback touched p) = buckets q"
    and "\<forall>i f. in_lane i \<longrightarrow> load xxh (buckets p) i f + (if f = c \<and> in_pair xxh cur i f then 1 else 0) =
        load xxh (buckets q) i f + (if f = c0 \<and> in_pair xxh j0 i f then 1 else 0)"
    and "\<forall>k. buckets p k \<noteq> buckets q k \<longrightarrow> k \<in> fst ` set touched"
    and "\<forall>k\<in>fst ` set touched. in_lane k"
    and "dirty_buckets p = dirty_buckets q" "hash_refcount p = hash_refcount q"
      "worker_hashes p = worker_hashes q" "pub_seq p = pub_seq q"
  shows "insertion xxh j0 c0 q ok p'"
  using assms
proof (induction n arbitrary: p cur c touched)
  case 0
  then show ?case by (auto simp: insertion_def)
next
  case (Suc n)
  obtain r p1 where r: "next_random p = (r, p1)" by (cases "next_random p")
  note fr = next_random_frame[OF r]
  define b where "b = buckets p cur"
  define k where "k = unat (r AND 3)"
  define e where "e = slot b k"
  define p2 where "p2 = set_bucket cur (with_slot b k c) p1"
  define nxt where "nxt = alt_index xxh cur e"
  obtain ok' b' where ti: "try_insert (buckets p2 nxt) e = (ok', b')" by (cases "try_insert (buckets p2 nxt) e")
  have k: "k < FP_PER_BUCKET" unfolding k_def by (rule slot_idx_bound)
  obtain m where m: "fps b = add_mset e m" "fps (with_slot b k c) = add_mset c m" "e \<noteq> 0"
    using fps_replace[OF k, of b c] Suc.prems(2,3) unfolding b_def e_def by blast
  have B2: "buckets p2 = (buckets p)(cur := with_slot b k c)" by (simp add: p2_def fr)
  have nxt: "in_lane nxt" unfolding nxt_def by (rule alt_index_in_lane)
  have loop: "kick_loop xxh (Suc n) p cur c touched =
     (if ok' then (True, incr_items (fold (\<lambda>(idx, _). mark_dirty idx) (touched @ [(cur, b)])
              (mark_dirty nxt (set_bucket nxt b' p2))))
      else kick_loop xxh n p2 nxt e (touched @ [(cur, b)]))"
    using r ti by (simp add: b_def k_def e_def p2_def nxt_def Let_def)
  have ld: "load xxh (buckets p2) i f + (if f = e \<and> in_pair xxh nxt i f then 1 else 0) =
        load xxh (buckets q) i f + (if f = c0 \<and> in_pair xxh j0 i f then 1 else 0)" if "in_lane i" for i f
    using load_swap[OF that, of "buckets p" cur e m "with_slot b k c" c xxh f] m that
      Suc.prems(1,6) in_pair_alt[OF that Suc.prems(1), of xxh e]
    by (auto simp: B2 b_def [symmetric] nxt_def split: if_splits)
  have diff: "\<forall>k. buckets p2 k \<noteq> buckets q k \<longrightarrow> k \<in> fst ` set (touched @ [(cur, b)])"
    using Suc.prems(7) by (auto simp: B2)
  have lanes: "\<forall>k\<in>fst ` set (touched @ [(cur, b)]). in_lane k"
    using Suc.prems(1,8) by auto
  have rest: "dirty_buckets p2 = dirty_buckets q" "hash_refcount p2 = hash_refcount q"
      "worker_hashes p2 = worker_hashes q" "pub_seq p2 = pub_seq q"
    using Suc.prems(9-12) by (simp_all add: p2_def fr)
  show ?case
  proof (cases ok')
    case True
    define pe where "pe = incr_items (fold (\<lambda>(idx, _). mark_dirty idx) (touched @ [(cur, b)])
              (mark_dirty nxt (set_bucket nxt b' p2)))"
    have pe: "ok" "p' = pe"
      using Suc.prems(4) True loop unfolding pe_def by auto
    have Be: "buckets pe = (buckets p2)(nxt := b')"
      and De: "set (dirty_buckets pe) = fst ` set (touched @ [(cur, b)]) \<union> insert nxt (set (dirty_buckets q))"
      and Ie: "distinct (dirty_buckets pe) = distinct (dirty_buckets q)"
      and Fe: "hash_refcount pe = hash_refcount q" "worker_hashes pe = worker_hashes q" "pub_seq pe = pub_seq q"
      by (simp_all only: pe_def items_simps mark_all_dirty_simps mark_dirty_simps set_bucket_simps rest)
    have "fps b' = add_mset e (fps (buckets p2 nxt))"
      using try_insert_cases[OF m(3) ti] True by simp
    then have "load xxh (buckets pe) i f = load xxh (buckets q) i f + (if f = c0 \<and> in_pair xxh j0 i f then 1 else 0)"
      if "in_lane i" for i f
      using load_add[OF that, of b' e "buckets p2" nxt xxh f] ld[OF that, of f] by (simp add: Be)
    moreover have "k \<in> set (dirty_buckets pe)" if "buckets pe k \<noteq> buckets q k" for k
      using that diff by (auto simp: Be De split: if_splits)
    ultimately show ?thesis
      using lanes nxt by (auto simp: insertion_def pe Fe De Ie dest!: arg_cong[of "dirty_buckets pe" "[]" set])
  next
    case False
    then have full: "0 \<notin> set (slots (buckets p2 nxt))"
      using try_insert_cases[OF m(3) ti] by simp
    have loop': "kick_loop xxh n p2 nxt e (touched @ [(cur, b)]) = (ok, p')"
      using Suc.prems(4) False loop by simp
    have rb: "buckets (rollback (touched @ [(cur, b)]) p2) = buckets q"
      unfolding rollback_simps Suc.prems(5) [symmetric]
      by (rule rollback_buckets_cong) (simp add: B2 b_def)
    show ?thesis
      using Suc.IH[OF nxt m(3) full loop' rb _ diff lanes rest] ld by simp
  qed
qed

lemma insert_fingerprint_insertion:
  assumes "insert_fingerprint xxh h p = (ok, p')"
  shows "insertion xxh (snd (probe xxh h)) (fst (probe xxh h)) p ok p'"
proof -
  obtain f a where fa: "probe xxh h = (f, a)" by (cases "probe xxh h")
  have f: "f \<noteq> 0" and a: "in_lane a"
    using probe_fp_nonzero[of xxh h] probe_in_lane[of xxh h] by (simp_all add: fa)
  define bb where "bb = alt_index xxh a f"
  have bl: "in_lane bb" unfolding bb_def by (rule alt_index_in_lane)
  obtain oa ba where ta: "try_insert (buckets p a) f = (oa, ba)" by (cases "try_insert (buckets p a) f")
  obtain ob b' where tb: "try_insert (buckets p bb) f = (ob, b')" by (cases "try_insert (buckets p bb) f")
  note ca = try_insert_cases[OF f ta] and cb = try_insert_cases[OF f tb]
  have direct: "insertion xxh a f p True (incr_items (mark_dirty j (set_bucket j x p)))"
    if "in_lane j" "in_pair xxh j a f" "fps x = add_mset f (fps (buckets p j))" for j x
  proof -
    have "in_pair xxh j i f \<longleftrightarrow> in_pair xxh a i f" if "in_lane i" for i
      using \<open>in_pair xxh j a f\<close> in_pair_alt[OF that a, of xxh f] unfolding in_pair_def by auto
    then show ?thesis
      using load_add[where xxh = xxh and B = "buckets p" and j = j and b = x and g = f] that(1,3)
      by (auto simp: insertion_def dest!: arg_cong[of _ "[]" set])
  qed
  show ?thesis
  proof (cases "oa \<or> ob")
    case True
    then show ?thesis
      using assms direct[OF a, of ba] direct[OF bl, of b'] ca cb ta tb
      by (auto simp: insert_fingerprint_def fa bb_def [symmetric] in_pair_def split: if_splits)
  next
    case False
    obtain r p1 where r: "next_random p = (r, p1)" by (cases "next_random p")
    note fr = next_random_frame[OF r]
    define cur where "cur = (if r AND 1 = 0 then a else bb)"
    have kl: "kick_loop xxh MAX_KICKS p1 cur f [] = (ok, p')"
      using assms False ta tb r by (simp add: insert_fingerprint_def fa bb_def [symmetric] cur_def)
    have "in_lane cur" "0 \<notin> set (slots (buckets p1 cur))"
      using a bl ca cb False by (auto simp: cur_def fr)
    moreover have "in_pair xxh cur i f \<longleftrightarrow> in_pair xxh a i f" if "in_lane i" for i
      using in_pair_alt[OF that a, of xxh f] by (auto simp: cur_def bb_def)
    ultimately show ?thesis
      using f kl by (intro kick_loop_insertion[of cur f p1 xxh MAX_KICKS "[]"]) (auto simp: fr fa)
  qed
qed

definition deletion :: "xxh3 \<Rightarrow> u64 \<Rightarrow> fp \<Rightarrow> ckf_producer \<Rightarrow> ckf_producer \<Rightarrow> bool" where
  "deletion xxh j c p p' \<longleftrightarrow>
     (\<forall>i f. in_lane i \<longrightarrow> load xxh (buckets p') i f =
        load xxh (buckets p) i f - (if f = c \<and> in_pair xxh j i f then 1 else 0)) \<and>
     set (dirty_buckets p) \<subseteq> set (dirty_buckets p') \<and>
     (\<forall>k. buckets p' k \<noteq> buckets p k \<longrightarrow> k \<in> set (dirty_buckets p')) \<and>
     (\<forall>k\<in>set (dirty_buckets p'). k \<in> set (dirty_buckets p) \<or> in_lane k) \<and>
     (distinct (dirty_buckets p) \<longrightarrow> distinct (dirty_buckets p')) \<and>
     hash_refcount p' = hash_refcount p \<and> worker_hashes p' = worker_hashes p \<and>
     pub_seq p' = pub_seq p"

lemma delete_fingerprint_deletion:
  "deletion xxh (snd (probe xxh h)) (fst (probe xxh h)) p (delete_fingerprint xxh h p)"
proof -
  obtain f a where fa: "probe xxh h = (f, a)" by (cases "probe xxh h")
  have f: "f \<noteq> 0" and a: "in_lane a"
    using probe_fp_nonzero[of xxh h] probe_in_lane[of xxh h] by (simp_all add: fa)
  define bb where "bb = alt_index xxh a f"
  have bl: "in_lane bb" unfolding bb_def by (rule alt_index_in_lane)
  obtain oa ba where ta: "try_delete (buckets p a) f = (oa, ba)" by (cases "try_delete (buckets p a) f")
  obtain ob b' where tb: "try_delete (buckets p bb) f = (ob, b')" by (cases "try_delete (buckets p bb) f")
  note ca = try_delete_cases[OF f ta] and cb = try_delete_cases[OF f tb]
  have pair: "in_pair xxh bb i f \<longleftrightarrow> in_pair xxh a i f" if "in_lane i" for i
    unfolding bb_def by (rule in_pair_alt[OF that a])
  have direct: "deletion xxh a f p (decr_items (mark_dirty j (set_bucket j x p)))"
    if "in_lane j" "j = a \<or> j = bb" "f \<in># fps (buckets p j)" "fps x = fps (buckets p j) - {#f#}" for j x
  proof -
    have "in_pair xxh j i f \<longleftrightarrow> in_pair xxh a i f" if "in_lane i" for i
      using \<open>j = a \<or> j = bb\<close> pair[OF that] by auto
    then show ?thesis
      using load_remove[where xxh = xxh and B = "buckets p" and j = j and b = x and g = f, OF _ that(3,4)] that(1)
      by (auto simp: deletion_def)
  qed
  show ?thesis
  proof (cases "oa \<or> ob")
    case True
    then show ?thesis
      using direct[OF a, of ba] direct[OF bl, of b'] ca cb ta tb
      by (auto simp: delete_fingerprint_def fa bb_def [symmetric] split: if_splits)
  next
    case False
    have "load xxh (buckets p) i f = 0" if "in_lane i" "in_pair xxh a i f" for i
    proof -
      have "f \<notin># fps (buckets p a)" "f \<notin># fps (buckets p bb)" using ca cb False by auto
      then show ?thesis
        using that(2) cuckoo.alt_alt[OF that(1), of xxh f]
        by (auto simp: load_def in_pair_def bb_def not_in_iff)
    qed
    with False show ?thesis
      using ta tb by (auto simp: delete_fingerprint_def fa bb_def [symmetric] deletion_def)
  qed
qed

section \<open>The ownership tables\<close>

definition tcount :: "xxh3 \<Rightarrow> ckf_producer \<Rightarrow> u64 \<Rightarrow> fp \<Rightarrow> nat" where
  "tcount xxh p i f =
     length (filter (\<lambda>h. fst (probe xxh h) = f \<and> in_pair xxh (snd (probe xxh h)) i f)
       (map fst (hash_refcount p)))"

definition entry_ok :: "backend_id set \<Rightarrow> hash_entry \<Rightarrow> bool" where
  "entry_ok fleet e \<longleftrightarrow> he_owners e \<noteq> [] \<and> distinct (he_owners e) \<and> set (he_owners e) \<subseteq> fleet \<and>
     he_refcount e = of_nat (length (he_owners e))"

definition owners_of :: "ckf_producer \<Rightarrow> u64 \<Rightarrow> backend_id set" where
  "owners_of p h = set (he_owners (entry_or_default p h))"

definition tables_ok :: "backend_id set \<Rightarrow> (backend_id \<Rightarrow> u64 list) \<Rightarrow> ckf_producer \<Rightarrow> bool" where
  "tables_ok fleet H p \<longleftrightarrow>
     keys_distinct (hash_refcount p) \<and> keys_distinct (worker_hashes p) \<and>
     (\<forall>h e. map_of (hash_refcount p) h = Some e \<longrightarrow> entry_ok fleet e) \<and>
     (\<forall>w. distinct (H w)) \<and> (\<forall>w h. h \<in> set (H w) \<longleftrightarrow> w \<in> owners_of p h)"

definition dirty_ok :: "ckf_producer \<Rightarrow> bool" where
  "dirty_ok p \<longleftrightarrow> distinct (dirty_buckets p) \<and> (\<forall>k\<in>set (dirty_buckets p). in_lane k)"

definition producer_ok :: "backend_id set \<Rightarrow> ckf_producer \<Rightarrow> bool" where
  "producer_ok fleet p \<longleftrightarrow> tables_ok fleet (hashes_of p) p \<and> dirty_ok p"

lemma tables_okD:
  assumes "tables_ok fleet H p"
  shows "keys_distinct (hash_refcount p)" "keys_distinct (worker_hashes p)"
    "map_of (hash_refcount p) h = Some e \<Longrightarrow> entry_ok fleet e"
    "distinct (H w)" "h \<in> set (H w) \<longleftrightarrow> w \<in> owners_of p h"
  using assms by (auto simp: tables_ok_def)

lemma owners_of_None: "map_of (hash_refcount p) h = None \<Longrightarrow> owners_of p h = {}"
  by (simp add: owners_of_def entry_or_default_def)

lemma owners_of_Some: "map_of (hash_refcount p) h = Some e \<Longrightarrow> owners_of p h = set (he_owners e)"
  by (simp add: owners_of_def entry_or_default_def)

lemma owners_of_cong: "hash_refcount p = hash_refcount q \<Longrightarrow> owners_of p h = owners_of q h"
  by (simp add: owners_of_def entry_or_default_def)

lemma tables_ok_cong:
  "hash_refcount p = hash_refcount q \<Longrightarrow> worker_hashes p = worker_hashes q \<Longrightarrow>
    tables_ok fleet H p = tables_ok fleet H q"
  using owners_of_cong[of p q] by (simp add: tables_ok_def)

lemma hashes_of_cong: "worker_hashes p = worker_hashes q \<Longrightarrow> hashes_of p w = hashes_of q w"
  by (simp add: hashes_of_def)

lemma tcount_cong: "hash_refcount p = hash_refcount q \<Longrightarrow> tcount xxh p i f = tcount xxh q i f"
  by (simp add: tcount_def)

lemma entry_ok_card:
  assumes "entry_ok fleet e" "finite fleet" "card fleet < 2 ^ 32"
  shows "length (he_owners e) < 2 ^ 32" "unat (he_refcount e) = length (he_owners e)"
proof -
  have "length (he_owners e) = card (set (he_owners e))"
    using assms(1) by (simp add: entry_ok_def distinct_card)
  also have "\<dots> \<le> card fleet" using assms by (intro card_mono) (auto simp: entry_ok_def)
  finally show "length (he_owners e) < 2 ^ 32" using assms(3) by simp
  then show "unat (he_refcount e) = length (he_owners e)"
    using assms(1) by (simp add: entry_ok_def unat_of_nat)
qed

text \<open>The last owner leaving and another owner leaving.\<close>

lemma last_owner_iff:
  assumes "entry_ok fleet e" "finite fleet" "card fleet < 2 ^ 32" "w \<in> set (he_owners e)"
  shows "sat_sub (he_refcount e) 1 = 0 \<longleftrightarrow> he_owners e = [w]"
    and "he_owners e \<noteq> [w] \<Longrightarrow> entry_ok fleet
      \<lparr>he_refcount = sat_sub (he_refcount e) 1, he_owners = snd (hs_remove w (he_owners e))\<rparr>"
proof -
  note len = entry_ok_card[OF assms(1-3)]
  have d: "distinct (he_owners e)" using assms(1) by (simp add: entry_ok_def)
  have one: "length (he_owners e) = 1 \<longleftrightarrow> he_owners e = [w]"
    using assms(4) by (cases "he_owners e") auto
  have pos: "0 < length (he_owners e)" using assms(4) by (cases "he_owners e") auto
  have u: "unat (sat_sub (he_refcount e) 1) = length (he_owners e) - 1"
    by (simp add: unat_sat_sub len)
  show iff: "sat_sub (he_refcount e) 1 = 0 \<longleftrightarrow> he_owners e = [w]"
    using u one pos by (metis One_nat_def Suc_pred diff_self_eq_0 unat_0 unat_0_iff)
  assume "he_owners e \<noteq> [w]"
  then have "1 < length (he_owners e)" using one pos by linarith
  moreover have "length (snd (hs_remove w (he_owners e))) = length (he_owners e) - 1"
    using assms(4) d by (simp add: length_hs_remove)
  moreover have "sat_sub (he_refcount e) 1 = of_nat (length (he_owners e) - 1)"
    unfolding u [symmetric] by simp
  ultimately show "entry_ok fleet
      \<lparr>he_refcount = sat_sub (he_refcount e) 1, he_owners = snd (hs_remove w (he_owners e))\<rparr>"
    using assms(1) d by (auto simp: entry_ok_def)
qed

lemma drop_owner_tables:
  assumes ok: "tables_ok fleet H p" and fl: "finite fleet" "card fleet < 2 ^ 32"
    and e: "map_of (hash_refcount p) h = Some e" and w: "w \<in> set (he_owners e)"
  shows "tables_ok fleet (H(w := removeAll h (H w))) (drop_owner xxh h w e p)"
    and "worker_hashes (drop_owner xxh h w e p) = worker_hashes p"
    and "pub_seq (drop_owner xxh h w e p) = pub_seq p"
proof -
  define e' where "e' = \<lparr>he_refcount = sat_sub (he_refcount e) 1, he_owners = snd (hs_remove w (he_owners e))\<rparr>"
  define p1 where "p1 = p\<lparr>hash_refcount := AList.update h e' (hash_refcount p)\<rparr>"
  define p2 where "p2 = delete_fingerprint xxh h p1"
  have p2: "hash_refcount p2 = hash_refcount p1" "worker_hashes p2 = worker_hashes p1" "pub_seq p2 = pub_seq p1"
    using delete_fingerprint_deletion[of xxh h p1] by (simp_all add: deletion_def p2_def)
  define p3 where "p3 = p2\<lparr>hash_refcount := AList.delete h (hash_refcount p2)\<rparr>"
  have eo: "entry_ok fleet e" using tables_okD(3)[OF ok e] .
  have dr: "drop_owner xxh h w e p = (if he_owners e = [w] then p3 else p1)"
    using last_owner_iff(1)[OF eo fl w]
    by (simp add: drop_owner_def e'_def [symmetric] p1_def [symmetric] p2_def [symmetric] p3_def [symmetric])
      (simp add: e'_def)
  show "worker_hashes (drop_owner xxh h w e p) = worker_hashes p"
    "pub_seq (drop_owner xxh h w e p) = pub_seq p"
    by (simp_all add: dr p1_def p2 p3_def)
  have H: "h' \<in> set ((H(w := removeAll h (H w))) w') \<longleftrightarrow>
      (if h' = h then w' \<in> set (he_owners e) - {w} else w' \<in> owners_of p h')" for h' w'
    using tables_okD(5)[OF ok] owners_of_Some[OF e] by auto
  have D: "distinct ((H(w := removeAll h (H w))) w')" for w'
    using tables_okD(4)[OF ok] by (simp add: distinct_removeAll)
  show "tables_ok fleet (H(w := removeAll h (H w))) (drop_owner xxh h w e p)"
  proof (cases "he_owners e = [w]")
    case True
    have m: "map_of (hash_refcount p3) = (map_of (hash_refcount p))(h := None)"
      by (simp add: p3_def p2 p1_def)
    have o: "owners_of p3 h' = (if h' = h then {} else owners_of p h')" for h'
      by (auto simp: owners_of_def entry_or_default_def m)
    have "keys_distinct (hash_refcount p3)" "keys_distinct (worker_hashes p3)"
      using tables_okD(1,2)[OF ok] by (simp_all add: p3_def p2 p1_def)
    then show ?thesis
      using True tables_okD(3)[OF ok] D H by (auto simp: tables_ok_def dr m o)
  next
    case False
    have m: "map_of (hash_refcount p1) = (map_of (hash_refcount p))(h \<mapsto> e')"
      by (simp add: p1_def)
    have o: "owners_of p1 h' = (if h' = h then set (he_owners e) - {w} else owners_of p h')" for h'
      by (auto simp: owners_of_def entry_or_default_def m e'_def)
    have "entry_ok fleet e'" using last_owner_iff(2)[OF eo fl w False] by (simp add: e'_def)
    moreover have "keys_distinct (hash_refcount p1)" "keys_distinct (worker_hashes p1)"
      using tables_okD(1,2)[OF ok] by (simp_all add: p1_def)
    ultimately show ?thesis
      using False tables_okD(3)[OF ok] D H by (auto simp: tables_ok_def dr m o)
  qed
qed


section \<open>Accounting: fingerprints stored against hashes tracked\<close>

text \<open>
  For every fingerprint and every pair of candidate buckets: the pair never holds more copies than
  there are tracked hashes with that address, and, as long as no insertion was given up, exactly
  as many.
\<close>

definition never_over :: "xxh3 \<Rightarrow> ckf_producer \<Rightarrow> bool" where
  "never_over xxh p \<longleftrightarrow> (\<forall>i f. in_lane i \<longrightarrow> load xxh (buckets p) i f \<le> tcount xxh p i f)"

definition exact :: "xxh3 \<Rightarrow> ckf_producer \<Rightarrow> bool" where
  "exact xxh p \<longleftrightarrow> (\<forall>i f. in_lane i \<longrightarrow> load xxh (buckets p) i f = tcount xxh p i f)"

definition addr_hit :: "xxh3 \<Rightarrow> u64 \<Rightarrow> u64 \<Rightarrow> fp \<Rightarrow> nat" where
  "addr_hit xxh h i f = (if f = fst (probe xxh h) \<and> in_pair xxh (snd (probe xxh h)) i f then 1 else 0)"

lemma tcount_update_new:
  assumes "map_of (hash_refcount p) h = None"
    "hash_refcount p' = AList.update h e (hash_refcount p)"
  shows "tcount xxh p' i f = tcount xxh p i f + addr_hit xxh h i f"
proof -
  have "h \<notin> set (map fst (hash_refcount p))" using assms(1) by (simp add: map_of_eq_None_iff)
  then have "map fst (hash_refcount p') = map fst (hash_refcount p) @ [h]"
    by (simp add: assms(2) update_keys)
  then show ?thesis by (auto simp: tcount_def addr_hit_def)
qed

lemma tcount_update_old:
  assumes "map_of (hash_refcount p) h \<noteq> None"
    "hash_refcount p' = AList.update h e (hash_refcount p)"
  shows "tcount xxh p' i f = tcount xxh p i f"
proof -
  have "h \<in> set (map fst (hash_refcount p))" using assms(1) by (simp add: map_of_eq_None_iff)
  then have "map fst (hash_refcount p') = map fst (hash_refcount p)"
    by (simp add: assms(2) update_keys)
  then show ?thesis by (simp add: tcount_def)
qed

lemma length_filter_removeAll_distinct:
  "distinct xs \<Longrightarrow> x \<in> set xs \<Longrightarrow>
    length (filter P xs) = length (filter P (removeAll x xs)) + (if P x then 1 else 0)"
proof (induction xs)
  case Nil
  then show ?case by simp
next
  case (Cons a xs)
  then show ?case by (cases "x = a") simp_all
qed

lemma tcount_delete:
  assumes "keys_distinct (hash_refcount p)" "map_of (hash_refcount p) h \<noteq> None"
    "hash_refcount p' = AList.delete h (hash_refcount p)"
  shows "tcount xxh p i f = tcount xxh p' i f + addr_hit xxh h i f"
proof -
  have h: "h \<in> set (map fst (hash_refcount p))" using assms(2) by (simp add: map_of_eq_None_iff)
  have k: "map fst (hash_refcount p') = removeAll h (map fst (hash_refcount p))"
    by (simp add: assms(3) delete_keys)
  show ?thesis
    unfolding tcount_def k length_filter_removeAll_distinct[OF assms(1) h]
    by (auto simp: addr_hit_def)
qed

text \<open>How one operation changes the accounting, the dirty set and the buckets.\<close>

definition op_effect :: "xxh3 \<Rightarrow> ckf_producer \<Rightarrow> ckf_producer \<Rightarrow> bool" where
  "op_effect xxh p p' \<longleftrightarrow>
     (never_over xxh p \<longrightarrow> never_over xxh p') \<and>
     (dirty_ok p \<longrightarrow> dirty_ok p') \<and>
     set (dirty_buckets p) \<subseteq> set (dirty_buckets p') \<and>
     (\<forall>k. buckets p' k \<noteq> buckets p k \<longrightarrow> k \<in> set (dirty_buckets p')) \<and>
     pub_seq p' = pub_seq p"

lemma op_effect_refl: "op_effect xxh p p"
  by (simp add: op_effect_def)

lemma op_effect_trans: "op_effect xxh p q \<Longrightarrow> op_effect xxh q r \<Longrightarrow> op_effect xxh p r"
proof -
  assume pq: "op_effect xxh p q" and qr: "op_effect xxh q r"
  have "k \<in> set (dirty_buckets r)" if "buckets r k \<noteq> buckets p k" for k
  proof (cases "buckets q k = buckets p k")
    case True
    with that qr show ?thesis by (simp add: op_effect_def)
  next
    case False
    with pq qr show ?thesis by (auto simp: op_effect_def)
  qed
  moreover have "set (dirty_buckets p) \<subseteq> set (dirty_buckets r)"
    using pq qr unfolding op_effect_def by blast
  ultimately show ?thesis using pq qr unfolding op_effect_def by simp
qed

lemma drop_owner_effect:
  assumes ok: "tables_ok fleet H p" and fl: "finite fleet" "card fleet < 2 ^ 32"
    and e: "map_of (hash_refcount p) h = Some e" and w: "w \<in> set (he_owners e)"
  shows "op_effect xxh p (drop_owner xxh h w e p)"
    and "exact xxh p \<Longrightarrow> exact xxh (drop_owner xxh h w e p)"
proof -
  define e' where "e' = \<lparr>he_refcount = sat_sub (he_refcount e) 1, he_owners = snd (hs_remove w (he_owners e))\<rparr>"
  define p1 where "p1 = p\<lparr>hash_refcount := AList.update h e' (hash_refcount p)\<rparr>"
  define p2 where "p2 = delete_fingerprint xxh h p1"
  define p3 where "p3 = p2\<lparr>hash_refcount := AList.delete h (hash_refcount p2)\<rparr>"
  have eo: "entry_ok fleet e" using tables_okD(3)[OF ok e] .
  have dr: "drop_owner xxh h w e p = (if he_owners e = [w] then p3 else p1)"
    using last_owner_iff(1)[OF eo fl w]
    by (simp add: drop_owner_def e'_def [symmetric] p1_def [symmetric] p2_def [symmetric] p3_def [symmetric])
      (simp add: e'_def)
  note del = delete_fingerprint_deletion[of xxh h p1, folded p2_def]
  have t1: "tcount xxh p1 i f = tcount xxh p i f" for i f
    by (rule tcount_update_old[of _ h _ e']) (simp_all add: e p1_def)
  have hr2: "hash_refcount p2 = hash_refcount p1" and ps2: "pub_seq p2 = pub_seq p"
    using del by (simp_all add: deletion_def p1_def)
  have "tcount xxh p2 i f = tcount xxh p3 i f + addr_hit xxh h i f" for i f
    by (rule tcount_delete)
      (use tables_okD(1)[OF ok] in \<open>simp_all add: hr2 p3_def, simp_all add: p1_def\<close>)
  then have t3: "tcount xxh p i f = tcount xxh p3 i f + addr_hit xxh h i f" for i f
    using t1 tcount_cong[OF hr2, of xxh] by simp
  have l3: "load xxh (buckets p3) i f = load xxh (buckets p) i f - addr_hit xxh h i f" if "in_lane i" for i f
    using del that by (auto simp: deletion_def addr_hit_def p3_def) (simp_all add: p1_def)
  have d3: "set (dirty_buckets p) \<subseteq> set (dirty_buckets p3)"
    "\<forall>k. buckets p3 k \<noteq> buckets p k \<longrightarrow> k \<in> set (dirty_buckets p3)"
    "dirty_ok p \<longrightarrow> dirty_ok p3" "pub_seq p3 = pub_seq p"
    using del ps2 by (auto simp: deletion_def p3_def p1_def dirty_ok_def)
  have n3: "never_over xxh p \<longrightarrow> never_over xxh p3"
  proof
    assume n: "never_over xxh p"
    have "load xxh (buckets p3) i f \<le> tcount xxh p3 i f" if "in_lane i" for i f
    proof -
      have "load xxh (buckets p) i f \<le> tcount xxh p i f" using n that by (simp add: never_over_def)
      then show ?thesis using l3[OF that, of f] t3[of i f] by linarith
    qed
    then show "never_over xxh p3" by (simp add: never_over_def)
  qed
  have x3: "exact xxh p3" if x: "exact xxh p"
  proof -
    have "load xxh (buckets p3) i f = tcount xxh p3 i f" if "in_lane i" for i f
    proof -
      have "load xxh (buckets p) i f = tcount xxh p i f" using x that by (simp add: exact_def)
      then show ?thesis using l3[OF that, of f] t3[of i f] by linarith
    qed
    then show ?thesis by (simp add: exact_def)
  qed
  have e1: "op_effect xxh p p1" "exact xxh p \<Longrightarrow> exact xxh p1"
    using t1 by (auto simp: op_effect_def never_over_def exact_def dirty_ok_def) (simp_all add: p1_def)
  show "op_effect xxh p (drop_owner xxh h w e p)"
    using e1(1) n3 d3 by (simp add: dr) (simp add: op_effect_def)
  show "exact xxh p \<Longrightarrow> exact xxh (drop_owner xxh h w e p)"
    using e1(2) x3 by (simp add: dr)
qed

section \<open>Every event keeps the invariant\<close>

lemma hashes_of_new [simp]: "hashes_of (producer_with_seed s) w = []"
  by (simp add: hashes_of_def producer_with_seed_def)

lemma producer_ok_new: "producer_ok fleet (producer_with_seed s)"
  by (simp add: producer_ok_def tables_ok_def dirty_ok_def owners_of_def entry_or_default_def)
    (simp add: producer_with_seed_def)

lemma exact_new: "exact xxh (producer_with_seed s)"
  by (simp add: exact_def load_def tcount_def producer_with_seed_def)

lemma exact_never_over: "exact xxh p \<Longrightarrow> never_over xxh p"
  by (simp add: exact_def never_over_def)

definition stored_fits :: "xxh3 \<Rightarrow> u64 \<Rightarrow> backend_id \<Rightarrow> ckf_producer \<Rightarrow> bool" where
  "stored_fits xxh h w p \<longleftrightarrow>
     (he_owners (entry_or_default p h) = [] \<longrightarrow> fst (insert_fingerprint xxh h (add_owner h w p)))"

lemma add_owner_simps [simp]:
  "buckets (add_owner h w p) = buckets p" "dirty_buckets (add_owner h w p) = dirty_buckets p"
  "pub_seq (add_owner h w p) = pub_seq p"
  by (simp_all add: add_owner_def Let_def)

lemma add_owner_tables:
  assumes ok: "tables_ok fleet (hashes_of p) p" and w: "w \<in> fleet"
    and new: "w \<notin> owners_of p h"
  shows "tables_ok fleet (hashes_of (add_owner h w p)) (add_owner h w p)"
proof -
  define q where "q = add_owner h w p"
  define e where "e = entry_or_default p h"
  define e' where "e' = \<lparr>he_refcount = he_refcount e + 1, he_owners = snd (hs_insert w (he_owners e))\<rparr>"
  have hr: "map_of (hash_refcount q) = (map_of (hash_refcount p))(h \<mapsto> e')"
    by (simp add: q_def add_owner_def e_def e'_def Let_def)
  have wh: "hashes_of q = (hashes_of p)(w := snd (hs_insert h (hashes_of p w)))"
    by (rule ext) (simp add: q_def add_owner_def Let_def hashes_of_def)
  have o: "owners_of q h' = (if h' = h then insert w (owners_of p h) else owners_of p h')" for h'
    by (auto simp: owners_of_def entry_or_default_def hr e'_def) (auto simp: e_def entry_or_default_def)
  have ne: "w \<notin> set (he_owners e)" using new by (simp add: owners_of_def e_def)
  have "e = \<lparr>he_refcount = 0, he_owners = []\<rparr> \<or> entry_ok fleet e"
    using tables_okD(3)[OF ok] by (auto simp: e_def entry_or_default_def split: option.splits)
  then have "entry_ok fleet e'"
    using w ne by (auto simp: entry_ok_def e'_def hs_insert_def add.commute)
  moreover have "keys_distinct (hash_refcount q)" "keys_distinct (worker_hashes q)"
    using tables_okD(1,2)[OF ok] by (simp_all add: q_def add_owner_def Let_def)
  ultimately have "tables_ok fleet (hashes_of q) q"
    using tables_okD(3,4,5)[OF ok] by (auto simp: tables_ok_def hr wh o)
  then show ?thesis by (simp add: q_def)
qed

lemma insertion_effect:
  assumes "insertion xxh (snd (probe xxh h)) (fst (probe xxh h)) p1 ok p'"
    and t: "\<And>i f. tcount xxh p1 i f = tcount xxh p i f + addr_hit xxh h i f"
    and b: "buckets p1 = buckets p" "dirty_buckets p1 = dirty_buckets p" "pub_seq p1 = pub_seq p"
  shows "op_effect xxh p p'" and "exact xxh p \<Longrightarrow> ok \<Longrightarrow> exact xxh p'"
proof -
  have t': "tcount xxh p' i f = tcount xxh p i f + addr_hit xxh h i f" for i f
    using assms(1) t tcount_cong[of p' p1 xxh] by (simp add: insertion_def)
  have l: "load xxh (buckets p') i f = load xxh (buckets p) i f + (if ok then addr_hit xxh h i f else 0)"
    if "in_lane i" for i f
    using assms(1) that b by (auto simp: insertion_def addr_hit_def split: if_splits)
  have "never_over xxh p \<longrightarrow> never_over xxh p'"
    using t' l by (auto simp: never_over_def intro: le_add1 trans_le_add1 split: if_splits)
  then show "op_effect xxh p p'"
    using assms(1) b by (auto simp: op_effect_def insertion_def dirty_ok_def split: if_splits)
  show "exact xxh p \<Longrightarrow> ok \<Longrightarrow> exact xxh p'"
    using t' l by (simp add: exact_def)
qed

lemma prod_apply_stored_step:
  assumes ok: "producer_ok fleet p" and w: "w \<in> fleet"
  shows "producer_ok fleet (prod_apply_stored xxh h w p)"
    and "op_effect xxh p (prod_apply_stored xxh h w p)"
    and "exact xxh p \<Longrightarrow> stored_fits xxh h w p \<Longrightarrow> exact xxh (prod_apply_stored xxh h w p)"
proof -
  have tab: "tables_ok fleet (hashes_of p) p" and dok: "dirty_ok p"
    using ok by (simp_all add: producer_ok_def)
  define q where "q = prod_apply_stored xxh h w p"
  have "producer_ok fleet q \<and> op_effect xxh p q \<and> (exact xxh p \<longrightarrow> stored_fits xxh h w p \<longrightarrow> exact xxh q)"
  proof (cases "w \<in> owners_of p h")
    case True
    then obtain e where "map_of (hash_refcount p) h = Some e"
      using owners_of_None by fastforce
    then have "q = p"
      using True by (simp add: q_def prod_apply_stored_def owners_of_def entry_or_default_def update_triv)
    with ok show ?thesis by (simp add: op_effect_refl)
  next
    case new: False
    define p1 where "p1 = add_owner h w p"
    have tab1: "tables_ok fleet (hashes_of p1) p1"
      unfolding p1_def by (rule add_owner_tables[OF tab w new])
    have q: "q = (if he_owners (entry_or_default p h) = [] then snd (insert_fingerprint xxh h p1) else p1)"
      using new by (simp add: q_def prod_apply_stored_def owners_of_def p1_def Let_def)
    show ?thesis
    proof (cases "map_of (hash_refcount p) h")
      case None
      obtain okf p' where ins: "insert_fingerprint xxh h p1 = (okf, p')"
        by (cases "insert_fingerprint xxh h p1")
      have q': "q = p'" using None ins by (simp add: q entry_or_default_def)
      have ff: "stored_fits xxh h w p \<longleftrightarrow> okf"
        using None ins by (simp add: stored_fits_def entry_or_default_def p1_def)
      have t: "tcount xxh p1 i f = tcount xxh p i f + addr_hit xxh h i f" for i f
        by (rule tcount_update_new[OF None]) (simp add: p1_def add_owner_def Let_def)
      note I = insert_fingerprint_insertion[OF ins]
      have "tables_ok fleet (hashes_of p') p'"
        using tab1 I tables_ok_cong[of p' p1] hashes_of_cong[of p' p1]
        by (simp add: insertion_def) (metis ext)
      then show ?thesis
        using insertion_effect[OF I t] dok by (auto simp: q' ff p1_def producer_ok_def op_effect_def)
    next
      case (Some e)
      then have "he_owners e \<noteq> []" using tables_okD(3)[OF tab Some] by (simp add: entry_ok_def)
      then have q': "q = p1" using Some by (simp add: q entry_or_default_def)
      have "tcount xxh p1 i f = tcount xxh p i f" for i f
        by (rule tcount_update_old[of _ h]) (simp_all add: Some p1_def add_owner_def Let_def)
      then show ?thesis
        using tab1 dok unfolding q'
        by (auto simp: op_effect_def never_over_def exact_def producer_ok_def dirty_ok_def) (simp_all add: p1_def)
    qed
  qed
  then show "producer_ok fleet (prod_apply_stored xxh h w p)"
    "op_effect xxh p (prod_apply_stored xxh h w p)"
    "exact xxh p \<Longrightarrow> stored_fits xxh h w p \<Longrightarrow> exact xxh (prod_apply_stored xxh h w p)"
    by (simp_all add: q_def)
qed

lemma forget_hash_simps [simp]:
  "buckets (forget_hash h w p) = buckets p" "dirty_buckets (forget_hash h w p) = dirty_buckets p"
  "pub_seq (forget_hash h w p) = pub_seq p" "hash_refcount (forget_hash h w p) = hash_refcount p"
  by (simp_all add: forget_hash_def split: option.splits)

lemma table_only_effect:
  assumes "buckets q = buckets p" "dirty_buckets q = dirty_buckets p" "pub_seq q = pub_seq p"
    "hash_refcount q = hash_refcount p"
  shows "op_effect xxh p q" "exact xxh p \<Longrightarrow> exact xxh q"
  using assms tcount_cong[of q p xxh]
  by (auto simp: op_effect_def never_over_def exact_def dirty_ok_def)

lemma prod_apply_removed_step:
  assumes ok: "producer_ok fleet p" and fl: "finite fleet" "card fleet < 2 ^ 32"
  shows "producer_ok fleet (prod_apply_removed xxh h w p)"
    and "op_effect xxh p (prod_apply_removed xxh h w p)"
    and "exact xxh p \<Longrightarrow> exact xxh (prod_apply_removed xxh h w p)"
proof -
  have tab: "tables_ok fleet (hashes_of p) p" and dok: "dirty_ok p"
    using ok by (simp_all add: producer_ok_def)
  define q where "q = prod_apply_removed xxh h w p"
  have "producer_ok fleet q \<and> op_effect xxh p q \<and> (exact xxh p \<longrightarrow> exact xxh q)"
  proof (cases "w \<in> owners_of p h")
    case False
    then have "q = p"
      by (auto simp: q_def prod_apply_removed_def owners_of_def entry_or_default_def split: option.splits)
    with ok show ?thesis by (simp add: op_effect_refl)
  next
    case True
    then obtain e where e: "map_of (hash_refcount p) h = Some e" using owners_of_None by fastforce
    have w: "w \<in> set (he_owners e)" using True owners_of_Some[OF e] by simp
    define p1 where "p1 = forget_hash h w p"
    have q: "q = drop_owner xxh h w e p1" using e w by (simp add: q_def prod_apply_removed_def p1_def)
    have "h \<in> set (hashes_of p w)" using True tables_okD(5)[OF tab] by simp
    then obtain s where s: "map_of (worker_hashes p) w = Some s"
      by (cases "map_of (worker_hashes p) w") (simp_all add: hashes_of_def)
    have H: "hashes_of p1 = (hashes_of p)(w := removeAll h (hashes_of p w))"
      using s by (auto simp: p1_def forget_hash_def hashes_of_def hs_remove_def fun_eq_iff)
    have tab1: "tables_ok fleet (hashes_of p) p1"
      using tab owners_of_cong[of p1 p]
      by (simp add: tables_ok_def p1_def) (simp add: forget_hash_def s)
    have e1: "map_of (hash_refcount p1) h = Some e" by (simp add: p1_def e)
    note D = drop_owner_tables[OF tab1 fl e1 w, of xxh] and E = drop_owner_effect[OF tab1 fl e1 w, of xxh]
    have "hashes_of q = hashes_of p1"
      by (rule ext, rule hashes_of_cong) (simp add: q D(2))
    then have "tables_ok fleet (hashes_of q) q" using D(1) by (simp add: q H)
    moreover have "op_effect xxh p p1" "exact xxh p \<Longrightarrow> exact xxh p1"
      by (rule table_only_effect; simp add: p1_def)+
    ultimately show ?thesis
      using E op_effect_trans[of xxh p p1 q] dok by (auto simp: q producer_ok_def op_effect_def)
  qed
  then show "producer_ok fleet (prod_apply_removed xxh h w p)"
    "op_effect xxh p (prod_apply_removed xxh h w p)"
    "exact xxh p \<Longrightarrow> exact xxh (prod_apply_removed xxh h w p)"
    by (simp_all add: q_def)
qed

lemma clear_hashes_step:
  assumes "tables_ok fleet (H(w := hs)) p" "finite fleet" "card fleet < 2 ^ 32"
  shows "tables_ok fleet (H(w := [])) (fold (clear_hash xxh w) hs p) \<and>
    worker_hashes (fold (clear_hash xxh w) hs p) = worker_hashes p \<and>
    op_effect xxh p (fold (clear_hash xxh w) hs p) \<and>
    (exact xxh p \<longrightarrow> exact xxh (fold (clear_hash xxh w) hs p))"
  using assms
proof (induction hs arbitrary: p)
  case Nil
  then show ?case by (simp add: op_effect_refl)
next
  case (Cons h hs)
  note tab = Cons.prems(1) and fl = Cons.prems(2,3)
  have "w \<in> owners_of p h" using tables_okD(5)[OF tab, of h w] by simp
  then obtain e where e: "map_of (hash_refcount p) h = Some e" using owners_of_None by fastforce
  have w: "w \<in> set (he_owners e)" using \<open>w \<in> owners_of p h\<close> owners_of_Some[OF e] by simp
  define p1 where "p1 = clear_hash xxh w h p"
  have p1: "p1 = drop_owner xxh h w e p" by (simp add: p1_def clear_hash_def e)
  have "distinct (h # hs)" using tables_okD(4)[OF tab, of w] by simp
  then have "(H(w := h # hs))(w := removeAll h ((H(w := h # hs)) w)) = H(w := hs)" by simp
  then have tab1: "tables_ok fleet (H(w := hs)) p1"
    using drop_owner_tables(1)[OF tab fl e w, of xxh] by (simp only: p1)
  show ?case
    using Cons.IH[OF tab1 fl] drop_owner_tables(2)[OF tab fl e w, of xxh]
      drop_owner_effect[OF tab fl e w, of xxh] op_effect_trans[of xxh p p1]
    by (simp add: p1_def [symmetric] p1 [symmetric])
qed

lemma prod_apply_clear_step:
  assumes ok: "producer_ok fleet p" and fl: "finite fleet" "card fleet < 2 ^ 32"
  shows "producer_ok fleet (prod_apply_clear xxh w p)"
    and "op_effect xxh p (prod_apply_clear xxh w p)"
    and "exact xxh p \<Longrightarrow> exact xxh (prod_apply_clear xxh w p)"
proof -
  have tab: "tables_ok fleet (hashes_of p) p" and dok: "dirty_ok p"
    using ok by (simp_all add: producer_ok_def)
  define p1 where "p1 = p\<lparr>worker_hashes := AList.delete w (worker_hashes p)\<rparr>"
  have tab1: "tables_ok fleet ((hashes_of p)(w := hashes_of p w)) p1"
    using tab owners_of_cong[of p1 p] by (simp add: tables_ok_def p1_def)
  define q where "q = fold (clear_hash xxh w) (hashes_of p w) p1"
  have q: "prod_apply_clear xxh w p = q" by (simp add: prod_apply_clear_def q_def p1_def)
  note S = clear_hashes_step[OF tab1 fl, of xxh, folded q_def]
  have "hashes_of q = (hashes_of p)(w := [])"
    using S by (auto simp: hashes_of_def p1_def)
  then have "tables_ok fleet (hashes_of q) q" using S by simp
  moreover have "op_effect xxh p p1" "exact xxh p \<Longrightarrow> exact xxh p1"
    by (rule table_only_effect; simp add: p1_def)+
  ultimately show "producer_ok fleet (prod_apply_clear xxh w p)"
    "op_effect xxh p (prod_apply_clear xxh w p)"
    "exact xxh p \<Longrightarrow> exact xxh (prod_apply_clear xxh w p)"
    using S op_effect_trans[of xxh p p1 q] dok by (auto simp: q producer_ok_def op_effect_def)
qed

section \<open>Events and runs\<close>

fun stores_fit :: "xxh3 \<Rightarrow> backend_id \<Rightarrow> u64 list \<Rightarrow> ckf_producer \<Rightarrow> bool" where
  "stores_fit xxh w [] p = True"
| "stores_fit xxh w (h # hs) p =
     (stored_fits xxh h w p \<and> stores_fit xxh w hs (prod_apply_stored xxh h w p))"

fun event_fits :: "xxh3 \<Rightarrow> kv_cache_event \<Rightarrow> backend_id \<Rightarrow> ckf_producer \<Rightarrow> bool" where
  "event_fits xxh (Stored _ hs _ _) w p = stores_fit xxh w hs p"
| "event_fits xxh _ w p = True"

fun is_reset :: "kv_cache_event \<Rightarrow> bool" where
  "is_reset (Reset _ _) = True"
| "is_reset _ = False"

lemma reset_internal_ok:
  "producer_ok fleet (reset_internal p)" "never_over xxh (reset_internal p)" "exact xxh (reset_internal p)"
  by (simp_all add: producer_ok_def tables_ok_def dirty_ok_def owners_of_def entry_or_default_def
      hashes_of_def reset_internal_def never_over_def exact_def load_def tcount_def)

lemma stores_step:
  assumes "producer_ok fleet p" "w \<in> fleet"
  shows "producer_ok fleet (fold (\<lambda>h. prod_apply_stored xxh h w) hs p) \<and>
    op_effect xxh p (fold (\<lambda>h. prod_apply_stored xxh h w) hs p) \<and>
    (exact xxh p \<longrightarrow> stores_fit xxh w hs p \<longrightarrow> exact xxh (fold (\<lambda>h. prod_apply_stored xxh h w) hs p))"
  using assms
proof (induction hs arbitrary: p)
  case Nil
  then show ?case by (simp add: op_effect_refl)
next
  case (Cons h hs)
  then show ?case
    using prod_apply_stored_step[OF Cons.prems, of xxh h] Cons.IH[of "prod_apply_stored xxh h w p"]
      op_effect_trans[of xxh p "prod_apply_stored xxh h w p"] by simp
qed

lemma removes_step:
  assumes "producer_ok fleet p" "finite fleet" "card fleet < 2 ^ 32"
  shows "producer_ok fleet (fold (\<lambda>h. prod_apply_removed xxh h w) hs p) \<and>
    op_effect xxh p (fold (\<lambda>h. prod_apply_removed xxh h w) hs p) \<and>
    (exact xxh p \<longrightarrow> exact xxh (fold (\<lambda>h. prod_apply_removed xxh h w) hs p))"
  using assms
proof (induction hs arbitrary: p)
  case Nil
  then show ?case by (simp add: op_effect_refl)
next
  case (Cons h hs)
  then show ?case
    using prod_apply_removed_step[OF Cons.prems, of xxh h w] Cons.IH[of "prod_apply_removed xxh h w p"]
      op_effect_trans[of xxh p "prod_apply_removed xxh h w p"] by simp
qed

lemma prod_apply_event_step:
  assumes ok: "producer_ok fleet p" and fl: "finite fleet" "card fleet < 2 ^ 32" and w: "w \<in> fleet"
  shows "producer_ok fleet (prod_apply_event xxh ev w p)"
    and "never_over xxh p \<Longrightarrow> never_over xxh (prod_apply_event xxh ev w p)"
    and "exact xxh p \<Longrightarrow> event_fits xxh ev w p \<Longrightarrow> exact xxh (prod_apply_event xxh ev w p)"
    and "\<not> is_reset ev \<Longrightarrow> op_effect xxh p (prod_apply_event xxh ev w p)"
  using stores_step[OF ok w, where xxh = xxh] removes_step[OF ok fl, where xxh = xxh and w = w]
    prod_apply_clear_step[OF ok fl, where xxh = xxh and w = w]
    reset_internal_ok
  by (cases ev; simp add: op_effect_def)+

type_synonym kv_feed = "(kv_cache_event \<times> backend_id) list"

definition prod_run :: "xxh3 \<Rightarrow> kv_feed \<Rightarrow> ckf_producer \<Rightarrow> ckf_producer" where
  "prod_run xxh evs p = fold (\<lambda>(ev, w). prod_apply_event xxh ev w) evs p"

fun run_fits :: "xxh3 \<Rightarrow> kv_feed \<Rightarrow> ckf_producer \<Rightarrow> bool" where
  "run_fits xxh [] p = True"
| "run_fits xxh ((ev, w) # evs) p =
     (event_fits xxh ev w p \<and> run_fits xxh evs (prod_apply_event xxh ev w p))"

lemma prod_run_simps [simp]:
  "prod_run xxh [] p = p"
  "prod_run xxh ((ev, w) # evs) p = prod_run xxh evs (prod_apply_event xxh ev w p)"
  by (simp_all add: prod_run_def)

lemma prod_run_inv:
  assumes "producer_ok fleet p" "finite fleet" "card fleet < 2 ^ 32" "snd ` set evs \<subseteq> fleet"
  shows "producer_ok fleet (prod_run xxh evs p)"
    and "never_over xxh p \<Longrightarrow> never_over xxh (prod_run xxh evs p)"
    and "exact xxh p \<Longrightarrow> run_fits xxh evs p \<Longrightarrow> exact xxh (prod_run xxh evs p)"
  using assms
proof (induction evs arbitrary: p)
  case Nil
  {
    case 1 then show ?case by simp
  next
    case 2 then show ?case by simp
  next
    case 3 then show ?case by simp
  }
next
  case (Cons e evs)
  obtain ev w where e: "e = (ev, w)" by (cases e)
  {
    case 1
    then show ?case using Cons.IH(1) prod_apply_event_step[where fleet = fleet and p = p and w = w and xxh = xxh and ev = ev] by (simp add: e)
  next
    case 2
    then show ?case using Cons.IH(2) prod_apply_event_step[where fleet = fleet and p = p and w = w and xxh = xxh and ev = ev] by (simp add: e)
  next
    case 3
    then show ?case using Cons.IH(3) prod_apply_event_step[where fleet = fleet and p = p and w = w and xxh = xxh and ev = ev] by (simp add: e)
  }
qed

section \<open>Queries against a lane\<close>

text \<open>Membership of a hash in a lane of buckets, in both of its candidate buckets.\<close>

definition lane_contains :: "xxh3 \<Rightarrow> (u64 \<Rightarrow> packed) \<Rightarrow> u64 \<Rightarrow> bool" where
  "lane_contains xxh B h =
     (let (f, a) = probe xxh h
      in bucket_contains (B a) f \<or> bucket_contains (B (alt_index xxh a f)) f)"

lemma lane_contains_load:
  "lane_contains xxh B h \<longleftrightarrow> 0 < load xxh B (snd (probe xxh h)) (fst (probe xxh h))"
  by (auto simp: lane_contains_def load_def case_prod_beta bucket_contains_fps probe_fp_nonzero
      count_greater_zero_iff)

lemma tcount_pos_iff:
  "0 < tcount xxh p i f \<longleftrightarrow>
     (\<exists>h\<in>set (map fst (hash_refcount p)). fst (probe xxh h) = f \<and> in_pair xxh (snd (probe xxh h)) i f)"
  by (auto simp: tcount_def filter_empty_conv)

definition is_tracked :: "ckf_producer \<Rightarrow> u64 \<Rightarrow> bool" where
  "is_tracked p h \<longleftrightarrow> h \<in> set (map fst (hash_refcount p))"

definition same_address :: "xxh3 \<Rightarrow> u64 \<Rightarrow> u64 \<Rightarrow> bool" where
  "same_address xxh h h' \<longleftrightarrow>
     (let (f, a) = probe xxh h; (f', a') = probe xxh h'
      in f = f' \<and> (a = a' \<or> a = alt_index xxh a' f'))"

lemma exact_lookup:
  assumes "exact xxh p"
  shows "lane_contains xxh (buckets p) h \<longleftrightarrow> (\<exists>h'. is_tracked p h' \<and> same_address xxh h' h)"
  using assms probe_in_lane[of xxh h]
  by (auto simp: lane_contains_load exact_def tcount_pos_iff is_tracked_def same_address_def
      case_prod_beta in_pair_def)

lemma never_over_lookup:
  assumes "never_over xxh p" "lane_contains xxh (buckets p) h"
  shows "\<exists>h'. is_tracked p h' \<and> same_address xxh h' h"
proof -
  have "0 < tcount xxh p (snd (probe xxh h)) (fst (probe xxh h))"
    using assms probe_in_lane[of xxh h] by (simp add: lane_contains_load never_over_def) (meson less_le_trans)
  then show ?thesis
    by (auto simp: tcount_pos_iff is_tracked_def same_address_def case_prod_beta in_pair_def)
qed

lemma is_tracked_iff_owned:
  assumes "producer_ok fleet p"
  shows "is_tracked p h \<longleftrightarrow> owners_of p h \<noteq> {}"
proof (cases "map_of (hash_refcount p) h")
  case None
  then show ?thesis by (auto simp: is_tracked_def owners_of_None map_of_eq_None_iff)
next
  case (Some e)
  then have "entry_ok fleet e" using assms tables_okD(3) by (auto simp: producer_ok_def)
  then show ?thesis
    using Some map_of_eq_None_iff[of "hash_refcount p" h]
    by (auto simp: is_tracked_def owners_of_Some entry_ok_def)
qed

end
