(* ===== verification/LocalCkf.thy ===== *)
theory LocalCkf
  imports Producer PrefixQuery
begin

text \<open>
  The local projection, \<open>crates/hier-kv-gateway-metadata/src/local_ckf.rs\<close>: sixteen lanes of cuckoo
  buckets, one per local backend, written by the ingestion path and read by the routing queries.
  Each operation is the effect of an uncontended call: a compare-and-swap loop that retries after a
  lost race ends with the same update on the value it finally read. Lane numbers come from
  \<open>assign_lane\<close> and stay below \<open>LOCAL_LANE_COUNT\<close> (\<open>lanes_ok\<close>), so no array access is out of range.
\<close>

section \<open>State and operations\<close>

definition LOCAL_LANE_COUNT :: nat where
  "LOCAL_LANE_COUNT = 16"

definition LOCAL_ACTIVE :: u8 where
  "LOCAL_ACTIVE = 0"

definition LOCAL_RETIRED :: u8 where
  "LOCAL_RETIRED = 1"

record local_ckf =
  l_buckets :: "u64 \<Rightarrow> nat \<Rightarrow> packed"
  l_lane_backends :: "(nat \<times> backend_id) list"
  l_backend_lanes :: "(backend_id \<times> nat) list"
  l_lane_status :: "nat \<Rightarrow> u8"

definition local_new :: local_ckf where
  "local_new = \<lparr>l_buckets = (\<lambda>_ _. 0), l_lane_backends = [], l_backend_lanes = [],
     l_lane_status = (\<lambda>_. LOCAL_RETIRED)\<rparr>"

definition zero_lane :: "nat \<Rightarrow> local_ckf \<Rightarrow> local_ckf" where
  "zero_lane lane c =
     c\<lparr>l_buckets := (\<lambda>i l. if l = lane \<and> in_lane i then 0 else l_buckets c i l)\<rparr>"

definition local_set_status :: "nat \<Rightarrow> u8 \<Rightarrow> local_ckf \<Rightarrow> local_ckf" where
  "local_set_status lane st c = c\<lparr>l_lane_status := (l_lane_status c)(lane := st)\<rparr>"

definition assign_lane :: "backend_id \<Rightarrow> local_ckf \<Rightarrow> nat option \<times> local_ckf" where
  "assign_lane b c =
     (case map_of (l_backend_lanes c) b of
        Some lane \<Rightarrow> (Some lane, c)
      | None \<Rightarrow>
          (case List.find (\<lambda>lane. map_of (l_lane_backends c) lane = None) [0..<LOCAL_LANE_COUNT] of
             None \<Rightarrow> (None, c)
           | Some lane \<Rightarrow>
               let c1 = zero_lane lane c;
                   c2 = c1\<lparr>l_lane_backends := AList.update lane b (l_lane_backends c1),
                           l_backend_lanes := AList.update b lane (l_backend_lanes c1)\<rparr>
               in (Some lane, local_set_status lane LOCAL_ACTIVE c2)))"

definition unassign_lane :: "backend_id \<Rightarrow> local_ckf \<Rightarrow> local_ckf" where
  "unassign_lane b c =
     (case map_of (l_backend_lanes c) b of
        None \<Rightarrow> c
      | Some lane \<Rightarrow>
          let c1 = c\<lparr>l_backend_lanes := AList.delete b (l_backend_lanes c)\<rparr>;
              c2 = zero_lane lane (local_set_status lane LOCAL_RETIRED c1)
          in c2\<lparr>l_lane_backends := AList.delete lane (l_lane_backends c2)\<rparr>)"

definition local_lane_of :: "backend_id \<Rightarrow> local_ckf \<Rightarrow> nat option" where
  "local_lane_of b c = map_of (l_backend_lanes c) b"

definition backend_of_lane :: "nat \<Rightarrow> local_ckf \<Rightarrow> backend_id option" where
  "backend_of_lane lane c = map_of (l_lane_backends c) lane"

definition try_insert_atomic :: "packed \<Rightarrow> fp \<Rightarrow> packed option" where
  "try_insert_atomic b f = (let (ok, b') = try_insert b f in if ok then Some b' else None)"

definition try_delete_atomic :: "packed \<Rightarrow> fp \<Rightarrow> packed option" where
  "try_delete_atomic b f = (let (ok, b') = try_delete b f in if ok then Some b' else None)"

definition put_bucket :: "u64 \<Rightarrow> nat \<Rightarrow> packed \<Rightarrow> local_ckf \<Rightarrow> local_ckf" where
  "put_bucket i lane v c = c\<lparr>l_buckets := (l_buckets c)(i := (l_buckets c i)(lane := v))\<rparr>"

fun try_buckets :: "(packed \<Rightarrow> packed option) \<Rightarrow> u64 list \<Rightarrow> nat \<Rightarrow> local_ckf \<Rightarrow> bool \<times> local_ckf" where
  "try_buckets op [] lane c = (False, c)"
| "try_buckets op (i # is) lane c =
     (case op (l_buckets c i lane) of
        Some v \<Rightarrow> (True, put_bucket i lane v c)
      | None \<Rightarrow> try_buckets op is lane c)"

definition local_insert :: "xxh3 \<Rightarrow> u64 \<Rightarrow> nat \<Rightarrow> local_ckf \<Rightarrow> bool \<times> local_ckf" where
  "local_insert xxh hash lane c =
     (if l_lane_status c lane \<noteq> LOCAL_ACTIVE then (False, c)
      else
        (let (f, bucket_a) = probe xxh hash; bucket_b = alt_index xxh bucket_a f
         in try_buckets (\<lambda>b. try_insert_atomic b f) [bucket_a, bucket_b] lane c))"

definition local_delete :: "xxh3 \<Rightarrow> u64 \<Rightarrow> nat \<Rightarrow> local_ckf \<Rightarrow> bool \<times> local_ckf" where
  "local_delete xxh hash lane c =
     (if l_lane_status c lane \<noteq> LOCAL_ACTIVE then (False, c)
      else
        (let (f, bucket_a) = probe xxh hash; bucket_b = alt_index xxh bucket_a f
         in try_buckets (\<lambda>b. try_delete_atomic b f) [bucket_a, bucket_b] lane c))"

definition local_hit :: "xxh3 \<Rightarrow> local_ckf \<Rightarrow> nat \<Rightarrow> u64 \<Rightarrow> bool" where
  "local_hit xxh c lane hash =
     (let (f, bucket_idx) = probe xxh hash in bucket_contains (l_buckets c bucket_idx lane) f)"

definition local_estimate_overlap :: "xxh3 \<Rightarrow> u64 list \<Rightarrow> nat \<Rightarrow> local_ckf \<Rightarrow> u32" where
  "local_estimate_overlap xxh hashes lane c =
     (if l_lane_status c lane \<noteq> LOCAL_ACTIVE then 0 else overlap_loop (local_hit xxh c lane) hashes 0)"

definition active_lanes :: "local_ckf \<Rightarrow> nat list" where
  "active_lanes c = filter (\<lambda>l. l_lane_status c l = LOCAL_ACTIVE) [0..<LOCAL_LANE_COUNT]"

fun all_overlaps_loop :: "xxh3 \<Rightarrow> local_ckf \<Rightarrow> nat list \<Rightarrow> u64 list \<Rightarrow> (nat \<Rightarrow> u32) \<Rightarrow> nat \<Rightarrow> u32" where
  "all_overlaps_loop xxh c active [] overlaps = overlaps"
| "all_overlaps_loop xxh c active (h # hs) overlaps =
     (let (any_hit, ov) = fold (\<lambda>lane (any_hit, ov).
            if local_hit xxh c lane h then (True, ov(lane := ov lane + 1)) else (any_hit, ov))
          active (False, overlaps)
      in if any_hit then all_overlaps_loop xxh c active hs ov else ov)"

definition estimate_all_overlaps :: "xxh3 \<Rightarrow> u64 list \<Rightarrow> local_ckf \<Rightarrow> (nat \<times> u32) list" where
  "estimate_all_overlaps xxh hashes c =
     (let active = active_lanes c
      in if active = [] then []
         else (let ov = all_overlaps_loop xxh c active hashes (\<lambda>_. 0)
               in map (\<lambda>lane. (lane, ov lane)) active))"

definition clear_lane :: "nat \<Rightarrow> local_ckf \<Rightarrow> local_ckf" where
  "clear_lane lane c =
     local_set_status lane LOCAL_ACTIVE (zero_lane lane (local_set_status lane LOCAL_RETIRED c))"

definition assigned_count :: "local_ckf \<Rightarrow> nat" where
  "assigned_count c = length (l_lane_backends c)"

section \<open>Lane assignment\<close>

definition lanes_ok :: "local_ckf \<Rightarrow> bool" where
  "lanes_ok c \<longleftrightarrow> keys_distinct (l_lane_backends c) \<and> keys_distinct (l_backend_lanes c) \<and>
     (\<forall>b l. map_of (l_backend_lanes c) b = Some l \<longleftrightarrow> map_of (l_lane_backends c) l = Some b) \<and>
     (\<forall>l b. map_of (l_lane_backends c) l = Some b \<longrightarrow> l < LOCAL_LANE_COUNT \<and> l_lane_status c l = LOCAL_ACTIVE) \<and>
     (\<forall>l. map_of (l_lane_backends c) l = None \<longrightarrow> l_lane_status c l = LOCAL_RETIRED)"

lemma lane_status_neq [simp]: "LOCAL_ACTIVE \<noteq> LOCAL_RETIRED" "LOCAL_RETIRED \<noteq> LOCAL_ACTIVE"
  by (simp_all add: LOCAL_ACTIVE_def LOCAL_RETIRED_def)

lemma zero_lane_simps [simp]:
  "l_lane_backends (zero_lane l c) = l_lane_backends c" "l_backend_lanes (zero_lane l c) = l_backend_lanes c"
  "l_lane_status (zero_lane l c) = l_lane_status c"
  "l_lane_backends (local_set_status l st c) = l_lane_backends c"
  "l_backend_lanes (local_set_status l st c) = l_backend_lanes c"
  "l_lane_status (local_set_status l st c) = (l_lane_status c)(l := st)"
  "l_buckets (local_set_status l st c) = l_buckets c"
  "l_buckets (zero_lane l c) i k = (if k = l \<and> in_lane i then 0 else l_buckets c i k)"
  by (simp_all add: zero_lane_def local_set_status_def)

lemma lanes_ok_new: "lanes_ok local_new"
  by (simp add: lanes_ok_def local_new_def)

lemma assign_lane_cases:
  assumes "lanes_ok c" "assign_lane b c = (r, c')"
  shows "lanes_ok c'"
    and "r = Some l \<Longrightarrow> l < LOCAL_LANE_COUNT \<and> local_lane_of b c' = Some l \<and> backend_of_lane l c' = Some b"
    and "r = None \<Longrightarrow> c' = c \<and> local_lane_of b c = None \<and> (\<forall>l<LOCAL_LANE_COUNT. backend_of_lane l c \<noteq> None)"
    and "local_lane_of b c = None \<Longrightarrow> r = Some l \<Longrightarrow> backend_of_lane l c = None \<and> (\<forall>i. in_lane i \<longrightarrow> l_buckets c' i l = 0)"
    and "b' \<noteq> b \<Longrightarrow> local_lane_of b' c' = local_lane_of b' c"
    and "r \<noteq> Some l \<Longrightarrow> l_buckets c' i l = l_buckets c i l"
proof -
  consider (old) lane where "map_of (l_backend_lanes c) b = Some lane" "r = Some lane" "c' = c"
    | (full) "map_of (l_backend_lanes c) b = None"
        "List.find (\<lambda>lane. map_of (l_lane_backends c) lane = None) [0..<LOCAL_LANE_COUNT] = None" "r = None" "c' = c"
    | (free) lane where "map_of (l_backend_lanes c) b = None"
        "List.find (\<lambda>lane. map_of (l_lane_backends c) lane = None) [0..<LOCAL_LANE_COUNT] = Some lane" "r = Some lane"
        "c' = local_set_status lane LOCAL_ACTIVE ((zero_lane lane c)\<lparr>
           l_lane_backends := AList.update lane b (l_lane_backends c),
           l_backend_lanes := AList.update b lane (l_backend_lanes c)\<rparr>)"
    using assms(2) by (auto simp: assign_lane_def Let_def split: option.splits)
  note cs = this
  show "lanes_ok c'"
  proof (cases rule: cs)
    case (free lane)
    then have "lane < LOCAL_LANE_COUNT" "map_of (l_lane_backends c) lane = None"
      by (auto simp: find_Some_iff)
    then show ?thesis
      using assms(1) free(1) unfolding free(4) lanes_ok_def by auto
  qed (use assms(1) in auto)
  show "l < LOCAL_LANE_COUNT \<and> local_lane_of b c' = Some l \<and> backend_of_lane l c' = Some b" if "r = Some l"
    using cs assms(1) that
    by cases (auto simp: lanes_ok_def local_lane_of_def backend_of_lane_def find_Some_iff)
  show "c' = c \<and> local_lane_of b c = None \<and> (\<forall>l<LOCAL_LANE_COUNT. backend_of_lane l c \<noteq> None)" if "r = None"
    using cs that by cases (auto simp: local_lane_of_def backend_of_lane_def find_None_iff)
  show "backend_of_lane l c = None \<and> (\<forall>i. in_lane i \<longrightarrow> l_buckets c' i l = 0)"
    if "local_lane_of b c = None" "r = Some l"
    using cs that by cases (auto simp: local_lane_of_def backend_of_lane_def find_Some_iff)
  show "local_lane_of b' c' = local_lane_of b' c" if "b' \<noteq> b"
    using cs that by cases (auto simp: local_lane_of_def)
  show "l_buckets c' i l = l_buckets c i l" if "r \<noteq> Some l"
    using cs that by cases auto
qed

lemma unassign_lane_ok:
  assumes "lanes_ok c"
  shows "lanes_ok (unassign_lane b c)" "local_lane_of b (unassign_lane b c) = None"
    "b' \<noteq> b \<Longrightarrow> local_lane_of b' (unassign_lane b c) = local_lane_of b' c"
    "local_lane_of b c \<noteq> Some l \<Longrightarrow> l_buckets (unassign_lane b c) i l = l_buckets c i l"
  using assms
  by (auto simp: unassign_lane_def lanes_ok_def local_lane_of_def Let_def simp del: map_of_eq_Some_iff
      split: option.splits) (metis option.inject)

section \<open>Insertion and deletion\<close>

abbreviation lane_of :: "local_ckf \<Rightarrow> nat \<Rightarrow> u64 \<Rightarrow> packed" where
  "lane_of c lane \<equiv> \<lambda>i. l_buckets c i lane"

lemma lane_put: "lane_of (put_bucket i lane v c) l = (if l = lane then (lane_of c l)(i := v) else lane_of c l)"
  by (auto simp: put_bucket_def)

lemma put_bucket_simps [simp]:
  "l_lane_status (put_bucket i lane v c) = l_lane_status c"
  "l_backend_lanes (put_bucket i lane v c) = l_backend_lanes c"
  "l_lane_backends (put_bucket i lane v c) = l_lane_backends c"
  by (simp_all add: put_bucket_def)

lemma try_buckets_frame:
  assumes "try_buckets op is lane c = (ok, c')"
  shows "l_lane_status c' = l_lane_status c" "l_backend_lanes c' = l_backend_lanes c"
    "l_lane_backends c' = l_lane_backends c" "l \<noteq> lane \<Longrightarrow> lane_of c' l = lane_of c l"
  using assms by (induction op "is" lane c rule: try_buckets.induct) (auto simp: lane_put split: option.splits)

lemma local_insert_frame:
  assumes "local_insert xxh h lane c = (ok, c')"
  shows "l_lane_status c' = l_lane_status c" "l_backend_lanes c' = l_backend_lanes c"
    "l_lane_backends c' = l_lane_backends c" "l \<noteq> lane \<Longrightarrow> lane_of c' l = lane_of c l"
  using assms try_buckets_frame
  by (auto simp: local_insert_def case_prod_beta Let_def simp del: try_buckets.simps split: if_splits)

lemma local_delete_frame:
  assumes "local_delete xxh h lane c = (ok, c')"
  shows "l_lane_status c' = l_lane_status c" "l_backend_lanes c' = l_backend_lanes c"
    "l_lane_backends c' = l_lane_backends c" "l \<noteq> lane \<Longrightarrow> lane_of c' l = lane_of c l"
  using assms try_buckets_frame
  by (auto simp: local_delete_def case_prod_beta Let_def simp del: try_buckets.simps split: if_splits)

lemma try_insert_atomic_Some: "f \<noteq> 0 \<Longrightarrow> try_insert_atomic b f = Some b' \<Longrightarrow> fps b' = add_mset f (fps b)"
  using try_insert_cases[of f b] by (cases "try_insert b f") (auto simp: try_insert_atomic_def split: if_splits)

lemma try_delete_atomic_Some:
  "f \<noteq> 0 \<Longrightarrow> try_delete_atomic b f = Some b' \<Longrightarrow> f \<in># fps b \<and> fps b' = fps b - {#f#}"
  using try_delete_cases[of f b] by (cases "try_delete b f") (auto simp: try_delete_atomic_def split: if_splits)

lemma try_delete_atomic_None: "f \<noteq> 0 \<Longrightarrow> try_delete_atomic b f = None \<Longrightarrow> f \<notin># fps b"
  using try_delete_cases[of f b] by (cases "try_delete b f") (auto simp: try_delete_atomic_def split: if_splits)

lemma local_insert_load:
  assumes "local_insert xxh h lane c = (True, c')" "in_lane i"
  shows "load xxh (lane_of c' lane) i f = load xxh (lane_of c lane) i f +
    (if f = fst (probe xxh h) \<and> in_pair xxh (snd (probe xxh h)) i f then 1 else 0)"
proof -
  obtain g a where p: "probe xxh h = (g, a)" by (cases "probe xxh h")
  have g: "g \<noteq> 0" and a: "in_lane a" using probe_fp_nonzero[of xxh h] probe_in_lane[of xxh h] p by simp_all
  have act: "l_lane_status c lane = LOCAL_ACTIVE"
    using assms(1) by (auto simp: local_insert_def split: if_splits)
  obtain j b where j: "j \<in> {a, alt_index xxh a g}" "try_insert_atomic (l_buckets c j lane) g = Some b"
    "c' = put_bucket j lane b c"
    using assms(1) act by (auto simp: local_insert_def p split: option.splits)
  have "load xxh (lane_of c' lane) i f = load xxh (lane_of c lane) i f +
      (if f = g \<and> in_pair xxh j i f then 1 else 0)"
    using load_add[where B = "lane_of c lane", OF assms(2) try_insert_atomic_Some[OF g j(2)], of xxh f] by (simp add: j(3) lane_put)
  moreover have "f = g \<Longrightarrow> in_pair xxh j i f = in_pair xxh a i f"
    using j(1) in_pair_alt[OF assms(2) a, of xxh f] by auto
  ultimately show ?thesis by (auto simp: p)
qed

lemma local_delete_load:
  assumes "l_lane_status c lane = LOCAL_ACTIVE" "local_delete xxh h lane c = (ok, c')" "in_lane i"
  shows "load xxh (lane_of c' lane) i f = load xxh (lane_of c lane) i f -
    (if f = fst (probe xxh h) \<and> in_pair xxh (snd (probe xxh h)) i f then 1 else 0)"
    and "ok \<longleftrightarrow> 0 < load xxh (lane_of c lane) (snd (probe xxh h)) (fst (probe xxh h))"
proof -
  obtain g a where p: "probe xxh h = (g, a)" by (cases "probe xxh h")
  let ?b = "alt_index xxh a g"
  have g: "g \<noteq> 0" and a: "in_lane a" using probe_fp_nonzero[of xxh h] probe_in_lane[of xxh h] p by simp_all
  consider (del) j b where "ok" "j \<in> {a, ?b}" "try_delete_atomic (l_buckets c j lane) g = Some b"
      "c' = put_bucket j lane b c"
    | (none) "\<not> ok" "c' = c" "g \<notin># fps (l_buckets c a lane)" "g \<notin># fps (l_buckets c ?b lane)"
  proof (cases "try_delete_atomic (l_buckets c a lane) g")
    case (Some b)
    then show ?thesis using that(1)[of a b] assms(1,2) by (simp add: local_delete_def p)
  next
    case None
    note na = this
    show ?thesis
    proof (cases "try_delete_atomic (l_buckets c ?b lane) g")
      case (Some b)
      then show ?thesis using that(1)[of ?b b] assms(1,2) na by (simp add: local_delete_def p)
    next
      case None
      then show ?thesis
        using that(2) assms(1,2) na try_delete_atomic_None[OF g] by (simp add: local_delete_def p)
    qed
  qed
  note cs = this
  show "load xxh (lane_of c' lane) i f = load xxh (lane_of c lane) i f -
    (if f = fst (probe xxh h) \<and> in_pair xxh (snd (probe xxh h)) i f then 1 else 0)"
  proof (cases rule: cs)
    case (del j b)
    note d = try_delete_atomic_Some[OF g del(3)]
    have "load xxh (lane_of c' lane) i f = load xxh (lane_of c lane) i f -
        (if f = g \<and> in_pair xxh j i f then 1 else 0)"
      using load_remove[of i g "lane_of c lane" j b xxh f] d assms(3) by (simp add: del(4) lane_put)
    moreover have "f = g \<Longrightarrow> in_pair xxh j i f = in_pair xxh a i f"
      using del(2) in_pair_alt[OF assms(3) a, of xxh f] by auto
    ultimately show ?thesis by (auto simp: p)
  next
    case none
    have "load xxh (lane_of c lane) i f = 0" if "f = g" "in_pair xxh a i f"
      using that none(3,4) cuckoo.alt_alt[OF assms(3), of xxh f]
      by (auto simp: load_def in_pair_def count_eq_zero_iff)
    then show ?thesis using none(2) by (auto simp: p)
  qed
  show "ok \<longleftrightarrow> 0 < load xxh (lane_of c lane) (snd (probe xxh h)) (fst (probe xxh h))"
  proof (cases rule: cs)
    case (del j b)
    then show ?thesis using try_delete_atomic_Some[OF g del(3)] by (auto simp: p load_def)
  next
    case none
    then show ?thesis by (auto simp: p load_def count_eq_zero_iff)
  qed
qed

section \<open>Queries\<close>

interpretation local_lane: prefix_query "\<lambda>hs. overlap_loop (local_hit xxh c lane) hs 0"
  "\<lambda>p. p \<noteq> [] \<and> local_hit xxh c lane (last p)"
  for xxh c lane
  by (rule prefix_query_loop)

lemma hit_row:
  assumes "distinct active"
  shows "fold (\<lambda>lane (any_hit, ov). if P lane then (True, ov(lane := ov lane + 1)) else (any_hit, ov))
      active (a, ov) = (a \<or> (\<exists>l\<in>set active. P l), \<lambda>l. ov l + (if l \<in> set active \<and> P l then (1 :: u32) else 0))"
  using assms by (induction active arbitrary: a ov) (auto simp: fun_eq_iff)

lemma all_overlaps_loop_eq:
  assumes "distinct active"
  shows "all_overlaps_loop xxh c active hs ov l = ov l +
    (if l \<in> set active
     then of_nat (length (filter (local_hit xxh c l) (takeWhile (\<lambda>h. \<exists>l\<in>set active. local_hit xxh c l h) hs))) else 0)"
proof (induction hs arbitrary: ov)
  case Nil
  then show ?case by simp
next
  case (Cons h hs)
  show ?case
    by (simp add: hit_row[OF assms] Cons.IH)
qed

lemma prefix_le_filtered:
  assumes "\<And>h. P h \<Longrightarrow> Q h"
  shows "length (takeWhile P hs) \<le> length (filter P (takeWhile Q hs))"
  using assms by (induction hs) auto

section \<open>Properties of the local projection\<close>

text \<open>Lane assignment: the two tables stay inverse to each other and within sixteen lanes; a
  backend that has a lane keeps it, a new one gets an unused lane whose buckets are all empty, and
  \<open>None\<close> is returned only when all sixteen lanes belong to other backends. No other lane is touched.\<close>

theorem lane_assignment:
  assumes "lanes_ok c" "assign_lane b c = (r, c')"
  shows "lanes_ok c' \<and>
    (\<forall>l. r = Some l \<longrightarrow> l < LOCAL_LANE_COUNT \<and> local_lane_of b c' = Some l \<and> backend_of_lane l c' = Some b \<and>
      (local_lane_of b c = None \<longrightarrow> backend_of_lane l c = None \<and> (\<forall>i. in_lane i \<longrightarrow> l_buckets c' i l = 0)) \<and>
      (local_lane_of b c \<noteq> None \<longrightarrow> c' = c)) \<and>
    (r = None \<longleftrightarrow> local_lane_of b c = None \<and> (\<forall>l<LOCAL_LANE_COUNT. backend_of_lane l c \<noteq> None)) \<and>
    (\<forall>b'. b' \<noteq> b \<longrightarrow> local_lane_of b' c' = local_lane_of b' c) \<and>
    (\<forall>l i. r \<noteq> Some l \<longrightarrow> l_buckets c' i l = l_buckets c i l)"
proof -
  have keep: "local_lane_of b c \<noteq> None \<Longrightarrow> c' = c"
    using assms(2) by (auto simp: assign_lane_def local_lane_of_def)
  note A = assign_lane_cases[OF assms]
  show ?thesis
  proof (intro conjI allI impI iffI)
    show "lanes_ok c'" by (rule A(1))
    show "r = Some l \<Longrightarrow> l < LOCAL_LANE_COUNT" "r = Some l \<Longrightarrow> local_lane_of b c' = Some l"
      "r = Some l \<Longrightarrow> backend_of_lane l c' = Some b" for l using A(2) by simp_all
    show "r = Some l \<Longrightarrow> local_lane_of b c = None \<Longrightarrow> backend_of_lane l c = None"
      "r = Some l \<Longrightarrow> local_lane_of b c = None \<Longrightarrow> in_lane i \<Longrightarrow> l_buckets c' i l = 0" for l i using A(4) by simp_all
    show "local_lane_of b c \<noteq> None \<Longrightarrow> c' = c" by (rule keep)
    show "r = None \<Longrightarrow> local_lane_of b c = None" "r = None \<Longrightarrow> l < LOCAL_LANE_COUNT \<Longrightarrow> backend_of_lane l c \<noteq> None" for l
      using A(3) by simp_all
    show "r = None" if "local_lane_of b c = None \<and> (\<forall>l<LOCAL_LANE_COUNT. backend_of_lane l c \<noteq> None)"
      using A(2,4) that by (cases r) auto
    show "b' \<noteq> b \<Longrightarrow> local_lane_of b' c' = local_lane_of b' c" for b' by (rule A(5))
    show "r \<noteq> Some l \<Longrightarrow> l_buckets c' i l = l_buckets c i l" for l i by (rule A(6))
  qed
qed

theorem lane_assignment_witness:
  "fst (assign_lane (BackendId (RegionId ''eu'') (BackendInstanceId ''a'')) local_new) \<noteq> None"
proof -
  have "backend_of_lane 0 local_new = None" "0 < LOCAL_LANE_COUNT"
    by (simp_all add: local_new_def backend_of_lane_def LOCAL_LANE_COUNT_def)
  then show ?thesis
    using lane_assignment[OF lanes_ok_new surjective_pairing,
        of "BackendId (RegionId ''eu'') (BackendInstanceId ''a'')"] by auto
qed

text \<open>Fingerprint accounting in a lane: a successful \<open>insert\<close> adds exactly one copy to the pair of
  buckets of the hash, \<open>delete\<close> on an active lane removes one copy when there is one and reports
  whether there was, and neither touches another lane.\<close>

theorem local_lane_accounting:
  assumes "l_lane_status c lane = LOCAL_ACTIVE" "in_lane i"
    and "local_insert xxh h lane c = (True, c1)" "local_delete xxh h lane c = (ok, c2)"
  shows "load xxh (lane_of c1 lane) i f = load xxh (lane_of c lane) i f +
      (if f = fst (probe xxh h) \<and> in_pair xxh (snd (probe xxh h)) i f then 1 else 0) \<and>
    load xxh (lane_of c2 lane) i f = load xxh (lane_of c lane) i f -
      (if f = fst (probe xxh h) \<and> in_pair xxh (snd (probe xxh h)) i f then 1 else 0) \<and>
    (ok \<longleftrightarrow> 0 < load xxh (lane_of c lane) (snd (probe xxh h)) (fst (probe xxh h))) \<and>
    (\<forall>l. l \<noteq> lane \<longrightarrow> lane_of c1 l = lane_of c l \<and> lane_of c2 l = lane_of c l)"
  using local_insert_frame(4)[OF assms(3)] local_delete_frame(4)[OF assms(4)]
  by (intro conjI local_insert_load[OF assms(3,2)] local_delete_load(1)[OF assms(1,4,2)]
      local_delete_load(2)[OF assms(1,4,2)] allI impI) auto

definition one_lane :: local_ckf where
  "one_lane = snd (assign_lane (BackendId (RegionId ''eu'') (BackendInstanceId ''a'')) local_new)"

lemma one_lane_simps [simp]: "l_lane_status one_lane 0 = LOCAL_ACTIVE" "l_buckets one_lane i l = 0"
  by (simp_all add: one_lane_def assign_lane_def local_new_def LOCAL_LANE_COUNT_def upt_rec)

theorem local_lane_accounting_witness:
  "load (\<lambda>_ s. s) (lane_of (snd (local_insert (\<lambda>_ s. s) 7 0 one_lane)) 0) 0 1 = 1"
proof -
  have e: "first_empty 0 = Some 0" by (simp add: first_empty_def FP_PER_BUCKET_def upt_rec)
  obtain c1 where c1: "local_insert (\<lambda>_ s. s) 7 0 one_lane = (True, c1)"
    by (simp add: local_insert_def case_prod_beta Let_def try_insert_atomic_def try_insert_def e)
  obtain ok c2 where c2: "local_delete (\<lambda>_ s. s) 7 0 one_lane = (ok, c2)" by (cases "local_delete (\<lambda>_ s. s) 7 0 one_lane")
  show ?thesis
    using local_lane_accounting[OF _ _ c1 c2, of 0 1]
    by (simp add: c1 probe_def in_pair_def in_lane_def BUCKETS_PER_LANE_def load_def)
qed

text \<open>The batched query: the answer for an active lane is the number of its hits among the hashes
  up to the first one that no active lane holds; it is never below the lane's prefix overlap.\<close>

theorem local_all_overlaps:
  assumes "length hs < 2 ^ 32" "(l, n) \<in> set (estimate_all_overlaps xxh hs c)"
  shows "unat n = length (filter (local_hit xxh c l)
      (takeWhile (\<lambda>h. \<exists>l'\<in>set (active_lanes c). local_hit xxh c l' h) hs)) \<and>
    unat (local_estimate_overlap xxh hs l c) \<le> unat n"
proof -
  let ?A = "active_lanes c" and ?tw = "takeWhile (\<lambda>h. \<exists>l'\<in>set (active_lanes c). local_hit xxh c l' h) hs"
  have l: "l \<in> set ?A" and n: "n = all_overlaps_loop xxh c ?A hs (\<lambda>_. 0) l"
    using assms(2) by (auto simp: estimate_all_overlaps_def Let_def split: if_splits)
  have d: "distinct ?A" by (simp add: active_lanes_def)
  have "length (filter (local_hit xxh c l) ?tw) \<le> length hs"
    by (meson length_filter_le length_takeWhile_le order_trans)
  then have u: "unat n = length (filter (local_hit xxh c l) ?tw)"
    using assms(1) l by (simp add: n all_overlaps_loop_eq[OF d] unat_of_nat)
  moreover have "unat (local_estimate_overlap xxh hs l c) \<le> length (filter (local_hit xxh c l) ?tw)"
    using l assms(1) prefix_le_filtered[of "local_hit xxh c l" "\<lambda>h. \<exists>l'\<in>set ?A. local_hit xxh c l' h" hs]
    by (auto simp: local_estimate_overlap_def active_lanes_def overlap_loop_takeWhile)
  ultimately show ?thesis by simp
qed

theorem local_all_overlaps_witness:
  "unat (local_estimate_overlap (\<lambda>_ s. s) [7] 0 one_lane) \<le>
    unat (all_overlaps_loop (\<lambda>_ s. s) one_lane (active_lanes one_lane) [7] (\<lambda>_. 0) 0)"
proof -
  let ?n = "all_overlaps_loop (\<lambda>_ s. s) one_lane (active_lanes one_lane) [7] (\<lambda>_. 0) 0"
  have "0 \<in> set (active_lanes one_lane)" by (simp add: active_lanes_def LOCAL_LANE_COUNT_def)
  then have "(0, ?n) \<in> set (estimate_all_overlaps (\<lambda>_ s. s) [7] one_lane)"
    by (auto simp: estimate_all_overlaps_def Let_def simp del: all_overlaps_loop.simps)
  then show ?thesis using local_all_overlaps[of "[7]" 0 ?n "\<lambda>_ s. s" one_lane]
    by (simp del: all_overlaps_loop.simps takeWhile.simps)
qed

text \<open>The batched query over-counts: with two active lanes, one holding only the first block of
  the request and the other only the second, the batched answer for the second lane is one although
  its prefix overlap is zero.\<close>

theorem local_all_overlaps_overcounts:
  assumes "active_lanes c = [a, b]" "a \<noteq> b"
    and "local_hit xxh c a h1" "\<not> local_hit xxh c b h1" "\<not> local_hit xxh c a h2" "local_hit xxh c b h2"
  shows "estimate_all_overlaps xxh [h1, h2] c = [(a, 1), (b, 1)] \<and>
    local_estimate_overlap xxh [h1, h2] b c = 0"
  using assms by (simp add: estimate_all_overlaps_def local_estimate_overlap_def)

definition first_byte_hash :: xxh3 where
  "first_byte_hash bs seed = ucast (hd bs)"

definition two_lanes :: local_ckf where
  "two_lanes = local_new\<lparr>l_buckets := (\<lambda>i l. if i = 0 then (if l = 0 then 1 else 3) else 0),
     l_lane_status := (\<lambda>l. if l < 2 then LOCAL_ACTIVE else LOCAL_RETIRED)\<rparr>"

theorem local_all_overlaps_overcounts_witness:
  "estimate_all_overlaps first_byte_hash [1, 2] two_lanes = [(0, 1), (1, 1)] \<and>
    local_estimate_overlap first_byte_hash [1, 2] 1 two_lanes = 0"
  by (rule local_all_overlaps_overcounts)
    (simp_all add: active_lanes_def two_lanes_def LOCAL_LANE_COUNT_def upt_rec local_hit_def probe_def
      first_byte_hash_def le_bytes64_def BUCKET_MASK_def BUCKETS_PER_LANE_def bucket_contains_def)

end
