(* ===== verification/Lane.thy ===== *)
theory Lane
  imports Producer
begin

text \<open>
  What the CKF producer promises, stated over whole feeds of events: its ownership tables refine
  an abstract map from hashes to sets of backends, and its buckets answer membership for the owned
  hashes, up to collisions of fingerprint and address. The theory holds the properties of
  \<open>ckf_producer.rs\<close>.
\<close>

section \<open>The abstract ownership of hashes\<close>

type_synonym ownership = "u64 \<Rightarrow> backend_id set"

fun own_step :: "kv_cache_event \<Rightarrow> backend_id \<Rightarrow> ownership \<Rightarrow> ownership" where
  "own_step (Stored _ hs _ _) w O' = (\<lambda>h. if h \<in> set hs then insert w (O' h) else O' h)"
| "own_step (Removed _ hs) w O' = (\<lambda>h. if h \<in> set hs then O' h - {w} else O' h)"
| "own_step (Clear _) w O' = (\<lambda>h. O' h - {w})"
| "own_step (Reset _ _) w O' = (\<lambda>_. {})"

definition own_run :: "kv_feed \<Rightarrow> ownership \<Rightarrow> ownership" where
  "own_run evs O' = fold (\<lambda>(ev, w). own_step ev w) evs O'"

lemma own_run_simps [simp]:
  "own_run [] O' = O'"
  "own_run ((ev, w) # evs) O' = own_run evs (own_step ev w O')"
  by (simp_all add: own_run_def)

lemma owners_of_stored:
  "owners_of (prod_apply_stored xxh h w p) = (owners_of p)(h := insert w (owners_of p h))"
proof -
  have ins: "hash_refcount (snd (insert_fingerprint xxh h q)) = hash_refcount q" for q
    using insert_fingerprint_insertion[of xxh h q "fst (insert_fingerprint xxh h q)"]
    by (simp add: insertion_def)
  have o: "owners_of (snd (insert_fingerprint xxh h q)) h' = owners_of q h'" for q h'
    by (rule owners_of_cong) (rule ins)
  show ?thesis
    by (rule ext) (auto simp: prod_apply_stored_def o Let_def add_owner_def,
        auto simp: owners_of_def entry_or_default_def split: option.splits)
qed

lemma owners_of_via_hashes:
  assumes "producer_ok fleet p"
  shows "owners_of p h = {w. h \<in> set (hashes_of p w)}"
  using assms tables_okD(5) by (auto simp: producer_ok_def)

lemma drop_owner_worker_hashes [simp]: "worker_hashes (drop_owner xxh h w e p) = worker_hashes p"
proof -
  have "worker_hashes (delete_fingerprint xxh h q) = worker_hashes q" for q
    using delete_fingerprint_deletion[of xxh h q] by (simp add: deletion_def)
  then show ?thesis by (simp add: drop_owner_def Let_def)
qed

lemma clear_hashes_worker_hashes [simp]:
  "worker_hashes (fold (clear_hash xxh w) hs p) = worker_hashes p"
  by (induction hs arbitrary: p) (auto simp: clear_hash_def split: option.splits)

lemma hashes_of_cleared: "hashes_of (prod_apply_clear xxh w p) = (hashes_of p)(w := [])"
  by (rule ext) (simp add: prod_apply_clear_def hashes_of_def)

lemma hashes_of_removed:
  assumes "producer_ok fleet p"
  shows "hashes_of (prod_apply_removed xxh h w p) = (hashes_of p)(w := removeAll h (hashes_of p w))"
proof (cases "w \<in> owners_of p h")
  case True
  then obtain e where e: "map_of (hash_refcount p) h = Some e" "w \<in> set (he_owners e)"
    using owners_of_None owners_of_Some by (cases "map_of (hash_refcount p) h") fastforce+
  then show ?thesis
    by (auto simp: prod_apply_removed_def hashes_of_def forget_hash_def hs_remove_def fun_eq_iff
        split: option.splits)
next
  case False
  then have "prod_apply_removed xxh h w p = p"
    by (auto simp: prod_apply_removed_def owners_of_def entry_or_default_def split: option.splits)
  moreover have "h \<notin> set (hashes_of p w)" using False owners_of_via_hashes[OF assms] by simp
  ultimately show ?thesis by simp
qed

lemma owners_of_cleared:
  assumes "producer_ok fleet p" "finite fleet" "card fleet < 2 ^ 32"
  shows "owners_of (prod_apply_clear xxh w p) = (\<lambda>h. owners_of p h - {w})"
  using owners_of_via_hashes[OF assms(1)] owners_of_via_hashes[OF prod_apply_clear_step(1)[OF assms]]
    hashes_of_cleared[of xxh w p]
  by (auto simp: fun_eq_iff split: if_splits)

lemma owners_of_removed:
  assumes "producer_ok fleet p" "finite fleet" "card fleet < 2 ^ 32"
  shows "owners_of (prod_apply_removed xxh h w p) = (owners_of p)(h := owners_of p h - {w})"
  using owners_of_via_hashes[OF assms(1)] owners_of_via_hashes[OF prod_apply_removed_step(1)[OF assms]]
    hashes_of_removed[OF assms(1), where xxh = xxh and h = h and w = w]
  by (auto simp: fun_eq_iff split: if_splits)

lemma owners_of_stores:
  "owners_of (fold (\<lambda>h. prod_apply_stored xxh h w) hs p) =
    (\<lambda>h. if h \<in> set hs then insert w (owners_of p h) else owners_of p h)"
  by (induction hs arbitrary: p) (auto simp: owners_of_stored fun_eq_iff)

lemma owners_of_removes:
  assumes "producer_ok fleet p" "finite fleet" "card fleet < 2 ^ 32"
  shows "owners_of (fold (\<lambda>h. prod_apply_removed xxh h w) hs p) =
    (\<lambda>h. if h \<in> set hs then owners_of p h - {w} else owners_of p h)"
  using assms
proof (induction hs arbitrary: p)
  case Nil
  then show ?case by simp
next
  case (Cons a hs)
  show ?case
    using Cons.IH[OF prod_apply_removed_step(1)[OF Cons.prems] Cons.prems(2,3)]
      owners_of_removed[OF Cons.prems]
    by (auto simp: fun_eq_iff)
qed

lemma owners_of_event:
  assumes "producer_ok fleet p" "finite fleet" "card fleet < 2 ^ 32"
  shows "owners_of (prod_apply_event xxh ev w p) = own_step ev w (owners_of p)"
proof (cases ev)
  case (Reset x y)
  then show ?thesis
    by (simp add: fun_eq_iff reset_internal_def owners_of_def entry_or_default_def)
qed (use owners_of_stores owners_of_removes[OF assms] owners_of_cleared[OF assms] in auto)

lemma owners_of_run:
  assumes "producer_ok fleet p" "finite fleet" "card fleet < 2 ^ 32" "snd ` set evs \<subseteq> fleet"
  shows "owners_of (prod_run xxh evs p) = own_run evs (owners_of p)"
  using assms
proof (induction evs arbitrary: p)
  case Nil
  then show ?case by simp
next
  case (Cons e evs)
  obtain ev w where e: "e = (ev, w)" by (cases e)
  have w: "w \<in> fleet" "snd ` set evs \<subseteq> fleet" using Cons.prems(4) by (auto simp: e)
  show ?case
    using Cons.IH[OF prod_apply_event_step(1)[OF Cons.prems(1-3) w(1)] Cons.prems(2,3) w(2)]
      owners_of_event[OF Cons.prems(1-3)]
    by (simp add: e)
qed

section \<open>Properties of the producer\<close>

lemma insert_fingerprint_empty:
  assumes "buckets p = (\<lambda>_. 0)"
  shows "insert_fingerprint xxh h p =
    (True, incr_items (mark_dirty (snd (probe xxh h))
      (set_bucket (snd (probe xxh h)) (with_slot 0 0 (fst (probe xxh h))) p)))"
proof -
  have "first_empty 0 = Some 0" by (simp add: first_empty_def FP_PER_BUCKET_def upt_rec)
  then show ?thesis using assms by (simp add: insert_fingerprint_def try_insert_def case_prod_beta Let_def)
qed

lemma buckets_new [simp]: "buckets (producer_with_seed s) = (\<lambda>_. 0)"
  by (simp add: producer_with_seed_def)

lemma lane_contains_insert_empty:
  assumes "buckets p = (\<lambda>_. 0)"
  shows "lane_contains xxh (buckets (snd (insert_fingerprint xxh h p))) h"
proof -
  have "bucket_contains (with_slot 0 0 f) f" for f
    by (auto simp: bucket_contains_iff slot_with_slot FP_PER_BUCKET_def intro!: exI[of _ 0])
  then show ?thesis by (simp add: insert_fingerprint_empty[OF assms] lane_contains_def case_prod_beta)
qed

lemma update_same: "map_of m k = Some v \<Longrightarrow> AList.update k v m = m"
  by (induction m) (auto split: if_splits)

text \<open>An owner that stores a block again, and a backend that removes a block it does not own, change nothing.\<close>

lemma duplicate_events:
  "list_all (\<lambda>h. w \<in> owners_of p h) hs \<Longrightarrow> prod_apply_event xxh (Stored wr hs par toks) w p = p"
  "list_all (\<lambda>h. w \<notin> owners_of p h) hs \<Longrightarrow> prod_apply_event xxh (Removed wr hs) w p = p"
proof -
  have "prod_apply_stored xxh h w p = p" if own: "w \<in> owners_of p h" for h
  proof -
    obtain e where e: "map_of (hash_refcount p) h = Some e" "w \<in> set (he_owners e)"
      using own owners_of_None owners_of_Some by (cases "map_of (hash_refcount p) h") fastforce+
    then show ?thesis by (simp add: prod_apply_stored_def entry_or_default_def update_same)
  qed
  then show "list_all (\<lambda>h. w \<in> owners_of p h) hs \<Longrightarrow> prod_apply_event xxh (Stored wr hs par toks) w p = p"
    by (induction hs) simp_all
  have "prod_apply_removed xxh h w p = p" if "w \<notin> owners_of p h" for h
    using that owners_of_Some by (auto simp: prod_apply_removed_def split: option.split)
  then show "list_all (\<lambda>h. w \<notin> owners_of p h) hs \<Longrightarrow> prod_apply_event xxh (Removed wr hs) w p = p"
    by (induction hs) simp_all
qed

text \<open>C2. Ownership: for every feed of events from a fleet of fewer than 2^32 backends, the owner
  sets of the producer are those of the abstract map, in which \<open>Stored\<close> adds the backend to each
  block, \<open>Removed\<close> takes it out, \<open>Clear\<close> takes it out of every block and \<open>Reset\<close> empties the map.
  The 32-bit reference count of a tracked block is exactly the number of its owners, which is not zero, so it never
  wraps, and a block without owners is not tracked. A further \<open>Stored\<close> event of blocks that its backend
  owns already, and a \<open>Removed\<close> event of blocks that its backend does not own, leave the producer as it is.\<close>

theorem producer_ownership:
  assumes "finite fleet" "card fleet < 2 ^ 32" "snd ` set evs \<subseteq> fleet"
    and p: "p = prod_run xxh evs (producer_with_seed s)" and owners: "owners = own_run evs (\<lambda>_. {})"
  shows "owners_of p h = owners h \<and>
    (case map_of (hash_refcount p) h of
       None \<Rightarrow> owners h = {} | Some e \<Rightarrow> unat (he_refcount e) = card (owners h) \<and> finite (owners h) \<and> owners h \<noteq> {}) \<and>
    (list_all (\<lambda>h. w \<in> owners h) hs \<longrightarrow> prod_apply_event xxh (Stored wr hs par toks) w p = p) \<and>
    (list_all (\<lambda>h. w \<notin> owners h) hs \<longrightarrow> prod_apply_event xxh (Removed wr hs) w p = p)"
proof -
  have "owners_of (producer_with_seed s) = (\<lambda>_. {})"
    by (simp add: fun_eq_iff owners_of_def entry_or_default_def producer_with_seed_def)
  then have o: "owners_of p = owners" using owners_of_run[OF producer_ok_new assms(1-3), of xxh s] by (simp add: p owners)
  have "producer_ok fleet p" unfolding p by (rule prod_run_inv(1)[OF producer_ok_new assms(1-3)])
  then have "unat (he_refcount e) = card (owners h) \<and> owners h \<noteq> {}" if "map_of (hash_refcount p) h = Some e" for e
    using tables_okD(3)[OF _ that] entry_ok_card(2)[OF _ assms(1,2), of e] owners_of_Some[OF that]
    by (auto simp: producer_ok_def o entry_ok_def distinct_card)
  moreover have "finite (owners h)" unfolding o [symmetric] owners_of_def by simp
  ultimately show ?thesis using owners_of_None[of p h] duplicate_events by (auto simp: o split: option.split)
qed

abbreviation w0 :: worker_with_rank where
  "w0 \<equiv> \<lparr>worker_id = 1, dp_rank = 0\<rparr>"

abbreviation b0 :: backend_id where
  "b0 \<equiv> BackendId (RegionId ''eu'') (BackendInstanceId ''a'')"

abbreviation b1 :: backend_id where
  "b1 \<equiv> BackendId (RegionId ''eu'') (BackendInstanceId ''b'')"

definition sample_feed :: kv_feed where
  "sample_feed = [(Stored w0 [7, 9] None [], b0), (Stored w0 [7] None [], b1), (Removed w0 [7], b0),
     (Clear w0, b0)]"

theorem producer_ownership_witness:
  "owners_of (prod_run (\<lambda>_ s. s) sample_feed (producer_with_seed 1)) 7 = {b1} \<and>
   prod_apply_event (\<lambda>_ s. s) (Stored w0 [7] None []) b1 (prod_run (\<lambda>_ s. s) sample_feed (producer_with_seed 1)) =
     prod_run (\<lambda>_ s. s) sample_feed (producer_with_seed 1)"
  using producer_ownership[of "{b0, b1}" sample_feed, OF _ _ _ refl refl, of "\<lambda>_ s. s" 1 7 b1 "[7]" w0 None "[]"]
  by (auto simp: sample_feed_def simp del: prod_apply_event.simps prod_run_simps)

text \<open>C3. Exact membership: when no insertion of the feed was given up (\<open>run_fits\<close>), the lane
  answers a lookup in the two candidate buckets positively exactly when some owned block has the
  same fingerprint and the same pair of buckets: no owned block is missed and every false positive
  is a collision.\<close>

theorem producer_lookup_exact:
  assumes "finite fleet" "card fleet < 2 ^ 32" "snd ` set evs \<subseteq> fleet"
    and "run_fits xxh evs (producer_with_seed s)"
  shows "lane_contains xxh (buckets (prod_run xxh evs (producer_with_seed s))) h \<longleftrightarrow>
    (\<exists>h'. own_run evs (\<lambda>_. {}) h' \<noteq> {} \<and> same_address xxh h' h)"
proof -
  let ?p = "prod_run xxh evs (producer_with_seed s)"
  note inv = prod_run_inv[OF producer_ok_new[of fleet s] assms(1-3), where xxh = xxh]
  have "owners_of (producer_with_seed s) = (\<lambda>_. {})"
    by (simp add: fun_eq_iff owners_of_def entry_or_default_def producer_with_seed_def)
  then have "owners_of ?p = own_run evs (\<lambda>_. {})"
    using owners_of_run[OF producer_ok_new assms(1-3), of xxh s] by simp
  then show ?thesis
    using exact_lookup[OF inv(3)[OF exact_new assms(4)], of h] is_tracked_iff_owned[OF inv(1)] by simp
qed

theorem producer_lookup_exact_witness:
  "lane_contains (\<lambda>_ s. s) (buckets (prod_run (\<lambda>_ s. s) [(Stored w0 [7] None [], b0)]
     (producer_with_seed 1))) 7"
proof -
  have "run_fits (\<lambda>_ s. s) [(Stored w0 [7] None [], b0)] (producer_with_seed 1)"
    by (simp add: stored_fits_def insert_fingerprint_empty buckets_new)
  then show ?thesis
    by (subst producer_lookup_exact[of "{b0}"]) (auto simp: same_address_def case_prod_beta)
qed

text \<open>No invented blocks: whatever the feed, also when insertions were given up in a full lane,
  a positive lookup comes from an owned block with the same fingerprint and pair of buckets.\<close>

theorem producer_lookup_sound:
  assumes "finite fleet" "card fleet < 2 ^ 32" "snd ` set evs \<subseteq> fleet"
    and "lane_contains xxh (buckets (prod_run xxh evs (producer_with_seed s))) h"
  shows "\<exists>h'. own_run evs (\<lambda>_. {}) h' \<noteq> {} \<and> same_address xxh h' h"
proof -
  note inv = prod_run_inv[OF producer_ok_new[of fleet s] assms(1-3), where xxh = xxh]
  have "owners_of (producer_with_seed s) = (\<lambda>_. {})"
    by (simp add: fun_eq_iff owners_of_def entry_or_default_def producer_with_seed_def)
  then have o: "owners_of (prod_run xxh evs (producer_with_seed s)) = own_run evs (\<lambda>_. {})"
    using owners_of_run[OF producer_ok_new assms(1-3), of xxh s] by simp
  show ?thesis
    using never_over_lookup[OF inv(2)[OF exact_never_over[OF exact_new]] assms(4)]
      is_tracked_iff_owned[OF inv(1)] by (simp add: o)
qed

theorem producer_lookup_sound_witness:
  "\<exists>h'. own_run [(Stored w0 [7] None [], b0)] (\<lambda>_. {}) h' \<noteq> {} \<and> same_address (\<lambda>_ s. s) h' 7"
  by (rule producer_lookup_sound[of "{b0}" _ _ 1])
    (simp_all add: producer_with_seed_def prod_apply_stored_def entry_or_default_def
      lane_contains_insert_empty)

text \<open>One insertion is atomic: if it succeeds, exactly the pair of candidate buckets of the hash
  gains one copy of its fingerprint, whatever the evictions moved; if \<open>MAX_KICKS\<close> evictions find no
  room, every bucket and the dirty set are as before. Only buckets marked dirty change.\<close>

theorem insert_fingerprint_atomic:
  assumes "insert_fingerprint xxh h p = (ok, p')"
  shows "(ok \<longrightarrow> (\<forall>i f. in_lane i \<longrightarrow> load xxh (buckets p') i f = load xxh (buckets p) i f +
        (if f = fst (probe xxh h) \<and> in_pair xxh (snd (probe xxh h)) i f then 1 else 0))) \<and>
    (\<not> ok \<longrightarrow> buckets p' = buckets p \<and> dirty_buckets p' = dirty_buckets p) \<and>
    (\<forall>k. buckets p' k \<noteq> buckets p k \<longrightarrow> k \<in> set (dirty_buckets p'))"
  using insert_fingerprint_insertion[OF assms] by (auto simp: insertion_def split: if_splits)

theorem insert_fingerprint_atomic_witness:
  "load (\<lambda>_ s. s) (buckets (snd (insert_fingerprint (\<lambda>_ s. s) 7 (producer_with_seed 1)))) 0 1 =
    load (\<lambda>_ s. s) (\<lambda>_. 0) 0 1 + 1"
proof -
  obtain p' where r: "insert_fingerprint (\<lambda>_ s. s) 7 (producer_with_seed 1) = (True, p')"
    by (simp add: insert_fingerprint_empty)
  show ?thesis
    using insert_fingerprint_atomic[OF r]
    by (simp add: r probe_def in_pair_def in_lane_def BUCKETS_PER_LANE_def)
qed

end
