(* ===== verification/Consumer.thy ===== *)
theory Consumer
  imports Lane PrefixQuery
begin

text \<open>
  The CKF consumer, \<open>crates/hier-kv-gateway-metadata/src/ckf_consumer.rs\<close>: sixteen lanes of
  buckets, one per remote region, filled by snapshots and deltas. The atomic arrays are functions
  of the bucket index and the lane; an access beyond the end of an array panics in Rust and is
  \<open>None\<close> here (the \<open>debug_assert\<close>s are absent from a release build).
\<close>

section \<open>State and operations\<close>

definition LANE_COUNT :: nat where
  "LANE_COUNT = 16"

definition LANE_ACTIVE :: u8 where
  "LANE_ACTIVE = 0"

definition LANE_RETIRED :: u8 where
  "LANE_RETIRED = 1"

record ckf_consumer =
  c_buckets :: "u64 \<Rightarrow> nat \<Rightarrow> packed"
  c_lane_regions :: "(nat \<times> region_id) list"
  c_lane_status :: "nat \<Rightarrow> u8"

definition consumer_new :: ckf_consumer where
  "consumer_new = \<lparr>c_buckets = (\<lambda>_ _. 0), c_lane_regions = [], c_lane_status = (\<lambda>_. LANE_RETIRED)\<rparr>"

definition consumer_lane_of :: "ckf_consumer \<Rightarrow> region_id \<Rightarrow> nat option" where
  "consumer_lane_of c region =
     map_option fst (List.find (\<lambda>(lane, r). r = region) (c_lane_regions c))"

definition set_lane_status :: "nat \<Rightarrow> u8 \<Rightarrow> ckf_consumer \<Rightarrow> ckf_consumer option" where
  "set_lane_status lane st c =
     (if lane < LANE_COUNT then Some (c\<lparr>c_lane_status := (c_lane_status c)(lane := st)\<rparr>) else None)"

definition store_bucket :: "u64 \<Rightarrow> nat \<Rightarrow> packed \<Rightarrow> ckf_consumer \<Rightarrow> ckf_consumer option" where
  "store_bucket i lane v c =
     (if in_lane i \<and> lane < LANE_COUNT
      then Some (c\<lparr>c_buckets := (c_buckets c)(i := (c_buckets c i)(lane := v))\<rparr>) else None)"

definition consumer_hit :: "xxh3 \<Rightarrow> ckf_consumer \<Rightarrow> nat \<Rightarrow> u64 \<Rightarrow> bool" where
  "consumer_hit xxh c lane hash =
     (let (f, bucket_idx) = probe xxh hash in bucket_contains (c_buckets c bucket_idx lane) f)"

definition consumer_estimate_overlap :: "xxh3 \<Rightarrow> u64 list \<Rightarrow> region_id \<Rightarrow> ckf_consumer \<Rightarrow> u32 option" where
  "consumer_estimate_overlap xxh hashes region c =
     (case consumer_lane_of c region of
        None \<Rightarrow> Some 0
      | Some lane \<Rightarrow>
          if \<not> lane < LANE_COUNT then None
          else if c_lane_status c lane \<noteq> LANE_ACTIVE then Some 0
          else Some (overlap_loop (consumer_hit xxh c lane) hashes 0))"

fun store_all :: "nat \<Rightarrow> nat \<Rightarrow> packed list \<Rightarrow> ckf_consumer \<Rightarrow> ckf_consumer option" where
  "store_all lane i [] c = Some c"
| "store_all lane i (v # vs) c =
     (if i < BUCKETS_PER_LANE
      then (case store_bucket (of_nat i) lane v c of None \<Rightarrow> None | Some c' \<Rightarrow> store_all lane (Suc i) vs c')
      else None)"

definition install_snapshot :: "nat \<Rightarrow> ckf_snapshot \<Rightarrow> ckf_consumer \<Rightarrow> ckf_consumer option" where
  "install_snapshot lane snap c =
     (case set_lane_status lane LANE_RETIRED c of
        None \<Rightarrow> None
      | Some c1 \<Rightarrow>
          (case store_all lane 0 (snap_buckets snap) c1 of
             None \<Rightarrow> None
           | Some c2 \<Rightarrow> set_lane_status lane LANE_ACTIVE c2))"

fun store_dirty :: "nat \<Rightarrow> (u64 \<times> packed) list \<Rightarrow> ckf_consumer \<Rightarrow> ckf_consumer option" where
  "store_dirty lane [] c = Some c"
| "store_dirty lane ((i, v) # ds) c =
     (if in_lane i
      then (case store_bucket i lane v c of None \<Rightarrow> None | Some c' \<Rightarrow> store_dirty lane ds c')
      else store_dirty lane ds c)"

definition apply_delta :: "nat \<Rightarrow> ckf_delta \<Rightarrow> ckf_consumer \<Rightarrow> ckf_consumer option" where
  "apply_delta lane d c = store_dirty lane (delta_buckets d) c"

definition retire_lane :: "nat \<Rightarrow> ckf_consumer \<Rightarrow> ckf_consumer option" where
  "retire_lane lane c = set_lane_status lane LANE_RETIRED c"

definition activate_lane :: "nat \<Rightarrow> ckf_consumer \<Rightarrow> ckf_consumer option" where
  "activate_lane lane c = set_lane_status lane LANE_ACTIVE c"

definition consumer_assign_lane :: "nat \<Rightarrow> region_id \<Rightarrow> ckf_consumer \<Rightarrow> ckf_consumer" where
  "consumer_assign_lane lane region c =
     c\<lparr>c_lane_regions := AList.update lane region (c_lane_regions c)\<rparr>"

definition consumer_unassign_lane :: "nat \<Rightarrow> ckf_consumer \<Rightarrow> ckf_consumer" where
  "consumer_unassign_lane lane c = c\<lparr>c_lane_regions := AList.delete lane (c_lane_regions c)\<rparr>"

definition is_lane_active :: "nat \<Rightarrow> ckf_consumer \<Rightarrow> bool option" where
  "is_lane_active lane c =
     (if lane < LANE_COUNT then Some (c_lane_status c lane = LANE_ACTIVE) else None)"

section \<open>Writes\<close>

lemma store_bucket_Some:
  assumes "store_bucket i lane v c = Some c'"
  shows "c_buckets c' = (c_buckets c)(i := (c_buckets c i)(lane := v))"
    "c_lane_regions c' = c_lane_regions c" "c_lane_status c' = c_lane_status c"
  using assms by (auto simp: store_bucket_def split: if_splits)

lemma store_all_result:
  assumes "lane < LANE_COUNT" "n + length vs \<le> BUCKETS_PER_LANE"
  shows "\<exists>c'. store_all lane n vs c = Some c' \<and>
    (\<forall>i l. c_buckets c' i l =
      (if l = lane \<and> n \<le> unat i \<and> unat i < n + length vs then vs ! (unat i - n) else c_buckets c i l)) \<and>
    c_lane_regions c' = c_lane_regions c \<and> c_lane_status c' = c_lane_status c"
  using assms(2)
proof (induction vs arbitrary: n c)
  case Nil
  then show ?case by auto
next
  case (Cons v vs)
  have n: "n < BUCKETS_PER_LANE" "Suc n + length vs \<le> BUCKETS_PER_LANE" using Cons.prems by simp_all
  then have un: "unat (of_nat n :: u64) = n" by (simp add: BUCKETS_PER_LANE_def unat_of_nat)
  then have "in_lane (of_nat n)" using n by (simp add: in_lane_def)
  then obtain c1 where c1: "store_bucket (of_nat n) lane v c = Some c1"
    using assms(1) by (simp add: store_bucket_def)
  obtain c' where c': "store_all lane (Suc n) vs c1 = Some c'"
    and B: "\<forall>i l. c_buckets c' i l =
      (if l = lane \<and> Suc n \<le> unat i \<and> unat i < Suc n + length vs then vs ! (unat i - Suc n) else c_buckets c1 i l)"
    and R: "c_lane_regions c' = c_lane_regions c1 \<and> c_lane_status c' = c_lane_status c1"
    using Cons.IH[OF n(2), of c1] by blast
  have "c_buckets c' i l =
      (if l = lane \<and> n \<le> unat i \<and> unat i < n + length (v # vs) then (v # vs) ! (unat i - n) else c_buckets c i l)"
    for i :: u64 and l
  proof (cases "unat i = n")
    case True
    then have "i = of_nat n" by auto
    then show ?thesis using B store_bucket_Some(1)[OF c1] un by auto
  next
    case False
    then have "i \<noteq> of_nat n" using un by auto
    moreover have "(v # vs) ! (unat i - n) = vs ! (unat i - Suc n)" if "n < unat i"
      using that by (simp add: nth_Cons')
    ultimately show ?thesis using B store_bucket_Some(1)[OF c1] False by auto
  qed
  then show ?case using c1 c' R n(1) store_bucket_Some(2,3)[OF c1] by simp
qed

definition overlay :: "(u64 \<times> packed) list \<Rightarrow> (u64 \<Rightarrow> packed) \<Rightarrow> u64 \<Rightarrow> packed" where
  "overlay ds B i = (case map_of ds i of None \<Rightarrow> B i | Some v \<Rightarrow> if in_lane i then v else B i)"

lemma store_dirty_result:
  assumes "lane < LANE_COUNT" "distinct (map fst ds)"
  shows "\<exists>c'. store_dirty lane ds c = Some c' \<and>
    (\<forall>i l. c_buckets c' i l = (if l = lane then overlay ds (\<lambda>i. c_buckets c i lane) i else c_buckets c i l)) \<and>
    c_lane_regions c' = c_lane_regions c \<and> c_lane_status c' = c_lane_status c"
  using assms(2)
proof (induction ds arbitrary: c)
  case Nil
  then show ?case by (simp add: overlay_def)
next
  case (Cons d ds)
  obtain i v where d: "d = (i, v)" by (cases d)
  have ds: "distinct (map fst ds)" and i: "map_of ds i = None"
    using Cons.prems by (auto simp: d map_of_eq_None_iff)
  show ?case
  proof (cases "in_lane i")
    case False
    then show ?thesis using Cons.IH[OF ds, of c] i by (auto simp: d overlay_def split: option.splits)
  next
    case True
    then obtain c1 where c1: "store_bucket i lane v c = Some c1"
      using assms(1) by (simp add: store_bucket_def)
    then show ?thesis
      using Cons.IH[OF ds, of c1] store_bucket_Some[OF c1] True i by (auto simp: d overlay_def)
  qed
qed

lemma install_snapshot_result:
  assumes "lane < LANE_COUNT" "length (snap_buckets s) \<le> BUCKETS_PER_LANE"
  shows "\<exists>c'. install_snapshot lane s c = Some c' \<and>
    (\<forall>i l. c_buckets c' i l = (if l = lane \<and> unat i < length (snap_buckets s)
       then snap_buckets s ! unat i else c_buckets c i l)) \<and>
    c_lane_regions c' = c_lane_regions c \<and> c_lane_status c' = (c_lane_status c)(lane := LANE_ACTIVE)"
proof -
  obtain c1 where c1: "set_lane_status lane LANE_RETIRED c = Some c1"
    "c1 = c\<lparr>c_lane_status := (c_lane_status c)(lane := LANE_RETIRED)\<rparr>"
    using assms(1) by (simp add: set_lane_status_def)
  obtain c2 where "store_all lane 0 (snap_buckets s) c1 = Some c2"
    "\<forall>i l. c_buckets c2 i l = (if l = lane \<and> unat i < length (snap_buckets s)
       then snap_buckets s ! unat i else c_buckets c1 i l)"
    "c_lane_regions c2 = c_lane_regions c1 \<and> c_lane_status c2 = c_lane_status c1"
    using store_all_result[of lane 0 "snap_buckets s" c1] assms by auto
  then show ?thesis using c1 assms(1) by (simp add: install_snapshot_def set_lane_status_def)
qed

section \<open>The overlap query\<close>

interpretation remote_lane: prefix_query
  "\<lambda>hs. overlap_loop (consumer_hit xxh c lane) hs 0"
  "\<lambda>p. p \<noteq> [] \<and> consumer_hit xxh c lane (last p)"
  for xxh c lane
  by (rule prefix_query_loop)

end
