(* ===== verification/KvIndex.thy ===== *)
theory KvIndex
  imports RadixProof LocalCkf Consumer
begin

text \<open>
  The unified KV index, \<open>crates/hier-kv-gateway-metadata/src/kv_index.rs\<close>: every event goes to the
  exact radix tree and to the backend's local lane; overlap queries read the lane, or the tree for a
  backend without a lane, and the cross-region lanes for remote regions.
\<close>

section \<open>State and operations\<close>

record kv_index =
  ki_radix :: radix_worker
  ki_local :: local_ckf
  ki_consumer :: ckf_consumer

definition kv_index_new :: kv_index where
  "kv_index_new = \<lparr>ki_radix = radix_new, ki_local = local_new, ki_consumer = consumer_new\<rparr>"

definition kv_find_local_overlap :: "xxh3 \<Rightarrow> u64 list \<Rightarrow> backend_id \<Rightarrow> kv_index \<Rightarrow> u32" where
  "kv_find_local_overlap xxh hashes b k =
     (case local_lane_of b (ki_local k) of
        Some lane \<Rightarrow> local_estimate_overlap xxh hashes lane (ki_local k)
      | None \<Rightarrow> radix_find_matches hashes b (ki_radix k))"

definition kv_find_all_local_overlap :: "xxh3 \<Rightarrow> u64 list \<Rightarrow> kv_index \<Rightarrow> (backend_id \<times> u32) list" where
  "kv_find_all_local_overlap xxh hashes k =
     fold (\<lambda>(lane, overlap) out.
         case backend_of_lane lane (ki_local k) of
           Some b \<Rightarrow> AList.update b overlap out
         | None \<Rightarrow> out)
       (estimate_all_overlaps xxh hashes (ki_local k)) []"

definition kv_find_global_overlap :: "xxh3 \<Rightarrow> u64 list \<Rightarrow> region_id \<Rightarrow> kv_index \<Rightarrow> u32 option" where
  "kv_find_global_overlap xxh hashes region k = consumer_estimate_overlap xxh hashes region (ki_consumer k)"

fun project_event :: "xxh3 \<Rightarrow> kv_cache_event \<Rightarrow> nat \<Rightarrow> local_ckf \<Rightarrow> local_ckf" where
  "project_event xxh (Stored _ hs _ _) lane c = fold (\<lambda>h c. snd (local_insert xxh h lane c)) hs c"
| "project_event xxh (Removed _ hs) lane c = fold (\<lambda>h c. snd (local_delete xxh h lane c)) hs c"
| "project_event xxh (Clear _) lane c = clear_lane lane c"
| "project_event xxh (Reset _ _) lane c = clear_lane lane c"

definition kv_apply_event :: "xxh3 \<Rightarrow> kv_cache_event \<Rightarrow> backend_id \<Rightarrow> kv_index \<Rightarrow> (radix_error + unit) \<times> kv_index" where
  "kv_apply_event xxh ev b k =
     (let (lane, c1) = assign_lane b (ki_local k);
          (r, w1) = radix_apply_event b ev (ki_radix k);
          k1 = k\<lparr>ki_local := c1, ki_radix := w1\<rparr>
      in case r of
           Inl e \<Rightarrow> (Inl e, k1)
         | Inr _ \<Rightarrow>
             (Inr (), case lane of
                        None \<Rightarrow> k1
                      | Some l \<Rightarrow> k1\<lparr>ki_local := project_event xxh ev l c1\<rparr>))"

definition kv_remove_backend :: "backend_id \<Rightarrow> kv_index \<Rightarrow> kv_index" where
  "kv_remove_backend b k =
     k\<lparr>ki_local := unassign_lane b (ki_local k), ki_radix := radix_remove_backend b (ki_radix k)\<rparr>"

section \<open>Invariant\<close>

definition index_ok :: "backend_id set \<Rightarrow> kv_index \<Rightarrow> bool" where
  "index_ok F k \<longleftrightarrow> tree_ok F (rw_state (ki_radix k)) \<and> lanes_ok (ki_local k)"

lemma index_ok_new: "index_ok F kv_index_new"
  by (simp add: index_ok_def kv_index_new_def radix_new_def tree_ok_default lanes_ok_new)

lemma project_event_frame:
  "l_backend_lanes (project_event xxh ev lane c) = l_backend_lanes c \<and>
   l_lane_backends (project_event xxh ev lane c) = l_lane_backends c \<and>
   (\<forall>l. l \<noteq> lane \<longrightarrow> lane_of (project_event xxh ev lane c) l = lane_of c l \<and>
      l_lane_status (project_event xxh ev lane c) l = l_lane_status c l) \<and>
   (l_lane_status c lane = LOCAL_ACTIVE \<longrightarrow> l_lane_status (project_event xxh ev lane c) = l_lane_status c)"
proof -
  have ins: "l_backend_lanes (fold (\<lambda>h c. snd (local_insert xxh h lane c)) hs c) = l_backend_lanes c \<and>
     l_lane_backends (fold (\<lambda>h c. snd (local_insert xxh h lane c)) hs c) = l_lane_backends c \<and>
     l_lane_status (fold (\<lambda>h c. snd (local_insert xxh h lane c)) hs c) = l_lane_status c \<and>
     (\<forall>l. l \<noteq> lane \<longrightarrow> lane_of (fold (\<lambda>h c. snd (local_insert xxh h lane c)) hs c) l = lane_of c l)" for hs c
    by (induction hs arbitrary: c) (simp_all add: local_insert_frame[OF surjective_pairing])
  have del: "l_backend_lanes (fold (\<lambda>h c. snd (local_delete xxh h lane c)) hs c) = l_backend_lanes c \<and>
     l_lane_backends (fold (\<lambda>h c. snd (local_delete xxh h lane c)) hs c) = l_lane_backends c \<and>
     l_lane_status (fold (\<lambda>h c. snd (local_delete xxh h lane c)) hs c) = l_lane_status c \<and>
     (\<forall>l. l \<noteq> lane \<longrightarrow> lane_of (fold (\<lambda>h c. snd (local_delete xxh h lane c)) hs c) l = lane_of c l)" for hs c
    by (induction hs arbitrary: c) (simp_all add: local_delete_frame[OF surjective_pairing])
  show ?thesis
    by (cases ev) (auto simp: ins del clear_lane_def)
qed

lemma lanes_ok_project:
  assumes "lanes_ok c" "l_lane_status c lane = LOCAL_ACTIVE"
  shows "lanes_ok (project_event xxh ev lane c)"
  using assms project_event_frame[of xxh ev lane c] by (simp add: lanes_ok_def)

lemma radix_apply_event_state:
  assumes "radix_apply_event b ev w = (r, w')"
  shows "rw_state w' = (if rw_alive w then tree_apply_event b ev (rw_state w) else rw_state w)"
    "rw_alive w' = rw_alive w" "isl r \<longleftrightarrow> \<not> rw_alive w"
  using assms by (auto simp: radix_apply_event_def worker_send_def split: if_splits)

lemma kv_apply_event_parts:
  assumes "kv_apply_event xxh ev b k = (r, k')" "assign_lane b (ki_local k) = (lane, c1)"
  shows "ki_radix k' = snd (radix_apply_event b ev (ki_radix k))"
    "ki_consumer k' = ki_consumer k"
    "ki_local k' = (case lane of None \<Rightarrow> c1
       | Some l \<Rightarrow> if rw_alive (ki_radix k) then project_event xxh ev l c1 else c1)"
    "isl r \<longleftrightarrow> \<not> rw_alive (ki_radix k)"
  using assms radix_apply_event_state[OF surjective_pairing, of b ev "ki_radix k"]
  by (auto simp: kv_apply_event_def Let_def split: prod.splits sum.splits option.splits)

lemma index_ok_event:
  assumes "index_ok F k" "finite F" "card F < 2 ^ 32" "b \<in> F" "kv_apply_event xxh ev b k = (r, k')"
  shows "index_ok F k'"
proof -
  obtain lane c1 where a: "assign_lane b (ki_local k) = (lane, c1)" by (cases "assign_lane b (ki_local k)")
  note P = kv_apply_event_parts[OF assms(5) a]
  have ok: "lanes_ok (ki_local k)" "tree_ok F (rw_state (ki_radix k))" using assms(1) by (simp_all add: index_ok_def)
  note A = assign_lane_cases[OF ok(1) a]
  have "lanes_ok (ki_local k')"
  proof (cases lane)
    case None
    then show ?thesis using P(3) A(1) by simp
  next
    case (Some l)
    then have "l_lane_status c1 l = LOCAL_ACTIVE"
      using A(1) A(2)[OF Some] by (auto simp: lanes_ok_def backend_of_lane_def simp del: map_of_eq_Some_iff)
    then show ?thesis using P(3) A(1) lanes_ok_project Some by simp
  qed
  moreover have "tree_ok F (rw_state (ki_radix k'))"
    using radix_apply_event_state(1)[OF surjective_pairing, of b ev "ki_radix k"] P(1)
      tree_event(1)[OF ok(2) assms(2-4)] ok(2) by simp
  ultimately show ?thesis by (simp add: index_ok_def)
qed

lemma index_ok_remove:
  assumes "index_ok F k" "finite F" "card F < 2 ^ 32"
  shows "index_ok F (kv_remove_backend b k)"
  using assms unassign_lane_ok(1) tree_cleared(1)
  by (simp add: index_ok_def kv_remove_backend_def radix_remove_backend_def worker_send_def tree_remove_backend_def)

section \<open>Isolation between backends\<close>

lemma find_matches_only_holders:
  assumes "length hs < 2 ^ 32" "\<And>p. b \<in> holders t p \<longleftrightarrow> b \<in> holders t' p"
  shows "find_matches hs b t = find_matches hs b t'"
proof -
  have le: "unat (find_matches hs b t) \<le> length hs" "unat (find_matches hs b t') \<le> length hs"
    by (rule tree_query.query_le[OF assms(1)])+
  have "n \<le> unat (find_matches hs b t) \<longleftrightarrow> n \<le> unat (find_matches hs b t')" if "n \<le> length hs" for n
    using tree_query.query_ge_iff[OF assms(1) that, of b] assms(2) by simp
  then have "unat (find_matches hs b t) = unat (find_matches hs b t')"
    using le by (meson order_antisym order_refl)
  then show ?thesis by (rule unsigned_word_eqI)
qed

lemma prefix_step_other: "b' \<noteq> b \<Longrightarrow> b' \<in> prefix_step ev b O' p \<longleftrightarrow> b' \<in> O' p"
  by (cases ev) auto

lemma lanes_ok_inj:
  "lanes_ok c \<Longrightarrow> local_lane_of b c = Some l \<Longrightarrow> local_lane_of b' c = Some l \<Longrightarrow> b = b'"
  by (auto simp: lanes_ok_def local_lane_of_def simp del: map_of_eq_Some_iff)

lemma local_overlap_cong:
  assumes "lane_of c' l = lane_of c l" "l_lane_status c' l = l_lane_status c l"
  shows "local_estimate_overlap xxh hs l c' = local_estimate_overlap xxh hs l c"
proof -
  have "local_hit xxh c' l = local_hit xxh c l"
    using assms(1) by (simp add: fun_eq_iff local_hit_def case_prod_beta)
  then show ?thesis using assms(2) by (simp add: local_estimate_overlap_def)
qed

lemma assign_lane_status:
  assumes "assign_lane b c = (r, c')" "r \<noteq> Some l"
  shows "l_lane_status c' l = l_lane_status c l"
  using assms by (auto simp: assign_lane_def Let_def split: option.splits)

lemma event_keeps_other_lane:
  assumes "lanes_ok (ki_local k)" "b' \<noteq> b" "kv_apply_event xxh ev b k = (r, k')"
  shows "local_lane_of b' (ki_local k') = local_lane_of b' (ki_local k)"
    and "local_lane_of b' (ki_local k) = Some l \<Longrightarrow>
      local_estimate_overlap xxh hs l (ki_local k') = local_estimate_overlap xxh hs l (ki_local k)"
proof -
  obtain lane c1 where a: "assign_lane b (ki_local k) = (lane, c1)" by (cases "assign_lane b (ki_local k)")
  note P = kv_apply_event_parts[OF assms(3) a] and A = assign_lane_cases[OF assms(1) a]
  have L: "l_backend_lanes (ki_local k') = l_backend_lanes c1"
    using P(3) project_event_frame[of xxh ev _ c1] by (simp split: option.splits if_splits)
  then show "local_lane_of b' (ki_local k') = local_lane_of b' (ki_local k)"
    using A(5)[OF assms(2)] by (simp add: local_lane_of_def)
  assume l: "local_lane_of b' (ki_local k) = Some l"
  have ne: "lane \<noteq> Some l"
    using A(1) A(2)[of l] A(5)[OF assms(2)] l assms(2) lanes_ok_inj[of c1 b l b'] by auto
  have "lane_of c1 l = lane_of (ki_local k) l" "l_lane_status c1 l = l_lane_status (ki_local k) l"
    using A(6)[OF ne] assign_lane_status[OF a ne] by (simp_all add: fun_eq_iff)
  moreover have "lane_of (ki_local k') l = lane_of c1 l \<and> l_lane_status (ki_local k') l = l_lane_status c1 l"
    using P(3) ne project_event_frame[of xxh ev _ c1] by (simp split: option.splits if_splits)
  ultimately show "local_estimate_overlap xxh hs l (ki_local k') = local_estimate_overlap xxh hs l (ki_local k)"
    by (intro local_overlap_cong) auto
qed

section \<open>Properties of the index\<close>

text \<open>Isolation: an event of one backend never changes the overlap answered for another backend,
  whether that backend is served from its lane or, having no lane, from the radix tree.\<close>

theorem kv_event_isolation:
  assumes "index_ok F k" "finite F" "card F < 2 ^ 32" "b \<in> F" "b' \<noteq> b" "length hs < 2 ^ 32"
    and "kv_apply_event xxh ev b k = (r, k')"
  shows "kv_find_local_overlap xxh hs b' k' = kv_find_local_overlap xxh hs b' k"
proof -
  have ok: "lanes_ok (ki_local k)" "tree_ok F (rw_state (ki_radix k))" using assms(1) by (simp_all add: index_ok_def)
  note O = event_keeps_other_lane[OF ok(1) assms(5,7)]
  show ?thesis
  proof (cases "local_lane_of b' (ki_local k)")
    case (Some l)
    then show ?thesis using O(1) O(2)[OF Some] by (simp add: kv_find_local_overlap_def)
  next
    case None
    obtain lane c1 where a: "assign_lane b (ki_local k) = (lane, c1)" by (cases "assign_lane b (ki_local k)")
    have w: "ki_radix k' = snd (radix_apply_event b ev (ki_radix k))"
      by (rule kv_apply_event_parts(1)[OF assms(7) a])
    note R = radix_apply_event_state[OF surjective_pairing, of b ev "ki_radix k"]
    have "find_matches hs b' (tree_apply_event b ev (rw_state (ki_radix k))) =
        find_matches hs b' (rw_state (ki_radix k))"
      by (rule find_matches_only_holders[OF assms(6)])
        (simp add: tree_event(2)[OF ok(2) assms(2-4)] prefix_step_other[OF assms(5)])
    then show ?thesis
      using None O(1) R by (simp add: kv_find_local_overlap_def radix_find_matches_def worker_send_def w)
  qed
qed

theorem kv_event_isolation_witness:
  "kv_find_local_overlap (\<lambda>_ s. s) [1] rb (snd (kv_apply_event (\<lambda>_ s. s) (Stored rw [1] None []) ra kv_index_new)) = 0"
  using kv_event_isolation[OF index_ok_new, of "{ra}" ra rb "[1]" "\<lambda>_ s. s" "Stored rw [1] None []"
      "fst (kv_apply_event (\<lambda>_ s. s) (Stored rw [1] None []) ra kv_index_new)"]
  by (simp add: kv_index_new_def kv_find_local_overlap_def local_lane_of_def local_new_def radix_find_matches_def
      worker_send_def radix_new_def find_matches_def tree_default_def node_new_def)

text \<open>Removing a backend removes all of it: its lane is given back, the tree no longer lists it,
  and its overlap is zero for every request.\<close>

theorem kv_remove_backend_clears:
  assumes "index_ok F k" "finite F" "card F < 2 ^ 32" "length hs < 2 ^ 32"
  shows "index_ok F (kv_remove_backend b k) \<and> local_lane_of b (ki_local (kv_remove_backend b k)) = None \<and>
    kv_find_local_overlap xxh hs b (kv_remove_backend b k) = 0"
proof -
  have ok: "lanes_ok (ki_local k)" "tree_ok F (rw_state (ki_radix k))" using assms(1) by (simp_all add: index_ok_def)
  have none: "local_lane_of b (ki_local (kv_remove_backend b k)) = None"
    using unassign_lane_ok(2)[OF ok(1)] by (simp add: kv_remove_backend_def)
  let ?t = "clear_backend b (rw_state (ki_radix k))"
  have "unat (find_matches hs b ?t) = 0"
  proof (rule ccontr)
    assume "unat (find_matches hs b ?t) \<noteq> 0"
    then have "b \<in> holders ?t (take 1 hs)" using tree_query.query_present[OF assms(4), of 1 b ?t] by simp
    then show False using tree_cleared(2)[OF ok(2) assms(2,3)] by simp
  qed
  then have "find_matches hs b ?t = 0" by (simp add: unat_eq_zero)
  then have "kv_find_local_overlap xxh hs b (kv_remove_backend b k) = 0"
    using none by (simp add: kv_find_local_overlap_def)
      (simp add: kv_remove_backend_def radix_remove_backend_def radix_find_matches_def worker_send_def
        tree_remove_backend_def)
  then show ?thesis using none index_ok_remove[OF assms(1-3)] by simp
qed

theorem kv_remove_backend_clears_witness:
  "kv_find_local_overlap (\<lambda>_ s. s) [1] ra (kv_remove_backend ra kv_index_new) = 0"
  using kv_remove_backend_clears[OF index_ok_new, of "{ra}" "[1]" ra "\<lambda>_ s. s"] by simp

end
