(* ===== verification/CoreTypes.thy ===== *)
theory CoreTypes
  imports Complex_Main Ids
begin

text \<open>
  The data the components exchange: load metrics (\<open>metrics.rs\<close>), topology (\<open>topology.rs\<close>) and backend
  descriptions (\<open>backend.rs\<close>) of \<open>crates/hier-kv-gateway-core/src\<close>.
\<close>

section \<open>Floating-point values\<close>

text \<open>
  An \<open>f64\<close> is a finite value (every finite double is a rational), an infinity or not a number. The
  definitions that only store or compare doubles use this type; comparisons are those of IEEE 754,
  where every comparison with \<open>NaN\<close> is false.
\<close>

datatype f64 = Fin rat | PInf | NInf | NaN

fun f64_less :: "f64 \<Rightarrow> f64 \<Rightarrow> bool" where
  "f64_less NaN _ = False"
| "f64_less _ NaN = False"
| "f64_less NInf y = (y \<noteq> NInf)"
| "f64_less _ NInf = False"
| "f64_less PInf _ = False"
| "f64_less (Fin x) PInf = True"
| "f64_less (Fin x) (Fin y) = (x < y)"

text \<open>\<open>f64::max\<close>: the other operand when one is \<open>NaN\<close>.\<close>

definition f64_max :: "f64 \<Rightarrow> f64 \<Rightarrow> f64" where
  "f64_max x y = (if x = NaN then y else if y = NaN then x else if f64_less x y then y else x)"

section \<open>Metrics\<close>

text \<open>An \<open>i64\<close> is its 64 bits, read by \<open>sint\<close>.\<close>

type_synonym i64 = "64 word"

record latency_stats =
  p50_ms :: f64
  p99_ms :: f64
  p999_ms :: f64
  sample_count :: u64

record backend_metrics =
  active_requests :: u64
  queue_depth :: u64
  active_decode_blocks :: u64
  active_prefill_tokens :: u64
  kv_used_blocks :: u64
  kv_total_blocks :: u64
  gpu_utilization :: f64
  gpu_memory_used_mb :: u64
  gpu_memory_total_mb :: u64
  bm_latency :: latency_stats
  bm_timestamp :: i64

text \<open>\<open>as i64\<close> keeps the bits; the sum and the difference wrap in a release build.\<close>

definition available_capacity :: "backend_metrics \<Rightarrow> i64" where
  "available_capacity m =
     (let used = kv_used_blocks m + active_decode_blocks m in kv_total_blocks m - used)"

section \<open>Topology\<close>

record geo_coord =
  geo_lat :: f64
  geo_lon :: f64

record region_info =
  ri_id :: region_id
  ri_tier :: region_tier
  ri_geo :: "geo_coord option"
  network_zone :: string
  ri_endpoints :: "string list"

record latency_estimate =
  rtt_p50_ms :: f64
  rtt_p99_ms :: f64
  bandwidth_mbps :: f64
  last_updated_unix :: i64

type_synonym latency_matrix = "((region_id \<times> region_id) \<times> latency_estimate) list"

section \<open>Backends\<close>

datatype backend_type = LlmDCluster | VllmEngine | LlamaCppEngine | GenericOpenAI | DynamoEngine | SglangEngine

datatype protocol = Http | Grpc | Nats

record endpoint =
  ep_url :: string
  ep_protocol :: protocol

datatype quantization = Fp16 | Bf16 | Int8 | Int4 | Awq | Gptq

record model_instance =
  model_name :: string
  model_architecture :: string
  mi_quantization :: quantization
  max_context_len :: u32
  supports_tool_calling :: bool
  supports_streaming :: bool

record backend_capabilities =
  supports_kv_events :: bool
  supports_batching :: bool
  max_batch_size :: u32
  gpu_count :: u32
  gpu_memory_gb :: u32

record kv_config =
  kc_block_size :: u32
  kc_cache_namespace :: string
  max_kv_blocks :: u64

datatype backend_status = Healthy | Degraded | Unhealthy | UnknownStatus

record backend_info =
  bi_id :: backend_id
  bi_type :: backend_type
  bi_endpoint :: endpoint
  bi_models :: "model_instance list"
  bi_region :: region_id
  bi_domain :: indexer_domain_id
  bi_capabilities :: backend_capabilities
  bi_kv_config :: kv_config
  bi_status :: backend_status

lemma available_capacity_exact:
  assumes "unat (kv_used_blocks m) + unat (active_decode_blocks m) < 2 ^ 63" "unat (kv_total_blocks m) < 2 ^ 63"
  shows "sint (available_capacity m) =
    int (unat (kv_total_blocks m)) - int (unat (kv_used_blocks m)) - int (unat (active_decode_blocks m))"
proof -
  let ?t = "int (unat (kv_total_blocks m))" and ?u = "int (unat (kv_used_blocks m))"
    and ?d = "int (unat (active_decode_blocks m))"
  have "available_capacity m = word_of_int (?t - (?u + ?d))"
    by (simp add: available_capacity_def)
  then have "sint (available_capacity m) = signed_take_bit 63 (?t - (?u + ?d))"
    by (simp only: signed_of_int) simp
  also have "\<dots> = ?t - (?u + ?d)"
  proof (rule signed_take_bit_int_eq_self)
    have "?u + ?d < 2 ^ 63" "?t < 2 ^ 63"
      using assms by (simp_all del: int_nat_eq add: of_nat_less_iff [where 'a = int, symmetric] del: of_nat_less_iff)
    then show "- (2 ^ 63) \<le> ?t - (?u + ?d)" "?t - (?u + ?d) < 2 ^ 63" by linarith+
  qed
  finally show ?thesis by simp
qed

end
