(* ===== verification/Ring.thy ===== *)
theory Ring
  imports Prelude
begin

text \<open>
  The sliding window of metric samples, \<open>RingBuffer\<close> of
  \<open>crates/hier-kv-gateway-metadata/src/load_stats.rs\<close>, against its contract: the window holds the
  last \<open>capacity\<close> samples, oldest first.
\<close>

section \<open>The ring buffer\<close>

record 'a ring =
  rb_buf :: "'a list"
  rb_head :: nat
  rb_len :: nat
  rb_capacity :: nat

definition ring_new :: "nat \<Rightarrow> 'a ring" where
  "ring_new capacity = \<lparr>rb_buf = [], rb_head = 0, rb_len = 0, rb_capacity = capacity\<rparr>"

text \<open>A push into a full buffer writes at \<open>head\<close>; out of range it panics (\<open>None\<close>).\<close>

definition ring_push :: "'a \<Rightarrow> 'a ring \<Rightarrow> 'a ring option" where
  "ring_push x r =
     (if length (rb_buf r) < rb_capacity r
      then Some (r\<lparr>rb_buf := rb_buf r @ [x], rb_len := length (rb_buf r) + 1\<rparr>)
      else if rb_head r < length (rb_buf r)
      then Some (r\<lparr>rb_buf := (rb_buf r)[rb_head r := x], rb_head := (rb_head r + 1) mod rb_capacity r,
                   rb_len := rb_capacity r\<rparr>)
      else None)"

definition ring_snapshot :: "'a ring \<Rightarrow> 'a list" where
  "ring_snapshot r =
     (if length (rb_buf r) < rb_capacity r then rb_buf r
      else map (\<lambda>i. rb_buf r ! ((rb_head r + i) mod rb_capacity r)) [0..<rb_capacity r])"

definition ring_len :: "'a ring \<Rightarrow> nat" where
  "ring_len r = rb_len r"

definition ring_is_empty :: "'a ring \<Rightarrow> bool" where
  "ring_is_empty r \<longleftrightarrow> rb_len r = 0"

section \<open>The contract of a sliding window\<close>

definition last_n :: "nat \<Rightarrow> 'a list \<Rightarrow> 'a list" where
  "last_n n xs = drop (length xs - n) xs"

lemma last_n_snoc:
  assumes "0 < n"
  shows "last_n n (xs @ [x]) = (if length (last_n n xs) < n then last_n n xs else tl (last_n n xs)) @ [x]"
proof (cases "length xs < n")
  case True
  then show ?thesis by (simp add: last_n_def)
next
  case False
  then have "drop (Suc (length xs) - n) xs = tl (drop (length xs - n) xs)"
    using assms by (simp add: Suc_diff_le drop_Suc tl_drop)
  then show ?thesis using False assms by (simp add: last_n_def)
qed

locale sliding_window =
  fixes push :: "'a \<Rightarrow> 'w \<Rightarrow> 'w option" and window :: "'w \<Rightarrow> 'a list" and ok :: "'w \<Rightarrow> bool"
    and empty :: 'w and cap :: nat
  assumes cap_pos: "0 < cap" and empty_ok: "ok empty" "window empty = []"
    and push_ok: "ok w \<Longrightarrow> \<exists>w'. push x w = Some w' \<and> ok w' \<and>
      window w' = (if length (window w) < cap then window w else tl (window w)) @ [x]"
begin

lemma window_pushes: "\<exists>w. try_fold push xs empty = Some w \<and> ok w \<and> window w = last_n cap xs"
proof (induction xs rule: rev_induct)
  case Nil
  then show ?case using empty_ok by (simp add: last_n_def)
next
  case (snoc x xs)
  then obtain w where w: "try_fold push xs empty = Some w" "ok w" "window w = last_n cap xs" by blast
  obtain w' where "push x w = Some w'" "ok w'"
    "window w' = (if length (window w) < cap then window w else tl (window w)) @ [x]"
    using push_ok[OF w(2)] by blast
  then show ?case using w by (simp add: try_fold_append last_n_snoc[OF cap_pos])
qed

end

section \<open>The ring buffer keeps the contract\<close>

definition ring_ok :: "nat \<Rightarrow> 'a ring \<Rightarrow> bool" where
  "ring_ok cap r \<longleftrightarrow> rb_capacity r = cap \<and> length (rb_buf r) \<le> cap \<and> rb_len r = length (rb_buf r) \<and>
     (length (rb_buf r) < cap \<longrightarrow> rb_head r = 0) \<and> (length (rb_buf r) = cap \<longrightarrow> rb_head r < cap)"

lemma rotated_update:
  assumes "h < n" "length b = n"
  shows "map (\<lambda>i. b[h := x] ! ((Suc h mod n + i) mod n)) [0..<n] =
    tl (map (\<lambda>i. b ! ((h + i) mod n)) [0..<n]) @ [x]"
proof (rule nth_equalityI)
  show "length (map (\<lambda>i. b[h := x] ! ((Suc h mod n + i) mod n)) [0..<n]) =
      length (tl (map (\<lambda>i. b ! ((h + i) mod n)) [0..<n]) @ [x])" using assms by simp
  fix i assume "i < length (map (\<lambda>i. b[h := x] ! ((Suc h mod n + i) mod n)) [0..<n])"
  then have i: "i < n" by simp
  have idx: "(Suc h mod n + i) mod n = (h + Suc i) mod n" by (simp add: mod_simps)
  show "map (\<lambda>i. b[h := x] ! ((Suc h mod n + i) mod n)) [0..<n] ! i =
      (tl (map (\<lambda>i. b ! ((h + i) mod n)) [0..<n]) @ [x]) ! i"
  proof (cases "Suc i = n")
    case True
    then have "(h + Suc i) mod n = h" using assms by simp
    moreover have "i = n - 1" using True by simp
    ultimately show ?thesis using assms i idx by (simp add: nth_append)
  next
    case False
    then have "Suc i < n" using i by simp
    then have "(h + Suc i) mod n \<noteq> h"
      using assms(1) by (cases "h + Suc i < n") (auto simp: mod_if)
    moreover have "i < n - 1" using \<open>Suc i < n\<close> by simp
    ultimately show ?thesis using \<open>Suc i < n\<close> i idx by (simp add: nth_append nth_tl)
  qed
qed

lemma length_snapshot: "ring_ok cap r \<Longrightarrow> length (ring_snapshot r) = length (rb_buf r)"
  by (auto simp: ring_ok_def ring_snapshot_def)

lemma ring_push_ok:
  assumes "0 < cap" "ring_ok cap r"
  shows "\<exists>r'. ring_push x r = Some r' \<and> ring_ok cap r' \<and>
    ring_snapshot r' = (if length (ring_snapshot r) < cap then ring_snapshot r else tl (ring_snapshot r)) @ [x]"
proof (cases "length (rb_buf r) < cap")
  case True
  have snap: "ring_snapshot r = rb_buf r" using True assms(2) by (simp add: ring_snapshot_def ring_ok_def)
  have full: "map (\<lambda>i. (rb_buf r @ [x]) ! (i mod cap)) [0..<cap] = rb_buf r @ [x]"
    if "length (rb_buf r @ [x]) = cap"
    using that by (intro nth_equalityI) auto
  show ?thesis
    using True assms(2) full by (auto simp: ring_push_def ring_ok_def snap) (auto simp: ring_snapshot_def)
next
  case False
  then have r: "length (rb_buf r) = cap" "rb_head r < cap" "rb_capacity r = cap"
    using assms(2) by (auto simp: ring_ok_def)
  then show ?thesis
    using rotated_update[OF r(2,1), of x] assms(1)
    by (simp add: ring_push_def ring_ok_def ring_snapshot_def)
qed

definition RING_CAPACITY :: nat where
  "RING_CAPACITY = 60"

interpretation samples: sliding_window ring_push ring_snapshot "ring_ok RING_CAPACITY"
  "ring_new RING_CAPACITY" RING_CAPACITY
proof
  show "0 < RING_CAPACITY" by (simp add: RING_CAPACITY_def)
  show "\<exists>w'. ring_push x w = Some w' \<and> ring_ok RING_CAPACITY w' \<and>
      ring_snapshot w' = (if length (ring_snapshot w) < RING_CAPACITY then ring_snapshot w else tl (ring_snapshot w)) @ [x]"
    if "ring_ok RING_CAPACITY w" for x :: 'a and w
    by (rule ring_push_ok[OF _ that]) (simp add: RING_CAPACITY_def)
qed (simp_all add: RING_CAPACITY_def ring_new_def ring_ok_def ring_snapshot_def)

text \<open>The metrics window: pushing any sequence of samples into a new ring buffer never fails, and
  the snapshot is the last sixty samples in the order they were written.\<close>

theorem ring_window:
  "\<exists>r. try_fold ring_push xs (ring_new RING_CAPACITY) = Some r \<and>
    ring_snapshot r = last_n RING_CAPACITY xs \<and> ring_len r = min (length xs) RING_CAPACITY"
proof -
  obtain r where r: "try_fold ring_push xs (ring_new RING_CAPACITY) = Some r" "ring_ok RING_CAPACITY r"
    "ring_snapshot r = last_n RING_CAPACITY xs"
    using samples.window_pushes by blast
  have "ring_len r = length (ring_snapshot r)"
    using r(2) length_snapshot[OF r(2)] by (simp add: ring_len_def ring_ok_def)
  then show ?thesis using r by (simp add: last_n_def min_def)
qed

end
