(* ===== verification/Store.thy ===== *)
theory Store
  imports KvIndex CoreTypes Ring
begin

text \<open>
  The metadata store and its parts in \<open>crates/hier-kv-gateway-metadata/src\<close>: the model registry
  (\<open>model_registry.rs\<close>), the load statistics (\<open>load_stats.rs\<close>), the topology graph
  (\<open>topology_graph.rs\<close>), the session affinities (\<open>routing_history.rs\<close>) and the registry of backends with
  its two reverse indexes (\<open>store.rs\<close>). The clock is the argument \<open>now\<close>, in Unix seconds.
\<close>

section \<open>Model registry\<close>

type_synonym model_registry = "(backend_id \<times> model_instance list) list"

definition models_register :: "backend_id \<Rightarrow> model_instance list \<Rightarrow> model_registry \<Rightarrow> model_registry" where
  "models_register b ms r = AList.update b ms r"

definition models_unregister :: "backend_id \<Rightarrow> model_registry \<Rightarrow> model_registry" where
  "models_unregister b r = AList.delete b r"

definition match_score :: "model_instance \<Rightarrow> string \<Rightarrow> f64" where
  "match_score mi name =
     (if model_name mi = name then Fin 1
      else if model_architecture mi \<noteq> [] \<and> model_architecture mi = name then Fin (6305039478318694 / 9007199254740992)
      else Fin 0)"

definition model_match_score :: "backend_id \<Rightarrow> string \<Rightarrow> model_registry \<Rightarrow> f64" where
  "model_match_score b name r =
     (case map_of r b of
        None \<Rightarrow> Fin 0
      | Some ms \<Rightarrow> fold (\<lambda>mi best. let score = match_score mi name in if f64_less best score then score else best)
                    ms (Fin 0))"

definition model_find_backends :: "string \<Rightarrow> model_registry \<Rightarrow> backend_id list" where
  "model_find_backends name r =
     map fst (filter (\<lambda>(b, ms).
         f64_less (Fin 0) (fold (\<lambda>mi acc. f64_max acc (match_score mi name)) ms (Fin 0))) r)"

definition models_get_instances :: "backend_id \<Rightarrow> model_registry \<Rightarrow> model_instance list" where
  "models_get_instances b r = (case map_of r b of None \<Rightarrow> [] | Some ms \<Rightarrow> ms)"

section \<open>Load statistics\<close>

record load_stats =
  ls_latest :: "(backend_id \<times> backend_metrics) list"
  ls_history :: "(backend_id \<times> backend_metrics ring) list"

definition load_new :: load_stats where
  "load_new = \<lparr>ls_latest = [], ls_history = []\<rparr>"

definition load_get :: "backend_id \<Rightarrow> load_stats \<Rightarrow> backend_metrics option" where
  "load_get b s = map_of (ls_latest s) b"

definition load_update :: "backend_id \<Rightarrow> backend_metrics \<Rightarrow> load_stats \<Rightarrow> load_stats option" where
  "load_update b m s =
     (let hist = (case map_of (ls_history s) b of None \<Rightarrow> ring_new RING_CAPACITY | Some r \<Rightarrow> r)
      in case ring_push m hist of
           None \<Rightarrow> None
         | Some hist' \<Rightarrow> Some (s\<lparr>ls_latest := AList.update b m (ls_latest s),
                                ls_history := AList.update b hist' (ls_history s)\<rparr>))"

definition metrics_timestamp :: "backend_metrics \<Rightarrow> u64" where
  "metrics_timestamp m = (if sint (bm_timestamp m) < 0 then 0 else bm_timestamp m)"

definition load_freshness :: "u64 \<Rightarrow> backend_id \<Rightarrow> load_stats \<Rightarrow> u64 option" where
  "load_freshness now b s =
     (case load_get b s of None \<Rightarrow> None | Some m \<Rightarrow> Some (sat_sub now (metrics_timestamp m)))"

definition load_history :: "backend_id \<Rightarrow> load_stats \<Rightarrow> backend_metrics list" where
  "load_history b s = (case map_of (ls_history s) b of None \<Rightarrow> [] | Some r \<Rightarrow> ring_snapshot r)"

definition load_remove :: "backend_id \<Rightarrow> load_stats \<Rightarrow> load_stats" where
  "load_remove b s = s\<lparr>ls_latest := AList.delete b (ls_latest s), ls_history := AList.delete b (ls_history s)\<rparr>"

section \<open>Topology graph\<close>

record topology_graph =
  tg_regions :: "(region_id \<times> region_info) list"
  tg_latency :: latency_matrix

definition topology_new :: topology_graph where
  "topology_new = \<lparr>tg_regions = [], tg_latency = []\<rparr>"

definition topo_rtt_ms :: "region_id \<Rightarrow> region_id \<Rightarrow> topology_graph \<Rightarrow> f64" where
  "topo_rtt_ms from to g =
     (if from = to then Fin 0
      else case map_of (tg_latency g) (from, to) of
             Some est \<Rightarrow> rtt_p50_ms est
           | None \<Rightarrow> (case map_of (tg_latency g) (to, from) of Some est \<Rightarrow> rtt_p50_ms est | None \<Rightarrow> PInf))"

definition topo_get_region :: "region_id \<Rightarrow> topology_graph \<Rightarrow> region_info option" where
  "topo_get_region r g = map_of (tg_regions g) r"

definition topo_update_latency :: "region_id \<Rightarrow> region_id \<Rightarrow> latency_estimate \<Rightarrow> topology_graph \<Rightarrow> topology_graph" where
  "topo_update_latency a b est g =
     (if a = b then g
      else g\<lparr>tg_latency := AList.update (b, a) est (AList.update (a, b) est (tg_latency g))\<rparr>)"

definition topo_add_region :: "region_info \<Rightarrow> topology_graph \<Rightarrow> topology_graph" where
  "topo_add_region info g = g\<lparr>tg_regions := AList.update (ri_id info) info (tg_regions g)\<rparr>"

definition topo_remove_region :: "region_id \<Rightarrow> topology_graph \<Rightarrow> topology_graph" where
  "topo_remove_region r g = g\<lparr>tg_regions := AList.delete r (tg_regions g)\<rparr>"

definition topo_all_regions :: "topology_graph \<Rightarrow> region_id list" where
  "topo_all_regions g = map fst (tg_regions g)"

section \<open>Session affinities\<close>

record session_affinity =
  sa_backend :: backend_id
  sa_last_used_unix :: u64
  sa_kv_overlap_at_route :: u32

type_synonym routing_history = "(session_id \<times> session_affinity) list"

definition history_get :: "session_id \<Rightarrow> routing_history \<Rightarrow> session_affinity option" where
  "history_get s h = map_of h s"

definition history_set :: "u64 \<Rightarrow> session_id \<Rightarrow> backend_id \<Rightarrow> u32 \<Rightarrow> routing_history \<Rightarrow> routing_history" where
  "history_set now s b overlap h =
     AList.update s \<lparr>sa_backend = b, sa_last_used_unix = now, sa_kv_overlap_at_route = overlap\<rparr> h"

definition history_remove :: "session_id \<Rightarrow> routing_history \<Rightarrow> routing_history" where
  "history_remove s h = AList.delete s h"

definition history_evict_expired :: "u64 \<Rightarrow> u64 \<Rightarrow> routing_history \<Rightarrow> nat \<times> routing_history" where
  "history_evict_expired now ttl_secs h =
     (let kept = filter (\<lambda>(_, aff). \<not> sat_add (sa_last_used_unix aff) ttl_secs < now) h
      in (length h - length kept, kept))"

section \<open>The store\<close>

record metadata_store =
  ms_kv :: kv_index
  ms_models :: model_registry
  ms_load :: load_stats
  ms_topology :: topology_graph
  ms_history :: routing_history
  ms_backends :: "(backend_id \<times> backend_info) list"
  ms_by_region :: "(region_id \<times> backend_id list) list"
  ms_by_domain :: "(indexer_domain_id \<times> backend_id list) list"

definition store_new :: metadata_store where
  "store_new = \<lparr>ms_kv = kv_index_new, ms_models = [], ms_load = load_new, ms_topology = topology_new,
     ms_history = [], ms_backends = [], ms_by_region = [], ms_by_domain = []\<rparr>"

definition index_push :: "'k \<Rightarrow> backend_id \<Rightarrow> ('k \<times> backend_id list) list \<Rightarrow> ('k \<times> backend_id list) list" where
  "index_push k b ix = AList.update k ((case map_of ix k of None \<Rightarrow> [] | Some bs \<Rightarrow> bs) @ [b]) ix"

definition index_retain :: "'k \<Rightarrow> backend_id \<Rightarrow> ('k \<times> backend_id list) list \<Rightarrow> ('k \<times> backend_id list) list" where
  "index_retain k b ix =
     (case map_of ix k of
        None \<Rightarrow> ix
      | Some bs \<Rightarrow> (let bs' = filter (\<lambda>b'. b' \<noteq> b) bs in if bs' = [] then AList.delete k ix else AList.update k bs' ix))"

definition register_backend :: "backend_info \<Rightarrow> metadata_store \<Rightarrow> metadata_store" where
  "register_backend info s =
     s\<lparr>ms_backends := AList.update (bi_id info) info (ms_backends s),
       ms_models := models_register (bi_id info) (bi_models info) (ms_models s),
       ms_by_region := index_push (bi_region info) (bi_id info) (ms_by_region s),
       ms_by_domain := index_push (bi_domain info) (bi_id info) (ms_by_domain s)\<rparr>"

definition unregister_backend :: "backend_id \<Rightarrow> metadata_store \<Rightarrow> metadata_store" where
  "unregister_backend b s =
     (let s1 = (case map_of (ms_backends s) b of
                  None \<Rightarrow> s
                | Some info \<Rightarrow> s\<lparr>ms_backends := AList.delete b (ms_backends s),
                    ms_by_region := index_retain (bi_region info) (bi_id info) (ms_by_region s),
                    ms_by_domain := index_retain (bi_domain info) (bi_id info) (ms_by_domain s)\<rparr>)
      in s1\<lparr>ms_models := models_unregister b (ms_models s1), ms_load := load_remove b (ms_load s1)\<rparr>)"

definition backends_all :: "metadata_store \<Rightarrow> backend_info list" where
  "backends_all s = map snd (ms_backends s)"

definition backends_by_region :: "region_id \<Rightarrow> metadata_store \<Rightarrow> backend_id list" where
  "backends_by_region r s = (case map_of (ms_by_region s) r of None \<Rightarrow> [] | Some bs \<Rightarrow> bs)"

definition backends_by_domain :: "indexer_domain_id \<Rightarrow> metadata_store \<Rightarrow> backend_id list" where
  "backends_by_domain d s = (case map_of (ms_by_domain s) d of None \<Rightarrow> [] | Some bs \<Rightarrow> bs)"

definition backend_get :: "backend_id \<Rightarrow> metadata_store \<Rightarrow> backend_info option" where
  "backend_get b s = map_of (ms_backends s) b"

definition backends_len :: "metadata_store \<Rightarrow> nat" where
  "backends_len s = length (ms_backends s)"

definition store_kv_apply_event :: "xxh3 \<Rightarrow> kv_cache_event \<Rightarrow> backend_id \<Rightarrow> metadata_store \<Rightarrow> (radix_error + unit) \<times> metadata_store" where
  "store_kv_apply_event xxh ev b s =
     (let (r, k) = kv_apply_event xxh ev b (ms_kv s) in (r, s\<lparr>ms_kv := k\<rparr>))"

text \<open>
  The future returned by \<open>kv_remove_backend\<close> owns a clone of the radix handle; when it completes the
  clone is dropped, and dropping a handle sends \<open>Shutdown\<close>.
\<close>

definition store_kv_remove_backend :: "backend_id \<Rightarrow> metadata_store \<Rightarrow> metadata_store" where
  "store_kv_remove_backend b s =
     (let k = ms_kv s;
          k1 = k\<lparr>ki_local := unassign_lane b (ki_local k)\<rparr>;
          k2 = k1\<lparr>ki_radix := radix_drop_handle (radix_remove_backend b (ki_radix k1))\<rparr>
      in s\<lparr>ms_kv := k2\<rparr>)"

definition store_load_update :: "backend_id \<Rightarrow> backend_metrics \<Rightarrow> metadata_store \<Rightarrow> metadata_store option" where
  "store_load_update b m s = map_option (\<lambda>l. s\<lparr>ms_load := l\<rparr>) (load_update b m (ms_load s))"

definition store_topo_update_latency :: "region_id \<Rightarrow> region_id \<Rightarrow> latency_estimate \<Rightarrow> metadata_store \<Rightarrow> metadata_store" where
  "store_topo_update_latency a b est s = s\<lparr>ms_topology := topo_update_latency a b est (ms_topology s)\<rparr>"

definition store_topo_add_region :: "region_info \<Rightarrow> metadata_store \<Rightarrow> metadata_store" where
  "store_topo_add_region info s = s\<lparr>ms_topology := topo_add_region info (ms_topology s)\<rparr>"

definition session_set :: "u64 \<Rightarrow> session_id \<Rightarrow> backend_id \<Rightarrow> u32 \<Rightarrow> metadata_store \<Rightarrow> metadata_store" where
  "session_set now sess b overlap s = s\<lparr>ms_history := history_set now sess b overlap (ms_history s)\<rparr>"

definition session_get :: "session_id \<Rightarrow> metadata_store \<Rightarrow> session_affinity option" where
  "session_get sess s = history_get sess (ms_history s)"

definition session_evict_expired :: "u64 \<Rightarrow> u64 \<Rightarrow> metadata_store \<Rightarrow> nat \<times> metadata_store" where
  "session_evict_expired now ttl s =
     (let (n, h) = history_evict_expired now ttl (ms_history s) in (n, s\<lparr>ms_history := h\<rparr>))"

end
