(* ===== verification/StoreProof.thy ===== *)
theory StoreProof
  imports Store
begin

text \<open>
  What the metadata store promises: the reverse indexes agree with the registry, the load history is
  the window of the last samples, the two model queries agree, latencies are symmetric, and sessions
  expire exactly by their time to live.
\<close>

section \<open>Reverse indexes\<close>

definition index_of :: "('k \<times> backend_id list) list \<Rightarrow> 'k \<Rightarrow> backend_id list" where
  "index_of ix k = (case map_of ix k of None \<Rightarrow> [] | Some bs \<Rightarrow> bs)"

lemma index_of_push: "index_of (index_push k b ix) k' = (if k' = k then index_of ix k @ [b] else index_of ix k')"
  by (auto simp: index_of_def index_push_def)

lemma index_of_retain:
  "index_of (index_retain k b ix) k' = (if k' = k then filter (\<lambda>b'. b' \<noteq> b) (index_of ix k) else index_of ix k')"
  by (auto simp: index_of_def index_retain_def Let_def split: option.splits)

definition index_agrees :: "(backend_info \<Rightarrow> 'k) \<Rightarrow> (backend_id \<rightharpoonup> backend_info) \<Rightarrow> ('k \<times> backend_id list) list \<Rightarrow> bool" where
  "index_agrees key reg ix \<longleftrightarrow>
     (\<forall>k. distinct (index_of ix k) \<and> set (index_of ix k) = {b. \<exists>info. reg b = Some info \<and> key info = k})"

lemma index_agrees_push:
  assumes "index_agrees key reg ix" "reg b = None"
  shows "index_agrees key (reg(b \<mapsto> info)) (index_push (key info) b ix)"
  using assms by (auto simp: index_agrees_def index_of_push)

lemma index_agrees_retain:
  assumes "index_agrees key reg ix" "reg b = Some info"
  shows "index_agrees key (reg(b := None)) (index_retain (key info) b ix)"
  using assms by (auto simp: index_agrees_def index_of_retain)

definition store_ok :: "metadata_store \<Rightarrow> bool" where
  "store_ok s \<longleftrightarrow> keys_distinct (ms_backends s) \<and>
     (\<forall>b info. map_of (ms_backends s) b = Some info \<longrightarrow> bi_id info = b) \<and>
     index_agrees bi_region (map_of (ms_backends s)) (ms_by_region s) \<and>
     index_agrees bi_domain (map_of (ms_backends s)) (ms_by_domain s)"

datatype registry_op = Register backend_info | Unregister backend_id

fun registry_step :: "registry_op \<Rightarrow> metadata_store \<Rightarrow> metadata_store" where
  "registry_step (Register info) s = register_backend info s"
| "registry_step (Unregister b) s = unregister_backend b s"

fun fresh_ops :: "registry_op list \<Rightarrow> metadata_store \<Rightarrow> bool" where
  "fresh_ops [] s = True"
| "fresh_ops (op # ops) s =
     ((case op of Register info \<Rightarrow> backend_get (bi_id info) s = None | Unregister b \<Rightarrow> True) \<and>
      fresh_ops ops (registry_step op s))"

lemma store_ok_new: "store_ok store_new"
  by (simp add: store_ok_def store_new_def index_agrees_def index_of_def)

lemma store_ok_register:
  assumes "store_ok s" "backend_get (bi_id info) s = None"
  shows "store_ok (register_backend info s)"
  using assms index_agrees_push[of bi_region "map_of (ms_backends s)" _ "bi_id info" info]
    index_agrees_push[of bi_domain "map_of (ms_backends s)" _ "bi_id info" info]
  by (auto simp: store_ok_def register_backend_def backend_get_def)

lemma store_ok_unregister:
  assumes "store_ok s"
  shows "store_ok (unregister_backend b s)"
proof (cases "map_of (ms_backends s) b")
  case None
  then show ?thesis using assms by (simp add: store_ok_def unregister_backend_def)
next
  case (Some info)
  then have id: "bi_id info = b" using assms by (simp add: store_ok_def del: map_of_eq_Some_iff)
  show ?thesis
    using assms Some id index_agrees_retain[of bi_region "map_of (ms_backends s)" _ b info]
      index_agrees_retain[of bi_domain "map_of (ms_backends s)" _ b info]
    by (simp add: store_ok_def unregister_backend_def Let_def del: map_of_eq_Some_iff)
qed

lemma store_ok_run: "store_ok s \<Longrightarrow> fresh_ops ops s \<Longrightarrow> store_ok (fold registry_step ops s)"
proof (induction ops arbitrary: s)
  case Nil
  then show ?case by simp
next
  case (Cons op ops)
  then show ?case by (cases op) (simp_all add: store_ok_register store_ok_unregister)
qed

section \<open>Load statistics\<close>

definition load_ok :: "load_stats \<Rightarrow> bool" where
  "load_ok s \<longleftrightarrow> (\<forall>b r. map_of (ls_history s) b = Some r \<longrightarrow> ring_ok RING_CAPACITY r)"

definition samples_of :: "backend_id \<Rightarrow> (backend_id \<times> backend_metrics) list \<Rightarrow> backend_metrics list" where
  "samples_of b ups = map snd (filter (\<lambda>u. fst u = b) ups)"

lemma ring_new_ok: "ring_ok RING_CAPACITY (ring_new RING_CAPACITY)" "ring_snapshot (ring_new RING_CAPACITY) = []"
  by (rule samples.empty_ok)+

lemma load_update_ok:
  assumes "load_ok s"
  obtains s' where "load_update b m s = Some s'" "load_ok s'" "load_get b s' = Some m"
    "load_history b s' = (if length (load_history b s) < RING_CAPACITY then load_history b s else tl (load_history b s)) @ [m]"
    "\<And>b'. b' \<noteq> b \<Longrightarrow> load_get b' s' = load_get b' s \<and> load_history b' s' = load_history b' s"
proof -
  define h where "h = (case map_of (ls_history s) b of None \<Rightarrow> ring_new RING_CAPACITY | Some r \<Rightarrow> r)"
  have h: "ring_ok RING_CAPACITY h" "ring_snapshot h = load_history b s"
    using assms ring_new_ok by (auto simp: h_def load_ok_def load_history_def split: option.splits)
  obtain h' where h': "ring_push m h = Some h'" "ring_ok RING_CAPACITY h'"
    "ring_snapshot h' = (if length (ring_snapshot h) < RING_CAPACITY then ring_snapshot h else tl (ring_snapshot h)) @ [m]"
    using samples.push_ok[OF h(1)] by blast
  show ?thesis
    by (rule that[of "s\<lparr>ls_latest := AList.update b m (ls_latest s), ls_history := AList.update b h' (ls_history s)\<rparr>"])
      (use assms h h' in \<open>auto simp: load_update_def h_def [symmetric] load_ok_def load_get_def load_history_def\<close>)
qed

lemma samples_of_snoc: "samples_of b (ups @ [(b', m)]) = samples_of b ups @ (if b' = b then [m] else [])"
  by (simp add: samples_of_def)

lemma load_run:
  "\<exists>s. try_fold (\<lambda>(b, m). load_update b m) ups load_new = Some s \<and> load_ok s \<and>
    (\<forall>b. load_history b s = last_n RING_CAPACITY (samples_of b ups) \<and>
      load_get b s = (if samples_of b ups = [] then None else Some (last (samples_of b ups))))"
proof (induction ups rule: rev_induct)
  case Nil
  then show ?case
    by (simp add: load_new_def load_ok_def load_history_def load_get_def samples_of_def last_n_def)
next
  case (snoc u ups)
  obtain b m where u: "u = (b, m)" by (cases u)
  obtain s where s: "try_fold (\<lambda>(b, m). load_update b m) ups load_new = Some s" "load_ok s"
    "\<And>b. load_history b s = last_n RING_CAPACITY (samples_of b ups)"
    "\<And>b. load_get b s = (if samples_of b ups = [] then None else Some (last (samples_of b ups)))"
    using snoc.IH by blast
  obtain s' where s': "load_update b m s = Some s'" "load_ok s'" "load_get b s' = Some m"
    "load_history b s' = (if length (load_history b s) < RING_CAPACITY then load_history b s else tl (load_history b s)) @ [m]"
    "\<And>b'. b' \<noteq> b \<Longrightarrow> load_get b' s' = load_get b' s \<and> load_history b' s' = load_history b' s"
    using load_update_ok[OF s(2)] by blast
  have "load_history b' s' = last_n RING_CAPACITY (samples_of b' (ups @ [u])) \<and>
      load_get b' s' = (if samples_of b' (ups @ [u]) = [] then None else Some (last (samples_of b' (ups @ [u]))))" for b'
  proof (cases "b' = b")
    case True
    then show ?thesis
      using s'(3,4) s(3)[of b] last_n_snoc[OF samples.cap_pos, of "samples_of b ups" m]
      by (simp add: u samples_of_snoc)
  next
    case False
    then show ?thesis using s'(5)[OF False] s(3,4)[of b'] by (simp add: u samples_of_snoc)
  qed
  then show ?case using s(1) s'(1,2) by (simp add: try_fold_append u)
qed

section \<open>Model queries\<close>

lemma match_score_cases: "match_score mi name \<in> {Fin 0, Fin (6305039478318694 / 9007199254740992), Fin 1}"
  by (simp add: match_score_def)

lemma best_score_eq_max:
  assumes "acc \<in> {Fin 0, Fin (6305039478318694 / 9007199254740992), Fin 1}"
  shows "fold (\<lambda>mi best. let score = match_score mi name in if f64_less best score then score else best) ms acc =
    fold (\<lambda>mi acc. f64_max acc (match_score mi name)) ms acc \<and>
    fold (\<lambda>mi acc. f64_max acc (match_score mi name)) ms acc \<in> {Fin 0, Fin (6305039478318694 / 9007199254740992), Fin 1}"
  using assms
proof (induction ms arbitrary: acc)
  case Nil
  then show ?case by simp
next
  case (Cons mi ms)
  have "(let score = match_score mi name in if f64_less acc score then score else acc) =
      f64_max acc (match_score mi name)"
    using Cons.prems match_score_cases[of mi name] by (auto simp: f64_max_def Let_def)
  moreover have "f64_max acc (match_score mi name) \<in> {Fin 0, Fin (6305039478318694 / 9007199254740992), Fin 1}"
    using Cons.prems match_score_cases[of mi name] by (auto simp: f64_max_def)
  ultimately show ?case using Cons.IH by simp
qed

lemma find_backends_iff:
  assumes "keys_distinct r"
  shows "b \<in> set (model_find_backends name r) \<longleftrightarrow> f64_less (Fin 0) (model_match_score b name r)"
proof -
  have "b \<in> set (model_find_backends name r) \<longleftrightarrow>
      (\<exists>ms. map_of r b = Some ms \<and> f64_less (Fin 0) (fold (\<lambda>mi acc. f64_max acc (match_score mi name)) ms (Fin 0)))"
    using assms by (force simp: model_find_backends_def)
  also have "\<dots> \<longleftrightarrow> f64_less (Fin 0) (model_match_score b name r)"
    using best_score_eq_max[of "Fin 0" name] by (simp add: model_match_score_def split: option.splits)
  finally show ?thesis .
qed

section \<open>Latencies\<close>

definition matrix_symmetric :: "topology_graph \<Rightarrow> bool" where
  "matrix_symmetric g \<longleftrightarrow> (\<forall>a b. map_of (tg_latency g) (a, b) = map_of (tg_latency g) (b, a))"

lemma symmetric_update: "matrix_symmetric g \<Longrightarrow> matrix_symmetric (topo_update_latency a b est g)"
  by (auto simp: matrix_symmetric_def topo_update_latency_def)

definition topo_run :: "(region_id \<times> region_id \<times> latency_estimate) list \<Rightarrow> topology_graph \<Rightarrow> topology_graph" where
  "topo_run ups g = fold (\<lambda>(a, b, est). topo_update_latency a b est) ups g"

lemma topo_run_snoc: "topo_run (ups @ [(a, b, est)]) g = topo_update_latency a b est (topo_run ups g)"
  by (simp add: topo_run_def)

lemma symmetric_run: "matrix_symmetric (topo_run ups topology_new)"
proof (induction ups rule: rev_induct)
  case Nil
  then show ?case by (simp add: topo_run_def matrix_symmetric_def topology_new_def)
next
  case (snoc u ups)
  then show ?case by (cases u) (simp add: topo_run_snoc symmetric_update)
qed

section \<open>Properties of the store\<close>

text \<open>C40. The reverse indexes agree with the registry: after any sequence of registrations of backends
  that are not registered at that moment and of unregistrations, the list of a region (of an indexer
  domain) has no duplicates and holds exactly the registered backends of that region (domain).\<close>

theorem store_indexes_agree:
  assumes "fresh_ops ops store_new"
  shows "distinct (backends_by_region r (fold registry_step ops store_new)) \<and>
    (b \<in> set (backends_by_region r (fold registry_step ops store_new)) \<longleftrightarrow>
      (\<exists>info. backend_get b (fold registry_step ops store_new) = Some info \<and> bi_region info = r)) \<and>
    distinct (backends_by_domain d (fold registry_step ops store_new)) \<and>
    (b \<in> set (backends_by_domain d (fold registry_step ops store_new)) \<longleftrightarrow>
      (\<exists>info. backend_get b (fold registry_step ops store_new) = Some info \<and> bi_domain info = d))"
  using store_ok_run[OF store_ok_new assms]
  by (simp add: store_ok_def index_agrees_def backends_by_region_def backends_by_domain_def backend_get_def
      index_of_def [symmetric] del: map_of_eq_Some_iff)

definition sample_backend :: "backend_id \<Rightarrow> region_id \<Rightarrow> backend_info" where
  "sample_backend b r = \<lparr>bi_id = b, bi_type = VllmEngine,
     bi_endpoint = \<lparr>ep_url = ''http://h'', ep_protocol = Http\<rparr>, bi_models = [], bi_region = r,
     bi_domain = IndexerDomainId 1,
     bi_capabilities = \<lparr>supports_kv_events = True, supports_batching = False, max_batch_size = 0,
       gpu_count = 1, gpu_memory_gb = 80\<rparr>,
     bi_kv_config = \<lparr>kc_block_size = 16, kc_cache_namespace = [], max_kv_blocks = 10\<rparr>,
     bi_status = Healthy\<rparr>"

theorem store_indexes_agree_witness:
  "ra \<in> set (backends_by_region (RegionId ''eu'')
     (fold registry_step [Register (sample_backend ra (RegionId ''eu'')), Unregister rb] store_new))"
  using store_indexes_agree[of "[Register (sample_backend ra (RegionId ''eu'')), Unregister rb]"
      "RegionId ''eu''" ra "IndexerDomainId 1"]
  by (simp add: sample_backend_def store_new_def backend_get_def register_backend_def unregister_backend_def Let_def)

text \<open>Registering a backend a second time, with another region, leaves it listed under the old
  region as well: the first registration's entries are not withdrawn.\<close>

theorem reregister_stale_index:
  assumes "backend_get (bi_id info) s = Some old" "bi_id info \<in> set (backends_by_region (bi_region old) s)"
    and "bi_region old \<noteq> bi_region info"
  shows "bi_id info \<in> set (backends_by_region (bi_region old) (register_backend info s)) \<and>
    map_option bi_region (backend_get (bi_id info) (register_backend info s)) = Some (bi_region info)"
  using assms by (simp add: backends_by_region_def register_backend_def backend_get_def index_push_def)

theorem reregister_stale_index_witness:
  "ra \<in> set (backends_by_region (RegionId ''eu'') (register_backend (sample_backend ra (RegionId ''us''))
     (register_backend (sample_backend ra (RegionId ''eu'')) store_new)))"
  using reregister_stale_index[of "sample_backend ra (RegionId ''us'')"
      "register_backend (sample_backend ra (RegionId ''eu'')) store_new" "sample_backend ra (RegionId ''eu'')"]
  by (simp add: sample_backend_def register_backend_def backend_get_def backends_by_region_def index_push_def store_new_def)

text \<open>Load history: recording any sequence of metrics never fails; the latest metrics of a backend
  are those recorded last, and its history is the window of its last sixty records, oldest first.\<close>

theorem load_history_window:
  "\<exists>s. try_fold (\<lambda>(b, m). load_update b m) ups load_new = Some s \<and>
    (\<forall>b. load_history b s = last_n RING_CAPACITY (samples_of b ups) \<and>
      load_get b s = (if samples_of b ups = [] then None else Some (last (samples_of b ups))))"
  using load_run[of ups] by blast

text \<open>The two model queries agree: a backend is listed as serving a model name exactly when its
  match score is positive, although one takes the best score by comparison and the other by \<open>max\<close>.\<close>

theorem model_queries_agree:
  assumes "keys_distinct (ms_models s)"
  shows "b \<in> set (model_find_backends name (ms_models s)) \<longleftrightarrow>
    f64_less (Fin 0) (model_match_score b name (ms_models s))"
  by (rule find_backends_iff[OF assms])

theorem model_queries_agree_witness:
  "ra \<notin> set (model_find_backends ''m'' (ms_models store_new))"
  using model_queries_agree[of store_new ra "''m''"] by (simp add: store_new_def model_match_score_def)

text \<open>Latencies are symmetric: after any sequence of updates the round-trip time between two
  regions is the same in both directions, zero within a region, and that of the last update
  between them.\<close>

theorem rtt_symmetric:
  "topo_rtt_ms a b (topo_run ups topology_new) = topo_rtt_ms b a (topo_run ups topology_new) \<and>
   topo_rtt_ms a a (topo_run ups topology_new) = Fin 0 \<and>
   topo_rtt_ms a b (topo_run (ups @ [(a, b, est)]) topology_new) = (if a = b then Fin 0 else rtt_p50_ms est)"
  using symmetric_run[of ups]
  by (auto simp: topo_rtt_ms_def matrix_symmetric_def topo_run_snoc topo_update_latency_def split: option.splits)

text \<open>Session expiry: eviction keeps exactly the sessions whose last use plus the time to live is
  not before now, and reports how many it dropped.\<close>

theorem session_expiry:
  assumes "keys_distinct h" "history_evict_expired now ttl h = (n, h')"
  shows "history_get sess h' =
      (case history_get sess h of
         None \<Rightarrow> None
       | Some aff \<Rightarrow> if sat_add (sa_last_used_unix aff) ttl < now then None else Some aff) \<and>
    n + length h' = length h"
proof -
  have h': "h' = filter (\<lambda>e. \<not> sat_add (sa_last_used_unix (snd e)) ttl < now) h" "n = length h - length h'"
    using assms(2) by (auto simp: history_evict_expired_def Let_def case_prod_unfold)
  have "length h' \<le> length h" unfolding h'(1) by (rule length_filter_le)
  then show ?thesis
    using map_of_filter_value[OF assms(1), of "\<lambda>_ aff. \<not> sat_add (sa_last_used_unix aff) ttl < now" sess] h'
    by (auto simp: history_get_def split: option.splits)
qed

theorem session_expiry_witness:
  "history_get (SessionId ''s'') (snd (history_evict_expired 100 10
     (history_set 50 (SessionId ''s'') ra 3 []))) = None"
  using session_expiry[of "history_set 50 (SessionId ''s'') ra 3 []" 100 10 _ _ "SessionId ''s''",
      OF _ surjective_pairing]
  by (simp add: history_set_def history_get_def sat_add_def)

text \<open>Removing a backend through the store stops the index: the future that clears the radix tree
  owns a clone of its handle, and dropping the clone shuts the worker down, so from then on every
  KV event of every backend fails and no event reaches the tree.\<close>

theorem store_remove_backend_stops_index:
  assumes "rw_alive (ki_radix (ms_kv s))"
  shows "fst (store_kv_apply_event xxh ev b' (store_kv_remove_backend b s)) = Inl WorkerTerminated \<and>
    rw_state (ki_radix (ms_kv (snd (store_kv_apply_event xxh ev b' (store_kv_remove_backend b s))))) =
      tree_remove_backend b (rw_state (ki_radix (ms_kv s)))"
  using assms
  by (simp add: store_kv_apply_event_def store_kv_remove_backend_def kv_apply_event_def radix_apply_event_def
      radix_drop_handle_def radix_shutdown_def radix_remove_backend_def worker_send_def Let_def case_prod_beta)

theorem store_remove_backend_stops_index_witness:
  "fst (store_kv_apply_event (\<lambda>_ s. s) (Stored rw [1] None []) rb (store_kv_remove_backend ra store_new)) =
    Inl WorkerTerminated"
  using store_remove_backend_stops_index[of store_new "\<lambda>_ s. s" "Stored rw [1] None []" rb ra]
  by (simp add: store_new_def kv_index_new_def radix_new_def)

end
