(* ===== verification/Messages.thy ===== *)
theory Messages
  imports CoreTypes Cuckoo
begin

text \<open>
  Cluster messages, \<open>crates/hier-kv-gateway-cluster/src/messages.rs\<close>. The binary codec of the load
  payload (postcard inside base64) is third-party code and a parameter of the definitions that use it.
\<close>

section \<open>Digests and entries\<close>

record meta_digest =
  kv_version :: u64
  model_version :: u64
  load_version :: u64
  topology_version :: u64
  members_version :: u64

definition digest_default :: meta_digest where
  "digest_default = \<lparr>kv_version = 0, model_version = 0, load_version = 0, topology_version = 0,
     members_version = 0\<rparr>"

text \<open>The value type of \<open>serde_json\<close>.\<close>

datatype json = JNull | JBool bool | JNum f64 | JString string | JArray "json list" | JObject "(string \<times> json) list"

record meta_entry =
  me_key :: string
  me_value :: json
  me_version :: u64

datatype meta_key = KvState | ModelState | LoadState | TopologyState | MembersKey

fun meta_key_str :: "meta_key \<Rightarrow> string" where
  "meta_key_str KvState = ''kv_state''"
| "meta_key_str ModelState = ''model_state''"
| "meta_key_str LoadState = ''load_state''"
| "meta_key_str TopologyState = ''topology_state''"
| "meta_key_str MembersKey = ''members''"

section \<open>Load payload\<close>

record load_payload =
  lp_v :: u8
  lp_data :: string

text \<open>The codec: base64 over bytes and postcard over the list of metrics.\<close>

type_synonym load_entries = "(string \<times> backend_metrics) list"

record codec =
  b64_encode :: "u8 list \<Rightarrow> string"
  b64_decode :: "string \<Rightarrow> u8 list option"
  pc_encode :: "load_entries \<Rightarrow> u8 list"
  pc_decode :: "u8 list \<Rightarrow> load_entries option"

definition VERSION_FULL :: u8 where
  "VERSION_FULL = 1"

definition encode_full :: "'x codec_scheme \<Rightarrow> load_entries \<Rightarrow> load_payload" where
  "encode_full cd es = \<lparr>lp_v = VERSION_FULL, lp_data = b64_encode cd (pc_encode cd es)\<rparr>"

definition decode_payload :: "'x codec_scheme \<Rightarrow> load_payload \<Rightarrow> load_entries option" where
  "decode_payload cd p =
     (if lp_v p = VERSION_FULL
      then (case b64_decode cd (lp_data p) of None \<Rightarrow> None | Some bytes \<Rightarrow> pc_decode cd bytes)
      else None)"

section \<open>Messages\<close>

datatype cluster_message =
    Ping (msg_sender: instance_id) (msg_region: region_id) (msg_digest: meta_digest) (msg_timestamp: u64)
  | Pong (msg_sender: instance_id) (msg_region: region_id) (msg_digest: meta_digest) (msg_timestamp: u64)
  | Meet (msg_sender: instance_id) (msg_region: region_id) (meet_addr: string)
  | SyncRequest (msg_sender: instance_id) (sync_keys: "string list")
  | SyncResponse (sync_entries: "meta_entry list")
  | CkfBarrierSnapshot (ckf_pool: pool_id) (ckf_sequence: u64) (ckf_buckets: "u64 list") (ckf_num_buckets: nat)
  | CkfDeltaMsg (ckf_pool: pool_id) (ckf_sequence: u64) (ckf_prev_sequence: u64) (ckf_dirty: "(u64 \<times> u64) list")
  | MetricsBroadcast (metrics_region: region_id) (metrics_payload: load_payload)
  | TopologyUpdate (topo_from: region_id) (topo_to: region_id) (topo_estimate: latency_estimate)
  | SessionAffinityBroadcast (aff_session: session_id) (aff_region: region_id) (aff_instance: string)

lemma decode_encode:
  assumes "b64_decode cd (b64_encode cd (pc_encode cd es)) = Some (pc_encode cd es)"
    and "pc_decode cd (pc_encode cd es) = Some es"
  shows "decode_payload cd (encode_full cd es) = Some es"
  using assms by (simp add: decode_payload_def encode_full_def)

end
