(* ===== verification/Members.thy ===== *)
theory Members
  imports Messages
begin

text \<open>
  Cluster members, \<open>crates/hier-kv-gateway-cluster/src/member.rs\<close>, and the view of them by region,
  \<open>region_view.rs\<close>. The clock (Unix milliseconds) is the argument \<open>now\<close>; the shuffle of
  \<open>random_members\<close> is a parameter.
\<close>

section \<open>The member list\<close>

datatype member_status = Alive | Suspect | Dead

record cluster_member =
  cm_id :: instance_id
  cm_region :: region_id
  cm_addr :: string
  cm_last_pong :: u64
  cm_status :: member_status
  cm_digest :: meta_digest

type_synonym member_list = "(instance_id \<times> cluster_member) list"

definition member_new :: "u64 \<Rightarrow> instance_id \<Rightarrow> region_id \<Rightarrow> string \<Rightarrow> meta_digest \<Rightarrow> cluster_member" where
  "member_new now i r addr d =
     \<lparr>cm_id = i, cm_region = r, cm_addr = addr, cm_last_pong = now, cm_status = Alive, cm_digest = d\<rparr>"

definition upsert :: "cluster_member \<Rightarrow> member_list \<Rightarrow> member_list" where
  "upsert m ms = AList.update (cm_id m) m ms"

definition update_pong :: "u64 \<Rightarrow> instance_id \<Rightarrow> meta_digest \<Rightarrow> member_list \<Rightarrow> member_list" where
  "update_pong now i d ms =
     (case map_of ms i of
        None \<Rightarrow> ms
      | Some m \<Rightarrow> AList.update i (m\<lparr>cm_last_pong := now, cm_status := Alive, cm_digest := d\<rparr>) ms)"

definition mark_suspect :: "instance_id \<Rightarrow> member_list \<Rightarrow> member_list" where
  "mark_suspect i ms =
     (case map_of ms i of None \<Rightarrow> ms | Some m \<Rightarrow> AList.update i (m\<lparr>cm_status := Suspect\<rparr>) ms)"

definition mark_dead :: "instance_id \<Rightarrow> member_list \<Rightarrow> member_list" where
  "mark_dead i ms =
     (case map_of ms i of None \<Rightarrow> ms | Some m \<Rightarrow> AList.update i (m\<lparr>cm_status := Dead\<rparr>) ms)"

definition member_get :: "instance_id \<Rightarrow> member_list \<Rightarrow> cluster_member option" where
  "member_get i ms = map_of ms i"

definition alive_members :: "member_list \<Rightarrow> cluster_member list" where
  "alive_members ms = map snd (filter (\<lambda>(_, m). cm_status m = Alive) ms)"

definition all_members :: "member_list \<Rightarrow> cluster_member list" where
  "all_members ms = map snd ms"

definition random_members :: "(cluster_member list \<Rightarrow> cluster_member list) \<Rightarrow> nat \<Rightarrow> member_list \<Rightarrow> cluster_member list" where
  "random_members shuffle n ms =
     (let alive = alive_members ms in if alive = [] \<or> n = 0 then [] else take n (shuffle alive))"

definition members_len :: "member_list \<Rightarrow> nat" where
  "members_len ms = length ms"

definition member_remove :: "instance_id \<Rightarrow> member_list \<Rightarrow> cluster_member option \<times> member_list" where
  "member_remove i ms = (map_of ms i, AList.delete i ms)"

section \<open>The view by region\<close>

definition alive_in_region :: "region_id \<Rightarrow> member_list \<Rightarrow> cluster_member list" where
  "alive_in_region r ms = filter (\<lambda>m. cm_region m = r) (alive_members ms)"

definition foreign_alive :: "region_id \<Rightarrow> member_list \<Rightarrow> cluster_member list" where
  "foreign_alive self_region ms = filter (\<lambda>m. cm_region m \<noteq> self_region) (alive_members ms)"

definition local_alive :: "region_id \<Rightarrow> member_list \<Rightarrow> cluster_member list" where
  "local_alive self_region ms = alive_in_region self_region ms"

definition add_representative :: "region_id \<Rightarrow> nat \<Rightarrow> cluster_member \<Rightarrow> (region_id \<times> cluster_member list) list
    \<Rightarrow> (region_id \<times> cluster_member list) list" where
  "add_representative self_region n m by_region =
     (if cm_region m = self_region then by_region
      else (let bucket = (case map_of by_region (cm_region m) of None \<Rightarrow> [] | Some b \<Rightarrow> b)
            in AList.update (cm_region m) (if length bucket < n then bucket @ [m] else bucket) by_region))"

definition foreign_alive_per_region :: "region_id \<Rightarrow> nat \<Rightarrow> member_list \<Rightarrow> (region_id \<times> cluster_member list) list" where
  "foreign_alive_per_region self_region n ms = fold (add_representative self_region n) (alive_members ms) []"

definition known_regions :: "member_list \<Rightarrow> region_id list" where
  "known_regions ms = remdups_adj (sort (map cm_region (alive_members ms)))"

definition foreign_regions :: "region_id \<Rightarrow> member_list \<Rightarrow> region_id list" where
  "foreign_regions self_region ms =
     remdups_adj (sort (filter (\<lambda>r. r \<noteq> self_region) (map cm_region (alive_members ms))))"

definition region_counts :: "member_list \<Rightarrow> (region_id \<times> nat) list" where
  "region_counts ms =
     fold (\<lambda>m counts. AList.update (cm_region m)
         ((case map_of counts (cm_region m) of None \<Rightarrow> 0 | Some c \<Rightarrow> c) + 1) counts) (alive_members ms) []"

definition alive_count :: "member_list \<Rightarrow> nat" where
  "alive_count ms = length (alive_members ms)"

section \<open>The view is the grouping of the alive members\<close>

lemma sorted_dedup_list: "sorted xs \<Longrightarrow> distinct (remdups_adj xs)"
  by (induction xs rule: remdups_adj.induct) (auto simp: order_le_less)

lemma per_region_fold:
  "map_of (fold (add_representative self n) as acc) r =
    (if r = self \<or> (\<forall>m\<in>set as. cm_region m \<noteq> r) then map_of acc r
     else Some (let b = (case map_of acc r of None \<Rightarrow> [] | Some b \<Rightarrow> b)
                in b @ take (n - length b) (filter (\<lambda>m. cm_region m = r) as)))"
proof (induction as arbitrary: acc)
  case Nil
  then show ?case by simp
next
  case (Cons a as)
  show ?case
  proof (cases "cm_region a = r \<and> r \<noteq> self")
    case True
    let ?b = "case map_of acc r of None \<Rightarrow> [] | Some b \<Rightarrow> b"
    have acc: "map_of (add_representative self n a acc) r = Some (if length ?b < n then ?b @ [a] else ?b)"
      using True by (auto simp: add_representative_def Let_def)
    show ?thesis
      using True by (auto simp: Cons.IH acc Let_def take_Cons' filter_empty_conv)
  next
    case False
    then have "map_of (add_representative self n a acc) r = map_of acc r"
      by (auto simp: add_representative_def Let_def)
    then show ?thesis using False by (auto simp: Cons.IH Let_def)
  qed
qed

lemma region_counts_fold:
  "map_of (fold (\<lambda>m counts. AList.update (cm_region m)
      ((case map_of counts (cm_region m) of None \<Rightarrow> 0 | Some c \<Rightarrow> c) + 1) counts) as acc) r =
    (if \<forall>m\<in>set as. cm_region m \<noteq> r then map_of acc r
     else Some ((case map_of acc r of None \<Rightarrow> 0 | Some c \<Rightarrow> c) + length (filter (\<lambda>m. cm_region m = r) as)))"
  by (induction as arbitrary: acc) (auto simp: filter_empty_conv split: option.splits)

text \<open>The view by region groups the alive members: the representatives of a foreign region are
  its first \<open>n\<close> alive members, the counts are the sizes of the groups, the known regions are the
  sorted regions of the alive members without repetitions, and local and foreign members partition
  the alive ones.\<close>

theorem region_view_groups:
  "map_of (foreign_alive_per_region self n ms) r =
     (if r = self \<or> alive_in_region r ms = [] then None else Some (take n (alive_in_region r ms))) \<and>
   map_of (region_counts ms) r =
     (if alive_in_region r ms = [] then None else Some (length (alive_in_region r ms))) \<and>
   sorted (known_regions ms) \<and> distinct (known_regions ms) \<and>
   (r \<in> set (known_regions ms) \<longleftrightarrow> alive_in_region r ms \<noteq> []) \<and>
   (r \<in> set (foreign_regions self ms) \<longleftrightarrow> r \<noteq> self \<and> r \<in> set (known_regions ms)) \<and>
   length (local_alive self ms) + length (foreign_alive self ms) = alive_count ms"
proof (intro conjI)
  have none: "(\<forall>m\<in>set (alive_members ms). cm_region m \<noteq> r) \<longleftrightarrow> alive_in_region r ms = []"
    by (simp add: alive_in_region_def filter_empty_conv)
  show "map_of (foreign_alive_per_region self n ms) r =
     (if r = self \<or> alive_in_region r ms = [] then None else Some (take n (alive_in_region r ms)))"
    by (simp add: foreign_alive_per_region_def per_region_fold none) (simp add: alive_in_region_def)
  show "map_of (region_counts ms) r =
     (if alive_in_region r ms = [] then None else Some (length (alive_in_region r ms)))"
    unfolding region_counts_def region_counts_fold none by (simp add: alive_in_region_def)
  show "sorted (known_regions ms)" by (simp add: known_regions_def sorted_remdups_adj)
  show "distinct (known_regions ms)" by (simp add: known_regions_def sorted_dedup_list)
  show known: "r \<in> set (known_regions ms) \<longleftrightarrow> alive_in_region r ms \<noteq> []"
    by (auto simp: known_regions_def alive_in_region_def filter_empty_conv)
  show "r \<in> set (foreign_regions self ms) \<longleftrightarrow> r \<noteq> self \<and> r \<in> set (known_regions ms)"
    by (auto simp: foreign_regions_def known_regions_def)
  show "length (local_alive self ms) + length (foreign_alive self ms) = alive_count ms"
    using sum_length_filter_compl[of "\<lambda>m. cm_region m = self" "alive_members ms"]
    by (simp add: local_alive_def alive_in_region_def foreign_alive_def alive_count_def)
qed

end
