(* ===== verification/Gossip.thy ===== *)
theory Gossip
  imports Members "HOL-Library.Multiset"
begin

text \<open>
  The gossip engine, \<open>crates/hier-kv-gateway-cluster/src/gossip.rs\<close>: dispatch of inbound messages, the
  periodic ping round and the failure detector. The engine calls the gateway through the
  \<open>GossipHandler\<close> trait, here a record of functions on the handler's state \<open>'h\<close>; a handler that panics
  answers \<open>None\<close> (the panic ends the message task). What the engine sends is returned as a list of
  transport commands; sending itself (and its errors, which are only logged) is the transport's.
\<close>

section \<open>Handlers and engines\<close>

record 'h gossip_handler =
  gh_digest :: "'h \<Rightarrow> meta_digest"
  gh_sync_request :: "string list \<Rightarrow> 'h \<Rightarrow> meta_entry list"
  gh_apply_sync :: "meta_entry list \<Rightarrow> 'h \<Rightarrow> 'h option"
  gh_metrics :: "region_id \<Rightarrow> load_payload \<Rightarrow> 'h \<Rightarrow> 'h option"
  gh_snapshot :: "pool_id \<Rightarrow> u64 \<Rightarrow> u64 list \<Rightarrow> nat \<Rightarrow> 'h \<Rightarrow> 'h option"
  gh_delta :: "pool_id \<Rightarrow> u64 \<Rightarrow> u64 \<Rightarrow> (u64 \<times> u64) list \<Rightarrow> 'h \<Rightarrow> 'h option"
  gh_topology :: "region_id \<Rightarrow> region_id \<Rightarrow> latency_estimate \<Rightarrow> 'h \<Rightarrow> 'h option"
  gh_affinity :: "u64 \<Rightarrow> session_id \<Rightarrow> region_id \<Rightarrow> string \<Rightarrow> 'h \<Rightarrow> 'h option"

definition noop_handler :: "'h gossip_handler" where
  "noop_handler = \<lparr>gh_digest = (\<lambda>_. digest_default), gh_sync_request = (\<lambda>_ _. []),
     gh_apply_sync = (\<lambda>_. Some), gh_metrics = (\<lambda>_ _. Some), gh_snapshot = (\<lambda>_ _ _ _. Some),
     gh_delta = (\<lambda>_ _ _ _. Some), gh_topology = (\<lambda>_ _ _. Some), gh_affinity = (\<lambda>_ _ _ _. Some)\<rparr>"

datatype transport_cmd = Send string cluster_message | Broadcast cluster_message

record 'h engine =
  ge_self_id :: instance_id
  ge_self_region :: region_id
  ge_self_addr :: string
  ge_members :: member_list
  ge_running :: bool
  ge_handler :: 'h

definition DEFAULT_GOSSIP_FANOUT :: nat where
  "DEFAULT_GOSSIP_FANOUT = 3"

definition DEFAULT_PROBE_INTERVAL_MS :: u64 where
  "DEFAULT_PROBE_INTERVAL_MS = 500"

record cluster_config =
  cc_bind_addr :: string
  cc_seed_peers :: "string list"
  cc_gossip_interval_ms :: u64
  cc_probe_timeout_ms :: u64
  cc_suspect_timeout_secs :: u64
  cc_gossip_fanout :: nat
  cc_probe_interval_ms :: u64

definition effective_fanout :: "cluster_config \<Rightarrow> nat" where
  "effective_fanout cfg = max (cc_gossip_fanout cfg) DEFAULT_GOSSIP_FANOUT"

definition effective_probe_interval :: "cluster_config \<Rightarrow> u64" where
  "effective_probe_interval cfg = max (cc_probe_interval_ms cfg) DEFAULT_PROBE_INTERVAL_MS"

section \<open>Starting and joining\<close>

definition engine_new :: "instance_id \<Rightarrow> region_id \<Rightarrow> string \<Rightarrow> 'h \<Rightarrow> 'h engine" where
  "engine_new i r addr h = \<lparr>ge_self_id = i, ge_self_region = r, ge_self_addr = addr, ge_members = [],
     ge_running = False, ge_handler = h\<rparr>"

text \<open>
  \<open>bound\<close> is the answer of the transport's \<open>start\<close>. When it fails the running flag stays set and this
  instance is not in the member list.
\<close>

definition engine_start :: "'h gossip_handler \<Rightarrow> (string + unit) \<Rightarrow> u64 \<Rightarrow> 'h engine \<Rightarrow> (string + unit) \<times> 'h engine" where
  "engine_start gh bound now e =
     (if ge_running e then (Inr (), e)
      else let e1 = e\<lparr>ge_running := True\<rparr>
           in case bound of
                Inl err \<Rightarrow> (Inl err, e1)
              | Inr _ \<Rightarrow> (Inr (), e1\<lparr>ge_members := upsert (member_new now (ge_self_id e) (ge_self_region e)
                    (ge_self_addr e) (gh_digest gh (ge_handler e))) (ge_members e)\<rparr>))"

definition meet_message :: "'h engine \<Rightarrow> cluster_message" where
  "meet_message e = Meet (ge_self_id e) (ge_self_region e) (ge_self_addr e)"

definition join_cluster :: "string list \<Rightarrow> 'h engine \<Rightarrow> transport_cmd list" where
  "join_cluster seeds e = map (\<lambda>seed. Send seed (meet_message e)) seeds"

definition meet_peer :: "string \<Rightarrow> 'h engine \<Rightarrow> transport_cmd list" where
  "meet_peer addr e = [Send addr (meet_message e)]"

definition engine_stop :: "'h engine \<Rightarrow> 'h engine" where
  "engine_stop e = e\<lparr>ge_running := False\<rparr>"

section \<open>Inbound messages\<close>

definition ensure_member :: "u64 \<Rightarrow> instance_id \<Rightarrow> region_id \<Rightarrow> string option \<Rightarrow> meta_digest \<Rightarrow> member_list \<Rightarrow> member_list" where
  "ensure_member now i r addr d ms =
     (case member_get i ms of
        Some existing \<Rightarrow>
          upsert \<lparr>cm_id = i, cm_region = r,
                  cm_addr = (case addr of None \<Rightarrow> cm_addr existing | Some a \<Rightarrow> a),
                  cm_last_pong = now, cm_status = Alive, cm_digest = d\<rparr> ms
      | None \<Rightarrow> upsert (member_new now i r (case addr of None \<Rightarrow> [] | Some a \<Rightarrow> a) d) ms)"

definition with_handler :: "'h engine \<Rightarrow> 'h option \<Rightarrow> (transport_cmd list \<times> 'h engine) option" where
  "with_handler e h = map_option (\<lambda>h'. ([], e\<lparr>ge_handler := h'\<rparr>)) h"

definition self_pong :: "'h gossip_handler \<Rightarrow> u64 \<Rightarrow> 'h engine \<Rightarrow> cluster_message" where
  "self_pong gh now e = Pong (ge_self_id e) (ge_self_region e) (gh_digest gh (ge_handler e)) now"

definition self_ping :: "'h gossip_handler \<Rightarrow> u64 \<Rightarrow> 'h engine \<Rightarrow> cluster_message" where
  "self_ping gh now e = Ping (ge_self_id e) (ge_self_region e) (gh_digest gh (ge_handler e)) now"

fun dispatch_message :: "'h gossip_handler \<Rightarrow> u64 \<Rightarrow> cluster_message \<Rightarrow> 'h engine \<Rightarrow> (transport_cmd list \<times> 'h engine) option" where
  "dispatch_message gh now (Ping sender region digest _) e =
     (let e1 = e\<lparr>ge_members := ensure_member now sender region None digest (ge_members e)\<rparr>
      in Some (case member_get sender (ge_members e1) of
                 Some m \<Rightarrow> [Send (cm_addr m) (self_pong gh now e1)]
               | None \<Rightarrow> [], e1))"
| "dispatch_message gh now (Pong sender region digest _) e =
     Some ([], e\<lparr>ge_members := ensure_member now sender region None digest (ge_members e)\<rparr>)"
| "dispatch_message gh now (Meet sender region addr) e =
     (let e1 = e\<lparr>ge_members := ensure_member now sender region (Some addr) (gh_digest gh (ge_handler e)) (ge_members e)\<rparr>
      in Some ([Send addr (self_pong gh now e1), Broadcast (self_ping gh now e1)], e1))"
| "dispatch_message gh now (SyncRequest sender keys) e =
     (let response = SyncResponse (gh_sync_request gh keys (ge_handler e))
      in Some (case List.find (\<lambda>m. cm_id m = sender) (all_members (ge_members e)) of
                 Some m \<Rightarrow> [Send (cm_addr m) response]
               | None \<Rightarrow> [Broadcast response], e))"
| "dispatch_message gh now (SyncResponse entries) e = with_handler e (gh_apply_sync gh entries (ge_handler e))"
| "dispatch_message gh now (MetricsBroadcast region payload) e = with_handler e (gh_metrics gh region payload (ge_handler e))"
| "dispatch_message gh now (CkfBarrierSnapshot pool sq bs n) e = with_handler e (gh_snapshot gh pool sq bs n (ge_handler e))"
| "dispatch_message gh now (CkfDeltaMsg pool sq prev dirty) e = with_handler e (gh_delta gh pool sq prev dirty (ge_handler e))"
| "dispatch_message gh now (TopologyUpdate from to est) e = with_handler e (gh_topology gh from to est (ge_handler e))"
| "dispatch_message gh now (SessionAffinityBroadcast sess region inst) e =
     with_handler e (gh_affinity gh now sess region inst (ge_handler e))"

fun message_sender_is_self :: "cluster_message \<Rightarrow> instance_id \<Rightarrow> bool" where
  "message_sender_is_self (Ping sender _ _ _) self = (sender = self)"
| "message_sender_is_self (Pong sender _ _ _) self = (sender = self)"
| "message_sender_is_self (Meet sender _ _) self = (sender = self)"
| "message_sender_is_self (SyncRequest sender _) self = (sender = self)"
| "message_sender_is_self _ self = False"

text \<open>The public entry \<open>handle_message\<close>, written out a second time in the source.\<close>

definition handle_message :: "'h gossip_handler \<Rightarrow> u64 \<Rightarrow> cluster_message \<Rightarrow> 'h engine \<Rightarrow> (transport_cmd list \<times> 'h engine) option" where
  "handle_message gh now msg e =
     (case msg of
        Ping sender region digest _ \<Rightarrow>
          (let members = ensure_member now sender region None digest (ge_members e);
               pong = Pong (ge_self_id e) (ge_self_region e) (gh_digest gh (ge_handler e)) now
           in Some (case member_get sender members of None \<Rightarrow> [] | Some m \<Rightarrow> [Send (cm_addr m) pong],
                    e\<lparr>ge_members := members\<rparr>))
      | Pong sender region digest _ \<Rightarrow>
          Some ([], e\<lparr>ge_members := ensure_member now sender region None digest (ge_members e)\<rparr>)
      | Meet sender region addr \<Rightarrow>
          (let digest = gh_digest gh (ge_handler e);
               members = ensure_member now sender region (Some addr) digest (ge_members e);
               pong = Pong (ge_self_id e) (ge_self_region e) digest now;
               ping = Ping (ge_self_id e) (ge_self_region e) digest now
           in Some ([Send addr pong, Broadcast ping], e\<lparr>ge_members := members\<rparr>))
      | SyncRequest sender keys \<Rightarrow>
          (let response = SyncResponse (gh_sync_request gh keys (ge_handler e))
           in case List.find (\<lambda>m. cm_id m = sender) (all_members (ge_members e)) of
                Some m \<Rightarrow> Some ([Send (cm_addr m) response], e)
              | None \<Rightarrow> Some ([Broadcast response], e))
      | SyncResponse entries \<Rightarrow> with_handler e (gh_apply_sync gh entries (ge_handler e))
      | MetricsBroadcast region payload \<Rightarrow> with_handler e (gh_metrics gh region payload (ge_handler e))
      | CkfBarrierSnapshot pool sq bs n \<Rightarrow> with_handler e (gh_snapshot gh pool sq bs n (ge_handler e))
      | CkfDeltaMsg pool sq prev dirty \<Rightarrow> with_handler e (gh_delta gh pool sq prev dirty (ge_handler e))
      | TopologyUpdate from to est \<Rightarrow> with_handler e (gh_topology gh from to est (ge_handler e))
      | SessionAffinityBroadcast sess region inst \<Rightarrow> with_handler e (gh_affinity gh now sess region inst (ge_handler e)))"

text \<open>
  One turn of the message loop, from the arrival of a message on. The running flag is read before the loop waits for
  the message and not again, so a message that arrives after a stop is still handled, once, by the loop that was
  waiting. A message of its own is skipped.
\<close>

definition message_turn :: "'h gossip_handler \<Rightarrow> u64 \<Rightarrow> cluster_message \<Rightarrow> 'h engine \<Rightarrow> (transport_cmd list \<times> 'h engine) option" where
  "message_turn gh now msg e =
     (if message_sender_is_self msg (ge_self_id e) then Some ([], e)
      else dispatch_message gh now msg e)"

section \<open>The ping round\<close>

definition gossip_round :: "'h gossip_handler \<Rightarrow> (cluster_member list \<Rightarrow> cluster_member list) \<Rightarrow> nat \<Rightarrow> u64 \<Rightarrow> 'h engine \<Rightarrow> transport_cmd list" where
  "gossip_round gh shuffle fanout now e =
     (let candidates = filter (\<lambda>m. cm_id m \<noteq> ge_self_id e) (alive_members (ge_members e))
      in if candidates = [] then []
         else map (\<lambda>m. Send (cm_addr m) (Ping (ge_self_id e) (cm_region m) (gh_digest gh (ge_handler e)) now))
                (take fanout (shuffle candidates)))"

section \<open>The failure detector\<close>

definition probe_member :: "instance_id \<Rightarrow> u64 \<Rightarrow> u64 \<Rightarrow> cluster_member \<Rightarrow> member_list \<Rightarrow> member_list" where
  "probe_member self probe_too_old suspect_too_old m ms =
     (if cm_id m = self then ms
      else case cm_status m of
             Alive \<Rightarrow> if cm_last_pong m < probe_too_old then mark_suspect (cm_id m) ms else ms
           | Suspect \<Rightarrow> if cm_last_pong m < suspect_too_old then mark_dead (cm_id m) ms else ms
           | Dead \<Rightarrow> ms)"

definition probe_pass :: "u64 \<Rightarrow> u64 \<Rightarrow> u64 \<Rightarrow> 'h engine \<Rightarrow> 'h engine" where
  "probe_pass probe_timeout_ms suspect_timeout_secs now e =
     (let suspect_timeout_ms = sat_mul suspect_timeout_secs 1000;
          probe_too_old = sat_sub now probe_timeout_ms;
          suspect_too_old = sat_sub now suspect_timeout_ms
      in e\<lparr>ge_members := fold (probe_member (ge_self_id e) probe_too_old suspect_too_old)
             (all_members (ge_members e)) (ge_members e)\<rparr>)"

section \<open>Reachable engines\<close>

text \<open>
  The background tasks of an engine interleave; each shares the member list behind one lock and acts
  in the steps below. \<open>pt\<close> and \<open>st\<close> are the configured timeouts. The loops read the running flag only before they wait
  for a message or a tick, so messages and probe passes may also follow a stop.
\<close>

inductive gossip_step :: "'h gossip_handler \<Rightarrow> u64 \<Rightarrow> u64 \<Rightarrow> 'h engine \<Rightarrow> 'h engine \<Rightarrow> bool"
  for gh pt st where
  step_start: "gossip_step gh pt st e (snd (engine_start gh bound now e))"
| step_message: "message_turn gh now msg e = Some (cmds, e') \<Longrightarrow> gossip_step gh pt st e e'"
| step_probe: "gossip_step gh pt st e (probe_pass pt st now e)"
| step_stop: "gossip_step gh pt st e (engine_stop e)"

inductive gossip_reach :: "'h gossip_handler \<Rightarrow> u64 \<Rightarrow> u64 \<Rightarrow> 'h engine \<Rightarrow> bool"
  for gh pt st where
  reach_new: "gossip_reach gh pt st (engine_new i r addr h)"
| reach_step: "gossip_reach gh pt st e \<Longrightarrow> gossip_step gh pt st e e' \<Longrightarrow> gossip_reach gh pt st e'"

text \<open>The invariant: members are filed under their own identifier, and this instance is alive under
  its own region and address.\<close>

definition members_ok :: "member_list \<Rightarrow> bool" where
  "members_ok ms \<longleftrightarrow> keys_distinct ms \<and> (\<forall>(i, m)\<in>set ms. cm_id m = i)"

definition self_ok :: "'h engine \<Rightarrow> bool" where
  "self_ok e \<longleftrightarrow> pred_option (\<lambda>m. cm_status m = Alive \<and> cm_region m = ge_self_region e \<and> cm_addr m = ge_self_addr e)
     (map_of (ge_members e) (ge_self_id e))"

lemma members_ok_id: "members_ok ms \<Longrightarrow> map_of ms i = Some m \<Longrightarrow> cm_id m = i"
  by (auto simp: members_ok_def dest: map_of_SomeD)

lemma members_ok_alt: "members_ok ms \<longleftrightarrow> keys_distinct ms \<and> (\<forall>i m. map_of ms i = Some m \<longrightarrow> cm_id m = i)"
  by (auto simp: members_ok_def dest: map_of_SomeD)

lemma members_ok_update: "members_ok ms \<Longrightarrow> cm_id m = i \<Longrightarrow> members_ok (AList.update i m ms)"
  by (auto simp: members_ok_alt)

text \<open>The verdict of the failure detector on one record.\<close>

definition verdict :: "u64 \<Rightarrow> u64 \<Rightarrow> cluster_member \<Rightarrow> cluster_member" where
  "verdict probe_too_old suspect_too_old m =
     (case cm_status m of
        Alive \<Rightarrow> if cm_last_pong m < probe_too_old then m\<lparr>cm_status := Suspect\<rparr> else m
      | Suspect \<Rightarrow> if cm_last_pong m < suspect_too_old then m\<lparr>cm_status := Dead\<rparr> else m
      | Dead \<Rightarrow> m)"

lemma probe_member_at:
  assumes "map_of ms (cm_id m) = Some m"
  shows "map_of (probe_member self p s m ms) i =
    (if i = cm_id m \<and> i \<noteq> self then Some (verdict p s m) else map_of ms i)"
  using assms
  by (auto simp: probe_member_def verdict_def mark_suspect_def mark_dead_def split: member_status.splits)

lemma members_ok_probe_member: "members_ok ms \<Longrightarrow> members_ok (probe_member self p s m ms)"
  by (auto simp: probe_member_def mark_suspect_def mark_dead_def members_ok_id
      intro: members_ok_update split: member_status.splits option.splits)

lemma probe_fold:
  assumes "distinct (map cm_id as)" "\<forall>m\<in>set as. map_of ms (cm_id m) = Some m"
  shows "map_of (fold (probe_member self p s) as ms) i =
    (if i \<in> cm_id ` set as \<and> i \<noteq> self then map_option (verdict p s) (map_of ms i) else map_of ms i)"
  using assms
proof (induction as arbitrary: ms)
  case Nil
  then show ?case by simp
next
  case (Cons a as)
  have a: "map_of ms (cm_id a) = Some a" using Cons.prems by simp
  have "\<forall>m\<in>set as. map_of (probe_member self p s a ms) (cm_id m) = Some m"
  proof
    fix m assume m: "m \<in> set as"
    have "cm_id a \<notin> cm_id ` set as" using Cons.prems(1) by simp
    then have "cm_id m \<noteq> cm_id a" using m by (metis image_eqI)
    then show "map_of (probe_member self p s a ms) (cm_id m) = Some m"
      using Cons.prems(2) m by (simp add: probe_member_at[OF a])
  qed
  with Cons have "map_of (fold (probe_member self p s) as (probe_member self p s a ms)) i =
    (if i \<in> cm_id ` set as \<and> i \<noteq> self then map_option (verdict p s) (map_of (probe_member self p s a ms) i)
     else map_of (probe_member self p s a ms) i)" by simp
  moreover have "cm_id a \<notin> cm_id ` set as" using Cons.prems(1) by simp
  ultimately show ?case using a by (simp add: probe_member_at[OF a])
qed

lemma map_cm_id: "\<forall>(i, m)\<in>set ms. cm_id m = i \<Longrightarrow> map (cm_id \<circ> snd) ms = map fst ms"
  by (induction ms) auto

lemma probe_pass_at:
  assumes "members_ok (ge_members e)"
  shows "map_of (ge_members (probe_pass pt st now e)) i =
    (if i = ge_self_id e then map_of (ge_members e) i
     else map_option (verdict (sat_sub now pt) (sat_sub now (sat_mul st 1000))) (map_of (ge_members e) i))"
proof -
  let ?ms = "ge_members e"
  have ids: "distinct (map cm_id (all_members ?ms))"
    using assms by (simp add: members_ok_def all_members_def map_cm_id)
  have own: "\<forall>m\<in>set (all_members ?ms). map_of ?ms (cm_id m) = Some m"
    using assms by (auto simp: members_ok_def all_members_def)
  have "i \<notin> cm_id ` set (all_members ?ms) \<Longrightarrow> map_of ?ms i = None"
    using assms by (force simp: members_ok_def all_members_def map_of_eq_None_iff)
  then show ?thesis
    by (auto simp: probe_pass_def Let_def probe_fold[OF ids own])
qed

lemma members_ok_probe_pass: "members_ok (ge_members e) \<Longrightarrow> members_ok (ge_members (probe_pass pt st now e))"
proof -
  have "members_ok ms \<Longrightarrow> members_ok (fold (probe_member self p s) as ms)" for self p s as ms
    by (induction as arbitrary: ms) (simp_all add: members_ok_probe_member)
  then show "members_ok (ge_members e) \<Longrightarrow> ?thesis" by (simp add: probe_pass_def Let_def)
qed

lemma engine_frame_probe_pass [simp]:
  "ge_self_id (probe_pass pt st now e) = ge_self_id e" "ge_self_region (probe_pass pt st now e) = ge_self_region e"
  "ge_self_addr (probe_pass pt st now e) = ge_self_addr e" "ge_running (probe_pass pt st now e) = ge_running e"
  by (simp_all add: probe_pass_def Let_def)

section \<open>Every step keeps the invariant\<close>

lemma ensure_member_at:
  "map_of (ensure_member now i r addr d ms) =
    (map_of ms)(i \<mapsto> \<lparr>cm_id = i, cm_region = r,
       cm_addr = (case addr of Some a \<Rightarrow> a | None \<Rightarrow> (case map_of ms i of Some m \<Rightarrow> cm_addr m | None \<Rightarrow> [])),
       cm_last_pong = now, cm_status = Alive, cm_digest = d\<rparr>)"
  by (auto simp: ensure_member_def member_get_def upsert_def member_new_def split: option.splits)

lemma members_ok_upsert: "members_ok ms \<Longrightarrow> members_ok (upsert m ms)"
  by (simp add: upsert_def members_ok_update)

lemma members_ok_ensure: "members_ok ms \<Longrightarrow> members_ok (ensure_member now i r addr d ms)"
  by (auto simp: ensure_member_def members_ok_upsert split: option.splits)

lemma with_handler_frame:
  "with_handler e h = Some (cmds, e') \<Longrightarrow> ge_members e' = ge_members e \<and> ge_self_id e' = ge_self_id e \<and>
     ge_self_region e' = ge_self_region e \<and> ge_self_addr e' = ge_self_addr e \<and> ge_running e' = ge_running e"
  by (auto simp: with_handler_def)

lemma dispatch_frame_all:
  assumes "dispatch_message gh now msg e = Some (cmds, e')"
  shows "ge_self_id e' = ge_self_id e \<and> ge_self_region e' = ge_self_region e \<and> ge_self_addr e' = ge_self_addr e \<and>
    ge_running e' = ge_running e"
  using assms by (cases msg) (auto simp: Let_def dest!: with_handler_frame)

lemmas dispatch_frame = dispatch_frame_all[THEN conjunct1] dispatch_frame_all[THEN conjunct2, THEN conjunct1]
  dispatch_frame_all[THEN conjunct2, THEN conjunct2, THEN conjunct1]
  dispatch_frame_all[THEN conjunct2, THEN conjunct2, THEN conjunct2]



text \<open>The member list a message leaves.\<close>

fun members_after :: "meta_digest \<Rightarrow> u64 \<Rightarrow> cluster_message \<Rightarrow> member_list \<Rightarrow> member_list" where
  "members_after own now (Ping i r d _) ms = ensure_member now i r None d ms"
| "members_after own now (Pong i r d _) ms = ensure_member now i r None d ms"
| "members_after own now (Meet i r addr) ms = ensure_member now i r (Some addr) own ms"
| "members_after own now _ ms = ms"

lemma dispatch_members_after:
  assumes "dispatch_message gh now msg e = Some (cmds, e')"
  shows "ge_members e' = members_after (gh_digest gh (ge_handler e)) now msg (ge_members e)"
  using assms by (cases msg) (auto simp: Let_def dest!: with_handler_frame)

lemma members_after_ok: "members_ok ms \<Longrightarrow> members_ok (members_after own now msg ms)"
  by (cases msg) (simp_all add: members_ok_ensure)

lemma members_after_self:
  "\<not> message_sender_is_self msg self \<Longrightarrow> map_of (members_after own now msg ms) self = map_of ms self"
  by (cases msg) (simp_all add: ensure_member_at)

definition engine_inv :: "'h engine \<Rightarrow> bool" where
  "engine_inv e \<longleftrightarrow> members_ok (ge_members e) \<and> self_ok e"

lemma engine_inv_message:
  assumes "message_turn gh now msg e = Some (cmds, e')" "engine_inv e"
  shows "engine_inv e'"
proof (cases "message_sender_is_self msg (ge_self_id e)")
  case True
  then show ?thesis using assms by (auto simp: message_turn_def)
next
  case False
  then have d: "dispatch_message gh now msg e = Some (cmds, e')" using assms by (simp add: message_turn_def)
  show ?thesis
    using assms(2) False members_after_self[of msg "ge_self_id e"]
    by (simp add: engine_inv_def self_ok_def dispatch_frame[OF d] dispatch_members_after[OF d] members_after_ok)
qed

lemma engine_inv_start: "engine_inv e \<Longrightarrow> engine_inv (snd (engine_start gh bound now e))"
  by (auto simp: engine_inv_def engine_start_def self_ok_def members_ok_upsert upsert_def member_new_def
      members_ok_update Let_def split: sum.splits)

lemma engine_inv_probe: "engine_inv e \<Longrightarrow> engine_inv (probe_pass pt st now e)"
  by (simp add: engine_inv_def self_ok_def members_ok_probe_pass probe_pass_at)

lemma engine_inv_step: "gossip_step gh pt st e e' \<Longrightarrow> engine_inv e \<Longrightarrow> engine_inv e'"
proof (induction rule: gossip_step.induct)
  case (step_message now msg e cmds e')
  then show ?case by (blast intro: engine_inv_message)
next
  case (step_stop e)
  then show ?case by (simp add: engine_inv_def self_ok_def engine_stop_def)
qed (simp_all add: engine_inv_start engine_inv_probe)

lemma engine_inv_reach: "gossip_reach gh pt st e \<Longrightarrow> engine_inv e"
proof (induction rule: gossip_reach.induct)
  case (reach_new i r addr h)
  then show ?case by (simp add: engine_inv_def self_ok_def members_ok_def engine_new_def)
qed (blast intro: engine_inv_step)

section \<open>Properties\<close>

text \<open>C35. Membership invariant: in every engine reachable through starts, messages, probe passes and
  stops, every member is filed once and under its own identifier, and the instance itself, once
  listed, is alive with its own region and address whatever the peers send.\<close>

theorem gossip_membership:
  assumes "gossip_reach gh pt st e"
  shows "keys_distinct (ge_members e) \<and>
    (\<forall>i m. map_of (ge_members e) i = Some m \<longrightarrow> cm_id m = i \<and>
       (i = ge_self_id e \<longrightarrow> cm_status m = Alive \<and> cm_region m = ge_self_region e \<and> cm_addr m = ge_self_addr e))"
  using engine_inv_reach[OF assms] by (auto simp: engine_inv_def members_ok_alt self_ok_def)

definition demo_engine :: "unit engine" where
  "demo_engine = snd (engine_start noop_handler (Inr ()) 5 (engine_new (InstanceId ''a'') (RegionId ''east'') ''a:1'' ()))"

lemma demo_engine_reach: "gossip_reach noop_handler pt st demo_engine"
  unfolding demo_engine_def by (rule reach_step[OF reach_new step_start])

theorem gossip_membership_witness:
  "keys_distinct (ge_members demo_engine) \<and>
    (\<exists>m. map_of (ge_members demo_engine) (InstanceId ''a'') = Some m \<and> cm_id m = InstanceId ''a'' \<and>
       cm_status m = Alive \<and> cm_region m = RegionId ''east'' \<and> cm_addr m = ''a:1'')"
proof -
  have "map_of (ge_members demo_engine) (InstanceId ''a'') \<noteq> None" "ge_self_id demo_engine = InstanceId ''a''"
    "ge_self_region demo_engine = RegionId ''east''" "ge_self_addr demo_engine = ''a:1''"
    by (simp_all add: demo_engine_def engine_start_def engine_new_def upsert_def member_new_def)
  then show ?thesis using gossip_membership[OF demo_engine_reach[of 0 0]] by auto
qed

lemma verdict_idle [simp]:
  "cm_last_pong (verdict p s m) = cm_last_pong m" "cm_id (verdict p s m) = cm_id m"
  "cm_region (verdict p s m) = cm_region m" "cm_addr (verdict p s m) = cm_addr m"
  by (simp_all add: verdict_def split: member_status.splits)

lemma too_old: "unat m + unat t < unat now \<Longrightarrow> m < sat_sub now t" for m t now :: u64
  by (simp add: word_less_nat_alt unat_sat_sub)

lemma not_too_old: "unat now \<le> unat m + unat t \<Longrightarrow> \<not> m < sat_sub now t" for m t now :: u64
  by (simp add: word_less_nat_alt unat_sat_sub)

text \<open>The failure detector is accurate and complete. For an alive member other than the instance
  itself: a pass no later than the probe timeout after its last message leaves its record as it is; a
  pass after the timeout makes it suspect; and a second pass later than the suspect timeout after
  that same last message makes it dead. No pass touches the instance's own record.\<close>

theorem failure_detector:
  assumes "gossip_reach gh pt st e" "map_of (ge_members e) i = Some m" "cm_status m = Alive" "i \<noteq> ge_self_id e"
  shows "(unat now \<le> unat (cm_last_pong m) + unat pt \<longrightarrow> map_of (ge_members (probe_pass pt st now e)) i = Some m) \<and>
    (unat (cm_last_pong m) + unat pt < unat now \<longrightarrow>
       map_of (ge_members (probe_pass pt st now e)) i = Some (m\<lparr>cm_status := Suspect\<rparr>) \<and>
       (unat (cm_last_pong m) + unat st * 1000 < unat later \<longrightarrow>
          map_of (ge_members (probe_pass pt st later (probe_pass pt st now e))) i = Some (m\<lparr>cm_status := Dead\<rparr>))) \<and>
    map_of (ge_members (probe_pass pt st now e)) (ge_self_id e) = map_of (ge_members e) (ge_self_id e)"
proof -
  have ok: "members_ok (ge_members e)" using engine_inv_reach[OF assms(1)] by (simp add: engine_inv_def)
  have at: "map_of (ge_members (probe_pass pt st now e)) i =
      Some (verdict (sat_sub now pt) (sat_sub now (sat_mul st 1000)) m)" for now
    using assms by (simp add: probe_pass_at[OF ok])
  have suspect: "map_of (ge_members (probe_pass pt st now e)) i = Some (m\<lparr>cm_status := Suspect\<rparr>)"
    if "unat (cm_last_pong m) + unat pt < unat now"
    using assms(3) too_old[OF that] by (simp add: at verdict_def)
  have dead: "map_of (ge_members (probe_pass pt st later (probe_pass pt st now e))) i = Some (m\<lparr>cm_status := Dead\<rparr>)"
    if "unat (cm_last_pong m) + unat pt < unat now" "unat (cm_last_pong m) + unat st * 1000 < unat later"
  proof -
    have "unat (cm_last_pong m) + unat (sat_mul st 1000) < unat later"
      using that(2) by (simp add: unat_sat_mul)
    then have "cm_last_pong m < sat_sub later (sat_mul st 1000)" by (rule too_old)
    then show ?thesis
      using assms(4) by (simp add: probe_pass_at[OF members_ok_probe_pass[OF ok]] suspect[OF that(1)] verdict_def)
  qed
  show ?thesis
    using suspect dead assms(3) not_too_old[of now "cm_last_pong m" pt]
    by (simp add: at) (simp add: verdict_def probe_pass_at[OF ok])
qed

definition demo_peer :: "unit engine" where
  "demo_peer = demo_engine\<lparr>ge_members := ensure_member 7 (InstanceId ''b'') (RegionId ''west'') None digest_default (ge_members demo_engine)\<rparr>"

lemma demo_engine_simps:
  "ge_running demo_engine" "ge_self_id demo_engine = InstanceId ''a''" "ge_self_region demo_engine = RegionId ''east''"
  "map_of (ge_members demo_engine) (InstanceId ''b'') = None"
  by (simp_all add: demo_engine_def engine_start_def engine_new_def upsert_def member_new_def)

lemma demo_peer_reach: "gossip_reach noop_handler pt st demo_peer"
proof (rule reach_step[OF demo_engine_reach step_message])
  show "message_turn noop_handler 7 (Pong (InstanceId ''b'') (RegionId ''west'') digest_default 6) demo_engine = Some ([], demo_peer)"
    by (simp add: message_turn_def demo_engine_simps demo_peer_def)
qed

theorem failure_detector_witness:
  "map_of (ge_members (probe_pass 10 1 2000 (probe_pass 10 1 100 demo_peer))) (InstanceId ''b'') =
     Some \<lparr>cm_id = (InstanceId ''b''), cm_region = (RegionId ''west''), cm_addr = [], cm_last_pong = 7, cm_status = Dead,
       cm_digest = digest_default\<rparr>"
  using failure_detector[OF demo_peer_reach[of 10 1], of "InstanceId ''b''" _ 100 2000]
  by (simp add: demo_peer_def ensure_member_at demo_engine_simps)

lemma handle_is_dispatch: "handle_message gh now msg e = dispatch_message gh now msg e"
  by (cases msg) (simp_all add: handle_message_def Let_def self_pong_def self_ping_def split: option.splits)

fun heard_from :: "cluster_message \<Rightarrow> instance_id option" where
  "heard_from (Ping i _ _ _) = Some i"
| "heard_from (Pong i _ _ _) = Some i"
| "heard_from (Meet i _ _) = Some i"
| "heard_from _ = None"

lemma heard_dispatch: "heard_from msg = Some i \<Longrightarrow> \<exists>cmds e'. dispatch_message gh now msg e = Some (cmds, e')"
  by (cases msg) (simp_all add: Let_def)

lemma heard_after:
  assumes "heard_from msg = Some i"
  shows "\<exists>m. map_of (members_after own now msg ms) = (map_of ms)(i \<mapsto> m) \<and> cm_status m = Alive \<and>
    cm_last_pong m = now \<and> cm_region m = msg_region msg"
  using assms by (cases msg) (auto simp: ensure_member_at)

lemma heard_not_self: "heard_from msg = Some i \<Longrightarrow> message_sender_is_self msg self \<longleftrightarrow> i = self"
  by (cases msg) auto

text \<open>Whatever the detector thought of a peer, a Ping, Pong or Meet from it makes it alive again
  with the region it announces, changes no other record, and the peer then survives every probe pass
  up to the probe timeout; messages with the instance's own identifier change nothing and are not
  answered, and every other message is treated as \<open>handle_message\<close> treats it.\<close>

theorem heard_member_alive:
  assumes "gossip_reach gh pt st e" "ge_running e" "heard_from msg = Some i"
  shows "(if i = ge_self_id e then message_turn gh now msg e = Some ([], e)
    else message_turn gh now msg e = handle_message gh now msg e \<and>
      (\<exists>cmds e' m. message_turn gh now msg e = Some (cmds, e') \<and>
        map_of (ge_members e') = (map_of (ge_members e))(i \<mapsto> m) \<and>
        cm_status m = Alive \<and> cm_last_pong m = now \<and> cm_region m = msg_region msg \<and>
        (\<forall>t. unat t \<le> unat now + unat pt \<longrightarrow> map_of (ge_members (probe_pass pt st t e')) i = Some m)))"
proof (cases "i = ge_self_id e")
  case True
  then show ?thesis using assms by (simp add: message_turn_def heard_not_self)
next
  case False
  obtain cmds e' where d: "dispatch_message gh now msg e = Some (cmds, e')"
    using heard_dispatch[OF assms(3)] by blast
  have turn: "message_turn gh now msg e = Some (cmds, e')"
    using False assms by (simp add: message_turn_def heard_not_self d)
  obtain m where m: "map_of (ge_members e') = (map_of (ge_members e))(i \<mapsto> m)" "cm_status m = Alive"
    "cm_last_pong m = now" "cm_region m = msg_region msg"
    using heard_after[OF assms(3)] dispatch_members_after[OF d] by metis
  have "engine_inv e'" using engine_inv_message[OF turn] engine_inv_reach[OF assms(1)] by blast
  then have "map_of (ge_members (probe_pass pt st t e')) i = Some m" if "unat t \<le> unat now + unat pt" for t
    using False m not_too_old[OF that] by (simp add: engine_inv_def probe_pass_at dispatch_frame[OF d] verdict_def)
  with False turn m show ?thesis by (auto simp: handle_is_dispatch d)
qed

theorem heard_member_alive_witness:
  "\<exists>cmds e' m. message_turn noop_handler 9 (Pong (InstanceId ''b'') (RegionId ''west'') digest_default 6) demo_peer = Some (cmds, e') \<and>
     map_of (ge_members e') (InstanceId ''b'') = Some m \<and> cm_status m = Alive \<and> cm_last_pong m = 9"
proof -
  have "ge_running demo_peer" "InstanceId ''b'' \<noteq> ge_self_id demo_peer"
    by (simp_all add: demo_peer_def demo_engine_simps)
  then show ?thesis
    using heard_member_alive[OF demo_peer_reach[of 10 1],
        of "Pong (InstanceId ''b'') (RegionId ''west'') digest_default 6" "InstanceId ''b''" 9]
    by simp (metis fun_upd_same)
qed

lemma round_members:
  assumes "\<forall>xs. mset (shuffle xs) = mset xs"
    and "Send addr msg \<in> set (gossip_round gh shuffle fanout now e)"
  shows "\<exists>m. m \<in> set (alive_members (ge_members e)) \<and> cm_id m \<noteq> ge_self_id e \<and> addr = cm_addr m \<and>
    msg = Ping (ge_self_id e) (cm_region m) (gh_digest gh (ge_handler e)) now"
proof -
  have "set (shuffle xs) = set xs" for xs using assms(1) by (metis set_mset_mset)
  then show ?thesis
    using assms(2) by (fastforce simp: gossip_round_def Let_def split: if_splits dest: in_set_takeD)
qed

text \<open>A ping round sends at most \<open>fanout\<close> pings, each to an alive member other than the instance
  itself. The ping announces the region the target is filed under in place of the sender's: a target
  filed under its own region files the sender under that same region, so the sender is not
  among the target's members of foreign regions, whatever region the sender is in.\<close>

theorem ping_misfiles_sender:
  assumes "\<forall>xs. mset (shuffle xs) = mset xs" "gossip_reach gh pt st a"
    and "Send addr msg \<in> set (gossip_round gh shuffle fanout now a)"
  shows "length (gossip_round gh shuffle fanout now a) \<le> fanout \<and>
    (\<exists>i m. map_of (ge_members a) i = Some m \<and> cm_status m = Alive \<and> i \<noteq> ge_self_id a \<and> addr = cm_addr m \<and>
      (\<forall>b :: 'k engine. ge_running b \<and> ge_self_id b = i \<and> ge_self_region b = cm_region m \<longrightarrow>
        (\<exists>cmds b' m'. message_turn gh' later msg b = Some (cmds, b') \<and>
           map_of (ge_members b') (ge_self_id a) = Some m' \<and> cm_status m' = Alive \<and>
           cm_region m' = ge_self_region b \<and> m' \<notin> set (foreign_alive (ge_self_region b) (ge_members b')))))"
proof -
  obtain m where m: "m \<in> set (alive_members (ge_members a))" "cm_id m \<noteq> ge_self_id a" "addr = cm_addr m"
    "msg = Ping (ge_self_id a) (cm_region m) (gh_digest gh (ge_handler a)) now"
    using round_members[OF assms(1,3)] by blast
  have "members_ok (ge_members a)" using engine_inv_reach[OF assms(2)] by (simp add: engine_inv_def)
  then have "map_of (ge_members a) (cm_id m) = Some m" "cm_status m = Alive"
    using m(1) by (auto simp: alive_members_def members_ok_def)
  moreover have "\<exists>cmds b' m'. message_turn gh' later msg b = Some (cmds, b') \<and>
      map_of (ge_members b') (ge_self_id a) = Some m' \<and> cm_status m' = Alive \<and>
      cm_region m' = ge_self_region b \<and> m' \<notin> set (foreign_alive (ge_self_region b) (ge_members b'))"
    if "ge_running b" "ge_self_id b = cm_id m" "ge_self_region b = cm_region m" for b :: "'k engine"
    using that m(2) by (auto simp: message_turn_def m(4) Let_def ensure_member_at foreign_alive_def)
  moreover have "length (gossip_round gh shuffle fanout now a) \<le> fanout"
    by (simp add: gossip_round_def Let_def)
  ultimately show ?thesis using m(2,3) by blast
qed

theorem ping_misfiles_sender_witness:
  "gossip_round noop_handler rev 3 20 demo_peer =
     [Send [] (Ping (InstanceId ''a'') (RegionId ''west'') digest_default 20)] \<and>
   (\<exists>cmds b' m'. message_turn noop_handler 21 (Ping (InstanceId ''a'') (RegionId ''west'') digest_default 20)
       (snd (engine_start noop_handler (Inr ()) 5 (engine_new (InstanceId ''b'') (RegionId ''west'') [] ()))) = Some (cmds, b') \<and>
     map_of (ge_members b') (InstanceId ''a'') = Some m' \<and> cm_region m' = RegionId ''west'')"
proof -
  have members: "ge_members demo_peer =
      [(InstanceId ''a'', member_new 5 (InstanceId ''a'') (RegionId ''east'') ''a:1'' digest_default),
       (InstanceId ''b'', member_new 7 (InstanceId ''b'') (RegionId ''west'') [] digest_default)]"
    by (simp add: demo_peer_def demo_engine_def engine_start_def engine_new_def upsert_def member_new_def
        noop_handler_def ensure_member_def member_get_def)
  have pings: "gossip_round noop_handler rev 3 20 demo_peer =
     [Send [] (Ping (InstanceId ''a'') (RegionId ''west'') digest_default 20)]"
    by (simp add: gossip_round_def members alive_members_def member_new_def noop_handler_def)
       (simp add: demo_peer_def demo_engine_simps)
  obtain i m where i: "map_of (ge_members demo_peer) i = Some m" "cm_status m = Alive" "i \<noteq> ge_self_id demo_peer"
    "\<forall>b :: unit engine. ge_running b \<and> ge_self_id b = i \<and> ge_self_region b = cm_region m \<longrightarrow>
        (\<exists>cmds b' m'. message_turn noop_handler 21 (Ping (InstanceId ''a'') (RegionId ''west'') digest_default 20) b = Some (cmds, b') \<and>
           map_of (ge_members b') (ge_self_id demo_peer) = Some m' \<and> cm_status m' = Alive \<and>
           cm_region m' = ge_self_region b \<and> m' \<notin> set (foreign_alive (ge_self_region b) (ge_members b')))"
    using ping_misfiles_sender[of rev noop_handler 10 1 demo_peer "[]"
        "Ping (InstanceId ''a'') (RegionId ''west'') digest_default 20" 3 20 "noop_handler :: unit gossip_handler" 21,
        THEN conjunct2]
    unfolding pings by (simp add: demo_peer_reach) blast
  have self: "ge_self_id demo_peer = InstanceId ''a''" by (simp add: demo_peer_def demo_engine_simps)
  have "i = InstanceId ''b'' \<and> cm_region m = RegionId ''west''"
    using i(1,3) by (auto simp: members self member_new_def split: if_splits)
  then show ?thesis
    using pings i(4)[rule_format, of "snd (engine_start noop_handler (Inr ()) 5 (engine_new (InstanceId ''b'') (RegionId ''west'') [] ()))"]
    by (auto simp: self engine_start_def engine_new_def)
qed

end
