(* ===== verification/Bridge.thy ===== *)
theory Bridge
  imports StoreProof Gossip
begin

text \<open>
  The bridge between the gossip engine and the metadata store,
  \<open>crates/hier-kv-gateway/src/cluster_bridge.rs\<close>: the implementation of \<open>GossipHandler\<close> on a
  \<open>MetadataStore\<close> with one version counter per category. A handler that panics answers \<open>None\<close>. The
  codecs (postcard, base64 and serde's JSON of \<open>RegionInfo\<close>) are parameters.
\<close>

section \<open>State\<close>

record serde = codec +
  region_to_json :: "region_info \<Rightarrow> json"
  region_from_json :: "json \<Rightarrow> region_info option"

record meta_handler =
  mh_store :: metadata_store
  mh_versions :: meta_digest

definition versions_new :: meta_digest where
  "versions_new = \<lparr>kv_version = 0, model_version = 0, load_version = 0, topology_version = 0, members_version = 0\<rparr>"

definition meta_handler_new :: "metadata_store \<Rightarrow> meta_handler" where
  "meta_handler_new s = \<lparr>mh_store = s, mh_versions = versions_new\<rparr>"

definition bump_kv :: "u64 \<Rightarrow> meta_handler \<Rightarrow> meta_handler" where
  "bump_kv n h = h\<lparr>mh_versions := (mh_versions h)\<lparr>kv_version := kv_version (mh_versions h) + n\<rparr>\<rparr>"

definition bump_model :: "u64 \<Rightarrow> meta_handler \<Rightarrow> meta_handler" where
  "bump_model n h = h\<lparr>mh_versions := (mh_versions h)\<lparr>model_version := model_version (mh_versions h) + n\<rparr>\<rparr>"

definition bump_load :: "u64 \<Rightarrow> meta_handler \<Rightarrow> meta_handler" where
  "bump_load n h = h\<lparr>mh_versions := (mh_versions h)\<lparr>load_version := load_version (mh_versions h) + n\<rparr>\<rparr>"

definition bump_topology :: "u64 \<Rightarrow> meta_handler \<Rightarrow> meta_handler" where
  "bump_topology n h = h\<lparr>mh_versions := (mh_versions h)\<lparr>topology_version := topology_version (mh_versions h) + n\<rparr>\<rparr>"

definition bump_members :: "u64 \<Rightarrow> meta_handler \<Rightarrow> meta_handler" where
  "bump_members n h = h\<lparr>mh_versions := (mh_versions h)\<lparr>members_version := members_version (mh_versions h) + n\<rparr>\<rparr>"

section \<open>Load and topology payloads\<close>

definition load_state_entries :: "metadata_store \<Rightarrow> load_entries" where
  "load_state_entries s =
     List.map_filter (\<lambda>info. map_option (\<lambda>m. (backend_display (bi_id info), m)) (load_get (bi_id info) (ms_load s)))
       (backends_all s)"

definition serialize_load_state :: "'x codec_scheme \<Rightarrow> meta_handler \<Rightarrow> json" where
  "serialize_load_state cd h = JString (b64_encode cd (pc_encode cd (load_state_entries (mh_store h))))"

definition serialize_topology_state :: "serde \<Rightarrow> meta_handler \<Rightarrow> json" where
  "serialize_topology_state sd h =
     (let topology = ms_topology (mh_store h)
      in JArray (List.map_filter (\<lambda>rid. map_option (\<lambda>info. JObject [(''region'', region_to_json sd info)])
           (topo_get_region rid topology)) (topo_all_regions topology)))"

definition apply_load_entry :: "string \<times> backend_metrics \<Rightarrow> metadata_store \<Rightarrow> metadata_store option" where
  "apply_load_entry e s =
     (case backend_parse (fst e) of None \<Rightarrow> Some s | Some b \<Rightarrow> store_load_update b (snd e) s)"

definition apply_load_state :: "'x codec_scheme \<Rightarrow> json \<Rightarrow> meta_handler \<Rightarrow> meta_handler option" where
  "apply_load_state cd v h =
     (case v of
        JString encoded \<Rightarrow>
          (case b64_decode cd encoded of
             None \<Rightarrow> Some h
           | Some bytes \<Rightarrow>
               (case pc_decode cd bytes of
                  None \<Rightarrow> Some h
                | Some entries \<Rightarrow>
                    map_option (\<lambda>s. bump_load 1 (h\<lparr>mh_store := s\<rparr>)) (try_fold apply_load_entry entries (mh_store h))))
      | _ \<Rightarrow> Some h)"

definition json_get :: "string \<Rightarrow> json \<Rightarrow> json option" where
  "json_get k v = (case v of JObject kvs \<Rightarrow> map_of kvs k | _ \<Rightarrow> None)"

definition apply_region_entry :: "serde \<Rightarrow> json \<Rightarrow> metadata_store \<Rightarrow> metadata_store" where
  "apply_region_entry sd entry s =
     (case Option.bind (json_get ''region'' entry) (region_from_json sd) of
        None \<Rightarrow> s
      | Some info \<Rightarrow> store_topo_add_region info s)"

definition apply_topology_state :: "serde \<Rightarrow> json \<Rightarrow> meta_handler \<Rightarrow> meta_handler" where
  "apply_topology_state sd v h =
     (case v of
        JArray arr \<Rightarrow> bump_topology 1 (h\<lparr>mh_store := fold (apply_region_entry sd) arr (mh_store h)\<rparr>)
      | _ \<Rightarrow> h)"

section \<open>The handler\<close>

definition KV_STATE :: string where "KV_STATE = ''kv_state''"
definition MODEL_STATE :: string where "MODEL_STATE = ''model_state''"
definition LOAD_STATE :: string where "LOAD_STATE = ''load_state''"
definition TOPOLOGY_STATE :: string where "TOPOLOGY_STATE = ''topology_state''"
definition MEMBERS :: string where "MEMBERS = ''members''"

lemmas key_defs = KV_STATE_def MODEL_STATE_def LOAD_STATE_def TOPOLOGY_STATE_def MEMBERS_def

definition current_meta_digest :: "meta_handler \<Rightarrow> meta_digest" where
  "current_meta_digest h = mh_versions h"

definition sync_entry :: "serde \<Rightarrow> meta_handler \<Rightarrow> string \<Rightarrow> meta_entry option" where
  "sync_entry sd h key =
     (let v = mh_versions h; entry = (\<lambda>value version. Some \<lparr>me_key = key, me_value = value, me_version = version\<rparr>)
      in if key = LOAD_STATE then entry (serialize_load_state sd h) (load_version v)
         else if key = TOPOLOGY_STATE then entry (serialize_topology_state sd h) (topology_version v)
         else if key = KV_STATE then entry JNull (kv_version v)
         else if key = MODEL_STATE then entry JNull (model_version v)
         else if key = MEMBERS then entry JNull (members_version v)
         else None)"

definition handle_sync_request :: "serde \<Rightarrow> string list \<Rightarrow> meta_handler \<Rightarrow> meta_entry list" where
  "handle_sync_request sd ks h = List.map_filter (sync_entry sd h) ks"

definition apply_sync_entry :: "serde \<Rightarrow> meta_entry \<Rightarrow> meta_handler \<Rightarrow> meta_handler option" where
  "apply_sync_entry sd e h =
     (if me_key e = LOAD_STATE then apply_load_state sd (me_value e) h
      else if me_key e = TOPOLOGY_STATE then Some (apply_topology_state sd (me_value e) h)
      else Some h)"

definition apply_sync_response :: "serde \<Rightarrow> meta_entry list \<Rightarrow> meta_handler \<Rightarrow> meta_handler option" where
  "apply_sync_response sd es h = try_fold (apply_sync_entry sd) es h"

text \<open>The loop over the announced metrics, with the number of entries stored so far.\<close>

definition accept_metrics :: "region_id \<Rightarrow> string \<times> backend_metrics \<Rightarrow> u64 \<times> metadata_store \<Rightarrow> (u64 \<times> metadata_store) option" where
  "accept_metrics region e acc =
     (case backend_parse (fst e) of
        None \<Rightarrow> Some acc
      | Some b \<Rightarrow> if b_region b \<noteq> region then Some acc
                  else map_option (\<lambda>s. (fst acc + 1, s)) (store_load_update b (snd e) (snd acc)))"

definition handle_metrics_broadcast :: "serde \<Rightarrow> region_id \<Rightarrow> load_payload \<Rightarrow> meta_handler \<Rightarrow> meta_handler option" where
  "handle_metrics_broadcast sd region payload h =
     (case decode_payload sd payload of
        None \<Rightarrow> Some h
      | Some entries \<Rightarrow>
          map_option (\<lambda>(updated, s). let h1 = h\<lparr>mh_store := s\<rparr> in if updated > 0 then bump_load updated h1 else h1)
            (try_fold (accept_metrics region) entries (0, mh_store h)))"

definition handler_consumer :: "meta_handler \<Rightarrow> ckf_consumer" where
  "handler_consumer h = ki_consumer (ms_kv (mh_store h))"

definition with_consumer :: "meta_handler \<Rightarrow> ckf_consumer \<Rightarrow> meta_handler" where
  "with_consumer h c = h\<lparr>mh_store := (mh_store h)\<lparr>ms_kv := (ms_kv (mh_store h))\<lparr>ki_consumer := c\<rparr>\<rparr>\<rparr>"

definition handle_ckf_barrier_snapshot :: "pool_id \<Rightarrow> u64 \<Rightarrow> u64 list \<Rightarrow> nat \<Rightarrow> meta_handler \<Rightarrow> meta_handler option" where
  "handle_ckf_barrier_snapshot pool sq bs num_buckets h =
     (case consumer_lane_of (handler_consumer h) (pool_region pool) of
        None \<Rightarrow> Some h
      | Some lane \<Rightarrow>
          if length bs \<noteq> num_buckets then Some h
          else map_option (\<lambda>c. bump_kv 1 (with_consumer h c))
                 (install_snapshot lane \<lparr>snap_sequence = sq, snap_buckets = bs\<rparr> (handler_consumer h)))"

definition handle_ckf_delta :: "pool_id \<Rightarrow> u64 \<Rightarrow> u64 \<Rightarrow> (u64 \<times> u64) list \<Rightarrow> meta_handler \<Rightarrow> meta_handler option" where
  "handle_ckf_delta pool sq prev dirty h =
     (case consumer_lane_of (handler_consumer h) (pool_region pool) of
        None \<Rightarrow> Some h
      | Some lane \<Rightarrow>
          map_option (\<lambda>c. bump_kv 1 (with_consumer h c))
            (apply_delta lane \<lparr>delta_sequence = sq, delta_prev_sequence = prev, delta_buckets = dirty\<rparr> (handler_consumer h)))"

definition handle_topology_update :: "region_id \<Rightarrow> region_id \<Rightarrow> latency_estimate \<Rightarrow> meta_handler \<Rightarrow> meta_handler" where
  "handle_topology_update from to est h =
     bump_topology 1 (h\<lparr>mh_store := store_topo_update_latency from to est (mh_store h)\<rparr>)"

text \<open>\<open>now_secs\<close>: the session history keeps seconds, the engine's clock milliseconds.\<close>

definition handle_session_affinity :: "u64 \<Rightarrow> session_id \<Rightarrow> region_id \<Rightarrow> string \<Rightarrow> meta_handler \<Rightarrow> meta_handler" where
  "handle_session_affinity now_secs sess region inst h =
     h\<lparr>mh_store := session_set now_secs sess (BackendId region (BackendInstanceId inst)) 0 (mh_store h)\<rparr>"

definition meta_gossip_handler :: "serde \<Rightarrow> meta_handler gossip_handler" where
  "meta_gossip_handler sd =
     \<lparr>gh_digest = current_meta_digest,
      gh_sync_request = handle_sync_request sd,
      gh_apply_sync = apply_sync_response sd,
      gh_metrics = handle_metrics_broadcast sd,
      gh_snapshot = handle_ckf_barrier_snapshot,
      gh_delta = handle_ckf_delta,
      gh_topology = (\<lambda>from to est h. Some (handle_topology_update from to est h)),
      gh_affinity = (\<lambda>now sess region inst h. Some (handle_session_affinity (now div 1000) sess region inst h))\<rparr>"

section \<open>The contract of a gossip handler\<close>

text \<open>What the message loop relies on: a well-formed message never panics a handler in a good state.\<close>

definition message_wf :: "cluster_message \<Rightarrow> bool" where
  "message_wf msg = (case msg of CkfBarrierSnapshot _ _ bs _ \<Rightarrow> length bs \<le> BUCKETS_PER_LANE | _ \<Rightarrow> True)"

text \<open>The loop reads the running flag, waits for a message and handles it; it ends when the flag is down or
  the channel is closed, here at the end of the list.\<close>

fun message_loop :: "'h gossip_handler \<Rightarrow> (u64 \<times> cluster_message) list \<Rightarrow> 'h engine \<Rightarrow> 'h engine option" where
  "message_loop gh [] e = Some e"
| "message_loop gh ((now, msg) # ms) e =
     (if ge_running e
      then (case message_turn gh now msg e of None \<Rightarrow> None | Some (_, e') \<Rightarrow> message_loop gh ms e')
      else Some e)"

locale gossip_contract =
  fixes gh :: "'h gossip_handler" and ok :: "'h \<Rightarrow> bool"
  assumes sync_returns: "ok h \<Longrightarrow> returns (gh_apply_sync gh es h) ok"
    and metrics_returns: "ok h \<Longrightarrow> returns (gh_metrics gh r p h) ok"
    and snapshot_returns: "ok h \<Longrightarrow> length bs \<le> BUCKETS_PER_LANE \<Longrightarrow> returns (gh_snapshot gh pool sq bs n h) ok"
    and delta_returns: "ok h \<Longrightarrow> returns (gh_delta gh pool sq prev ds h) ok"
    and topology_returns: "ok h \<Longrightarrow> returns (gh_topology gh a b est h) ok"
    and affinity_returns: "ok h \<Longrightarrow> returns (gh_affinity gh now sess r i h) ok"
begin

lemma dispatch_returns:
  assumes "ok (ge_handler e)" "message_wf msg"
  shows "returns (dispatch_message gh now msg e) (\<lambda>x. ok (ge_handler (snd x)))"
  using assms
  by (cases msg)
     (simp_all add: Let_def with_handler_def returns_simps message_wf_def sync_returns metrics_returns snapshot_returns
        delta_returns topology_returns affinity_returns)

lemma turn_returns:
  "ok (ge_handler e) \<Longrightarrow> message_wf msg \<Longrightarrow> returns (message_turn gh now msg e) (\<lambda>x. ok (ge_handler (snd x)))"
  using dispatch_returns by (simp add: message_turn_def returns_simps)

lemma loop_returns:
  assumes "ok (ge_handler e)" "\<forall>(_, msg)\<in>set ms. message_wf msg"
  shows "returns (message_loop gh ms e) (\<lambda>e'. ok (ge_handler e'))"
  using assms
proof (induction ms arbitrary: e)
  case (Cons x ms)
  obtain now msg where x: "x = (now, msg)" by force
  then show ?case
    using Cons turn_returns[of e msg now] by (auto simp: returns_def split: option.splits)
qed (simp add: returns_def)

end

interpretation noop: gossip_contract noop_handler "\<lambda>_. True"
  by unfold_locales (simp_all add: noop_handler_def returns_simps)

section \<open>The metadata handler keeps the contract\<close>

definition lanes_bound :: "ckf_consumer \<Rightarrow> bool" where
  "lanes_bound c \<longleftrightarrow> (\<forall>(lane, r)\<in>set (c_lane_regions c). lane < LANE_COUNT)"

definition handler_ok :: "meta_handler \<Rightarrow> bool" where
  "handler_ok h \<longleftrightarrow> load_ok (ms_load (mh_store h)) \<and> lanes_bound (handler_consumer h)"

lemma bound_lane_of: "lanes_bound c \<Longrightarrow> consumer_lane_of c r = Some lane \<Longrightarrow> lane < LANE_COUNT"
  by (auto simp: lanes_bound_def consumer_lane_of_def find_Some_iff dest!: nth_mem)

lemma store_dirty_returns:
  "lane < LANE_COUNT \<Longrightarrow> returns (store_dirty lane ds c) (\<lambda>c'. c_lane_regions c' = c_lane_regions c)"
proof (induction ds arbitrary: c)
  case (Cons d ds)
  have "returns (store_dirty lane ds (c\<lparr>c_buckets := B\<rparr>)) (\<lambda>c'. c_lane_regions c' = c_lane_regions c)" for B
    using Cons.IH[OF Cons.prems, of "c\<lparr>c_buckets := B\<rparr>"] by simp
  with Cons show ?case by (cases d) (simp add: store_bucket_def returns_simps)
qed (simp add: returns_simps)

lemma store_all_None:
  assumes "lane < LANE_COUNT"
  shows "store_all lane n vs c = None \<longleftrightarrow> vs \<noteq> [] \<and> BUCKETS_PER_LANE < n + length vs"
proof (induction vs arbitrary: n c)
  case Nil
  then show ?case by simp
next
  case (Cons v vs)
  have "\<exists>c'. store_bucket (of_nat n) lane v c = Some c'" if "n < BUCKETS_PER_LANE"
    using assms that by (simp add: store_bucket_def in_lane_def BUCKETS_PER_LANE_def unat_of_nat)
  then show ?case using Cons.IH by (cases "vs = []") auto
qed

lemma install_snapshot_None:
  assumes "lane < LANE_COUNT"
  shows "install_snapshot lane s c = None \<longleftrightarrow> BUCKETS_PER_LANE < length (snap_buckets s)"
proof -
  have "store_all lane 0 (snap_buckets s) c' = None \<longleftrightarrow> BUCKETS_PER_LANE < length (snap_buckets s)" for c'
    using store_all_None[OF assms] by auto
  then show ?thesis using assms by (simp add: install_snapshot_def set_lane_status_def option.case_eq_if)
qed

lemma handler_ok_simps [simp]:
  "handler_ok (bump_kv n h) = handler_ok h" "handler_ok (bump_load n h) = handler_ok h"
  "handler_ok (bump_topology n h) = handler_ok h"
  "handler_consumer (bump_kv n h) = handler_consumer h" "handler_consumer (bump_load n h) = handler_consumer h"
  "handler_consumer (bump_topology n h) = handler_consumer h"
  "handler_consumer (with_consumer h c) = c" "ms_load (mh_store (with_consumer h c)) = ms_load (mh_store h)"
  by (simp_all add: handler_ok_def bump_kv_def bump_load_def bump_topology_def handler_consumer_def with_consumer_def)

text \<open>The part of the invariant that the loops over metrics carry.\<close>

definition loads_into :: "kv_index \<Rightarrow> metadata_store \<Rightarrow> bool" where
  "loads_into k s \<longleftrightarrow> load_ok (ms_load s) \<and> ms_kv s = k"

lemma store_load_update_returns: "loads_into k s \<Longrightarrow> returns (store_load_update b m s) (loads_into k)"
  by (rule load_update_ok[of "ms_load s" b m])
     (auto simp: loads_into_def store_load_update_def returns_simps)

lemma apply_load_entry_returns: "loads_into k s \<Longrightarrow> returns (apply_load_entry e s) (loads_into k)"
  by (auto simp: apply_load_entry_def store_load_update_returns returns_simps split: option.splits)

lemma accept_metrics_returns:
  "loads_into k (snd acc) \<Longrightarrow> returns (accept_metrics r e acc) (\<lambda>acc'. loads_into k (snd acc'))"
  by (auto simp: accept_metrics_def store_load_update_returns returns_simps split: option.splits)

lemma handler_ok_store:
  "handler_ok h \<Longrightarrow> loads_into (ms_kv (mh_store h)) s \<Longrightarrow> handler_ok (h\<lparr>mh_store := s\<rparr>)"
  by (simp add: handler_ok_def handler_consumer_def loads_into_def)

lemma handler_ok_loads: "handler_ok h \<Longrightarrow> loads_into (ms_kv (mh_store h)) (mh_store h)"
  by (simp add: handler_ok_def loads_into_def)

lemma apply_load_state_returns: "handler_ok h \<Longrightarrow> returns (apply_load_state cd v h) handler_ok"
proof -
  assume h: "handler_ok h"
  have "returns (try_fold apply_load_entry es (mh_store h)) (loads_into (ms_kv (mh_store h)))" for es
    by (rule returns_try_fold) (simp_all add: apply_load_entry_returns handler_ok_loads[OF h])
  then have "returns (try_fold apply_load_entry es (mh_store h)) (\<lambda>s. handler_ok (h\<lparr>mh_store := s\<rparr>))" for es
    by (rule returns_mono) (rule handler_ok_store[OF h])
  then show ?thesis
    using h by (simp add: apply_load_state_def returns_simps split: json.splits option.splits)
qed

lemma apply_regions_frame:
  "ms_load (fold (apply_region_entry sd) arr s) = ms_load s \<and> ms_kv (fold (apply_region_entry sd) arr s) = ms_kv s"
  by (induction arr arbitrary: s) (simp_all add: apply_region_entry_def store_topo_add_region_def split: option.splits)

lemma apply_topology_state_ok: "handler_ok h \<Longrightarrow> handler_ok (apply_topology_state sd v h)"
  by (auto simp: apply_topology_state_def apply_regions_frame handler_ok_def handler_consumer_def
      bump_topology_def split: json.splits)

lemma apply_sync_returns: "handler_ok h \<Longrightarrow> returns (apply_sync_response sd es h) handler_ok"
  unfolding apply_sync_response_def
  by (rule returns_try_fold) (simp_all add: apply_sync_entry_def returns_simps apply_load_state_returns apply_topology_state_ok)

lemma metrics_broadcast_returns: "handler_ok h \<Longrightarrow> returns (handle_metrics_broadcast sd r p h) handler_ok"
proof -
  assume h: "handler_ok h"
  have "returns (try_fold (accept_metrics r) es (0, mh_store h)) (\<lambda>acc. loads_into (ms_kv (mh_store h)) (snd acc))" for es
    by (rule returns_try_fold) (simp_all add: accept_metrics_returns handler_ok_loads[OF h])
  then have "returns (try_fold (accept_metrics r) es (0, mh_store h)) (\<lambda>acc. handler_ok (h\<lparr>mh_store := snd acc\<rparr>))" for es
    by (rule returns_mono) (rule handler_ok_store[OF h])
  then show ?thesis
    using h by (simp add: handle_metrics_broadcast_def returns_simps Let_def case_prod_beta if_distrib cong: if_cong split: option.splits)
qed

lemma handler_ok_with_consumer:
  "handler_ok h \<Longrightarrow> c_lane_regions c = c_lane_regions (handler_consumer h) \<Longrightarrow> handler_ok (with_consumer h c)"
  by (simp add: handler_ok_def lanes_bound_def)

lemma snapshot_handler_returns:
  assumes "handler_ok h" "length bs \<le> BUCKETS_PER_LANE"
  shows "returns (handle_ckf_barrier_snapshot pool sq bs n h) handler_ok"
proof (cases "consumer_lane_of (handler_consumer h) (pool_region pool)")
  case None
  then show ?thesis using assms by (simp add: handle_ckf_barrier_snapshot_def returns_simps)
next
  case (Some lane)
  then have "lane < LANE_COUNT" using assms(1) bound_lane_of by (auto simp: handler_ok_def)
  then have "returns (install_snapshot lane \<lparr>snap_sequence = sq, snap_buckets = bs\<rparr> (handler_consumer h))
      (\<lambda>c. c_lane_regions c = c_lane_regions (handler_consumer h))"
    using install_snapshot_result[of lane "\<lparr>snap_sequence = sq, snap_buckets = bs\<rparr>" "handler_consumer h"] assms(2)
    by (auto simp: returns_def)
  then show ?thesis
    using Some assms(1) by (auto simp: handle_ckf_barrier_snapshot_def returns_simps handler_ok_with_consumer intro: returns_mono)
qed

lemma delta_handler_returns:
  assumes "handler_ok h"
  shows "returns (handle_ckf_delta pool sq prev ds h) handler_ok"
proof (cases "consumer_lane_of (handler_consumer h) (pool_region pool)")
  case None
  then show ?thesis using assms by (simp add: handle_ckf_delta_def returns_simps)
next
  case (Some lane)
  then have "lane < LANE_COUNT" using assms(1) bound_lane_of by (auto simp: handler_ok_def)
  then show ?thesis
    using Some assms store_dirty_returns[of lane ds "handler_consumer h"]
    by (auto simp: handle_ckf_delta_def apply_delta_def returns_simps handler_ok_with_consumer intro: returns_mono)
qed

lemma handler_ok_topology: "handler_ok h \<Longrightarrow> handler_ok (handle_topology_update a b est h)"
  by (simp add: handle_topology_update_def) (simp add: handler_ok_def handler_consumer_def store_topo_update_latency_def)

lemma handler_ok_affinity: "handler_ok h \<Longrightarrow> handler_ok (handle_session_affinity now sess r i h)"
  by (simp add: handle_session_affinity_def handler_ok_def handler_consumer_def session_set_def)

interpretation meta: gossip_contract "meta_gossip_handler sd" handler_ok
  by unfold_locales
    (simp_all add: meta_gossip_handler_def returns_simps apply_sync_returns metrics_broadcast_returns
      snapshot_handler_returns delta_handler_returns handler_ok_topology handler_ok_affinity)

section \<open>What a payload stores\<close>

definition overwrites :: "(backend_id \<times> backend_metrics) list \<Rightarrow> metadata_store \<Rightarrow> metadata_store \<Rightarrow> bool" where
  "overwrites ups s s' \<longleftrightarrow> load_ok (ms_load s') \<and> (\<exists>l. s' = s\<lparr>ms_load := l\<rparr>) \<and>
     (\<forall>b. load_get b (ms_load s') = (case map_of (rev ups) b of None \<Rightarrow> load_get b (ms_load s) | Some m \<Rightarrow> Some m))"

lemma overwrites_refl: "load_ok (ms_load s) \<Longrightarrow> overwrites [] s s"
  by (auto simp: overwrites_def intro!: exI[of _ "ms_load s"])

lemma overwritesD: "overwrites ups s s' \<Longrightarrow> load_ok (ms_load s')"
  by (simp add: overwrites_def)

lemma overwrites_trans: "overwrites us s s' \<Longrightarrow> overwrites vs s' s'' \<Longrightarrow> overwrites (us @ vs) s s''"
  by (auto simp: overwrites_def map_add_def split: option.splits)

lemma store_load_update_overwrites:
  assumes "load_ok (ms_load s)"
  shows "returns (store_load_update b m s) (overwrites [(b, m)] s)"
  by (rule load_update_ok[OF assms, of b m]) (auto simp: store_load_update_def returns_simps overwrites_def)

definition parsed :: "load_entries \<Rightarrow> (backend_id \<times> backend_metrics) list" where
  "parsed es = List.map_filter (\<lambda>(id, m). map_option (\<lambda>b. (b, m)) (backend_parse id)) es"

lemma apply_entry_overwrites:
  "load_ok (ms_load s) \<Longrightarrow> returns (apply_load_entry e s) (overwrites (parsed [e]) s)"
  using store_load_update_overwrites[of s]
  by (cases e) (auto simp: apply_load_entry_def parsed_def map_filter_simps overwrites_refl returns_simps split: option.splits)

lemma apply_entries_overwrites:
  "load_ok (ms_load s) \<Longrightarrow> returns (try_fold apply_load_entry es s) (overwrites (parsed es) s)"
proof (induction es arbitrary: s)
  case (Cons e es)
  have "returns (try_fold apply_load_entry es s') (overwrites (parsed (e # es)) s)"
    if "overwrites (parsed [e]) s s'" for s'
  proof (rule returns_mono[OF Cons.IH])
    show "load_ok (ms_load s')" using that by (simp add: overwrites_def)
    have "parsed (e # es) = parsed [e] @ parsed es" by (simp add: parsed_def map_filter_def)
    then show "overwrites (parsed es) s' s'' \<Longrightarrow> overwrites (parsed (e # es)) s s''" for s''
      using overwrites_trans[OF that] by simp
  qed
  then show ?case using returns_mono[OF apply_entry_overwrites[OF Cons.prems]] by (simp add: returns_simps)
qed (simp add: returns_simps parsed_def map_filter_simps overwrites_refl)

lemma accept_metrics_overwrites:
  assumes "load_ok (ms_load s)"
  shows "returns (accept_metrics r e (n, s)) (\<lambda>acc. fst acc = n + of_nat (length (filter (\<lambda>(b, _). b_region b = r) (parsed [e]))) \<and>
    overwrites (filter (\<lambda>(b, _). b_region b = r) (parsed [e])) s (snd acc))"
  using store_load_update_overwrites[OF assms] overwrites_refl[OF assms]
  by (cases e) (auto simp: accept_metrics_def parsed_def map_filter_simps returns_simps split: option.splits)

lemma accept_all_overwrites:
  "load_ok (ms_load s) \<Longrightarrow> returns (try_fold (accept_metrics r) es (n, s)) (\<lambda>acc.
    fst acc = n + of_nat (length (filter (\<lambda>(b, _). b_region b = r) (parsed es))) \<and>
    overwrites (filter (\<lambda>(b, _). b_region b = r) (parsed es)) s (snd acc))"
proof (induction es arbitrary: n s)
  case (Cons e es)
  let ?in = "\<lambda>es. filter (\<lambda>(b, _). b_region b = r) (parsed es)"
  have split: "?in (e # es) = ?in [e] @ ?in es" by (simp add: parsed_def map_filter_def)
  have "returns (try_fold (accept_metrics r) es acc) (\<lambda>acc'. fst acc' = n + of_nat (length (?in (e # es))) \<and>
      overwrites (?in (e # es)) s (snd acc'))"
    if "fst acc = n + of_nat (length (?in [e])) \<and> overwrites (?in [e]) s (snd acc)" for acc
  proof (rule returns_mono)
    show "returns (try_fold (accept_metrics r) es acc) (\<lambda>acc'. fst acc' = fst acc + of_nat (length (?in es)) \<and>
        overwrites (?in es) (snd acc) (snd acc'))"
      using Cons.IH[OF overwritesD[OF that[THEN conjunct2]], of "fst acc"] by simp
    show "fst acc' = n + of_nat (length (?in (e # es))) \<and> overwrites (?in (e # es)) s (snd acc')"
      if "fst acc' = fst acc + of_nat (length (?in es)) \<and> overwrites (?in es) (snd acc) (snd acc')" for acc'
      using that \<open>fst acc = _ \<and> _\<close> overwrites_trans unfolding split by auto
  qed
  then show ?case using returns_mono[OF accept_metrics_overwrites[OF Cons.prems]] by (simp add: returns_simps)
qed (simp add: returns_simps parsed_def map_filter_simps overwrites_refl)

lemma map_filter_cong: "(\<And>x. x \<in> set xs \<Longrightarrow> f x = g x) \<Longrightarrow> List.map_filter f xs = List.map_filter g xs"
  by (induction xs) (auto simp: map_filter_simps split: option.splits)

lemma map_filter_bind: "List.map_filter g (List.map_filter f xs) = List.map_filter (\<lambda>x. Option.bind (f x) g) xs"
  by (induction xs) (auto simp: map_filter_simps split: option.splits)

lemma map_of_rev_filter:
  assumes "keys_distinct ms" "\<And>k v. (k, v) \<in> set ms \<Longrightarrow> key v = k"
  shows "map_of (rev (List.map_filter (\<lambda>v. map_option (Pair (key v)) (L (key v))) (map snd ms))) b =
    (if map_of ms b = None then None else L b)"
  using assms
proof (induction ms)
  case (Cons e ms)
  obtain k v where e: "e = (k, v)" by (cases e)
  have k: "key v = k" using Cons.prems(2) e by simp
  have "map_of ms k = None" using Cons.prems(1) by (simp add: e map_of_eq_None_iff)
  then show ?case
    using Cons by (auto simp: e k map_filter_simps map_add_def split: option.splits)
qed (simp add: map_filter_simps)

lemma parsed_load_state:
  assumes "store_ok s" "\<forall>b info. backend_get b s = Some info \<longrightarrow> backend_parse (backend_display b) = Some b"
  shows "map_of (rev (parsed (load_state_entries s))) b =
    (if backend_get b s = None then None else load_get b (ms_load s))"
proof -
  have ids: "keys_distinct (ms_backends s)" "\<And>b info. (b, info) \<in> set (ms_backends s) \<Longrightarrow> bi_id info = b"
    using assms(1) by (auto simp: store_ok_def)
  have parse: "backend_parse (backend_display (bi_id info)) = Some (bi_id info)" if "info \<in> set (map snd (ms_backends s))" for info
    using that assms(2) ids by (auto simp: backend_get_def)
  have "parsed (load_state_entries s) =
      List.map_filter (\<lambda>info. map_option (Pair (bi_id info)) (load_get (bi_id info) (ms_load s))) (map snd (ms_backends s))"
    unfolding parsed_def load_state_entries_def map_filter_bind backends_all_def
    by (rule map_filter_cong) (simp add: parse option.map_comp split: option.splits bind_splits)
  then show ?thesis
    using map_of_rev_filter[OF ids(1), of bi_id "\<lambda>b. load_get b (ms_load s)" b] ids(2)
    by (simp add: backend_get_def)
qed

section \<open>Properties of the bridge\<close>

text \<open>C36. The message loop of a gateway does not die of the messages its peers build: whatever messages
  arrive, in whatever order, every turn returns and the handler's state stays good, provided no
  barrier snapshot has more buckets than a lane.\<close>

theorem message_loop_total:
  assumes "handler_ok (ge_handler e)" "\<forall>(_, msg)\<in>set ms. message_wf msg"
  shows "\<exists>e'. message_loop (meta_gossip_handler sd) ms e = Some e' \<and> handler_ok (ge_handler e')"
  using meta.loop_returns[OF assms] by (simp add: returns_def)

lemma handler_ok_new: "handler_ok (meta_handler_new store_new)"
  by (simp add: handler_ok_def meta_handler_new_def store_new_def load_new_def load_ok_def lanes_bound_def
      handler_consumer_def kv_index_new_def consumer_new_def)

text \<open>A codec that knows one list of entries.\<close>

definition demo_serde :: "load_entries \<Rightarrow> serde" where
  "demo_serde es = \<lparr>b64_encode = (\<lambda>_. ''AA''), b64_decode = (\<lambda>_. Some [1]), pc_encode = (\<lambda>_. [1]),
     pc_decode = (\<lambda>_. Some es), region_to_json = (\<lambda>_. JNull), region_from_json = (\<lambda>_. None)\<rparr>"

theorem message_loop_total_witness:
  "\<exists>e'. message_loop (meta_gossip_handler (demo_serde []))
     [(1, Meet (InstanceId ''b'') (RegionId ''eu'') ''b:1''), (2, CkfBarrierSnapshot (PoolId (IndexerDomainId 1) (RegionId ''eu'')) 1 [0] 1)]
     (engine_new (InstanceId ''a'') (RegionId ''us'') ''a:1'' (meta_handler_new store_new)\<lparr>ge_running := True\<rparr>) = Some e' \<and>
     handler_ok (ge_handler e')"
  by (rule message_loop_total) (simp_all add: engine_new_def handler_ok_new message_wf_def BUCKETS_PER_LANE_def)

text \<open>A barrier snapshot is checked against the bucket count of the message only, so the handler
  panics exactly on a snapshot for a region with a lane that is consistent with itself and longer
  than a lane; no delta panics it.\<close>

theorem oversized_snapshot_panics:
  assumes "handler_ok h"
  shows "(handle_ckf_barrier_snapshot pool sq bs n h = None \<longleftrightarrow>
      consumer_lane_of (handler_consumer h) (pool_region pool) \<noteq> None \<and> length bs = n \<and> BUCKETS_PER_LANE < n) \<and>
    handle_ckf_delta pool sq prev ds h \<noteq> None"
proof (cases "consumer_lane_of (handler_consumer h) (pool_region pool)")
  case None
  then show ?thesis by (simp add: handle_ckf_barrier_snapshot_def handle_ckf_delta_def)
next
  case (Some lane)
  then have "lane < LANE_COUNT" using assms bound_lane_of by (auto simp: handler_ok_def)
  moreover have "returns (handle_ckf_delta pool sq prev ds h) handler_ok" by (rule delta_handler_returns[OF assms])
  ultimately show ?thesis
    using Some by (auto simp: handle_ckf_barrier_snapshot_def install_snapshot_None returns_def)
qed

theorem oversized_snapshot_panics_witness:
  "handle_ckf_delta (PoolId (IndexerDomainId 1) (RegionId ''eu'')) 1 0 [(70000, 1)]
     (with_consumer (meta_handler_new store_new) (consumer_assign_lane 3 (RegionId ''eu'') consumer_new)) \<noteq> None \<and>
   handle_ckf_barrier_snapshot (PoolId (IndexerDomainId 1) (RegionId ''eu'')) 1 (replicate (Suc BUCKETS_PER_LANE) 0) (Suc BUCKETS_PER_LANE)
     (with_consumer (meta_handler_new store_new) (consumer_assign_lane 3 (RegionId ''eu'') consumer_new)) = None"
proof -
  let ?c = "consumer_assign_lane 3 (RegionId ''eu'') consumer_new"
  have lane: "consumer_lane_of ?c (RegionId ''eu'') = Some 3"
    by (simp add: consumer_lane_of_def consumer_assign_lane_def consumer_new_def)
  have "handler_ok (with_consumer (meta_handler_new store_new) ?c)"
    using handler_ok_new
    by (simp add: handler_ok_def lanes_bound_def consumer_assign_lane_def consumer_new_def LANE_COUNT_def)
  from oversized_snapshot_panics[OF this] show ?thesis by (simp add: lane)
qed

text \<open>C37. Synchronisation of the load state: the answer of one gateway to a request for \<open>load_state\<close>,
  applied by another, gives the second the latest metrics of every backend registered at the first
  and keeps its own for every other backend, and raises its load version by one. (The codec gives back
  the entries and bytes of this answer, and identifiers of registered backends are parseable.)\<close>

theorem load_sync_transfers:
  assumes "store_ok (mh_store a)" "handler_ok b"
    and "\<forall>x info. backend_get x (mh_store a) = Some info \<longrightarrow> backend_parse (backend_display x) = Some x"
    and "b64_decode sd (b64_encode sd (pc_encode sd (load_state_entries (mh_store a)))) =
      Some (pc_encode sd (load_state_entries (mh_store a)))"
    and "pc_decode sd (pc_encode sd (load_state_entries (mh_store a))) = Some (load_state_entries (mh_store a))"
  shows "\<exists>b'. apply_sync_response sd (handle_sync_request sd [LOAD_STATE] a) b = Some b' \<and>
    (\<forall>x. load_get x (ms_load (mh_store b')) =
       (if backend_get x (mh_store a) = None \<or> load_get x (ms_load (mh_store a)) = None
        then load_get x (ms_load (mh_store b)) else load_get x (ms_load (mh_store a)))) \<and>
    load_version (mh_versions b') = load_version (mh_versions b) + 1"
proof -
  have "load_ok (ms_load (mh_store b))" using assms(2) by (simp add: handler_ok_def)
  then obtain s where s: "try_fold apply_load_entry (load_state_entries (mh_store a)) (mh_store b) = Some s"
    "overwrites (parsed (load_state_entries (mh_store a))) (mh_store b) s"
    using apply_entries_overwrites by (auto simp: returns_def)
  have "apply_sync_response sd (handle_sync_request sd [LOAD_STATE] a) b = Some (bump_load 1 (b\<lparr>mh_store := s\<rparr>))"
    using s(1) assms(4,5)
    by (simp add: apply_sync_response_def handle_sync_request_def map_filter_simps sync_entry_def Let_def
        apply_sync_entry_def serialize_load_state_def apply_load_state_def)
  moreover have "load_get x (ms_load s) = (if backend_get x (mh_store a) = None \<or> load_get x (ms_load (mh_store a)) = None
        then load_get x (ms_load (mh_store b)) else load_get x (ms_load (mh_store a)))" for x
    using s(2) parsed_load_state[OF assms(1,3), of x] by (auto simp: overwrites_def split: option.splits)
  ultimately show ?thesis by (simp add: bump_load_def)
qed

text \<open>The region guard of a metrics broadcast: the handler stores exactly the decoded entries whose
  identifier parses to a backend of the announced region, the last one per backend, changes nothing
  but the load statistics, and raises the load version by the number of entries stored.\<close>

theorem metrics_region_guard:
  assumes "handler_ok h" "decode_payload sd payload = Some es"
  shows "\<exists>h'. handle_metrics_broadcast sd region payload h = Some h' \<and>
    (\<forall>x. load_get x (ms_load (mh_store h')) =
       (case map_of (rev (filter (\<lambda>(b, _). b_region b = region) (parsed es))) x of
          None \<Rightarrow> load_get x (ms_load (mh_store h)) | Some m \<Rightarrow> Some m)) \<and>
    (\<forall>x. b_region x \<noteq> region \<longrightarrow> load_get x (ms_load (mh_store h')) = load_get x (ms_load (mh_store h))) \<and>
    mh_store h' = (mh_store h)\<lparr>ms_load := ms_load (mh_store h')\<rparr> \<and>
    load_version (mh_versions h') = load_version (mh_versions h) +
      of_nat (length (filter (\<lambda>(b, _). b_region b = region) (parsed es)))"
proof -
  let ?in = "filter (\<lambda>(b, _). b_region b = region) (parsed es)"
  have "load_ok (ms_load (mh_store h))" using assms(1) by (simp add: handler_ok_def)
  then obtain acc where acc: "try_fold (accept_metrics region) es (0, mh_store h) = Some acc"
    "fst acc = of_nat (length ?in)" "overwrites ?in (mh_store h) (snd acc)"
    using accept_all_overwrites[of "mh_store h" region es 0] by (auto simp: returns_def)
  define h' where "h' = (let h1 = h\<lparr>mh_store := snd acc\<rparr> in if fst acc > 0 then bump_load (fst acc) h1 else h1)"
  have "handle_metrics_broadcast sd region payload h = Some h'"
    by (simp add: handle_metrics_broadcast_def assms(2) acc(1) h'_def case_prod_beta)
  moreover have "mh_store h' = snd acc" "load_version (mh_versions h') = load_version (mh_versions h) + of_nat (length ?in)"
    using acc(2) by (auto simp: h'_def bump_load_def Let_def word_gt_0)
  moreover have "map_of (rev ?in) x = None" if "b_region x \<noteq> region" for x
    using that by (auto simp: map_of_eq_None_iff)
  ultimately show ?thesis using acc(3) by (auto simp: overwrites_def)
qed

definition demo_metrics :: backend_metrics where
  "demo_metrics = \<lparr>active_requests = 2, queue_depth = 0, active_decode_blocks = 5, active_prefill_tokens = 0,
     kv_used_blocks = 10, kv_total_blocks = 100, gpu_utilization = Fin (1 / 2), gpu_memory_used_mb = 1,
     gpu_memory_total_mb = 2, bm_latency = \<lparr>p50_ms = Fin 1, p99_ms = Fin 2, p999_ms = Fin 3, sample_count = 4\<rparr>,
     bm_timestamp = 7\<rparr>"

definition eu_b :: backend_id where
  "eu_b = BackendId (RegionId ''eu'') (BackendInstanceId ''b'')"

definition demo_source :: meta_handler where
  "demo_source = meta_handler_new (the (store_load_update eu_b demo_metrics
     (register_backend (sample_backend eu_b (RegionId ''eu'')) store_new)))"

lemma demo_source_simps:
  "ms_backends (mh_store demo_source) = [(eu_b, sample_backend eu_b (RegionId ''eu''))]"
  "load_get eu_b (ms_load (mh_store demo_source)) = Some demo_metrics"
  "load_state_entries (mh_store demo_source) = [(''eu/b'', demo_metrics)]"
  "store_ok (mh_store demo_source)"
proof -
  let ?s = "register_backend (sample_backend eu_b (RegionId ''eu'')) store_new"
  have "load_ok (ms_load ?s)"
    by (simp add: register_backend_def store_new_def load_new_def load_ok_def)
  then obtain s where s: "store_load_update eu_b demo_metrics ?s = Some s" "overwrites [(eu_b, demo_metrics)] ?s s"
    using store_load_update_overwrites unfolding returns_def by blast
  then have src: "mh_store demo_source = s" by (simp add: demo_source_def meta_handler_new_def)
  have "store_ok ?s"
    by (rule store_ok_register[OF store_ok_new]) (simp add: backend_get_def store_new_def)
  then show "store_ok (mh_store demo_source)" using s(2) by (auto simp: src overwrites_def store_ok_def)
  show b: "ms_backends (mh_store demo_source) = [(eu_b, sample_backend eu_b (RegionId ''eu''))]"
    using s(2) by (auto simp: src overwrites_def register_backend_def store_new_def sample_backend_def)
  show l: "load_get eu_b (ms_load (mh_store demo_source)) = Some demo_metrics"
    using s(2) by (simp add: src overwrites_def)
  show "load_state_entries (mh_store demo_source) = [(''eu/b'', demo_metrics)]"
    using l by (simp add: load_state_entries_def backends_all_def b sample_backend_def map_filter_simps)
      (simp add: eu_b_def backend_display_def)
qed

theorem load_sync_transfers_witness:
  "\<exists>b'. apply_sync_response (demo_serde [(''eu/b'', demo_metrics)])
      (handle_sync_request (demo_serde [(''eu/b'', demo_metrics)]) [LOAD_STATE] demo_source) (meta_handler_new store_new) = Some b' \<and>
    load_get eu_b (ms_load (mh_store b')) = Some demo_metrics"
proof -
  let ?sd = "demo_serde [(''eu/b'', demo_metrics)]"
  have get: "backend_get x (mh_store demo_source) = (if x = eu_b then Some (sample_backend eu_b (RegionId ''eu'')) else None)" for x
    by (simp add: backend_get_def demo_source_simps)
  have "backend_parse (backend_display eu_b) = Some eu_b"
    by (simp add: backend_parse_eq_Some_iff eu_b_def)
  then have "\<forall>x info. backend_get x (mh_store demo_source) = Some info \<longrightarrow> backend_parse (backend_display x) = Some x"
    by (auto simp: get split: if_splits)
  from load_sync_transfers[OF demo_source_simps(4) handler_ok_new this, of ?sd] obtain b' where
    "apply_sync_response ?sd (handle_sync_request ?sd [LOAD_STATE] demo_source) (meta_handler_new store_new) = Some b'"
    "load_get eu_b (ms_load (mh_store b')) = Some demo_metrics"
    by (auto simp: demo_source_simps demo_serde_def get)
  then show ?thesis by blast
qed

theorem metrics_region_guard_witness:
  "\<exists>h'. handle_metrics_broadcast (demo_serde [(''eu/b'', demo_metrics), (''us/c'', demo_metrics)]) (RegionId ''eu'')
      \<lparr>lp_v = 1, lp_data = ''AA''\<rparr> (meta_handler_new store_new) = Some h' \<and>
    load_get eu_b (ms_load (mh_store h')) = Some demo_metrics \<and> load_version (mh_versions h') = 1"
proof -
  have "parsed [(''eu/b'', demo_metrics), (''us/c'', demo_metrics)] =
      [(eu_b, demo_metrics), (BackendId (RegionId ''us'') (BackendInstanceId ''c''), demo_metrics)]"
    by (simp add: parsed_def map_filter_simps backend_parse_def find_char_def eu_b_def)
  then show ?thesis
    using metrics_region_guard[OF handler_ok_new, of "demo_serde [(''eu/b'', demo_metrics), (''us/c'', demo_metrics)]"
        "\<lparr>lp_v = 1, lp_data = ''AA''\<rparr>" "[(''eu/b'', demo_metrics), (''us/c'', demo_metrics)]" "RegionId ''eu''"]
    by (auto simp: demo_serde_def decode_payload_def VERSION_FULL_def eu_b_def meta_handler_new_def versions_new_def)
qed

end
