(* ===== verification/Replica.thy ===== *)
theory Replica
  imports Consumer
begin

text \<open>
  The cross-region replica: a producer, the snapshots and deltas it has published but that have not
  arrived yet, and the lane of a consumer. The replica invariant says that the lane, once the
  messages in flight are applied, agrees with the producer on every bucket that is not dirty. It is
  the reason why publishing only dirty buckets is enough, and it fails for \<open>Reset\<close>.
\<close>

section \<open>The link between a producer and a lane\<close>

datatype ckf_message = Snap ckf_snapshot | Delta ckf_delta

definition receive :: "nat \<Rightarrow> ckf_message \<Rightarrow> ckf_consumer \<Rightarrow> ckf_consumer option" where
  "receive lane m c = (case m of Snap s \<Rightarrow> install_snapshot lane s c | Delta d \<Rightarrow> apply_delta lane d c)"

record link =
  lk_producer :: ckf_producer
  lk_flight :: "ckf_message list"
  lk_consumer :: ckf_consumer

text \<open>
  The steps of a link with one lane: the producer takes an event of a backend of its fleet, it
  publishes a delta (the relay's \<open>flush\<close>) or a barrier snapshot, and the oldest message in flight
  reaches the consumer.
\<close>

inductive link_step :: "xxh3 \<Rightarrow> backend_id set \<Rightarrow> nat \<Rightarrow> link \<Rightarrow> link \<Rightarrow> bool"
  for xxh fleet lane where
  ls_event: "w \<in> fleet \<Longrightarrow> \<not> is_reset ev \<Longrightarrow>
     link_step xxh fleet lane l (l\<lparr>lk_producer := prod_apply_event xxh ev w (lk_producer l)\<rparr>)"
| ls_delta: "delta (lk_producer l) = (Some d, p) \<Longrightarrow>
     link_step xxh fleet lane l (l\<lparr>lk_producer := p, lk_flight := lk_flight l @ [Delta d]\<rparr>)"
| ls_barrier: "snapshot (lk_producer l) = (s, p) \<Longrightarrow>
     link_step xxh fleet lane l (l\<lparr>lk_producer := p, lk_flight := lk_flight l @ [Snap s]\<rparr>)"
| ls_deliver: "lk_flight l = m # ms \<Longrightarrow> receive lane m (lk_consumer l) = Some c \<Longrightarrow>
     link_step xxh fleet lane l (l\<lparr>lk_flight := ms, lk_consumer := c\<rparr>)"

inductive_cases link_stepE: "link_step xxh fleet lane l l'"

definition link_start :: "u64 \<Rightarrow> ckf_consumer \<Rightarrow> link" where
  "link_start seed c = \<lparr>lk_producer = producer_with_seed seed, lk_flight = [], lk_consumer = c\<rparr>"

definition lane_view :: "nat \<Rightarrow> ckf_consumer \<Rightarrow> u64 \<Rightarrow> packed" where
  "lane_view lane c i = c_buckets c i lane"

fun view_after :: "ckf_message list \<Rightarrow> (u64 \<Rightarrow> packed) \<Rightarrow> u64 \<Rightarrow> packed" where
  "view_after [] B = B"
| "view_after (Snap s # ms) B = view_after ms (\<lambda>i. if unat i < length (snap_buckets s) then snap_buckets s ! unat i else B i)"
| "view_after (Delta d # ms) B =
     view_after ms (overlay (delta_buckets d) B)"

definition message_ok :: "ckf_message \<Rightarrow> bool" where
  "message_ok m = (case m of Snap s \<Rightarrow> length (snap_buckets s) = BUCKETS_PER_LANE
     | Delta d \<Rightarrow> distinct (map fst (delta_buckets d)))"

definition replica_inv :: "xxh3 \<Rightarrow> backend_id set \<Rightarrow> nat \<Rightarrow> link \<Rightarrow> bool" where
  "replica_inv xxh fleet lane l \<longleftrightarrow>
     producer_ok fleet (lk_producer l) \<and> never_over xxh (lk_producer l) \<and> (\<forall>m\<in>set (lk_flight l). message_ok m) \<and>
     (\<forall>i. in_lane i \<longrightarrow> i \<notin> set (dirty_buckets (lk_producer l)) \<longrightarrow>
       view_after (lk_flight l) (lane_view lane (lk_consumer l)) i = buckets (lk_producer l) i)"

section \<open>The invariant is preserved\<close>

lemma view_after_append: "view_after (ms @ ms') B = view_after ms' (view_after ms B)"
  by (induction ms B rule: view_after.induct) simp_all



lemma view_after_cong: "B i = B' i \<Longrightarrow> view_after ms B i = view_after ms B' i"
proof (induction ms arbitrary: B B')
  case Nil
  then show ?case by simp
next
  case (Cons m ms)
  show ?case
  proof (cases m)
    case (Snap s)
    then show ?thesis using Cons.prems by (simp, intro Cons.IH) simp
  next
    case (Delta d)
    then show ?thesis using Cons.prems by (simp, intro Cons.IH) (simp add: overlay_def split: option.splits)
  qed
qed

lemma receive_view:
  assumes "lane < LANE_COUNT" "message_ok m"
  obtains c' where "receive lane m c = Some c'"
    "lane_view lane c' = view_after [m] (lane_view lane c)"
    "c_lane_regions c' = c_lane_regions c"
    "c_lane_status c lane = LANE_ACTIVE \<Longrightarrow> c_lane_status c' lane = LANE_ACTIVE"
proof (cases m)
  case (Snap s)
  then show ?thesis
    using that install_snapshot_result[OF assms(1), of s c] assms(2)
    by (fastforce simp: message_ok_def receive_def lane_view_def fun_eq_iff)
next
  case (Delta d)
  obtain c' where c': "store_dirty lane (delta_buckets d) c = Some c'"
    "\<forall>i l. c_buckets c' i l =
      (if l = lane then overlay (delta_buckets d) (\<lambda>i. c_buckets c i lane) i else c_buckets c i l)"
    "c_lane_regions c' = c_lane_regions c" "c_lane_status c' = c_lane_status c"
    using store_dirty_result[OF assms(1), of "delta_buckets d" c] assms(2)
    by (auto simp: message_ok_def Delta)
  show ?thesis
    by (rule that[of c'])
      (use c' in \<open>simp_all add: Delta receive_def apply_delta_def lane_view_def [abs_def] fun_eq_iff\<close>)
qed

lemma delta_Some:
  assumes "delta p = (Some d, p')"
  shows "dirty_buckets p \<noteq> []" "buckets p' = buckets p" "dirty_buckets p' = []"
    "hash_refcount p' = hash_refcount p" "worker_hashes p' = worker_hashes p"
    "delta_buckets d = map (\<lambda>i. (i, buckets p i)) (sort (dirty_buckets p))"
    "delta_prev_sequence d = pub_seq p" "delta_sequence d = pub_seq p + 1" "pub_seq p' = pub_seq p + 1"
  using assms by (auto simp: delta_def Let_def split: if_splits)

lemma snapshot_parts:
  assumes "snapshot p = (s, p')"
  shows "buckets p' = buckets p" "dirty_buckets p' = []"
    "hash_refcount p' = hash_refcount p" "worker_hashes p' = worker_hashes p"
    "snap_buckets s = map (\<lambda>i. buckets p (of_nat i)) [0..<BUCKETS_PER_LANE]"
    "snap_sequence s = pub_seq p + 1" "pub_seq p' = pub_seq p + 1"
  using assms by (auto simp: snapshot_def Let_def)

lemma overlay_dirty:
  assumes "distinct D"
  shows "overlay (map (\<lambda>i. (i, B i)) (sort D)) C i = (if i \<in> set D \<and> in_lane i then B i else C i)"
proof -
  have "map_of (map (\<lambda>i. (i, B i)) (sort D)) i = (if i \<in> set D then Some (B i) else None)"
    by (simp add: map_of_map_restrict restrict_map_def)
  then show ?thesis by (simp add: overlay_def)
qed

lemma producer_ok_published:
  assumes "producer_ok fleet p" "dirty_buckets p' = []" "hash_refcount p' = hash_refcount p"
    "worker_hashes p' = worker_hashes p"
  shows "producer_ok fleet p'"
  using assms tables_ok_cong[of p' p fleet "hashes_of p'"]
  by (simp add: producer_ok_def dirty_ok_def) (simp add: hashes_of_def [abs_def])

lemma op_effectD:
  assumes "op_effect xxh p q"
  shows "i \<notin> set (dirty_buckets q) \<Longrightarrow> i \<notin> set (dirty_buckets p)"
    and "i \<notin> set (dirty_buckets q) \<Longrightarrow> buckets q i = buckets p i"
    and "never_over xxh p \<Longrightarrow> never_over xxh q"
  using assms by (auto simp: op_effect_def)

lemma never_over_cong:
  "buckets q = buckets p \<Longrightarrow> hash_refcount q = hash_refcount p \<Longrightarrow> never_over xxh q = never_over xxh p"
  using tcount_cong[of q p xxh] by (simp add: never_over_def)

lemma replica_inv_start: "replica_inv xxh fleet lane (link_start seed c) \<longleftrightarrow>
    (\<forall>i. in_lane i \<longrightarrow> c_buckets c i lane = 0)"
  using producer_ok_new[of fleet seed] exact_never_over[OF exact_new, of xxh seed]
  by (simp add: replica_inv_def link_start_def lane_view_def) (simp add: producer_with_seed_def)

lemma replica_inv_step:
  assumes step: "link_step xxh fleet lane l l'" and inv: "replica_inv xxh fleet lane l"
    and fl: "finite fleet" "card fleet < 2 ^ 32" and lane: "lane < LANE_COUNT"
  shows "replica_inv xxh fleet lane l'"
  using step
proof (cases rule: link_step.cases)
  case (ls_event w ev)
  have "op_effect xxh (lk_producer l) (prod_apply_event xxh ev w (lk_producer l))"
    "producer_ok fleet (prod_apply_event xxh ev w (lk_producer l))"
    using prod_apply_event_step[of fleet "lk_producer l" w] ls_event inv fl
    by (auto simp: replica_inv_def)
  then show ?thesis using inv ls_event(1) op_effectD by (fastforce simp: replica_inv_def)
next
  case (ls_delta d p)
  note D = delta_Some[OF ls_delta(2)]
  have dist: "distinct (dirty_buckets (lk_producer l))"
    using inv by (simp add: replica_inv_def producer_ok_def dirty_ok_def)
  have "producer_ok fleet p" using producer_ok_published[OF _ D(3-5)] inv by (simp add: replica_inv_def)
  moreover have "message_ok (Delta d)"
    using dist by (simp add: message_ok_def D(6) comp_def)
  moreover have "never_over xxh p"
    using inv never_over_cong[OF D(2,4)] by (simp add: replica_inv_def)
  ultimately show ?thesis
    using inv ls_delta(1) dist by (auto simp: replica_inv_def view_after_append D overlay_dirty)
next
  case (ls_barrier s p)
  note S = snapshot_parts[OF ls_barrier(2)]
  have "producer_ok fleet p" using producer_ok_published[OF _ S(2-4)] inv by (simp add: replica_inv_def)
  moreover have "message_ok (Snap s)" by (simp add: message_ok_def S(5))
  moreover have "never_over xxh p"
    using inv never_over_cong[OF S(1,3)] by (simp add: replica_inv_def)
  ultimately show ?thesis
    using inv ls_barrier(1) by (auto simp: replica_inv_def view_after_append S in_lane_def)
next
  case (ls_deliver m ms c)
  have m: "message_ok m" using inv ls_deliver by (simp add: replica_inv_def)
  have "lane_view lane c = view_after [m] (lane_view lane (lk_consumer l))"
    using receive_view[OF lane m] ls_deliver(3) by (metis option.inject)
  then show ?thesis
    using inv ls_deliver(1,2) view_after_append[of "[m]" ms] by (simp add: replica_inv_def)
qed

lemma replica_inv_steps:
  assumes "(link_step xxh fleet lane)\<^sup>*\<^sup>* l l'" "replica_inv xxh fleet lane l"
    "finite fleet" "card fleet < 2 ^ 32" "lane < LANE_COUNT"
  shows "replica_inv xxh fleet lane l'"
  using assms by (induction rule: rtranclp_induct) (auto intro: replica_inv_step)

section \<open>Convergence and progress\<close>

text \<open>A settled link has nothing in flight and no dirty bucket.\<close>

definition settled :: "link \<Rightarrow> bool" where
  "settled l \<longleftrightarrow> lk_flight l = [] \<and> dirty_buckets (lk_producer l) = []"

lemma settled_view:
  assumes "replica_inv xxh fleet lane l" "settled l" "in_lane i"
  shows "c_buckets (lk_consumer l) i lane = buckets (lk_producer l) i"
  using assms by (simp add: replica_inv_def settled_def lane_view_def)

text \<open>The steps by which a link empties itself: publishing a delta, and delivering.\<close>

inductive drain_step :: "nat \<Rightarrow> link \<Rightarrow> link \<Rightarrow> bool" for lane where
  drain_publish: "delta (lk_producer l) = (Some d, p) \<Longrightarrow>
     drain_step lane l (l\<lparr>lk_producer := p, lk_flight := lk_flight l @ [Delta d]\<rparr>)"
| drain_deliver: "lk_flight l = m # ms \<Longrightarrow> receive lane m (lk_consumer l) = Some c \<Longrightarrow>
     drain_step lane l (l\<lparr>lk_flight := ms, lk_consumer := c\<rparr>)"

lemma drain_is_link: "drain_step lane l l' \<Longrightarrow> link_step xxh fleet lane l l'"
  by (induction rule: drain_step.induct) (auto intro: ls_delta ls_deliver)

text \<open>What remains to be done: it goes down with every step.\<close>

definition backlog :: "link \<Rightarrow> nat" where
  "backlog l = length (lk_flight l) + (if dirty_buckets (lk_producer l) = [] then 0 else 2)"

lemma drain_backlog: "drain_step lane l l' \<Longrightarrow> backlog l' < backlog l \<and> buckets (lk_producer l') = buckets (lk_producer l)"
  by (induction rule: drain_step.induct) (auto simp: backlog_def delta_def Let_def split: if_splits)

lemma drain_run:
  assumes "(drain_step lane ^^ n) l l'"
  shows "n + backlog l' \<le> backlog l \<and> buckets (lk_producer l') = buckets (lk_producer l) \<and> (link_step xxh fleet lane)\<^sup>*\<^sup>* l l'"
  using assms
proof (induction n arbitrary: l')
  case (Suc n)
  then obtain k where "(drain_step lane ^^ n) l k" "drain_step lane k l'" by auto
  then show ?case
    using Suc.IH drain_backlog drain_is_link [of lane k l' xxh fleet] by (fastforce intro: rtranclp.rtrancl_into_rtrancl)
qed simp

text \<open>As long as the link is not settled, one of the steps is possible: no message is refused.\<close>

lemma never_refused:
  assumes "replica_inv xxh fleet lane l" "lane < LANE_COUNT" "lk_flight l = m # ms"
  shows "\<exists>c. receive lane m (lk_consumer l) = Some c"
proof -
  have "message_ok m" using assms(1,3) by (simp add: replica_inv_def)
  then show ?thesis using receive_view[OF assms(2)] by metis
qed

lemma drain_stuck:
  assumes "replica_inv xxh fleet lane l" "lane < LANE_COUNT"
  shows "(\<exists>l'. drain_step lane l l') \<longleftrightarrow> \<not> settled l"
proof
  show "\<not> settled l" if "\<exists>l'. drain_step lane l l'"
    using that drain_backlog by (fastforce simp: settled_def backlog_def)
  assume open_link: "\<not> settled l"
  show "\<exists>l'. drain_step lane l l'"
  proof (cases "lk_flight l")
    case Nil
    then obtain d p where "delta (lk_producer l) = (Some d, p)"
      using open_link by (auto simp: settled_def delta_def Let_def)
    then show ?thesis by (blast intro: drain_publish)
  next
    case (Cons m ms)
    then show ?thesis using never_refused[OF assms] by (blast intro: drain_deliver)
  qed
qed

lemma drains:
  assumes "replica_inv xxh fleet lane l" "finite fleet" "card fleet < 2 ^ 32" "lane < LANE_COUNT"
  shows "\<exists>l'. (drain_step lane)\<^sup>*\<^sup>* l l' \<and> settled l'"
  using assms(1)
proof (induction "backlog l" arbitrary: l rule: less_induct)
  case less
  show ?case
  proof (cases "settled l")
    case False
    then obtain k where k: "drain_step lane l k" using drain_stuck[OF less.prems assms(4)] by blast
    then have "replica_inv xxh fleet lane k"
      using replica_inv_step[OF drain_is_link less.prems assms(2-4)] by blast
    then show ?thesis using less.hyps k drain_backlog[OF k] by (meson converse_rtranclp_into_rtranclp)
  qed auto
qed

definition empty_lane :: "nat \<Rightarrow> ckf_consumer \<Rightarrow> bool" where
  "empty_lane lane c \<longleftrightarrow> (\<forall>i. in_lane i \<longrightarrow> c_buckets c i lane = 0)"

lemma empty_lane_new: "empty_lane lane consumer_new"
  by (simp add: empty_lane_def consumer_new_def)

definition bound_consumer :: ckf_consumer where
  "bound_consumer = the (activate_lane 0 (consumer_assign_lane 0 (RegionId ''eu'') consumer_new))"

lemma bound_consumer_simps:
  "c_buckets bound_consumer = (\<lambda>_ _. 0)" "c_lane_status bound_consumer 0 = LANE_ACTIVE"
  "consumer_lane_of bound_consumer (RegionId ''eu'') = Some 0"
  by (simp_all add: bound_consumer_def activate_lane_def set_lane_status_def LANE_COUNT_def
      consumer_assign_lane_def consumer_new_def consumer_lane_of_def)

text \<open>A run: one stored block, its delta published and delivered.\<close>

definition stored_producer :: "u64 \<Rightarrow> ckf_producer" where
  "stored_producer seed = prod_apply_event (\<lambda>_ s. s) (Stored w0 [7] None []) b0 (producer_with_seed seed)"

lemma stored_producer_simps:
  "buckets (stored_producer seed) = (\<lambda>_. 0)(0 := with_slot 0 0 1)" "dirty_buckets (stored_producer seed) = [0]"
  "owners_of (stored_producer seed) 7 = {b0}"
proof -
  have "probe (\<lambda>_ s. s) 7 = (1, 0)" by (simp add: probe_def)
  then show "buckets (stored_producer seed) = (\<lambda>_. 0)(0 := with_slot 0 0 1)" "dirty_buckets (stored_producer seed) = [0]"
    "owners_of (stored_producer seed) 7 = {b0}"
    by (simp_all add: stored_producer_def prod_apply_stored_def entry_or_default_def add_owner_def
        insert_fingerprint_empty incr_items_def mark_dirty_def set_bucket_def producer_with_seed_def
        hs_insert_def Let_def owners_of_def)
qed

definition delivered_link :: link where
  "delivered_link = \<lparr>lk_producer = snd (delta (stored_producer 1)), lk_flight = [],
     lk_consumer = the (apply_delta 0 (the (fst (delta (stored_producer 1)))) bound_consumer)\<rparr>"

lemma delivered_consumer:
  "lk_consumer delivered_link = bound_consumer\<lparr>c_buckets := (\<lambda>_ _. 0)(0 := (\<lambda>_. 0)(0 := with_slot 0 0 1))\<rparr>"
  by (simp add: delivered_link_def delta_def Let_def stored_producer_simps apply_delta_def store_bucket_def
      in_lane_def BUCKETS_PER_LANE_def LANE_COUNT_def bound_consumer_simps)

lemma delivered_link_reach:
  "(link_step (\<lambda>_ s. s) {b0} 0)\<^sup>*\<^sup>* (link_start 1 bound_consumer) delivered_link" "settled delivered_link"
proof -
  let ?R = "link_step (\<lambda>_ s. s) {b0} 0"
  define l1 where "l1 = (link_start 1 bound_consumer)\<lparr>lk_producer := (stored_producer 1)\<rparr>"
  obtain d p where d: "delta (stored_producer 1) = (Some d, p)" by (simp add: delta_def Let_def stored_producer_simps)
  define l2 where "l2 = l1\<lparr>lk_producer := p, lk_flight := [Delta d]\<rparr>"
  have "?R (link_start 1 bound_consumer) l1"
    using ls_event[of b0 "{b0}" "Stored w0 [7] None []" "\<lambda>_ s. s" 0 "link_start 1 bound_consumer"]
    by (simp add: l1_def link_start_def stored_producer_def)
  moreover have "?R l1 l2"
    using ls_delta[of l1 d p] d by (simp add: l1_def l2_def link_start_def)
  moreover have "apply_delta 0 d bound_consumer = Some (lk_consumer delivered_link)"
    using d by (auto simp: delivered_consumer delta_def Let_def stored_producer_simps apply_delta_def store_bucket_def
      in_lane_def BUCKETS_PER_LANE_def LANE_COUNT_def bound_consumer_simps)
  then have "?R l2 delivered_link"
    using ls_deliver[of l2 "Delta d" "[]" 0] d
    by (simp add: l2_def l1_def link_start_def receive_def delivered_link_def)
  ultimately show "?R\<^sup>*\<^sup>* (link_start 1 bound_consumer) delivered_link" by (meson rtranclp.rtrancl_into_rtrancl rtranclp.rtrancl_refl)
  show "settled delivered_link" by (simp add: settled_def delivered_link_def d delta_Some(3)[OF d])
qed

section \<open>Properties of the replica\<close>

text \<open>C4. Replica convergence: start from an empty lane and let events, deltas and barrier snapshots be
  published in any interleaving, with the messages delivered in the order they were sent. Whenever
  nothing is in flight and no bucket is dirty, the lane of the consumer equals the producer's
  buckets. (Events other than \<open>Reset\<close>.)\<close>

theorem replica_convergence:
  assumes "finite fleet" "card fleet < 2 ^ 32" "lane < LANE_COUNT" "empty_lane lane c"
    and "(link_step xxh fleet lane)\<^sup>*\<^sup>* (link_start seed c) l" "settled l" "in_lane i"
  shows "c_buckets (lk_consumer l) i lane = buckets (lk_producer l) i"
proof -
  have "replica_inv xxh fleet lane (link_start seed c)"
    using assms(4) by (simp add: replica_inv_start empty_lane_def)
  then show ?thesis
    using replica_inv_steps[OF assms(5) _ assms(1-3)] settled_view assms(6,7) by blast
qed

theorem replica_convergence_witness:
  "c_buckets (lk_consumer delivered_link) 0 0 = buckets (lk_producer delivered_link) 0 \<and>
    buckets (lk_producer delivered_link) 0 = with_slot 0 0 1"
proof -
  have "buckets (lk_producer delivered_link) 0 = with_slot 0 0 1"
    by (simp add: delivered_link_def delta_def Let_def stored_producer_simps)
  then show ?thesis
    using replica_convergence[OF _ _ _ _ delivered_link_reach, of 0]
    by (simp add: LANE_COUNT_def empty_lane_def bound_consumer_simps in_lane_def BUCKETS_PER_LANE_def)
qed

text \<open>C27. Progress by publishing deltas and delivering alone, in any order: in a reachable link no message in flight is refused; a run of
  such steps is no longer than the messages in flight and two more, it can go on exactly as long as the link is not settled, and once it is
  settled the lane of the consumer equals the buckets that the producer had at the start of the run. So from every
  reachable link a settled one is reached.\<close>

theorem replica_progress:
  assumes "finite fleet" "card fleet < 2 ^ 32" "lane < LANE_COUNT" "empty_lane lane c"
    and "(link_step xxh fleet lane)\<^sup>*\<^sup>* (link_start seed c) l"
  shows "(\<forall>m ms. lk_flight l = m # ms \<longrightarrow> receive lane m (lk_consumer l) \<noteq> None) \<and>
    (\<forall>n l'. (drain_step lane ^^ n) l l' \<longrightarrow> n \<le> length (lk_flight l) + 2 \<and> ((\<exists>l''. drain_step lane l' l'') \<longleftrightarrow> \<not> settled l') \<and>
       (settled l' \<longrightarrow> (\<forall>i. in_lane i \<longrightarrow> c_buckets (lk_consumer l') i lane = buckets (lk_producer l) i))) \<and>
    (\<exists>l'. (drain_step lane)\<^sup>*\<^sup>* l l' \<and> settled l')"
proof -
  have "replica_inv xxh fleet lane (link_start seed c)"
    using assms(4) by (simp add: replica_inv_start empty_lane_def)
  then have inv: "replica_inv xxh fleet lane l" by (rule replica_inv_steps[OF assms(5) _ assms(1-3)])
  have "n \<le> length (lk_flight l) + 2 \<and> ((\<exists>l''. drain_step lane l' l'') \<longleftrightarrow> \<not> settled l') \<and>
      (settled l' \<longrightarrow> (\<forall>i. in_lane i \<longrightarrow> c_buckets (lk_consumer l') i lane = buckets (lk_producer l) i))"
    if run: "(drain_step lane ^^ n) l l'" for n l'
  proof -
    note r = drain_run[OF run, of xxh fleet]
    have inv': "replica_inv xxh fleet lane l'" using r replica_inv_steps[OF _ inv assms(1-3)] by blast
    have "n \<le> length (lk_flight l) + 2" using r by (auto simp: backlog_def split: if_splits)
    then show ?thesis using r drain_stuck[OF inv' assms(3)] settled_view[OF inv'] by auto
  qed
  then show ?thesis using never_refused[OF inv assms(3)] drains[OF inv assms(1-3)] by fast
qed

theorem replica_progress_witness:
  "\<exists>l'. (drain_step 0)\<^sup>*\<^sup>* ((link_start 1 bound_consumer)\<lparr>lk_producer := (stored_producer 1)\<rparr>) l' \<and>
    settled l' \<and> c_buckets (lk_consumer l') 0 0 = with_slot 0 0 1"
proof -
  let ?l = "(link_start 1 bound_consumer)\<lparr>lk_producer := (stored_producer 1)\<rparr>"
  have start: "(link_step (\<lambda>_ s. s) {b0} 0)\<^sup>*\<^sup>* (link_start 1 bound_consumer) ?l"
    using ls_event[of b0 "{b0}" "Stored w0 [7] None []" "\<lambda>_ s. s" 0 "link_start 1 bound_consumer"]
    by (auto simp: link_start_def stored_producer_def)
  have lane: "in_lane 0" "empty_lane 0 bound_consumer"
    by (simp_all add: in_lane_def BUCKETS_PER_LANE_def empty_lane_def bound_consumer_simps)
  have "(0 :: nat) < LANE_COUNT" by (simp add: LANE_COUNT_def)
  note progress = replica_progress[OF _ _ this lane(2) start]
  then obtain l' where l': "(drain_step 0)\<^sup>*\<^sup>* ?l l'" "settled l'" by auto
  then obtain n where "(drain_step 0 ^^ n) ?l l'" by (metis rtranclp_imp_relpowp)
  then have "c_buckets (lk_consumer l') 0 0 = buckets (lk_producer ?l) 0" using progress l'(2) lane(1) by auto
  then show ?thesis using l' by (auto simp: stored_producer_simps)
qed

text \<open>C28. Remote overlap is sound: on a settled link the consumer's answer for an active lane bound to
  the region never exceeds the request, and every block it counts has the address of a block that
  some backend of the region owns.\<close>

theorem remote_overlap_sound:
  assumes "finite fleet" "card fleet < 2 ^ 32" "lane < LANE_COUNT" "empty_lane lane c"
    and "(link_step xxh fleet lane)\<^sup>*\<^sup>* (link_start seed c) l" "settled l"
    and "consumer_lane_of (lk_consumer l) region = Some lane" "length hashes < 2 ^ 32"
    and "consumer_estimate_overlap xxh hashes region (lk_consumer l) = Some n"
  shows "unat n \<le> length hashes \<and>
    (\<forall>k < unat n. \<exists>h'. owners_of (lk_producer l) h' \<noteq> {} \<and> same_address xxh h' (hashes ! k))"
proof -
  let ?c = "lk_consumer l" and ?p = "lk_producer l"
  have "replica_inv xxh fleet lane (link_start seed c)"
    using assms(4) by (simp add: replica_inv_start empty_lane_def)
  then have inv: "replica_inv xxh fleet lane l" by (rule replica_inv_steps[OF assms(5) _ assms(1-3)])
  then have ok: "producer_ok fleet ?p" and never: "never_over xxh ?p" by (simp_all add: replica_inv_def)
  have hit: "\<exists>h'. owners_of ?p h' \<noteq> {} \<and> same_address xxh h' h" if "consumer_hit xxh ?c lane h" for h
  proof -
    have "bucket_contains (buckets ?p (snd (probe xxh h))) (fst (probe xxh h))"
      using that settled_view[OF inv assms(6) probe_in_lane[of xxh h]]
      by (simp add: consumer_hit_def case_prod_beta)
    then have "lane_contains xxh (buckets ?p) h" by (simp add: lane_contains_def case_prod_beta)
    then show ?thesis using never_over_lookup[OF never] is_tracked_iff_owned[OF ok] by blast
  qed
  show ?thesis
  proof (cases "c_lane_status ?c lane = LANE_ACTIVE")
    case True
    then have n: "n = overlap_loop (consumer_hit xxh ?c lane) hashes 0"
      using assms(3,7,9) by (simp add: consumer_estimate_overlap_def)
    have le: "unat n \<le> length hashes" unfolding n by (rule remote_lane.query_le[OF assms(8)])
    moreover have "consumer_hit xxh ?c lane (hashes ! k)" if "k < unat n" for k
    proof -
      have "consumer_hit xxh ?c lane (last (take (Suc k) hashes))"
        using remote_lane.query_present[OF assms(8), of "Suc k" xxh ?c lane] that by (simp add: n)
      moreover have "last (take (Suc k) hashes) = hashes ! k"
        using that le by (simp add: take_Suc_conv_app_nth)
      ultimately show ?thesis by simp
    qed
    ultimately show ?thesis using hit by blast
  next
    case False
    then have "n = 0" using assms(3,7,9) by (simp add: consumer_estimate_overlap_def)
    then show ?thesis by simp
  qed
qed

theorem remote_overlap_sound_witness:
  "consumer_estimate_overlap (\<lambda>_ s. s) [7] (RegionId ''eu'') (lk_consumer delivered_link) = Some 1 \<and>
   (\<exists>h'. owners_of (lk_producer delivered_link) h' \<noteq> {} \<and> same_address (\<lambda>_ s. s) h' 7)"
proof -
  have lane: "consumer_lane_of (lk_consumer delivered_link) (RegionId ''eu'') = Some 0"
    using bound_consumer_simps(3) by (simp add: delivered_consumer consumer_lane_of_def)
  have "bucket_contains (with_slot 0 0 1) 1"
    by (auto simp: bucket_contains_iff slot_with_slot FP_PER_BUCKET_def intro!: exI[of _ 0])
  then have n: "consumer_estimate_overlap (\<lambda>_ s. s) [7] (RegionId ''eu'') (lk_consumer delivered_link) = Some 1"
    by (simp add: consumer_estimate_overlap_def lane) (simp add: delivered_consumer bound_consumer_simps
        LANE_COUNT_def consumer_hit_def probe_def)
  then show ?thesis
    using remote_overlap_sound[OF _ _ _ _ delivered_link_reach lane _ n]
    by (simp add: LANE_COUNT_def empty_lane_def bound_consumer_simps)
qed

text \<open>\<open>Reset\<close> is not published: when a replica agrees with the producer and some bucket is not
  empty, then after a \<open>Reset\<close> event the next flush has no delta to send, so the lane of the consumer
  keeps the cleared fingerprints; a barrier snapshot is what realigns it.\<close>

theorem reset_not_published:
  assumes "\<forall>i. in_lane i \<longrightarrow> c_buckets c i lane = buckets p i" "in_lane i" "buckets p i \<noteq> 0"
    and "lane < LANE_COUNT"
  shows "fst (delta (prod_apply_event xxh (Reset w g) b p)) = None \<and>
    c_buckets c i lane \<noteq> buckets (prod_apply_event xxh (Reset w g) b p) i \<and>
    (\<exists>c'. install_snapshot lane (fst (snapshot (prod_apply_event xxh (Reset w g) b p))) c = Some c' \<and>
      c_buckets c' i lane = buckets (prod_apply_event xxh (Reset w g) b p) i)"
proof (intro conjI)
  let ?q = "prod_apply_event xxh (Reset w g) b p"
  show "fst (delta ?q) = None" by (simp add: delta_def reset_internal_def)
  show "c_buckets c i lane \<noteq> buckets ?q i" using assms by (simp add: reset_internal_def)
  have S: "snap_buckets (fst (snapshot ?q)) = map (\<lambda>i. buckets ?q (of_nat i)) [0..<BUCKETS_PER_LANE]"
    by (rule snapshot_parts(5)[OF prod.collapse[symmetric]])
  then show "\<exists>c'. install_snapshot lane (fst (snapshot ?q)) c = Some c' \<and>
      c_buckets c' i lane = buckets ?q i"
    using install_snapshot_result[OF assms(4), of "fst (snapshot ?q)" c] assms(2)
    by (auto simp: in_lane_def)
qed

definition stale_producer :: ckf_producer where
  "stale_producer = (producer_with_seed 1)\<lparr>buckets := (\<lambda>_. 0)(3 := 5)\<rparr>"

definition stale_consumer :: ckf_consumer where
  "stale_consumer = bound_consumer\<lparr>c_buckets := (\<lambda>_ _. 0)(3 := (\<lambda>_. 5))\<rparr>"

theorem reset_not_published_witness:
  "fst (delta (prod_apply_event (\<lambda>_ s. s) (Reset w0 2) b0 stale_producer)) = None \<and>
    c_buckets stale_consumer 3 0 \<noteq> buckets (prod_apply_event (\<lambda>_ s. s) (Reset w0 2) b0 stale_producer) 3"
  using reset_not_published[of stale_consumer 0 stale_producer 3]
  by (simp add: stale_consumer_def stale_producer_def in_lane_def BUCKETS_PER_LANE_def LANE_COUNT_def)

text \<open>The query misses blocks that insertion placed in their alternate bucket: when the primary
  bucket is full of other fingerprints and the alternate one has room, inserting the block succeeds
  and the lane holds it, but every replica of the lane answers that it is absent, because the query
  loop probes the primary bucket only.\<close>

theorem primary_probe_misses:
  assumes "probe xxh h = (f, a)" "\<forall>k<FP_PER_BUCKET. slot (buckets p a) k \<notin> {0, f}"
    and "first_empty (buckets p (alt_index xxh a f)) = Some k"
    and "\<forall>i. c_buckets c i lane = buckets (snd (insert_fingerprint xxh h p)) i"
  shows "fst (insert_fingerprint xxh h p) \<and>
    lane_contains xxh (buckets (snd (insert_fingerprint xxh h p))) h \<and>
    \<not> consumer_hit xxh c lane h"
proof -
  have ne: "alt_index xxh a f \<noteq> a" using cuckoo.alt_neq probe_in_lane[of xxh h] assms(1) by simp
  have full: "first_empty (buckets p a) = None"
    using assms(2) by (auto simp: first_empty_def find_None_iff)
  have k: "k < FP_PER_BUCKET" using assms(3) by (auto simp: first_empty_def find_Some_iff)
  have ins: "insert_fingerprint xxh h p = (True, incr_items (mark_dirty (alt_index xxh a f)
      (set_bucket (alt_index xxh a f) (with_slot (buckets p (alt_index xxh a f)) k f) p)))"
    using assms(1,3) full by (simp add: insert_fingerprint_def try_insert_def Let_def)
  have "bucket_contains (with_slot (buckets p (alt_index xxh a f)) k f) f"
    using k by (auto simp: bucket_contains_iff slot_with_slot)
  moreover have "\<not> bucket_contains (buckets p a) f" using assms(2) by (auto simp: bucket_contains_iff)
  ultimately show ?thesis
    using assms(1,4) ne by (simp add: ins lane_contains_def consumer_hit_def)
qed

definition full_primary :: ckf_producer where
  "full_primary = (producer_with_seed 1)\<lparr>buckets := (\<lambda>_. 0)(0 := 0x0009000700050003)\<rparr>"

definition mirror :: "ckf_producer \<Rightarrow> ckf_consumer" where
  "mirror p = bound_consumer\<lparr>c_buckets := (\<lambda>i _. buckets p i)\<rparr>"

theorem primary_probe_misses_witness:
  "\<not> consumer_hit (\<lambda>_ s. s) (mirror (snd (insert_fingerprint (\<lambda>_ s. s) 7 full_primary))) 0 7"
proof -
  have "probe (\<lambda>_ s. s) 7 = (1, 0)" by (simp add: probe_def)
  moreover have "alt_index (\<lambda>_ s. s) 0 1 \<noteq> 0"
    using cuckoo.alt_neq[of 0 "\<lambda>_ s. s" 1] by (simp add: in_lane_def BUCKETS_PER_LANE_def)
  then have "buckets full_primary (alt_index (\<lambda>_ s. s) 0 1) = 0" by (simp add: full_primary_def)
  then have "first_empty (buckets full_primary (alt_index (\<lambda>_ s. s) 0 1)) = Some 0"
    by (simp add: first_empty_def FP_PER_BUCKET_def upt_rec)
  moreover have "\<forall>k\<in>set [0..<FP_PER_BUCKET]. slot (buckets full_primary 0) k \<notin> {0, 1}"
    by (simp add: FP_PER_BUCKET_def FINGERPRINT_BITS_def full_primary_def slot_def upt_rec)
  then have "\<forall>k<FP_PER_BUCKET. slot (buckets full_primary 0) k \<notin> {0, 1}" by simp
  ultimately show ?thesis
    using primary_probe_misses[of "\<lambda>_ s. s" 7 1 0 full_primary 0 "mirror (snd (insert_fingerprint (\<lambda>_ s. s) 7 full_primary))" 0]
    by (simp add: mirror_def)
qed

end
