(* ===== verification/Relay.thy ===== *)
theory Relay
  imports Bridge Replica
begin

text \<open>
  The KV relay, \<open>crates/hier-kv-gateway-cluster/src/ckf_relay.rs\<close>: one producer per pool, published as
  deltas when enough events are pending or the timer fires, and as barrier snapshots on demand. What a
  call hands to the transport is returned as a list of messages to broadcast.
\<close>

section \<open>State and operations\<close>

definition DEFAULT_PUBLICATION_THRESHOLD :: nat where
  "DEFAULT_PUBLICATION_THRESHOLD = 16"

definition DEFAULT_PUBLICATION_DELAY_MS :: u64 where
  "DEFAULT_PUBLICATION_DELAY_MS = 1"

record kv_relay =
  kr_self_region :: region_id
  kr_producers :: "(pool_id \<times> ckf_producer) list"
  kr_threshold :: nat
  kr_delay_ms :: u64
  kr_pending :: nat
  kr_running :: bool
  kr_timers :: nat

definition relay_with_params :: "region_id \<Rightarrow> nat \<Rightarrow> u64 \<Rightarrow> kv_relay" where
  "relay_with_params r threshold delay =
     \<lparr>kr_self_region = r, kr_producers = [], kr_threshold = threshold, kr_delay_ms = delay, kr_pending = 0,
      kr_running = False, kr_timers = 0\<rparr>"

definition relay_new :: "region_id \<Rightarrow> kv_relay" where
  "relay_new r = relay_with_params r DEFAULT_PUBLICATION_THRESHOLD DEFAULT_PUBLICATION_DELAY_MS"

text \<open>The producer of a pool; \<open>or_default\<close> creates it at the pool's first event.\<close>

definition pool_producer :: "pool_id \<Rightarrow> kv_relay \<Rightarrow> ckf_producer" where
  "pool_producer pool r = (case map_of (kr_producers r) pool of None \<Rightarrow> producer_new | Some p \<Rightarrow> p)"

definition flush_pool :: "pool_id \<Rightarrow> cluster_message list \<times> (pool_id \<times> ckf_producer) list
    \<Rightarrow> cluster_message list \<times> (pool_id \<times> ckf_producer) list" where
  "flush_pool pool acc =
     (case map_of (snd acc) pool of
        None \<Rightarrow> acc
      | Some p \<Rightarrow>
          (case delta p of
             (None, p') \<Rightarrow> (fst acc, AList.update pool p' (snd acc))
           | (Some d, p') \<Rightarrow>
               (fst acc @ [CkfDeltaMsg pool (delta_sequence d) (delta_prev_sequence d) (delta_buckets d)],
                AList.update pool p' (snd acc))))"

definition relay_flush :: "kv_relay \<Rightarrow> cluster_message list \<times> kv_relay" where
  "relay_flush r =
     (let r1 = r\<lparr>kr_pending := 0\<rparr>;
          pools = map fst (kr_producers r1);
          (msgs, ps) = fold flush_pool pools ([], kr_producers r1)
      in (msgs, r1\<lparr>kr_producers := ps\<rparr>))"

definition relay_apply_event :: "xxh3 \<Rightarrow> pool_id \<Rightarrow> kv_cache_event \<Rightarrow> backend_id \<Rightarrow> kv_relay \<Rightarrow> cluster_message list \<times> kv_relay" where
  "relay_apply_event xxh pool ev b r =
     (let r1 = r\<lparr>kr_producers := AList.update pool (prod_apply_event xxh ev b (pool_producer pool r)) (kr_producers r)\<rparr>;
          new_pending = kr_pending r1 + 1;
          r2 = r1\<lparr>kr_pending := new_pending\<rparr>
      in if new_pending \<ge> kr_threshold r2 then relay_flush r2 else ([], r2))"

definition publish_barrier :: "pool_id \<Rightarrow> kv_relay \<Rightarrow> cluster_message list \<times> kv_relay" where
  "publish_barrier pool r =
     (case map_of (kr_producers r) pool of
        None \<Rightarrow> ([], r)
      | Some p \<Rightarrow>
          (let (s, p') = snapshot p
           in ([CkfBarrierSnapshot pool (snap_sequence s) (snap_buckets s) BUCKETS_PER_LANE],
               r\<lparr>kr_producers := AList.update pool p' (kr_producers r)\<rparr>)))"

text \<open>
  \<open>start\<close> on a relay that is not running spawns a background task; \<open>kr_timers\<close> counts the tasks that live. A task
  reads the running flag, waits for its interval and publishes. \<open>relay_tick\<close> is the end of the wait of one task,
  what it publishes, and its next look at the flag: so the tick under way at a stop still publishes, a task ends
  after the stop, and a relay started again before that has two.
\<close>

definition relay_start :: "kv_relay \<Rightarrow> kv_relay" where
  "relay_start r = (if kr_running r then r else r\<lparr>kr_running := True, kr_timers := kr_timers r + 1\<rparr>)"

definition relay_tick :: "kv_relay \<Rightarrow> cluster_message list \<times> kv_relay" where
  "relay_tick r =
     (if kr_timers r = 0 then ([], r)
      else let (msgs, r1) = (if kr_pending r > 0 then relay_flush r else ([], r))
           in (msgs, if kr_running r1 then r1 else r1\<lparr>kr_timers := kr_timers r1 - 1\<rparr>))"

definition relay_stop :: "kv_relay \<Rightarrow> kv_relay" where
  "relay_stop r = r\<lparr>kr_running := False\<rparr>"

definition relay_pending_count :: "kv_relay \<Rightarrow> nat" where
  "relay_pending_count r = kr_pending r"

definition relay_pool_count :: "kv_relay \<Rightarrow> nat" where
  "relay_pool_count r = length (kr_producers r)"

definition producer_snapshot :: "pool_id \<Rightarrow> kv_relay \<Rightarrow> u64 option" where
  "producer_snapshot pool r = map_option num_items (map_of (kr_producers r) pool)"

section \<open>Publication\<close>

definition pool_messages :: "pool_id \<Rightarrow> ckf_producer \<Rightarrow> cluster_message list" where
  "pool_messages pool p =
     (case fst (delta p) of
        None \<Rightarrow> []
      | Some d \<Rightarrow> [CkfDeltaMsg pool (delta_sequence d) (delta_prev_sequence d) (delta_buckets d)])"

lemma flush_pool_at:
  assumes "map_of (snd acc) pool = Some p"
  shows "flush_pool pool acc = (fst acc @ pool_messages pool p, AList.update pool (snd (delta p)) (snd acc))"
  using assms by (simp add: flush_pool_def pool_messages_def split: prod.splits option.splits)

lemma flush_pools:
  assumes "distinct pools" "set pools \<subseteq> dom (map_of (snd acc))"
  shows "fst (fold flush_pool pools acc) = fst acc @ concat (map (\<lambda>q. pool_messages q (the (map_of (snd acc) q))) pools) \<and>
    map_of (snd (fold flush_pool pools acc)) q =
      (if q \<in> set pools then map_option (snd \<circ> delta) (map_of (snd acc) q) else map_of (snd acc) q)"
  using assms
proof (induction pools arbitrary: acc)
  case Nil
  then show ?case by simp
next
  case (Cons a pools)
  then obtain p where p: "map_of (snd acc) a = Some p" by auto
  let ?acc = "flush_pool a acc"
  have acc: "fst ?acc = fst acc @ pool_messages a p" "map_of (snd ?acc) = (map_of (snd acc))(a \<mapsto> snd (delta p))"
    by (simp_all add: flush_pool_at[OF p])
  have "concat (map (\<lambda>q. pool_messages q (the (map_of (snd ?acc) q))) pools) =
      concat (map (\<lambda>q. pool_messages q (the (map_of (snd acc) q))) pools)"
    using Cons.prems(1) by (intro arg_cong[where f = concat] map_cong) (auto simp: acc(2))
  moreover have dom: "set pools \<subseteq> dom (map_of (snd ?acc))" using Cons.prems(2) by (auto simp: acc(2))
  have "distinct pools" "a \<notin> set pools" using Cons.prems(1) by auto
  moreover note Cons.IH[OF \<open>distinct pools\<close> dom]
  ultimately show ?case using p acc by auto
qed

lemma flush_keys: "keys_distinct (snd acc) \<Longrightarrow> keys_distinct (snd (fold flush_pool pools acc))"
proof (induction pools arbitrary: acc)
  case (Cons a pools)
  have "keys_distinct (snd (flush_pool a acc))"
    using Cons.prems by (simp add: flush_pool_def split: option.splits prod.splits)
  then show ?case using Cons.IH by simp
qed simp

lemma relay_flush_spec:
  assumes "keys_distinct (kr_producers r)"
  shows "kr_pending (snd (relay_flush r)) = 0" "kr_threshold (snd (relay_flush r)) = kr_threshold r"
    "kr_running (snd (relay_flush r)) = kr_running r" "kr_timers (snd (relay_flush r)) = kr_timers r" "keys_distinct (kr_producers (snd (relay_flush r)))"
    "map_of (kr_producers (snd (relay_flush r))) q = map_option (snd \<circ> delta) (map_of (kr_producers r) q)"
    "fst (relay_flush r) = concat (map (\<lambda>q. pool_messages q (the (map_of (kr_producers r) q))) (map fst (kr_producers r)))"
  using flush_pools[of "map fst (kr_producers r)" "([], kr_producers r)" q]
    flush_keys[of "([], kr_producers r)" "map fst (kr_producers r)"] assms map_of_eq_None_iff[of "kr_producers r" q]
  by (auto simp: relay_flush_def Let_def case_prod_beta dom_map_of_conv_image_fst)

lemma delta_clean: "dirty_buckets (snd (delta p)) = []"
  by (simp add: delta_def Let_def)

section \<open>The relay invariant\<close>

text \<open>Nothing pending means nothing unpublished; this is why the timer may skip an idle relay.\<close>

definition relay_clean :: "kv_relay \<Rightarrow> bool" where
  "relay_clean r \<longleftrightarrow> (\<forall>pool p. map_of (kr_producers r) pool = Some p \<longrightarrow> dirty_buckets p = [])"

definition relay_inv :: "kv_relay \<Rightarrow> bool" where
  "relay_inv r \<longleftrightarrow> keys_distinct (kr_producers r) \<and> (kr_pending r = 0 \<longrightarrow> relay_clean r) \<and>
     kr_pending r < max 1 (kr_threshold r) \<and> (kr_running r \<longrightarrow> 0 < kr_timers r)"

datatype relay_op = RelayEvent pool_id kv_cache_event backend_id | RelayTick | RelayFlush | RelayBarrier pool_id
  | RelayStart | RelayStop

fun relay_step :: "xxh3 \<Rightarrow> relay_op \<Rightarrow> kv_relay \<Rightarrow> cluster_message list \<times> kv_relay" where
  "relay_step xxh (RelayEvent pool ev b) r = relay_apply_event xxh pool ev b r"
| "relay_step xxh RelayTick r = relay_tick r"
| "relay_step xxh RelayFlush r = relay_flush r"
| "relay_step xxh (RelayBarrier pool) r = publish_barrier pool r"
| "relay_step xxh RelayStart r = ([], relay_start r)"
| "relay_step xxh RelayStop r = ([], relay_stop r)"

definition relay_run :: "xxh3 \<Rightarrow> relay_op list \<Rightarrow> kv_relay \<Rightarrow> kv_relay" where
  "relay_run xxh ops r = fold (\<lambda>op r. snd (relay_step xxh op r)) ops r"

lemma flush_clean: "keys_distinct (kr_producers r) \<Longrightarrow> relay_clean (snd (relay_flush r))"
  by (auto simp: relay_clean_def relay_flush_spec(6) delta_clean)

text \<open>A tick is a flush or nothing, up to the end of a task of a stopped relay.\<close>

lemma relay_tick_cases:
  assumes "keys_distinct (kr_producers r)"
  obtains n where "relay_tick r = (if 0 < kr_timers r \<and> 0 < kr_pending r
      then (fst (relay_flush r), snd (relay_flush r)\<lparr>kr_timers := n\<rparr>) else ([], r\<lparr>kr_timers := n\<rparr>))"
    "kr_running r \<longrightarrow> n = kr_timers r"
proof (rule that)
  let ?n = "if kr_running r then kr_timers r else kr_timers r - 1"
  have "kr_running (snd (relay_flush r)) = kr_running r" "kr_timers (snd (relay_flush r)) = kr_timers r"
    using relay_flush_spec[OF assms] by simp_all
  then show "relay_tick r = (if 0 < kr_timers r \<and> 0 < kr_pending r
      then (fst (relay_flush r), snd (relay_flush r)\<lparr>kr_timers := ?n\<rparr>) else ([], r\<lparr>kr_timers := ?n\<rparr>))"
    by (simp add: relay_tick_def case_prod_beta)
qed simp

lemma flush_inv: "keys_distinct (kr_producers r) \<Longrightarrow> (kr_running r \<longrightarrow> 0 < kr_timers r) \<Longrightarrow> relay_inv (snd (relay_flush r))"
  by (simp add: relay_inv_def flush_clean relay_flush_spec)

lemma relay_inv_step: "relay_inv r \<Longrightarrow> relay_inv (snd (relay_step xxh op r))"
proof (cases op)
  case (RelayEvent pool ev b)
  assume r: "relay_inv r"
  define r2 where "r2 = r\<lparr>kr_producers := AList.update pool (prod_apply_event xxh ev b (pool_producer pool r)) (kr_producers r),
    kr_pending := kr_pending r + 1\<rparr>"
  have "keys_distinct (kr_producers r2)" using r by (simp add: r2_def relay_inv_def)
  moreover have "snd (relay_step xxh op r) = (if kr_pending r + 1 \<ge> kr_threshold r then snd (relay_flush r2) else r2)"
    by (simp add: RelayEvent relay_apply_event_def r2_def Let_def)
  moreover have "kr_running r2 \<longrightarrow> 0 < kr_timers r2" using r by (simp add: r2_def relay_inv_def)
  ultimately show ?thesis using r flush_inv[of r2] by (auto simp: relay_inv_def r2_def)
next
  case (RelayBarrier pool)
  assume "relay_inv r"
  then show ?thesis
    by (auto simp: RelayBarrier publish_barrier_def relay_inv_def relay_clean_def snapshot_def Let_def
        simp del: map_of_eq_Some_iff split: option.splits if_splits)
next
  case RelayTick
  assume r: "relay_inv r"
  then have kd: "keys_distinct (kr_producers r)" by (simp add: relay_inv_def)
  obtain n where n: "relay_tick r = (if 0 < kr_timers r \<and> 0 < kr_pending r
      then (fst (relay_flush r), snd (relay_flush r)\<lparr>kr_timers := n\<rparr>) else ([], r\<lparr>kr_timers := n\<rparr>))"
    "kr_running r \<longrightarrow> n = kr_timers r" by (rule relay_tick_cases[OF kd])
  have "relay_inv (x\<lparr>kr_timers := n\<rparr>)" if "relay_inv x" "kr_running x = kr_running r" for x
    using that r n(2) by (auto simp: relay_inv_def relay_clean_def)
  then show ?thesis
    using r flush_inv[OF kd] relay_flush_spec(3)[OF kd] by (simp add: RelayTick n(1) relay_inv_def[of r])
next
  case RelayFlush
  assume "relay_inv r"
  then show ?thesis using flush_inv[of r] by (simp add: RelayFlush) (simp add: relay_inv_def)
qed (auto simp: relay_inv_def relay_start_def relay_stop_def relay_clean_def)

lemma tick_publishes:
  assumes "relay_inv r" "kr_running r"
  shows "kr_pending (snd (relay_tick r)) = 0" "relay_clean (snd (relay_tick r))"
proof -
  have kd: "keys_distinct (kr_producers r)" using assms(1) by (simp add: relay_inv_def)
  have "kr_timers r > 0" using assms by (simp add: relay_inv_def)
  then show "kr_pending (snd (relay_tick r)) = 0"
    using relay_flush_spec(1)[OF kd] by (cases rule: relay_tick_cases[OF kd]) (simp split: if_splits)
  then show "relay_clean (snd (relay_tick r))"
    using relay_inv_step[OF assms(1), of _ RelayTick] by (simp add: relay_inv_def)
qed

lemma relay_inv_new: "relay_inv (relay_with_params rg t d)"
  by (simp add: relay_inv_def relay_with_params_def relay_clean_def)

lemma relay_inv_run: "relay_inv r \<Longrightarrow> relay_inv (relay_run xxh ops r)"
  by (induction ops arbitrary: r) (simp_all add: relay_run_def relay_inv_step)

lemma relay_threshold_run: "kr_threshold (relay_run xxh ops r) = kr_threshold r"
proof (induction ops arbitrary: r)
  case (Cons op ops)
  have "kr_threshold (snd (relay_step xxh op r)) = kr_threshold r"
    by (cases op) (auto simp: relay_apply_event_def relay_tick_def publish_barrier_def relay_start_def relay_stop_def
        relay_flush_def Let_def case_prod_beta split: option.splits)
  then show ?case using Cons.IH by (simp add: relay_run_def)
qed (simp add: relay_run_def)

text \<open>Publication: whatever events, ticks, flushes and barriers a relay has gone through, fewer events
  are pending than the threshold, and when none is pending no bucket of any pool is unpublished, so
  the timer that skips an idle relay skips nothing; a flush leaves nothing pending and
  sends, per pool with unpublished buckets, exactly one delta with exactly those buckets.\<close>

theorem relay_pending:
  assumes "r = relay_run xxh ops (relay_with_params rg t d)"
  shows "kr_pending r < max 1 t \<and>
    (kr_pending r = 0 \<longrightarrow> (\<forall>pool p. map_of (kr_producers r) pool = Some p \<longrightarrow> dirty_buckets p = [])) \<and>
    (\<forall>pool p. map_of (kr_producers (snd (relay_flush r))) pool = Some p \<longrightarrow> dirty_buckets p = []) \<and>
    set (fst (relay_flush r)) =
      {CkfDeltaMsg pool (pub_seq p + 1) (pub_seq p) (map (\<lambda>i. (i, buckets p i)) (sort (dirty_buckets p))) |pool p.
         map_of (kr_producers r) pool = Some p \<and> dirty_buckets p \<noteq> []} \<and>
    length (fst (relay_flush r)) = length (filter (\<lambda>(pool, p). dirty_buckets p \<noteq> []) (kr_producers r))"
proof -
  have inv: "relay_inv r" using relay_inv_run[OF relay_inv_new] assms by simp
  then have kd: "keys_distinct (kr_producers r)" by (simp add: relay_inv_def)
  have thr: "kr_threshold r = t" by (simp add: assms relay_threshold_run relay_with_params_def)
  have one: "pool_messages pool p = (if dirty_buckets p = [] then []
      else [CkfDeltaMsg pool (pub_seq p + 1) (pub_seq p) (map (\<lambda>i. (i, buckets p i)) (sort (dirty_buckets p)))])" for pool p
    by (simp add: pool_messages_def delta_def Let_def)
  have fl: "fst (relay_flush r) = concat (map (\<lambda>(pool, p). pool_messages pool p) (kr_producers r))"
    unfolding relay_flush_spec(7)[OF kd] map_map
    by (intro arg_cong[where f = concat] map_cong) (use kd in auto)
  have "set (fst (relay_flush r)) = (\<Union>(pool, p)\<in>set (kr_producers r). set (pool_messages pool p))"
    unfolding fl by auto
  then have "set (fst (relay_flush r)) =
      {CkfDeltaMsg pool (pub_seq p + 1) (pub_seq p) (map (\<lambda>i. (i, buckets p i)) (sort (dirty_buckets p))) |pool p.
         map_of (kr_producers r) pool = Some p \<and> dirty_buckets p \<noteq> []}"
    using kd by (auto simp: one split: if_splits)
  moreover have "length (concat (map (\<lambda>(pool, p). pool_messages pool p) ps)) = length (filter (\<lambda>(pool, p). dirty_buckets p \<noteq> []) ps)" for ps
    by (induction ps) (auto simp: one)
  ultimately show ?thesis
    using inv thr flush_clean[OF kd] by (simp add: fl relay_inv_def relay_clean_def)
qed

definition demo_pool :: pool_id where
  "demo_pool = PoolId (IndexerDomainId 1) (RegionId ''eu'')"

theorem relay_pending_witness:
  "kr_pending (relay_run (\<lambda>_ s. s) [RelayEvent demo_pool (Stored w0 [7] None []) b0] (relay_with_params (RegionId ''eu'') 16 1)) < 16"
  using relay_pending[OF refl, of "\<lambda>_ s. s" "[RelayEvent demo_pool (Stored w0 [7] None []) b0]" "RegionId ''eu''" 16 1]
  by simp

section \<open>Two gateways\<close>

text \<open>
  A relay in one region, the messages it has broadcast and that have not arrived, and the engine of a
  gateway in another region with its handler. The relay serves one pool; the transport keeps the order.
\<close>

record mesh =
  mx_relay :: kv_relay
  mx_flight :: "cluster_message list"
  mx_peer :: "meta_handler engine"

inductive mesh_step :: "xxh3 \<Rightarrow> serde \<Rightarrow> backend_id set \<Rightarrow> pool_id \<Rightarrow> mesh \<Rightarrow> mesh \<Rightarrow> bool"
  for xxh sd fleet pool where
  mesh_event: "w \<in> fleet \<Longrightarrow> \<not> is_reset ev \<Longrightarrow> relay_apply_event xxh pool ev w (mx_relay m) = (ms, r) \<Longrightarrow>
     mesh_step xxh sd fleet pool m (m\<lparr>mx_relay := r, mx_flight := mx_flight m @ ms\<rparr>)"
| mesh_tick: "relay_tick (mx_relay m) = (ms, r) \<Longrightarrow>
     mesh_step xxh sd fleet pool m (m\<lparr>mx_relay := r, mx_flight := mx_flight m @ ms\<rparr>)"
| mesh_barrier: "publish_barrier pool (mx_relay m) = (ms, r) \<Longrightarrow>
     mesh_step xxh sd fleet pool m (m\<lparr>mx_relay := r, mx_flight := mx_flight m @ ms\<rparr>)"
| mesh_timer: "r = relay_start (mx_relay m) \<or> r = relay_stop (mx_relay m) \<Longrightarrow> mesh_step xxh sd fleet pool m (m\<lparr>mx_relay := r\<rparr>)"
| mesh_deliver: "mx_flight m = msg # ms \<Longrightarrow> message_turn (meta_gossip_handler sd) now msg (mx_peer m) = Some (cmds, e) \<Longrightarrow>
     mesh_step xxh sd fleet pool m (m\<lparr>mx_flight := ms, mx_peer := e\<rparr>)"

fun ckf_content :: "cluster_message \<Rightarrow> ckf_message" where
  "ckf_content (CkfBarrierSnapshot _ sq bs _) = Snap \<lparr>snap_sequence = sq, snap_buckets = bs\<rparr>"
| "ckf_content (CkfDeltaMsg _ sq prev ds) = Delta \<lparr>delta_sequence = sq, delta_prev_sequence = prev, delta_buckets = ds\<rparr>"
| "ckf_content _ = undefined"

fun of_pool :: "pool_id \<Rightarrow> cluster_message \<Rightarrow> bool" where
  "of_pool pool (CkfBarrierSnapshot q _ bs n) = (q = pool \<and> length bs = n)"
| "of_pool pool (CkfDeltaMsg q _ _ _) = (q = pool)"
| "of_pool pool _ = False"

definition peer_consumer :: "mesh \<Rightarrow> ckf_consumer" where
  "peer_consumer m = handler_consumer (ge_handler (mx_peer m))"

definition mesh_link :: "pool_id \<Rightarrow> mesh \<Rightarrow> link" where
  "mesh_link pool m = \<lparr>lk_producer = pool_producer pool (mx_relay m),
     lk_flight = map ckf_content (mx_flight m), lk_consumer = peer_consumer m\<rparr>"

definition mesh_inv :: "pool_id \<Rightarrow> nat \<Rightarrow> mesh \<Rightarrow> bool" where
  "mesh_inv pool lane m \<longleftrightarrow> relay_inv (mx_relay m) \<and> fst ` set (kr_producers (mx_relay m)) \<subseteq> {pool} \<and>
     (\<forall>msg\<in>set (mx_flight m). of_pool pool msg) \<and> ge_running (mx_peer m) \<and>
     consumer_lane_of (peer_consumer m) (pool_region pool) = Some lane"

lemma receive_regions:
  assumes "receive lane msg c = Some c'" "lane < LANE_COUNT"
  shows "c_lane_regions c' = c_lane_regions c"
proof (cases msg)
  case (Snap s)
  have "length (snap_buckets s) \<le> BUCKETS_PER_LANE"
    using assms Snap install_snapshot_None[OF assms(2), of s c] by (auto simp: receive_def)
  then show ?thesis using assms(1) install_snapshot_result[OF assms(2), of s c] by (auto simp: Snap receive_def)
next
  case (Delta d)
  then show ?thesis
    using assms(1) store_dirty_returns[OF assms(2), of "delta_buckets d" c] by (auto simp: receive_def apply_delta_def returns_def)
qed

lemma deliver_receives:
  assumes "of_pool pool msg" "ge_running e" "consumer_lane_of (handler_consumer (ge_handler e)) (pool_region pool) = Some lane"
    and "message_turn (meta_gossip_handler sd) now msg e = Some (cmds, e')"
  shows "receive lane (ckf_content msg) (handler_consumer (ge_handler e)) = Some (handler_consumer (ge_handler e'))"
    "ge_running e'"
  using assms
  by (cases msg; auto simp: message_turn_def with_handler_def meta_gossip_handler_def handle_ckf_delta_def
      handle_ckf_barrier_snapshot_def receive_def)+

lemma single_pool: "fst ` set ps \<subseteq> {pool} \<Longrightarrow> keys_distinct ps \<Longrightarrow> ps = [] \<or> (\<exists>p. ps = [(pool, p)])"
  by (cases ps; cases "tl ps") auto

text \<open>A flush, an event and a barrier of the relay are steps of the link.\<close>

lemma flush_link:
  assumes "keys_distinct (kr_producers r)" "fst ` set (kr_producers r) \<subseteq> {pool}" "relay_flush r = (ms, r')"
  shows "(link_step xxh fleet lane)\<^sup>*\<^sup>*
      \<lparr>lk_producer = pool_producer pool r, lk_flight = F, lk_consumer = c\<rparr>
      \<lparr>lk_producer = pool_producer pool r', lk_flight = F @ map ckf_content ms, lk_consumer = c\<rparr>"
    "\<forall>msg\<in>set ms. of_pool pool msg" "fst ` set (kr_producers r') \<subseteq> {pool}"
proof -
  let ?l = "\<lparr>lk_producer = pool_producer pool r, lk_flight = F, lk_consumer = c\<rparr>"
  consider "kr_producers r = []" | p where "kr_producers r = [(pool, p)]"
    using single_pool[OF assms(2,1)] by blast
  then have "(link_step xxh fleet lane)\<^sup>*\<^sup>* ?l \<lparr>lk_producer = pool_producer pool r', lk_flight = F @ map ckf_content ms, lk_consumer = c\<rparr> \<and>
    (\<forall>msg\<in>set ms. of_pool pool msg) \<and> fst ` set (kr_producers r') \<subseteq> {pool}"
  proof cases
    case 1
    then show ?thesis using assms(3) by (auto simp: relay_flush_def pool_producer_def)
  next
    case (2 p)
    have fl: "ms = pool_messages pool p" "kr_producers r' = [(pool, snd (delta p))]"
      using assms(3) 2 by (auto simp: relay_flush_def flush_pool_at)
    show ?thesis
    proof (cases "fst (delta p)")
      case None
      then have "snd (delta p) = p" by (auto simp: delta_def Let_def split: if_splits)
      then show ?thesis using None 2 by (simp add: fl pool_messages_def pool_producer_def)
    next
      case (Some d)
      then have d: "delta p = (Some d, snd (delta p))" by (metis prod.collapse)
      have pr: "pool_producer pool r = p" "pool_producer pool r' = snd (delta p)" by (simp_all add: 2 fl pool_producer_def)
      then have "link_step xxh fleet lane ?l (?l\<lparr>lk_producer := snd (delta p), lk_flight := F @ [Delta d]\<rparr>)"
        using ls_delta[of ?l d "snd (delta p)" xxh fleet lane] d by simp
      moreover have "ckf_content (CkfDeltaMsg pool (delta_sequence d) (delta_prev_sequence d) (delta_buckets d)) = Delta d"
        by simp
      ultimately show ?thesis by (simp add: fl pool_messages_def Some pr r_into_rtranclp del: ckf_content.simps)
    qed
  qed
  then show "(link_step xxh fleet lane)\<^sup>*\<^sup>* ?l \<lparr>lk_producer = pool_producer pool r', lk_flight = F @ map ckf_content ms, lk_consumer = c\<rparr>"
    "\<forall>msg\<in>set ms. of_pool pool msg" "fst ` set (kr_producers r') \<subseteq> {pool}" by blast+
qed

lemma relay_simulates:
  assumes inv: "mesh_inv pool lane m" and op: "op = RelayTick \<or> op = RelayBarrier pool \<or>
      (\<exists>w ev. op = RelayEvent pool ev w \<and> w \<in> fleet \<and> \<not> is_reset ev)"
    and step: "relay_step xxh op (mx_relay m) = (ms, r)"
  defines "m' \<equiv> m\<lparr>mx_relay := r, mx_flight := mx_flight m @ ms\<rparr>"
  shows "(link_step xxh fleet lane)\<^sup>*\<^sup>* (mesh_link pool m) (mesh_link pool m') \<and> mesh_inv pool lane m'"
proof -
  let ?r = "mx_relay m" and ?R = "link_step xxh fleet lane"
  let ?F = "map ckf_content (mx_flight m)" and ?c = "peer_consumer m"
  have keys: "keys_distinct (kr_producers ?r)" "fst ` set (kr_producers ?r) \<subseteq> {pool}"
    using inv by (simp_all add: mesh_inv_def relay_inv_def)
  have r: "relay_inv r" using relay_inv_step[of ?r xxh op] inv step by (simp add: mesh_inv_def)
  let ?goal = "?R\<^sup>*\<^sup>* (mesh_link pool m) \<lparr>lk_producer = pool_producer pool r, lk_flight = ?F @ map ckf_content ms, lk_consumer = ?c\<rparr> \<and>
      (\<forall>msg\<in>set ms. of_pool pool msg) \<and> fst ` set (kr_producers r) \<subseteq> {pool}"
  from op have goal: ?goal
  proof (elim disjE exE conjE)
    assume "op = RelayTick"
    then show ?goal
      using step
    proof (cases rule: relay_tick_cases[OF keys(1)])
      case (1 n)
      show ?thesis
      proof (cases "0 < kr_timers ?r \<and> 0 < kr_pending ?r")
        case True
        then have "ms = fst (relay_flush ?r)" "r = snd (relay_flush ?r)\<lparr>kr_timers := n\<rparr>"
          using 1 step \<open>op = RelayTick\<close> by simp_all
        then show ?thesis
          using flush_link(1)[OF keys prod.collapse[symmetric], where xxh = xxh and fleet = fleet and lane = lane and F = ?F and c = ?c]
            flush_link(2,3)[OF keys prod.collapse[symmetric]]
          by (simp add: mesh_link_def pool_producer_def)
      next
        case False
        then have "ms = []" "r = ?r\<lparr>kr_timers := n\<rparr>"
          using 1 step \<open>op = RelayTick\<close> by (simp_all split: if_splits)
        then show ?thesis using keys(2) by (simp add: mesh_link_def pool_producer_def)
      qed
    qed
  next
    assume op: "op = RelayBarrier pool"
    have "fst ` set (AList.update pool v (kr_producers ?r)) \<subseteq> {pool}" for v
      using keys(2) by (simp add: dom_update)
    then have "(a, b) \<in> set (AList.update pool v (kr_producers ?r)) \<Longrightarrow> a = pool" for a b v
      by (metis fst_conv imageI singletonD subsetD)
    then show ?goal
      using op step keys(2) ls_barrier[of "mesh_link pool m" _ _ xxh fleet lane]
      by (simp add: publish_barrier_def mesh_link_def pool_producer_def snapshot_def Let_def split: option.splits)
        (auto intro: r_into_rtranclp)
  next
    fix w ev
    assume ev: "op = RelayEvent pool ev w" "w \<in> fleet" "\<not> is_reset ev"
    define r2 where "r2 = ?r\<lparr>kr_producers := AList.update pool (prod_apply_event xxh ev w (pool_producer pool ?r)) (kr_producers ?r),
      kr_pending := kr_pending ?r + 1\<rparr>"
    have "keys_distinct (kr_producers r2)" using keys(1) by (simp add: r2_def)
    moreover have "fst ` set (kr_producers r2) \<subseteq> {pool}"
      using keys(2) by (simp add: r2_def dom_update)
    moreover have one: "?R (mesh_link pool m) \<lparr>lk_producer = pool_producer pool r2, lk_flight = ?F, lk_consumer = ?c\<rparr>"
      using ls_event[OF ev(2,3), of xxh lane "mesh_link pool m"] by (simp add: mesh_link_def r2_def pool_producer_def)
    moreover have "(ms, r) = (if kr_pending ?r + 1 \<ge> kr_threshold ?r then relay_flush r2 else ([], r2))"
      using step by (simp add: ev(1) relay_apply_event_def r2_def Let_def split: if_splits)
    ultimately show ?goal
      using flush_link(1)[of r2 pool ms r xxh fleet lane ?F ?c] flush_link(2,3)[of r2 pool ms r]
        converse_rtranclp_into_rtranclp[of ?R]
      by (auto split: if_splits)
  qed
  then show ?thesis
    using inv r by (auto simp: m'_def mesh_inv_def mesh_link_def peer_consumer_def)
qed

lemma mesh_simulates:
  assumes "mesh_step xxh sd fleet pool m m'" "mesh_inv pool lane m" "lane < LANE_COUNT"
  shows "(link_step xxh fleet lane)\<^sup>*\<^sup>* (mesh_link pool m) (mesh_link pool m') \<and> mesh_inv pool lane m'"
  using assms(1)
proof (cases rule: mesh_step.cases)
  case (mesh_event w ev ms r)
  then show ?thesis using relay_simulates[OF assms(2), of "RelayEvent pool ev w" fleet xxh ms r] by simp
next
  case (mesh_tick ms r)
  then show ?thesis using relay_simulates[OF assms(2), of RelayTick fleet xxh ms r] by simp
next
  case (mesh_barrier ms r)
  then show ?thesis using relay_simulates[OF assms(2), of "RelayBarrier pool" fleet xxh ms r] by simp
next
  case (mesh_timer r)
  then have "relay_inv r" "kr_producers r = kr_producers (mx_relay m)"
    using assms(2) relay_inv_step[of "mx_relay m" xxh RelayStart] relay_inv_step[of "mx_relay m" xxh RelayStop]
    by (auto simp: mesh_inv_def relay_start_def relay_stop_def)
  then have "mesh_inv pool lane m'" "mesh_link pool m' = mesh_link pool m"
    using assms(2) mesh_timer(1)
    by (simp_all add: mesh_inv_def mesh_link_def peer_consumer_def pool_producer_def)
  then show ?thesis by simp
next
  case (mesh_deliver msg ms now cmds e)
  have msg: "of_pool pool msg" "ge_running (mx_peer m)"
    "consumer_lane_of (handler_consumer (ge_handler (mx_peer m))) (pool_region pool) = Some lane"
    using assms(2) mesh_deliver(2) by (auto simp: mesh_inv_def peer_consumer_def)
  note rec = deliver_receives[OF msg mesh_deliver(3)]
  have "c_lane_regions (handler_consumer (ge_handler e)) = c_lane_regions (handler_consumer (ge_handler (mx_peer m)))"
    by (rule receive_regions[OF rec(1) assms(3)])
  then have "mesh_inv pool lane m'"
    using assms(2) mesh_deliver rec(2) by (simp add: mesh_inv_def peer_consumer_def consumer_lane_of_def)
  moreover have "link_step xxh fleet lane (mesh_link pool m) (mesh_link pool m')"
    using ls_deliver[of "mesh_link pool m" "ckf_content msg" "map ckf_content ms" lane _ xxh fleet] rec(1) mesh_deliver
    by (simp add: mesh_link_def peer_consumer_def)
  ultimately show ?thesis by blast
qed

section \<open>Regions converge\<close>

definition mesh_start :: "kv_relay \<Rightarrow> meta_handler engine \<Rightarrow> mesh" where
  "mesh_start r e = \<lparr>mx_relay = r, mx_flight = [], mx_peer = e\<rparr>"

lemma mesh_start_inv:
  assumes "ge_running e" "consumer_lane_of (handler_consumer (ge_handler e)) (pool_region pool) = Some lane"
  shows "mesh_inv pool lane (mesh_start (relay_with_params rg t d) e)"
  using assms relay_inv_new by (simp add: mesh_inv_def mesh_start_def peer_consumer_def) (simp add: relay_with_params_def)

lemma mesh_start_link:
  "mesh_link pool (mesh_start (relay_with_params rg t d) e) =
    link_start CKF_PRODUCER_DEFAULT_SEED (handler_consumer (ge_handler e))"
  by (simp add: mesh_link_def mesh_start_def link_start_def relay_with_params_def pool_producer_def producer_new_def peer_consumer_def)

lemma mesh_runs_simulate:
  assumes "(mesh_step xxh sd fleet pool)\<^sup>*\<^sup>* m m'" "mesh_inv pool lane m" "lane < LANE_COUNT"
  shows "(link_step xxh fleet lane)\<^sup>*\<^sup>* (mesh_link pool m) (mesh_link pool m') \<and> mesh_inv pool lane m'"
  using assms by (induction rule: rtranclp_induct) (auto dest: mesh_simulates)

text \<open>C1. Regions converge end to end: a relay feeds on events of its pool, publishes by threshold, timer
  or barrier, is started and stopped at any moment, and a gateway of another region that has a lane for the
  relay's region takes the messages in order through its gossip engine. Whenever no event is pending and no
  message is in flight, the lane of that gateway equals the relay's filter; and while the relay is running, every
  tick of its timer leaves no event pending and no bucket unpublished, so the messages it sends bring the
  gateway to the filter once they have arrived. (Events other than \<open>Reset\<close>, one pool per region.)\<close>

theorem regions_converge:
  assumes "finite fleet" "card fleet < 2 ^ 32" "lane < LANE_COUNT" "ge_running e"
    and "consumer_lane_of (handler_consumer (ge_handler e)) (pool_region pool) = Some lane"
    and "empty_lane lane (handler_consumer (ge_handler e))"
    and "(mesh_step xxh sd fleet pool)\<^sup>*\<^sup>* (mesh_start (relay_with_params rg t d) e) m"
  shows "(kr_pending (mx_relay m) = 0 \<and> mx_flight m = [] \<longrightarrow> (\<forall>i. in_lane i \<longrightarrow>
       c_buckets (handler_consumer (ge_handler (mx_peer m))) i lane = buckets (pool_producer pool (mx_relay m)) i)) \<and>
    (kr_running (mx_relay m) \<longrightarrow> kr_pending (snd (relay_tick (mx_relay m))) = 0 \<and>
       dirty_buckets (pool_producer pool (snd (relay_tick (mx_relay m)))) = [])"
proof -
  have sim: "(link_step xxh fleet lane)\<^sup>*\<^sup>* (link_start CKF_PRODUCER_DEFAULT_SEED (handler_consumer (ge_handler e))) (mesh_link pool m)"
    "mesh_inv pool lane m"
    using mesh_runs_simulate[OF assms(7) mesh_start_inv[OF assms(4,5)] assms(3)] by (simp_all add: mesh_start_link)
  have clean: "dirty_buckets (pool_producer pool r) = []" if "relay_clean r" for r
    using that by (auto simp: pool_producer_def relay_clean_def producer_new_def producer_with_seed_def split: option.splits)
  have inv: "relay_inv (mx_relay m)" using sim(2) by (simp add: mesh_inv_def)
  have rep: "replica_inv xxh fleet lane (mesh_link pool m)"
    using replica_inv_steps[OF sim(1) _ assms(1-3)] assms(6) by (simp add: replica_inv_start empty_lane_def)
  have "settled (mesh_link pool m)" if "kr_pending (mx_relay m) = 0" "mx_flight m = []"
    using inv that clean by (simp add: settled_def mesh_link_def relay_inv_def)
  then show ?thesis
    using settled_view[OF rep] clean tick_publishes[OF inv]
    by (fastforce simp: mesh_link_def peer_consumer_def)
qed

definition eu_peer :: "meta_handler engine" where
  "eu_peer = (engine_new (InstanceId ''p'') (RegionId ''us'') ''p:1''
     (with_consumer (meta_handler_new store_new) bound_consumer))\<lparr>ge_running := True\<rparr>"

lemma eu_peer_simps: "ge_running eu_peer" "handler_consumer (ge_handler eu_peer) = bound_consumer"
  by (simp_all add: eu_peer_def engine_new_def)

theorem regions_converge_witness:
  "\<exists>m. (mesh_step (\<lambda>_ s. s) (demo_serde []) {b0} demo_pool)\<^sup>*\<^sup>* (mesh_start (relay_with_params (RegionId ''eu'') 16 1) eu_peer) m \<and>
     kr_running (mx_relay m) \<and> kr_pending (mx_relay m) = 0 \<and> mx_flight m = [] \<and> buckets (pool_producer demo_pool (mx_relay m)) 0 \<noteq> 0 \<and>
     c_buckets (handler_consumer (ge_handler (mx_peer m))) 0 0 = buckets (pool_producer demo_pool (mx_relay m)) 0"
proof -
  let ?x = "\<lambda>_ s. s :: u64" and ?R = "mesh_step (\<lambda>_ s. s) (demo_serde []) {b0} demo_pool"
  let ?m0 = "mesh_start (relay_with_params (RegionId ''eu'') 16 1) eu_peer"
  let ?p = "stored_producer CKF_PRODUCER_DEFAULT_SEED"
  obtain d p where d: "delta ?p = (Some d, p)" by (simp add: delta_def Let_def stored_producer_simps)
  define msg where "msg = CkfDeltaMsg demo_pool (delta_sequence d) (delta_prev_sequence d) (delta_buckets d)"
  define rs where "rs = relay_start (mx_relay ?m0)"
  define re where "re = rs\<lparr>kr_producers := [(demo_pool, ?p)], kr_pending := 1\<rparr>"
  define r where "r = rs\<lparr>kr_producers := [(demo_pool, p)]\<rparr>"
  note rs_simps = rs_def relay_start_def mesh_start_def relay_with_params_def
  have ev: "relay_apply_event ?x demo_pool (Stored w0 [7] None []) b0 (mx_relay (?m0\<lparr>mx_relay := rs\<rparr>)) = ([], re)"
    by (simp add: relay_apply_event_def rs_simps pool_producer_def producer_new_def
        stored_producer_def [symmetric] re_def del: prod_apply_event.simps)
  have tick: "relay_tick (mx_relay (?m0\<lparr>mx_relay := re\<rparr>)) = ([msg], r)"
    by (simp add: relay_tick_def re_def rs_simps relay_flush_def flush_pool_def d msg_def r_def)
  define m1 where "m1 = ?m0\<lparr>mx_relay := r, mx_flight := [msg]\<rparr>"
  have "?R ?m0 (?m0\<lparr>mx_relay := rs\<rparr>)" by (rule mesh_timer) (simp add: rs_def)
  moreover have "?R (?m0\<lparr>mx_relay := rs\<rparr>) (?m0\<lparr>mx_relay := re\<rparr>)"
    using mesh_event[OF _ _ ev, of "{b0}" "demo_serde []"] by (simp add: mesh_start_def)
  moreover have "?R (?m0\<lparr>mx_relay := re\<rparr>) m1"
    using mesh_tick[OF tick, of ?x "demo_serde []" "{b0}" demo_pool] by (simp add: m1_def mesh_start_def)
  ultimately have s1: "?R\<^sup>*\<^sup>* ?m0 m1" by (meson converse_rtranclp_into_rtranclp rtranclp.rtrancl_refl)
  have lane: "consumer_lane_of (handler_consumer (ge_handler eu_peer)) (pool_region demo_pool) = Some 0"
    by (simp add: eu_peer_simps bound_consumer_simps demo_pool_def)
  have "returns (message_turn (meta_gossip_handler (demo_serde [])) 1 msg eu_peer) (\<lambda>_. True)"
  proof (rule returns_mono[OF meta.turn_returns])
    show "handler_ok (ge_handler eu_peer)"
      using handler_ok_new by (simp add: handler_ok_def eu_peer_simps eu_peer_def engine_new_def lanes_bound_def
          bound_consumer_def activate_lane_def set_lane_status_def LANE_COUNT_def consumer_assign_lane_def consumer_new_def)
    show "message_wf msg" by (simp add: message_wf_def msg_def)
  qed simp
  then obtain cmds e where turn: "message_turn (meta_gossip_handler (demo_serde [])) 1 msg (mx_peer m1) = Some (cmds, e)"
    by (auto simp: returns_def m1_def mesh_start_def)
  define m where "m = m1\<lparr>mx_flight := [], mx_peer := e\<rparr>"
  have "?R m1 m" using mesh_deliver[OF _ turn, of "[]"] by (simp add: m_def m1_def)
  then have reach: "?R\<^sup>*\<^sup>* ?m0 m" using s1 by simp
  have "buckets (pool_producer demo_pool (mx_relay m)) 0 = with_slot 0 0 1"
    using delta_Some(2)[OF d] by (simp add: m_def m1_def r_def pool_producer_def stored_producer_simps)
  moreover have "slot (with_slot 0 0 1) 0 \<noteq> slot 0 0"
    by (simp add: slot_with_slot FP_PER_BUCKET_def)
  then have "with_slot 0 0 1 \<noteq> 0" by auto
  moreover have "kr_pending (mx_relay m) = 0" "mx_flight m = []"
    by (simp_all add: m_def m1_def r_def rs_simps)
  moreover have "kr_running (mx_relay m)" by (simp add: m_def m1_def r_def rs_simps)
  ultimately show ?thesis
    using regions_converge[OF _ _ _ eu_peer_simps(1) lane _ reach] reach
    by (auto simp: LANE_COUNT_def empty_lane_def eu_peer_simps bound_consumer_simps in_lane_def BUCKETS_PER_LANE_def)
qed

end
