(* ===== verification/SharedState.thy ===== *)
theory SharedState
  imports CoreTypes
begin

text \<open>
  The in-process shared state, \<open>LocalSharedState\<close> of
  \<open>crates/hier-kv-gateway-cluster/src/shared_state.rs\<close>: maps whose entries carry an expiry time, and
  locks with a lease. The clock (Unix seconds) is the argument \<open>now\<close> and a time to live is its number of
  whole seconds. Every operation of this implementation succeeds, so the \<open>Ok\<close> around the answers is left
  out. The Redis implementation is a client of a service and not modelled.
\<close>

section \<open>State\<close>

record instance_entry =
  ie_instance_id :: instance_id
  ie_region :: region_id
  ie_addr :: string
  ie_last_heartbeat_unix :: u64

record prefix_dispatch_entry =
  pd_backend :: backend_id
  pd_dispatch_count :: u64
  pd_last_dispatched_unix :: u64

type_synonym ('k, 'v) leased = "('k \<times> 'v \<times> u64) list"

record local_shared_state =
  ss_instances :: "(instance_id, instance_entry) leased"
  ss_sessions :: "(session_id, backend_id) leased"
  ss_prefix_history :: "(u64, prefix_dispatch_entry) leased"
  ss_locks :: "(string, string) leased"
  ss_metrics :: "(backend_id, backend_metrics) leased"

definition shared_new :: local_shared_state where
  "shared_new = \<lparr>ss_instances = [], ss_sessions = [], ss_prefix_history = [], ss_locks = [], ss_metrics = []\<rparr>"

section \<open>Instances\<close>

definition register_instance :: "u64 \<Rightarrow> instance_entry \<Rightarrow> u64 \<Rightarrow> local_shared_state \<Rightarrow> local_shared_state" where
  "register_instance now entry ttl s =
     (let expiry = sat_add now ttl; stored = entry\<lparr>ie_last_heartbeat_unix := now\<rparr>
      in s\<lparr>ss_instances := AList.update (ie_instance_id entry) (stored, expiry) (ss_instances s)\<rparr>)"

definition heartbeat :: "u64 \<Rightarrow> instance_id \<Rightarrow> u64 \<Rightarrow> local_shared_state \<Rightarrow> local_shared_state" where
  "heartbeat now i ttl s =
     (let expiry = sat_add now ttl
      in case map_of (ss_instances s) i of
           None \<Rightarrow> s
         | Some (e, _) \<Rightarrow>
             s\<lparr>ss_instances := AList.update i (e\<lparr>ie_last_heartbeat_unix := now\<rparr>, expiry) (ss_instances s)\<rparr>)"

definition list_instances :: "u64 \<Rightarrow> local_shared_state \<Rightarrow> instance_entry list" where
  "list_instances now s = map (\<lambda>(_, e, _). e) (filter (\<lambda>(_, _, expiry). expiry > now) (ss_instances s))"

definition deregister_instance :: "instance_id \<Rightarrow> local_shared_state \<Rightarrow> local_shared_state" where
  "deregister_instance i s = s\<lparr>ss_instances := AList.delete i (ss_instances s)\<rparr>"

section \<open>Sessions, prefix history and metrics\<close>

definition shared_session_set :: "u64 \<Rightarrow> session_id \<Rightarrow> backend_id \<Rightarrow> u64 \<Rightarrow> local_shared_state \<Rightarrow> local_shared_state" where
  "shared_session_set now k v ttl s =
     (let expiry = sat_add now ttl in s\<lparr>ss_sessions := AList.update k (v, expiry) (ss_sessions s)\<rparr>)"

definition shared_session_get :: "u64 \<Rightarrow> session_id \<Rightarrow> local_shared_state \<Rightarrow> backend_id option \<times> local_shared_state" where
  "shared_session_get now k s =
     (let expired = (None, s\<lparr>ss_sessions := AList.delete k (ss_sessions s)\<rparr>)
      in case map_of (ss_sessions s) k of
           Some (v, expiry) \<Rightarrow> if expiry > now then (Some v, s) else expired
         | None \<Rightarrow> expired)"

definition prefix_history_set :: "u64 \<Rightarrow> u64 \<Rightarrow> prefix_dispatch_entry \<Rightarrow> u64 \<Rightarrow> local_shared_state \<Rightarrow> local_shared_state" where
  "prefix_history_set now k v ttl s =
     (let expiry = sat_add now ttl in s\<lparr>ss_prefix_history := AList.update k (v, expiry) (ss_prefix_history s)\<rparr>)"

definition prefix_history_get :: "u64 \<Rightarrow> u64 \<Rightarrow> local_shared_state \<Rightarrow> prefix_dispatch_entry option \<times> local_shared_state" where
  "prefix_history_get now k s =
     (let expired = (None, s\<lparr>ss_prefix_history := AList.delete k (ss_prefix_history s)\<rparr>)
      in case map_of (ss_prefix_history s) k of
           Some (v, expiry) \<Rightarrow> if expiry > now then (Some v, s) else expired
         | None \<Rightarrow> expired)"

definition metrics_set :: "u64 \<Rightarrow> backend_id \<Rightarrow> backend_metrics \<Rightarrow> u64 \<Rightarrow> local_shared_state \<Rightarrow> local_shared_state" where
  "metrics_set now k v ttl s =
     (let expiry = sat_add now ttl in s\<lparr>ss_metrics := AList.update k (v, expiry) (ss_metrics s)\<rparr>)"

definition metrics_get :: "u64 \<Rightarrow> backend_id \<Rightarrow> local_shared_state \<Rightarrow> backend_metrics option \<times> local_shared_state" where
  "metrics_get now k s =
     (let expired = (None, s\<lparr>ss_metrics := AList.delete k (ss_metrics s)\<rparr>)
      in case map_of (ss_metrics s) k of
           Some (v, expiry) \<Rightarrow> if expiry > now then (Some v, s) else expired
         | None \<Rightarrow> expired)"

definition metrics_get_all :: "u64 \<Rightarrow> local_shared_state \<Rightarrow> (backend_id \<times> backend_metrics) list" where
  "metrics_get_all now s = map (\<lambda>(k, v, _). (k, v)) (filter (\<lambda>(_, _, expiry). expiry > now) (ss_metrics s))"

section \<open>Locks\<close>

definition try_lock :: "u64 \<Rightarrow> string \<Rightarrow> string \<Rightarrow> u64 \<Rightarrow> local_shared_state \<Rightarrow> bool \<times> local_shared_state" where
  "try_lock now key holder ttl s =
     (let expiry = sat_add now ttl;
          taken = (True, s\<lparr>ss_locks := AList.update key (holder, expiry) (ss_locks s)\<rparr>)
      in case map_of (ss_locks s) key of
           Some (h, e) \<Rightarrow>
             if e \<le> now then taken
             else if h = holder then taken
             else (False, s)
         | None \<Rightarrow> taken)"

definition unlock :: "string \<Rightarrow> string \<Rightarrow> local_shared_state \<Rightarrow> local_shared_state" where
  "unlock key holder s =
     (case map_of (ss_locks s) key of
        Some (h, _) \<Rightarrow> if h = holder then s\<lparr>ss_locks := AList.delete key (ss_locks s)\<rparr> else s
      | None \<Rightarrow> s)"

section \<open>The contract of a map with leases\<close>

datatype ('k, 'v) lease_op = Put 'k 'v u64 | Get 'k

text \<open>A run is a list of operations with the time of each.\<close>

fun lease_step :: "(u64 \<Rightarrow> 'k \<Rightarrow> 'v \<Rightarrow> u64 \<Rightarrow> 's \<Rightarrow> 's) \<Rightarrow> (u64 \<Rightarrow> 'k \<Rightarrow> 's \<Rightarrow> 'v option \<times> 's)
    \<Rightarrow> u64 \<times> ('k, 'v) lease_op \<Rightarrow> 's \<Rightarrow> 's" where
  "lease_step put get (now, Put k v ttl) s = put now k v ttl s"
| "lease_step put get (now, Get k) s = snd (get now k s)"

definition lease_run :: "(u64 \<Rightarrow> 'k \<Rightarrow> 'v \<Rightarrow> u64 \<Rightarrow> 's \<Rightarrow> 's) \<Rightarrow> (u64 \<Rightarrow> 'k \<Rightarrow> 's \<Rightarrow> 'v option \<times> 's)
    \<Rightarrow> (u64 \<times> ('k, 'v) lease_op) list \<Rightarrow> 's \<Rightarrow> 's" where
  "lease_run put get ops s = fold (lease_step put get) ops s"

text \<open>The last write of a key (the newest operation first), and what it promises at a time.\<close>

fun last_write :: "'k \<Rightarrow> (u64 \<times> ('k, 'v) lease_op) list \<Rightarrow> ('v \<times> u64) option" where
  "last_write k [] = None"
| "last_write k ((t, Put k' v ttl) # ops) = (if k' = k then Some (v, sat_add t ttl) else last_write k ops)"
| "last_write k ((t, Get _) # ops) = last_write k ops"

definition readable :: "u64 \<Rightarrow> ('v \<times> u64) option \<Rightarrow> 'v option" where
  "readable now w = (case w of Some (v, e) \<Rightarrow> if now < e then Some v else None | None \<Rightarrow> None)"

definition timed :: "(u64 \<times> 'o) list \<Rightarrow> u64 \<Rightarrow> bool" where
  "timed ops now \<longleftrightarrow> sorted (map fst ops @ [now])"

locale lease_map =
  fixes put :: "u64 \<Rightarrow> 'k \<Rightarrow> 'v \<Rightarrow> u64 \<Rightarrow> 's \<Rightarrow> 's" and get :: "u64 \<Rightarrow> 'k \<Rightarrow> 's \<Rightarrow> 'v option \<times> 's"
    and view :: "'s \<Rightarrow> 'k \<Rightarrow> ('v \<times> u64) option"
  assumes put_view: "view (put now k v ttl s) = (view s)(k \<mapsto> (v, sat_add now ttl))"
    and get_answer: "fst (get now k s) = readable now (view s k)"
    and get_view: "view (snd (get now k s)) = (if readable now (view s k) = None then (view s)(k := None) else view s)"
begin

lemma lease_invariant:
  assumes "timed ops now" "view s = (\<lambda>_. None)"
  shows "view (lease_run put get ops s) k = last_write k (rev ops) \<or>
    view (lease_run put get ops s) k = None \<and> readable now (last_write k (rev ops)) = None"
  using assms(1)
proof (induction ops arbitrary: now rule: rev_induct)
  case Nil
  then show ?case using assms(2) by (simp add: lease_run_def)
next
  case (snoc op ops)
  obtain t o' where op: "op = (t, o')" by (cases op)
  have t: "timed ops t" "t \<le> now" using snoc.prems by (auto simp: timed_def sorted_append op)
  have later: "readable t w = None \<Longrightarrow> readable now w = None" for w :: "('v \<times> u64) option"
    using t(2) by (auto simp: readable_def split: option.splits if_splits)
  show ?case
  proof (cases o')
    case (Put k' v ttl)
    then show ?thesis using snoc.IH[OF t(1)] later by (auto simp: op put_view lease_run_def)
  next
    case (Get k')
    then show ?thesis using snoc.IH[OF t(1)] later by (auto simp: op get_view lease_run_def split: if_splits)
  qed
qed

lemma lease_read:
  assumes "timed ops now" "view s = (\<lambda>_. None)"
  shows "fst (get now k (lease_run put get ops s)) = readable now (last_write k (rev ops))"
  using lease_invariant[OF assms, of k] by (auto simp: get_answer) (simp add: readable_def)

end

interpretation sessions: lease_map shared_session_set shared_session_get "\<lambda>s. map_of (ss_sessions s)"
  by unfold_locales
    (auto simp: shared_session_set_def shared_session_get_def Let_def readable_def fun_eq_iff split: option.splits)

interpretation prefixes: lease_map prefix_history_set prefix_history_get "\<lambda>s. map_of (ss_prefix_history s)"
  by unfold_locales
    (auto simp: prefix_history_set_def prefix_history_get_def Let_def readable_def fun_eq_iff split: option.splits)

interpretation shared_metrics: lease_map metrics_set metrics_get "\<lambda>s. map_of (ss_metrics s)"
  by unfold_locales (auto simp: metrics_set_def metrics_get_def Let_def readable_def fun_eq_iff split: option.splits)

section \<open>Leases on locks\<close>

definition holds :: "local_shared_state \<Rightarrow> u64 \<Rightarrow> string \<Rightarrow> string \<Rightarrow> bool" where
  "holds s now key h \<longleftrightarrow> (\<exists>e. map_of (ss_locks s) key = Some (h, e) \<and> now < e)"

lemma try_lock_answer: "fst (try_lock now key h ttl s) \<longleftrightarrow> \<not> (\<exists>h'. h' \<noteq> h \<and> holds s now key h')"
  by (auto simp: try_lock_def holds_def Let_def not_le split: option.splits)

datatype lock_op = TryLock string string u64 | Unlock string string

fun lock_step :: "u64 \<times> lock_op \<Rightarrow> local_shared_state \<Rightarrow> bool \<times> local_shared_state" where
  "lock_step (now, TryLock key h ttl) s = try_lock now key h ttl s"
| "lock_step (now, Unlock key h) s = (True, unlock key h s)"

fun lock_answers :: "(u64 \<times> lock_op) list \<Rightarrow> local_shared_state \<Rightarrow> bool list" where
  "lock_answers [] s = []"
| "lock_answers (op # ops) s = fst (lock_step op s) # lock_answers ops (snd (lock_step op s))"

text \<open>The lease of \<open>h\<close> on \<open>key\<close> runs at least until \<open>e\<close>.\<close>

definition leased_until :: "local_shared_state \<Rightarrow> string \<Rightarrow> string \<Rightarrow> u64 \<Rightarrow> bool" where
  "leased_until s key h e \<longleftrightarrow> (\<exists>e'. map_of (ss_locks s) key = Some (h, e') \<and> e \<le> e')"

lemma lease_kept:
  assumes "leased_until s key h e" "fst op < e" "snd op \<noteq> Unlock key h"
    and "\<forall>ttl. snd op = TryLock key h ttl \<longrightarrow> e \<le> sat_add (fst op) ttl"
  shows "leased_until (snd (lock_step op s)) key h e"
    and "snd op = TryLock key h' ttl \<Longrightarrow> h' \<noteq> h \<Longrightarrow> \<not> fst (lock_step op s)"
  using assms
  by (cases op; cases "snd op"; auto simp: leased_until_def try_lock_def unlock_def Let_def split: option.splits)+

lemma lease_excludes:
  assumes "leased_until s key h e"
    and "\<forall>(t, op)\<in>set ops. t < e \<and> op \<noteq> Unlock key h \<and> (\<forall>ttl. op = TryLock key h ttl \<longrightarrow> e \<le> sat_add t ttl)"
    and "i < length ops" "snd (ops ! i) = TryLock key h' ttl" "h' \<noteq> h"
  shows "\<not> lock_answers ops s ! i"
  using assms
proof (induction ops arbitrary: s i)
  case Nil
  then show ?case by simp
next
  case (Cons op ops)
  have op: "fst op < e" "snd op \<noteq> Unlock key h" "\<forall>ttl. snd op = TryLock key h ttl \<longrightarrow> e \<le> sat_add (fst op) ttl"
    using Cons.prems(2) by (auto simp: case_prod_beta)
  show ?case
  proof (cases i)
    case 0
    then show ?thesis using lease_kept(2)[OF Cons.prems(1) op] Cons.prems(4,5) by simp
  next
    case (Suc j)
    then show ?thesis using Cons.IH[OF lease_kept(1)[OF Cons.prems(1) op], of j] Cons.prems by simp
  qed
qed

section \<open>Properties of the shared state\<close>

text \<open>Leased entries: in a run of writes and reads at non-decreasing times, a read of a session, of a
  prefix's dispatch history or of a backend's metrics answers the last value written for its key as long as
  the time is before that write's time plus its time to live (saturating), and nothing from then on;
  reads of expired entries in between, which delete them, make no difference.\<close>

theorem shared_leases:
  assumes "timed ops now" "timed pops now" "timed mops now"
  shows "fst (shared_session_get now k (lease_run shared_session_set shared_session_get ops shared_new)) =
      readable now (last_write k (rev ops)) \<and>
    fst (prefix_history_get now p (lease_run prefix_history_set prefix_history_get pops shared_new)) =
      readable now (last_write p (rev pops)) \<and>
    fst (metrics_get now b (lease_run metrics_set metrics_get mops shared_new)) =
      readable now (last_write b (rev mops))"
  using assms
  by (auto simp: shared_new_def intro!: sessions.lease_read prefixes.lease_read shared_metrics.lease_read)

theorem shared_leases_witness:
  "fst (shared_session_get 12 (SessionId ''s'') (lease_run shared_session_set shared_session_get
     [(1, Put (SessionId ''s'') (BackendId (RegionId ''eu'') (BackendInstanceId ''a'')) 5), (9, Get (SessionId ''s'')),
      (10, Put (SessionId ''s'') (BackendId (RegionId ''eu'') (BackendInstanceId ''b'')) 5)] shared_new)) =
   Some (BackendId (RegionId ''eu'') (BackendInstanceId ''b''))"
  using shared_leases[of "[(1, Put (SessionId ''s'') (BackendId (RegionId ''eu'') (BackendInstanceId ''a'')) 5), (9, Get (SessionId ''s'')),
      (10, Put (SessionId ''s'') (BackendId (RegionId ''eu'') (BackendInstanceId ''b'')) 5)]" 12 "[]" "[]" "SessionId ''s''"]
  by (simp add: timed_def readable_def sat_add_def)

text \<open>C33. Locks exclude. An acquisition succeeds exactly when no other holder has a running lease, so also when the holder has one
  itself; a failed one changes nothing, and a successful one gives its holder the lease up to the time to live from then on. Then,
  whatever is tried on any lock before that lease ends, as long as the holder does not release it or
  renew it for less, every attempt of another holder fails; from the end of the lease on, and after a
  release by the holder, anyone can acquire the lock. A release by another holder does nothing.\<close>

theorem lock_exclusion:
  assumes "try_lock now key h ttl s = (acquired, s')"
  shows "(acquired \<longleftrightarrow> (\<forall>h'. holds s now key h' \<longrightarrow> h' = h)) \<and> (\<not> acquired \<longrightarrow> s' = s) \<and>
    (acquired \<longrightarrow>
      (\<forall>t h'. holds s' t key h' \<longleftrightarrow> h' = h \<and> t < sat_add now ttl) \<and>
      (\<forall>ops i h' ttl'. (\<forall>(t, op)\<in>set ops. t < sat_add now ttl \<and> op \<noteq> Unlock key h \<and>
           (\<forall>ttl'. op = TryLock key h ttl' \<longrightarrow> sat_add now ttl \<le> sat_add t ttl')) \<and>
         i < length ops \<and> snd (ops ! i) = TryLock key h' ttl' \<and> h' \<noteq> h \<longrightarrow> \<not> lock_answers ops s' ! i) \<and>
      (\<forall>t h' ttl'. sat_add now ttl \<le> t \<longrightarrow> fst (try_lock t key h' ttl' s')) \<and>
      (\<forall>t h' ttl'. fst (try_lock t key h' ttl' (unlock key h s'))) \<and>
      (\<forall>h'. h' \<noteq> h \<longrightarrow> unlock key h' s' = s'))"
proof (cases acquired)
  case False
  then show ?thesis
    using assms try_lock_answer[of now key h ttl s] by (auto simp: try_lock_def Let_def split: option.splits if_splits)
next
  case True
  have s': "map_of (ss_locks s') key = Some (h, sat_add now ttl)"
    using assms True by (auto simp: try_lock_def Let_def split: option.splits if_splits)
  then have "leased_until s' key h (sat_add now ttl)" by (simp add: leased_until_def)
  then have "\<not> lock_answers ops s' ! i" if "\<forall>(t, op)\<in>set ops. t < sat_add now ttl \<and> op \<noteq> Unlock key h \<and>
      (\<forall>ttl'. op = TryLock key h ttl' \<longrightarrow> sat_add now ttl \<le> sat_add t ttl')"
    "i < length ops" "snd (ops ! i) = TryLock key h' ttl'" "h' \<noteq> h" for ops i h' ttl'
    using lease_excludes[OF _ that] by blast
  moreover have "\<forall>h'. holds s now key h' \<longrightarrow> h' = h"
    using assms True try_lock_answer[of now key h ttl s] by auto
  moreover have "holds s' t key h' \<longleftrightarrow> h' = h \<and> t < sat_add now ttl" for t h'
    using s' by (auto simp: holds_def)
  moreover have "fst (try_lock t key h' ttl' s')" if "sat_add now ttl \<le> t" for t h' ttl'
    using that by (simp add: try_lock_def s' Let_def)
  moreover have "fst (try_lock t key h' ttl' (unlock key h s'))" for t h' ttl'
    by (simp add: try_lock_def unlock_def s' Let_def)
  moreover have "h' \<noteq> h \<longrightarrow> unlock key h' s' = s'" for h' by (simp add: unlock_def s')
  ultimately show ?thesis using True by blast
qed

theorem lock_exclusion_witness:
  "lock_answers [(12, TryLock ''leader'' ''b'' 10)] (snd (try_lock 10 ''leader'' ''a'' 5 shared_new)) ! 0 = False \<and>
   fst (try_lock 12 ''leader'' ''a'' 5 (snd (try_lock 10 ''leader'' ''a'' 5 shared_new))) \<and>
   holds (snd (try_lock 12 ''leader'' ''a'' 5 (snd (try_lock 10 ''leader'' ''a'' 5 shared_new)))) 16 ''leader'' ''a''"
proof -
  let ?s1 = "snd (try_lock 10 ''leader'' ''a'' 5 shared_new)"
  note excl = lock_exclusion[OF prod.collapse[symmetric]]
  note gains = excl[THEN conjunct1] and leases = excl[THEN conjunct2, THEN conjunct2, THEN mp, THEN conjunct1]
  have one: "fst (try_lock 10 ''leader'' ''a'' 5 shared_new)" unfolding gains by (simp add: holds_def shared_new_def)
  have lease: "holds ?s1 t ''leader'' h' \<longleftrightarrow> h' = ''a'' \<and> t < 15" for t h'
    using leases[OF one] by (simp add: sat_add_def)
  have two: "fst (try_lock 12 ''leader'' ''a'' 5 ?s1)" unfolding gains lease by simp
  moreover have "holds (snd (try_lock 12 ''leader'' ''a'' 5 ?s1)) 16 ''leader'' ''a''"
    unfolding leases[OF two, rule_format] by (simp add: sat_add_def)
  moreover have "\<not> fst (try_lock 12 ''leader'' ''b'' 10 ?s1)" unfolding gains lease by simp
  then have "\<not> lock_answers [(12, TryLock ''leader'' ''b'' 10)] ?s1 ! 0" by simp
  ultimately show ?thesis by simp
qed

end
