(* ===== verification/Resilience.thy ===== *)
theory Resilience
  imports Ids
begin

text \<open>
  Retry backoff and circuit breakers of the forwarding loop,
  \<open>crates/hier-kv-gateway-connector/src/resilience.rs\<close>. A \<open>Duration\<close> and an \<open>Instant\<close> of the monotonic
  clock are natural numbers of nanoseconds; the clock is the argument \<open>now\<close>. The mutex of a breaker makes
  each operation one step.
\<close>

section \<open>Configuration\<close>

record resilience_config =
  retry_backoff_ms :: u64
  retry_max_backoff_ms :: u64
  circuit_breaker_failure_threshold :: u32
  circuit_breaker_cooldown_secs :: u64
  half_open_success_threshold :: u32

definition resilience_default :: resilience_config where
  "resilience_default = \<lparr>retry_backoff_ms = 50, retry_max_backoff_ms = 1000, circuit_breaker_failure_threshold = 5,
     circuit_breaker_cooldown_secs = 30, half_open_success_threshold = 1\<rparr>"

type_synonym duration = nat

definition from_millis :: "u64 \<Rightarrow> duration" where
  "from_millis ms = unat ms * 1000000"

definition from_secs :: "u64 \<Rightarrow> duration" where
  "from_secs s = unat s * 1000000000"

text \<open>\<open>as_millis() as u64\<close>: whole milliseconds, truncated to 64 bits.\<close>

definition as_millis_u64 :: "duration \<Rightarrow> u64" where
  "as_millis_u64 d = of_nat (d div 1000000)"

section \<open>Retry backoff\<close>

record retry_policy =
  rp_base :: duration
  rp_max :: duration

definition retry_new :: "duration \<Rightarrow> duration \<Rightarrow> retry_policy" where
  "retry_new base mx = \<lparr>rp_base = base, rp_max = mx\<rparr>"

definition retry_default :: retry_policy where
  "retry_default = retry_new (from_millis (retry_backoff_ms resilience_default)) (from_millis (retry_max_backoff_ms resilience_default))"

definition checked_shl_one :: "u32 \<Rightarrow> u64 option" where
  "checked_shl_one n = (if unat n < 64 then Some (push_bit (unat n) 1) else None)"

definition backoff :: "retry_policy \<Rightarrow> u32 \<Rightarrow> duration" where
  "backoff p attempt =
     (let factor = (case checked_shl_one attempt of Some f \<Rightarrow> f | None \<Rightarrow> - 1);
          base_ms = as_millis_u64 (rp_base p);
          delay_ms = sat_mul base_ms factor;
          capped = min delay_ms (as_millis_u64 (rp_max p))
      in from_millis capped)"

section \<open>Circuit breakers\<close>

datatype circuit_state = CircuitClosed | CircuitOpen | CircuitHalfOpen

datatype breaker_state = Closed (consecutive_failures: u32) | Open (opened_at: nat) | HalfOpen (consecutive_successes: u32)

definition breaker_new :: breaker_state where
  "breaker_new = Closed 0"

record circuit_registry =
  cb_failure_threshold :: u32
  cb_cooldown :: duration
  cb_success_threshold :: u32
  cb_breakers :: "(backend_id \<times> breaker_state) list"

definition registry_new :: "resilience_config \<Rightarrow> circuit_registry" where
  "registry_new c = \<lparr>cb_failure_threshold = circuit_breaker_failure_threshold c,
     cb_cooldown = from_secs (circuit_breaker_cooldown_secs c),
     cb_success_threshold = max (half_open_success_threshold c) 1, cb_breakers = []\<rparr>"

definition breaker :: "backend_id \<Rightarrow> circuit_registry \<Rightarrow> breaker_state" where
  "breaker i r = (case map_of (cb_breakers r) i of None \<Rightarrow> breaker_new | Some b \<Rightarrow> b)"

definition set_breaker :: "backend_id \<Rightarrow> breaker_state \<Rightarrow> circuit_registry \<Rightarrow> circuit_registry" where
  "set_breaker i b r = r\<lparr>cb_breakers := AList.update i b (cb_breakers r)\<rparr>"

definition allow :: "nat \<Rightarrow> backend_id \<Rightarrow> circuit_registry \<Rightarrow> bool \<times> circuit_registry" where
  "allow now i r =
     (case breaker i r of
        Closed n \<Rightarrow> (True, set_breaker i (Closed n) r)
      | Open t \<Rightarrow> if now - t \<ge> cb_cooldown r then (True, set_breaker i (HalfOpen 0) r)
                  else (False, set_breaker i (Open t) r)
      | HalfOpen n \<Rightarrow> (True, set_breaker i (HalfOpen n) r))"

definition on_success :: "backend_id \<Rightarrow> circuit_registry \<Rightarrow> circuit_registry" where
  "on_success i r =
     set_breaker i
       (case breaker i r of
          Closed _ \<Rightarrow> Closed 0
        | HalfOpen n \<Rightarrow> (let successes = n + 1
                        in if successes \<ge> cb_success_threshold r then Closed 0 else HalfOpen successes)
        | Open _ \<Rightarrow> Closed 0) r"

definition on_failure :: "nat \<Rightarrow> backend_id \<Rightarrow> circuit_registry \<Rightarrow> circuit_registry" where
  "on_failure now i r =
     set_breaker i
       (case breaker i r of
          Closed n \<Rightarrow> (let failures = n + 1
                      in if failures \<ge> cb_failure_threshold r then Open now else Closed failures)
        | HalfOpen _ \<Rightarrow> Open now
        | Open _ \<Rightarrow> Open now) r"

definition circuit_state_of :: "nat \<Rightarrow> backend_id \<Rightarrow> circuit_registry \<Rightarrow> circuit_state" where
  "circuit_state_of now i r =
     (case map_of (cb_breakers r) i of
        None \<Rightarrow> CircuitClosed
      | Some (Closed _) \<Rightarrow> CircuitClosed
      | Some (Open t) \<Rightarrow> if now - t \<ge> cb_cooldown r then CircuitHalfOpen else CircuitOpen
      | Some (HalfOpen _) \<Rightarrow> CircuitHalfOpen)"

definition breakers_reset :: "circuit_registry \<Rightarrow> circuit_registry" where
  "breakers_reset r = r\<lparr>cb_breakers := []\<rparr>"

section \<open>Backoff is capped doubling\<close>

lemma unat_min: "unat (min a b) = min (unat a) (unat b)" for a b :: "'a::len word"
  by (simp add: min_def word_le_nat_alt)

lemma unat_factor:
  "unat (case checked_shl_one n of Some f \<Rightarrow> f | None \<Rightarrow> - 1) = (if unat n < 64 then 2 ^ unat n else 2 ^ 64 - 1)"
proof (cases "unat n < 64")
  case True
  have "push_bit (unat n) (1 :: u64) = of_nat (2 ^ unat n)" by (simp add: push_bit_eq_mult)
  then have "unat (push_bit (unat n) (1 :: u64)) = 2 ^ unat n mod 2 ^ 64" by (simp only: unat_of_nat) simp
  moreover have "(2::nat) ^ unat n < 2 ^ 64" using True by (intro power_strict_increasing) auto
  ultimately show ?thesis using True by (simp add: checked_shl_one_def)
next
  case False
  then show ?thesis by (simp add: checked_shl_one_def unat_max_word)
qed

text \<open>Retry backoff: the delay before retry number \<open>attempt\<close> is exactly the base doubled \<open>attempt\<close>
  times and capped at the maximum, for every attempt number (no wrap-around where the shift
  or the product overflows), so it never decreases and never exceeds the maximum.\<close>

theorem backoff_capped_doubling:
  assumes "base < 2 ^ 64" "mx < 2 ^ 64"
  shows "backoff (retry_new (from_millis (of_nat base)) (from_millis (of_nat mx))) attempt =
      min (base * 2 ^ unat attempt) mx * 1000000 \<and>
    (attempt \<le> later \<longrightarrow> backoff (retry_new (from_millis (of_nat base)) (from_millis (of_nat mx))) attempt \<le>
      backoff (retry_new (from_millis (of_nat base)) (from_millis (of_nat mx))) later)"
proof -
  have ms: "as_millis_u64 (n * 1000000) = of_nat n" for n by (simp add: as_millis_u64_def)
  have u: "unat (of_nat n :: u64) = n" if "n < 2 ^ 64" for n using that by (simp add: unat_of_nat)
  have exact: "backoff (retry_new (from_millis (of_nat base)) (from_millis (of_nat mx))) a =
      min (base * 2 ^ unat a) mx * 1000000" for a
  proof -
    have "min (min (base * (if unat a < 64 then 2 ^ unat a else 2 ^ 64 - 1)) (2 ^ 64 - 1)) mx = min (base * 2 ^ unat a) mx"
    proof (cases "unat a < 64 \<or> base = 0")
      case True
      then show ?thesis using assms(2) by auto
    next
      case False
      then have "(2::nat) ^ 64 \<le> 2 ^ unat a" by (intro power_increasing) auto
      moreover have "(2::nat) ^ unat a \<le> base * 2 ^ unat a" using False by simp
      ultimately have "mx \<le> base * 2 ^ unat a" using assms(2) by linarith
      moreover have "(2::nat) ^ 64 - 1 \<le> base * (2 ^ 64 - 1)" using False by simp
      ultimately show ?thesis using False assms(2) by (simp add: min_absorb2)
    qed
    then show ?thesis
      using assms u by (simp add: backoff_def Let_def retry_new_def from_millis_def ms unat_min unat_sat_mul unat_factor)
  qed
  have "min (base * 2 ^ unat attempt) mx \<le> min (base * 2 ^ unat later) mx" if "attempt \<le> later"
    using that by (intro min.mono mult_le_mono power_increasing) (simp_all add: word_le_nat_alt)
  then show ?thesis unfolding exact by simp
qed

theorem backoff_capped_doubling_witness:
  "backoff retry_default 4 = 800 * 1000000 \<and> backoff retry_default 70 = 1000 * 1000000"
  using backoff_capped_doubling[of 50 1000 4] backoff_capped_doubling[of 50 1000 70]
  by (simp add: retry_default_def resilience_default_def)

section \<open>Histories of a breaker\<close>

datatype circuit_op = Allow | Success | Failure

text \<open>A history lists the operations with their backend and time, oldest first.\<close>

fun circuit_step :: "nat \<times> backend_id \<times> circuit_op \<Rightarrow> circuit_registry \<Rightarrow> circuit_registry" where
  "circuit_step (now, i, Allow) r = snd (allow now i r)"
| "circuit_step (now, i, Success) r = on_success i r"
| "circuit_step (now, i, Failure) r = on_failure now i r"

definition circuit_run :: "(nat \<times> backend_id \<times> circuit_op) list \<Rightarrow> circuit_registry \<Rightarrow> circuit_registry" where
  "circuit_run ops r = fold circuit_step ops r"

fun next_state :: "circuit_registry \<Rightarrow> nat \<Rightarrow> circuit_op \<Rightarrow> breaker_state \<Rightarrow> breaker_state" where
  "next_state r now Allow (Open t) = (if now - t \<ge> cb_cooldown r then HalfOpen 0 else Open t)"
| "next_state r now Allow b = b"
| "next_state r now Success (HalfOpen n) = (if n + 1 \<ge> cb_success_threshold r then Closed 0 else HalfOpen (n + 1))"
| "next_state r now Success b = Closed 0"
| "next_state r now Failure (Closed n) = (if n + 1 \<ge> cb_failure_threshold r then Open now else Closed (n + 1))"
| "next_state r now Failure b = Open now"

lemma circuit_step_breaker:
  "breaker j (circuit_step (now, i, op) r) = (if j = i then next_state r now op (breaker i r) else breaker j r)"
  by (cases op; cases "breaker i r")
    (auto simp: breaker_def allow_def on_success_def on_failure_def set_breaker_def Let_def)

lemma circuit_step_config [simp]:
  "cb_failure_threshold (circuit_step x r) = cb_failure_threshold r" "cb_cooldown (circuit_step x r) = cb_cooldown r"
  "cb_success_threshold (circuit_step x r) = cb_success_threshold r"
  by (cases x; cases "snd (snd x)"; auto simp: allow_def on_success_def on_failure_def set_breaker_def
      split: breaker_state.splits)+

declare circuit_step.simps [simp del]

text \<open>Newest operation first: the failures of a backend since its last success, and its last outcome.\<close>

fun streak :: "backend_id \<Rightarrow> (nat \<times> backend_id \<times> circuit_op) list \<Rightarrow> nat" where
  "streak i [] = 0"
| "streak i ((t, j, op) # ops) =
     (if j \<noteq> i \<or> op = Allow then streak i ops else if op = Failure then Suc (streak i ops) else 0)"

fun last_outcome :: "backend_id \<Rightarrow> (nat \<times> backend_id \<times> circuit_op) list \<Rightarrow> (nat \<times> circuit_op) option" where
  "last_outcome i [] = None"
| "last_outcome i ((t, j, op) # ops) = (if j \<noteq> i \<or> op = Allow then last_outcome i ops else Some (t, op))"

lemma circuit_run_snoc: "circuit_run (ops @ [x]) r = circuit_step x (circuit_run ops r)"
  by (simp add: circuit_run_def)

lemma circuit_run_config [simp]:
  "cb_failure_threshold (circuit_run ops r) = cb_failure_threshold r" "cb_cooldown (circuit_run ops r) = cb_cooldown r"
  "cb_success_threshold (circuit_run ops r) = cb_success_threshold r"
  by (induction ops rule: rev_induct) (simp_all add: circuit_run_snoc, simp_all add: circuit_run_def)

definition breaker_inv :: "circuit_registry \<Rightarrow> backend_id \<Rightarrow> (nat \<times> backend_id \<times> circuit_op) list \<Rightarrow> bool" where
  "breaker_inv r i ops \<longleftrightarrow>
     (case breaker i r of
        Closed n \<Rightarrow> unat n = streak i (rev ops) \<and> unat n < max 1 (unat (cb_failure_threshold r))
      | Open t \<Rightarrow> last_outcome i (rev ops) = Some (t, Failure)
      | HalfOpen n \<Rightarrow> unat n < max 1 (unat (cb_success_threshold r)))"

lemma unat_suc_below: "unat n < max 1 (unat m) \<Longrightarrow> unat (n + 1) = Suc (unat n)" for n m :: u32
proof -
  assume n: "unat n < max 1 (unat m)"
  have "unat m < 2 ^ 32" using unsigned_less[of m] by simp
  with n have "Suc (unat n) < 2 ^ 32" by (simp add: max_def split: if_splits)
  then show ?thesis by (simp add: unat_word_ariths)
qed

lemma breaker_inv_step:
  assumes "breaker_inv r i ops"
  shows "breaker_inv (circuit_step x r) i (ops @ [x])"
proof -
  obtain t j op where x: "x = (t, j, op)" by (cases x)
  show ?thesis
  proof (cases "j = i")
    case False
    then show ?thesis using assms by (simp add: x breaker_inv_def circuit_step_breaker cong: breaker_state.case_cong)
  next
    case True
    show ?thesis
    proof (cases op)
      case Allow
      then show ?thesis
        using assms True by (auto simp: x breaker_inv_def circuit_step_breaker split: breaker_state.splits)
    next
      case Success
      then show ?thesis
        using assms True unat_suc_below[of "consecutive_successes (breaker i r)" "cb_success_threshold r"]
        by (auto simp: x breaker_inv_def circuit_step_breaker word_le_nat_alt split: breaker_state.splits)
    next
      case Failure
      then show ?thesis
        using assms True unat_suc_below[of "consecutive_failures (breaker i r)" "cb_failure_threshold r"]
        by (auto simp: x breaker_inv_def circuit_step_breaker word_le_nat_alt split: breaker_state.splits)
    qed
  qed
qed

lemma breaker_inv_run: "breaker_inv (circuit_run ops (registry_new c)) i ops"
proof (induction ops rule: rev_induct)
  case Nil
  then show ?case by (simp add: breaker_inv_def breaker_def breaker_new_def registry_new_def circuit_run_def)
next
  case (snoc x ops)
  then show ?case by (simp add: circuit_run_snoc breaker_inv_step)
qed

lemma allow_answer: "fst (allow now i r) = (case breaker i r of Open t \<Rightarrow> now - t \<ge> cb_cooldown r | _ \<Rightarrow> True)"
  by (simp add: allow_def split: breaker_state.splits)

text \<open>A tripped breaker stays open through attempts that come before the end of the cooldown.\<close>

definition quiet :: "backend_id \<Rightarrow> nat \<Rightarrow> duration \<Rightarrow> (nat \<times> backend_id \<times> circuit_op) list \<Rightarrow> bool" where
  "quiet i since cooldown post \<longleftrightarrow> (\<forall>(t, j, op)\<in>set post. j = i \<longrightarrow> op = Allow \<and> t - since < cooldown)"

lemma stays_open:
  "breaker i r = Open t \<Longrightarrow> quiet i t (cb_cooldown r) post \<Longrightarrow> breaker i (circuit_run post r) = Open t"
proof (induction post arbitrary: r)
  case (Cons x post)
  have "breaker i (circuit_step x r) = Open t"
    using Cons.prems by (cases x) (auto simp: quiet_def circuit_step_breaker)
  then show ?case using Cons.IH[of "circuit_step x r"] Cons.prems(2) by (simp add: circuit_run_def quiet_def)
qed (simp add: circuit_run_def)

lemma recovers:
  assumes "breaker i r = HalfOpen n" "unat n < unat (cb_success_threshold r)" "unat (cb_success_threshold r) \<le> unat n + length ts"
  shows "\<exists>k. breaker i (circuit_run (map (\<lambda>t. (t, i, Success)) ts) r) = Closed k"
  using assms
proof (induction ts arbitrary: n r)
  case (Cons t ts)
  let ?r = "circuit_step (t, i, Success) r"
  have suc: "unat (n + 1) = Suc (unat n)" using unat_suc_below[of n "cb_success_threshold r"] Cons.prems(2) by simp
  have closed: "breaker i r = Closed k \<Longrightarrow> \<exists>k. breaker i (circuit_run (map (\<lambda>t. (t, i, Success)) ts) r) = Closed k" for r k
    by (induction ts arbitrary: r k) (auto simp: circuit_run_def circuit_step_breaker)
  show ?case
  proof (cases "cb_success_threshold r \<le> n + 1")
    case True
    then have "breaker i ?r = Closed 0" using Cons.prems(1) by (simp add: circuit_step_breaker)
    then show ?thesis using closed[of ?r] by (simp add: circuit_run_def)
  next
    case False
    then have "breaker i ?r = HalfOpen (n + 1)" using Cons.prems(1) by (simp add: circuit_step_breaker)
    then show ?thesis
      using Cons.IH[of ?r "n + 1"] Cons.prems(3) False suc by (simp add: circuit_run_def word_le_nat_alt)
  qed
qed simp

text \<open>C34. Circuit breakers, after any history of calls on any backends from the start. A backend is refused only while its
  last outcome is a failure less than a cooldown ago. It is refused throughout the cooldown
  after a failure that makes \<open>failure_threshold\<close> failures in a row without a success, as long as no outcome of it is recorded after
  that failure, only attempts within the cooldown (\<open>quiet\<close>; a call that was under way and succeeds closes the open circuit at once).
  Once the cooldown is over it is admitted again, and \<open>success_threshold\<close> successes then close the circuit.
  The counters do not wrap: that of a closed circuit is exactly the number of failures since the last success, below the failure
  threshold, and that of a half open one is below the success threshold.\<close>

theorem circuit_breaker:
  assumes "r = circuit_run ops (registry_new c)"
  shows "(case breaker i r of
      Closed n \<Rightarrow> unat n = streak i (rev ops) \<and> unat n < max 1 (unat (cb_failure_threshold r))
    | Open t \<Rightarrow> last_outcome i (rev ops) = Some (t, Failure)
    | HalfOpen n \<Rightarrow> unat n < unat (cb_success_threshold r)) \<and>
    (\<not> fst (allow now i r) \<longrightarrow> (\<exists>t. last_outcome i (rev ops) = Some (t, Failure) \<and> now - t < cb_cooldown r)) \<and>
    (\<forall>pre t post. ops = pre @ (t, i, Failure) # post \<and> quiet i t (cb_cooldown r) post \<and>
        unat (cb_failure_threshold r) \<le> streak i (rev (pre @ [(t, i, Failure)])) \<longrightarrow>
      (fst (allow now i r) \<longleftrightarrow> cb_cooldown r \<le> now - t) \<and>
      (\<forall>ts. cb_cooldown r \<le> now - t \<and> unat (cb_success_threshold r) \<le> length ts \<longrightarrow>
         circuit_state_of later i (circuit_run ((now, i, Allow) # map (\<lambda>s. (s, i, Success)) ts) r) = CircuitClosed))"
proof -
  note inv = breaker_inv_run[of ops c i, folded assms]
  have pos: "0 < unat (cb_success_threshold r)"
    by (simp add: assms registry_new_def unat_min max_def word_le_nat_alt)
  then have "case breaker i r of
      Closed n \<Rightarrow> unat n = streak i (rev ops) \<and> unat n < max 1 (unat (cb_failure_threshold r))
    | Open t \<Rightarrow> last_outcome i (rev ops) = Some (t, Failure)
    | HalfOpen n \<Rightarrow> unat n < unat (cb_success_threshold r)"
    using inv by (auto simp: breaker_inv_def max_def split: breaker_state.splits)
  moreover have "\<exists>t. last_outcome i (rev ops) = Some (t, Failure) \<and> now - t < cb_cooldown r" if "\<not> fst (allow now i r)"
    using that inv by (auto simp: allow_answer breaker_inv_def split: breaker_state.splits)
  moreover have opened: "breaker i r = Open t"
    if "ops = pre @ (t, i, Failure) # post" "quiet i t (cb_cooldown r) post"
      "unat (cb_failure_threshold r) \<le> streak i (rev (pre @ [(t, i, Failure)]))" for pre t post
  proof -
    let ?p = "circuit_run pre (registry_new c)"
    have r: "r = circuit_run post (circuit_step (t, i, Failure) ?p)"
      by (simp add: assms that(1) circuit_run_def)
    have "breaker i (circuit_step (t, i, Failure) ?p) = Open t"
      using breaker_inv_run[of pre c i] that(3) unat_suc_below[of "consecutive_failures (breaker i ?p)" "cb_failure_threshold ?p"]
      by (auto simp: assms breaker_inv_def circuit_step_breaker word_le_nat_alt split: breaker_state.splits)
    then show ?thesis unfolding r by (rule stays_open) (use that(2) in \<open>simp add: assms\<close>)
  qed
  moreover have "circuit_state_of later i (circuit_run ((now, i, Allow) # map (\<lambda>s. (s, i, Success)) ts) r) = CircuitClosed"
    if hyps: "breaker i r = Open t" "cb_cooldown r \<le> now - t" "unat (cb_success_threshold r) \<le> length ts" for t ts
  proof -
    have "breaker i (circuit_step (now, i, Allow) r) = HalfOpen 0" using hyps by (simp add: circuit_step_breaker)
    then obtain k where "breaker i (circuit_run (map (\<lambda>s. (s, i, Success)) ts) (circuit_step (now, i, Allow) r)) = Closed k"
      using recovers[of i "circuit_step (now, i, Allow) r" 0 ts] hyps(3) pos by auto
    then show ?thesis
      by (auto simp: circuit_run_def circuit_state_of_def breaker_def split: option.splits)
  qed
  ultimately show ?thesis by (auto simp: allow_answer)
qed

theorem circuit_breaker_witness:
  "fst (allow 10 (BackendId (RegionId ''eu'') (BackendInstanceId ''a''))
     (circuit_run (map (\<lambda>t. (t, BackendId (RegionId ''eu'') (BackendInstanceId ''a''), Failure)) [1, 2, 3, 4, 5])
       (registry_new resilience_default))) = False"
proof -
  let ?i = "BackendId (RegionId ''eu'') (BackendInstanceId ''a'')"
  let ?pre = "map (\<lambda>t. (t, ?i, Failure)) [1, 2, 3, 4]"
  have "map (\<lambda>t. (t, ?i, Failure)) [1, 2, 3, 4, 5] = ?pre @ (5, ?i, Failure) # []" by simp
  moreover have "quiet ?i 5 30000000000 []" by (simp add: quiet_def)
  moreover have "cb_cooldown (registry_new resilience_default) = 30000000000"
    "unat (cb_failure_threshold (registry_new resilience_default)) = 5"
    by (simp_all add: registry_new_def resilience_default_def from_secs_def)
  ultimately show ?thesis
    using circuit_breaker[of "circuit_run (map (\<lambda>t. (t, ?i, Failure)) [1, 2, 3, 4, 5]) (registry_new resilience_default)",
        OF refl, where now = 10 and i = ?i, THEN conjunct2, THEN conjunct2,
        THEN spec[where x = ?pre], THEN spec[where x = 5], THEN spec[where x = "[]"]]
    by simp
qed

end
