(* ===== verification/Coalescer.thy ===== *)
theory Coalescer
  imports Prelude
begin

text \<open>
  Single-flight request coalescing: \<open>crates/hier-kv-gateway-api/src/coalescer.rs\<close> and its configuration
  \<open>crates/hier-kv-gateway-core/src/coalescing.rs\<close>.

  \<open>coalesce\<close> is an async function that many requests run at once. Its body is split where calls can
  interleave: the capacity guard, the map entry, and the await. A call is the point it has reached;
  the shared futures live in \<open>co_flights\<close> and the in-flight map holds their index. A flight advances
  only while some call polls it. The result of a producer is the argument of the event that completes
  it, the delayed removals spawned by \<open>schedule_cleanup\<close> are \<open>co_cleanups\<close>, and a call that is awaiting can be
  dropped, as the server does when its client disconnects. Times are milliseconds.
\<close>

section \<open>State and operations\<close>

record coalescing_config =
  cc_enabled :: bool
  cc_ttl_ms :: nat
  cc_max_inflight :: nat

definition coalescing_default :: coalescing_config where
  "coalescing_default = \<lparr>cc_enabled = False, cc_ttl_ms = 50, cc_max_inflight = 1024\<rparr>"

definition coalescing_active :: "coalescing_config \<Rightarrow> bool" where
  "coalescing_active c = cc_enabled c"

record coalesced_response =
  cr_status :: u16
  cr_body :: "u8 list"
  cr_backend :: string
  cr_strategy :: string
  cr_kv_overlap :: u32

datatype coalesce_error = CoalesceError string

type_synonym coalesce_result = "coalesce_error + coalesced_response"

record coalesce_stats =
  cs_leaders :: u64
  cs_waiters :: u64
  cs_bypassed :: u64
  cs_forwards_saved :: u64

definition stats_snapshot :: "coalesce_stats \<Rightarrow> u64 \<times> u64 \<times> u64 \<times> u64" where
  "stats_snapshot st = (cs_leaders st, cs_waiters st, cs_bypassed st, cs_forwards_saved st)"

record flight =
  fl_key :: u64
  fl_result :: "coalesce_result option"

datatype call_role = Leader nat | Waiter nat | Bypass

datatype coalesce_call =
    Guarding u64
  | Attaching u64
  | Running u64 call_role
  | Returned u64 call_role coalesce_result
  | Dropped u64 call_role

record request_coalescer =
  co_inflight :: "(u64 \<times> nat) list"
  co_cfg :: coalescing_config
  co_stats :: coalesce_stats
  co_flights :: "flight list"
  co_calls :: "coalesce_call list"
  co_cleanups :: "(u64 \<times> nat) list"
  co_now :: nat

definition coalescer_new :: "coalescing_config \<Rightarrow> request_coalescer" where
  "coalescer_new c = \<lparr>co_inflight = [], co_cfg = c,
     co_stats = \<lparr>cs_leaders = 0, cs_waiters = 0, cs_bypassed = 0, cs_forwards_saved = 0\<rparr>,
     co_flights = [], co_calls = [], co_cleanups = [], co_now = 0\<rparr>"

definition inflight_count :: "request_coalescer \<Rightarrow> nat" where
  "inflight_count s = length (co_inflight s)"

text \<open>The capacity guard of \<open>coalesce\<close>.\<close>

definition coalesce_guard :: "nat \<Rightarrow> u64 \<Rightarrow> request_coalescer \<Rightarrow> request_coalescer" where
  "coalesce_guard i key s =
     (if 0 < cc_max_inflight (co_cfg s) \<and> cc_max_inflight (co_cfg s) \<le> inflight_count s
      then s\<lparr>co_stats := (co_stats s)\<lparr>cs_bypassed := cs_bypassed (co_stats s) + 1\<rparr>,
             co_calls := (co_calls s)[i := Running key Bypass]\<rparr>
      else s\<lparr>co_calls := (co_calls s)[i := Attaching key]\<rparr>)"

text \<open>The entry of the map: occupied, the call waits on the flight there; vacant, it starts one.\<close>

definition coalesce_entry :: "nat \<Rightarrow> u64 \<Rightarrow> request_coalescer \<Rightarrow> request_coalescer" where
  "coalesce_entry i key s =
     (case map_of (co_inflight s) key of
        Some f \<Rightarrow> s\<lparr>co_stats := (co_stats s)\<lparr>cs_waiters := cs_waiters (co_stats s) + 1,
                                             cs_forwards_saved := cs_forwards_saved (co_stats s) + 1\<rparr>,
                     co_calls := (co_calls s)[i := Running key (Waiter f)]\<rparr>
      | None \<Rightarrow> let f = length (co_flights s) in
          s\<lparr>co_stats := (co_stats s)\<lparr>cs_leaders := cs_leaders (co_stats s) + 1\<rparr>,
            co_flights := co_flights s @ [\<lparr>fl_key = key, fl_result = None\<rparr>],
            co_inflight := AList.update key f (co_inflight s),
            co_calls := (co_calls s)[i := Running key (Leader f)]\<rparr>)"

definition schedule_cleanup :: "u64 \<Rightarrow> request_coalescer \<Rightarrow> request_coalescer" where
  "schedule_cleanup key s =
     (if cc_ttl_ms (co_cfg s) = 0 then s\<lparr>co_inflight := AList.delete key (co_inflight s)\<rparr>
      else s\<lparr>co_cleanups := co_cleanups s @ [(key, co_now s + cc_ttl_ms (co_cfg s))]\<rparr>)"

text \<open>The rest of \<open>coalesce\<close> after \<open>shared.await\<close>.\<close>

fun coalesce_resume :: "nat \<Rightarrow> u64 \<Rightarrow> call_role \<Rightarrow> coalesce_result \<Rightarrow> request_coalescer \<Rightarrow> request_coalescer" where
  "coalesce_resume i key (Leader f) r s = schedule_cleanup key (s\<lparr>co_calls := (co_calls s)[i := Returned key (Leader f) r]\<rparr>)"
| "coalesce_resume i key role r s = s\<lparr>co_calls := (co_calls s)[i := Returned key role r]\<rparr>"

definition delayed_cleanup :: "nat \<Rightarrow> request_coalescer \<Rightarrow> request_coalescer" where
  "delayed_cleanup j s = s\<lparr>co_inflight := AList.delete (fst (co_cleanups s ! j)) (co_inflight s),
     co_cleanups := take j (co_cleanups s) @ drop (Suc j) (co_cleanups s)\<rparr>"

section \<open>Interleavings\<close>

datatype coalesce_event =
    Arrive u64
  | Guard nat
  | Entry nat
  | FlightDone nat coalesce_result
  | ForwardDone nat coalesce_result
  | Resume nat
  | Cleanup nat
  | Drop nat
  | Elapse nat

definition call_at :: "nat \<Rightarrow> request_coalescer \<Rightarrow> coalesce_call option" where
  "call_at i s = (if i < length (co_calls s) then Some (co_calls s ! i) else None)"

fun polls :: "nat \<Rightarrow> coalesce_call \<Rightarrow> bool" where
  "polls f (Running k (Leader g)) = (f = g)"
| "polls f (Running k (Waiter g)) = (f = g)"
| "polls f c = False"

definition flight_result :: "nat \<Rightarrow> request_coalescer \<Rightarrow> coalesce_result option" where
  "flight_result f s = (if f < length (co_flights s) then fl_result (co_flights s ! f) else None)"

fun co_step :: "coalesce_event \<Rightarrow> request_coalescer \<Rightarrow> request_coalescer option" where
  "co_step (Arrive k) s = Some (s\<lparr>co_calls := co_calls s @ [Guarding k]\<rparr>)"
| "co_step (Guard i) s = (case call_at i s of Some (Guarding k) \<Rightarrow> Some (coalesce_guard i k s) | _ \<Rightarrow> None)"
| "co_step (Entry i) s = (case call_at i s of Some (Attaching k) \<Rightarrow> Some (coalesce_entry i k s) | _ \<Rightarrow> None)"
| "co_step (FlightDone f r) s =
     (if f < length (co_flights s) \<and> fl_result (co_flights s ! f) = None \<and> list_ex (polls f) (co_calls s)
      then Some (s\<lparr>co_flights := (co_flights s)[f := (co_flights s ! f)\<lparr>fl_result := Some r\<rparr>]\<rparr>) else None)"
| "co_step (ForwardDone i r) s =
     (case call_at i s of Some (Running k Bypass) \<Rightarrow> Some (coalesce_resume i k Bypass r s) | _ \<Rightarrow> None)"
| "co_step (Resume i) s =
     (case call_at i s of
        Some (Running k (Leader f)) \<Rightarrow> map_option (\<lambda>r. coalesce_resume i k (Leader f) r s) (flight_result f s)
      | Some (Running k (Waiter f)) \<Rightarrow> map_option (\<lambda>r. coalesce_resume i k (Waiter f) r s) (flight_result f s)
      | _ \<Rightarrow> None)"
| "co_step (Cleanup j) s =
     (if j < length (co_cleanups s) \<and> snd (co_cleanups s ! j) \<le> co_now s then Some (delayed_cleanup j s) else None)"
| "co_step (Drop i) s =
     (case call_at i s of Some (Running k role) \<Rightarrow> Some (s\<lparr>co_calls := (co_calls s)[i := Dropped k role]\<rparr>) | _ \<Rightarrow> None)"
| "co_step (Elapse d) s = Some (s\<lparr>co_now := co_now s + d\<rparr>)"

fun co_run :: "coalesce_event list \<Rightarrow> request_coalescer \<Rightarrow> request_coalescer option" where
  "co_run [] s = Some s"
| "co_run (e # es) s = Option.bind (co_step e s) (co_run es)"

inductive co_reach :: "coalescing_config \<Rightarrow> request_coalescer \<Rightarrow> bool" for c where
  start: "co_reach c (coalescer_new c)"
| step: "co_reach c s \<Longrightarrow> co_step e s = Some s' \<Longrightarrow> co_reach c s'"

section \<open>Invariant\<close>

declare map_of_eq_Some_iff [simp del]

fun leading :: "u64 \<Rightarrow> coalesce_call \<Rightarrow> bool" where
  "leading k (Running k' (Leader f)) = (k = k')"
| "leading k c = False"

definition valid_flight :: "request_coalescer \<Rightarrow> u64 \<Rightarrow> nat \<Rightarrow> bool" where
  "valid_flight s k f \<longleftrightarrow> f < length (co_flights s) \<and> fl_key (co_flights s ! f) = k"

abbreviation waiting_cleanup :: "u64 \<Rightarrow> request_coalescer \<Rightarrow> bool" where
  "waiting_cleanup k s \<equiv> k \<in> fst ` set (co_cleanups s)"

fun call_ok :: "request_coalescer \<Rightarrow> coalesce_call \<Rightarrow> bool" where
  "call_ok s (Running k (Leader f)) \<longleftrightarrow> valid_flight s k f \<and> map_of (co_inflight s) k = Some f \<and> \<not> waiting_cleanup k s"
| "call_ok s (Running k (Waiter f)) \<longleftrightarrow> valid_flight s k f"
| "call_ok s (Returned k (Leader f) r) \<longleftrightarrow> valid_flight s k f \<and> flight_result f s = Some r"
| "call_ok s (Returned k (Waiter f) r) \<longleftrightarrow> valid_flight s k f \<and> flight_result f s = Some r"
| "call_ok s (Dropped k (Leader f)) \<longleftrightarrow> valid_flight s k f"
| "call_ok s (Dropped k (Waiter f)) \<longleftrightarrow> valid_flight s k f"
| "call_ok s c \<longleftrightarrow> True"

text \<open>Entries name flights of their key, and every unfinished flight is the entry of its key.\<close>

definition flights_ok :: "request_coalescer \<Rightarrow> bool" where
  "flights_ok s \<longleftrightarrow> keys_distinct (co_inflight s) \<and>
     (\<forall>k f. map_of (co_inflight s) k = Some f \<longrightarrow> valid_flight s k f) \<and>
     (\<forall>f < length (co_flights s). fl_result (co_flights s ! f) = None \<longrightarrow>
        map_of (co_inflight s) (fl_key (co_flights s ! f)) = Some f)"

text \<open>A delayed removal is the only one for its key and finds a finished flight there.\<close>

definition cleanups_ok :: "request_coalescer \<Rightarrow> bool" where
  "cleanups_ok s \<longleftrightarrow> keys_distinct (co_cleanups s) \<and>
     (\<forall>k. waiting_cleanup k s \<longrightarrow> (\<exists>f. map_of (co_inflight s) k = Some f \<and> flight_result f s \<noteq> None))"

definition calls_ok :: "request_coalescer \<Rightarrow> bool" where
  "calls_ok s \<longleftrightarrow> (\<forall>c \<in> set (co_calls s). call_ok s c) \<and> (\<forall>k. length (filter (leading k) (co_calls s)) \<le> 1)"

text \<open>Every entry has an owner that will remove it, unless its leader was dropped.\<close>

definition entries_owned :: "request_coalescer \<Rightarrow> bool" where
  "entries_owned s \<longleftrightarrow> (\<forall>k f. map_of (co_inflight s) k = Some f \<longrightarrow>
     (\<exists>c \<in> set (co_calls s). leading k c) \<or> waiting_cleanup k s \<or> Dropped k (Leader f) \<in> set (co_calls s))"

definition co_inv :: "request_coalescer \<Rightarrow> bool" where
  "co_inv s \<longleftrightarrow> flights_ok s \<and> cleanups_ok s \<and> calls_ok s \<and> entries_owned s"

lemma flight_frame [simp]:
  "flight_result f (s\<lparr>co_calls := cs\<rparr>) = flight_result f s" "valid_flight (s\<lparr>co_calls := cs\<rparr>) k f = valid_flight s k f"
  "flight_result f (s\<lparr>co_stats := st\<rparr>) = flight_result f s" "valid_flight (s\<lparr>co_stats := st\<rparr>) k f = valid_flight s k f"
  "flight_result f (s\<lparr>co_now := n\<rparr>) = flight_result f s" "valid_flight (s\<lparr>co_now := n\<rparr>) k f = valid_flight s k f"
  "flight_result f (s\<lparr>co_inflight := m\<rparr>) = flight_result f s" "valid_flight (s\<lparr>co_inflight := m\<rparr>) k f = valid_flight s k f"
  "flight_result f (s\<lparr>co_cleanups := q\<rparr>) = flight_result f s" "valid_flight (s\<lparr>co_cleanups := q\<rparr>) k f = valid_flight s k f"
  by (simp_all add: flight_result_def valid_flight_def)

lemmas co_inv_defs = co_inv_def flights_ok_def cleanups_ok_def calls_ok_def entries_owned_def

lemma filter_update_count:
  "i < length xs \<Longrightarrow> length (filter P (xs[i := y])) + of_bool (P (xs ! i)) = length (filter P xs) + of_bool (P y)"
proof (induction xs arbitrary: i)
  case (Cons x xs)
  then show ?case by (cases i) auto
qed simp

lemma set_update_eq: "i < length xs \<Longrightarrow> set (xs[i := y]) \<subseteq> insert y (set xs)"
  by (rule set_update_subset_insert)

text \<open>What a call that does not lead keeps true when it moves on.\<close>

lemma leading_count: "(\<exists>c \<in> set cs. leading k c) \<longleftrightarrow> 0 < length (filter (leading k) cs)"
  by (auto simp: filter_empty_conv)

lemma leading_update:
  assumes "i < length cs" "\<not> leading k (cs ! i)" "\<not> leading k c"
  shows "length (filter (leading k) (cs[i := c])) = length (filter (leading k) cs)"
    and "(\<exists>c \<in> set (cs[i := c]). leading k c) \<longleftrightarrow> (\<exists>c \<in> set cs. leading k c)"
proof -
  show len: "length (filter (leading k) (cs[i := c])) = length (filter (leading k) cs)"
    using filter_update_count [OF assms(1), of "leading k" c] assms(2,3) by simp
  show "(\<exists>c \<in> set (cs[i := c]). leading k c) \<longleftrightarrow> (\<exists>c \<in> set cs. leading k c)"
    using len by (simp only: leading_count)
qed

lemma kept_in_update: "i < length xs \<Longrightarrow> x \<in> set xs \<Longrightarrow> x \<noteq> xs ! i \<Longrightarrow> x \<in> set (xs[i := y])"
  by (metis in_set_conv_nth length_list_update nth_list_update_neq)

text \<open>A call that only changes its own state, and neither starts nor stops leading.\<close>

lemma move_call:
  assumes inv: "co_inv s" and i: "i < length (co_calls s)" and c: "\<And>k. \<not> leading k c"
    and old: "\<And>k. \<not> leading k (co_calls s ! i)" "\<And>k r. co_calls s ! i \<noteq> Dropped k r"
    and ok: "call_ok s c"
  shows "co_inv (s\<lparr>co_stats := st, co_calls := (co_calls s)[i := c]\<rparr>)"
proof -
  let ?s = "s\<lparr>co_stats := st, co_calls := (co_calls s)[i := c]\<rparr>"
  have same: "valid_flight ?s = valid_flight s" "flight_result f ?s = flight_result f s" for f
    by (auto simp: valid_flight_def fun_eq_iff flight_result_def)
  then have call: "call_ok ?s c = call_ok s c" for c by (cases "(s, c)" rule: call_ok.cases) auto
  have "calls_ok ?s" using inv i ok leading_update(1) [OF i] c old(1) set_update_eq [OF i, of c]
    by (auto simp: co_inv_defs call)
  moreover have "entries_owned ?s" using inv leading_update(2) [OF i] c old(1) kept_in_update [OF i] old(2)
    unfolding co_inv_def entries_owned_def by simp metis
  ultimately show ?thesis using inv by (simp add: co_inv_def flights_ok_def cleanups_ok_def same)
qed

text \<open>A leader that stops running was the only one of its key.\<close>

lemma leader_leaves:
  assumes inv: "calls_ok s" and i: "i < length (co_calls s)" "co_calls s ! i = Running k (Leader f)" and c: "\<And>k. \<not> leading k c"
  shows "c' \<in> set ((co_calls s)[i := c]) \<Longrightarrow> \<not> leading k c'"
    and "length (filter (leading k') ((co_calls s)[i := c])) \<le> 1"
    and "k' \<noteq> k \<Longrightarrow> (\<exists>c \<in> set ((co_calls s)[i := c]). leading k' c) \<longleftrightarrow> (\<exists>c \<in> set (co_calls s). leading k' c)"
proof -
  have "length (filter (leading k) (co_calls s)) \<le> 1" using inv by (simp add: calls_ok_def)
  then have "length (filter (leading k) ((co_calls s)[i := c])) = 0"
    using filter_update_count [OF i(1), of "leading k" c] i(2) c [of k] by (simp only: leading.simps of_bool_eq refl simp_thms)
  then show "\<not> leading k c'" if "c' \<in> set ((co_calls s)[i := c])" using that by (auto simp: filter_empty_conv)
  show others: "(\<exists>c \<in> set ((co_calls s)[i := c]). leading k' c) \<longleftrightarrow> (\<exists>c \<in> set (co_calls s). leading k' c)" if "k' \<noteq> k"
    by (rule leading_update(2)) (use i c that in auto)
  have "length (filter (leading k') ((co_calls s)[i := c])) = length (filter (leading k') (co_calls s))" if "k' \<noteq> k"
    by (rule leading_update(1)) (use i c that in auto)
  then show "length (filter (leading k') ((co_calls s)[i := c])) \<le> 1"
    using inv \<open>length (filter (leading k) ((co_calls s)[i := c])) = 0\<close> by (cases "k' = k") (auto simp: calls_ok_def)
qed

text \<open>Calls other than leaders of \<open>k\<close> do not see whether \<open>k\<close> has an entry or a removal pending.\<close>

lemma call_ok_frame:
  assumes "call_ok s c" "\<And>k f. valid_flight s k f \<Longrightarrow> valid_flight s' k f"
    "\<And>f r. flight_result f s = Some r \<Longrightarrow> flight_result f s' = Some r"
    and "\<And>k. leading k c \<Longrightarrow> map_of (co_inflight s') k = map_of (co_inflight s) k \<and> (waiting_cleanup k s' \<longrightarrow> waiting_cleanup k s)"
  shows "call_ok s' c"
  using assms by (cases "(s, c)" rule: call_ok.cases) auto

lemma same_flights: "co_flights s' = co_flights s \<Longrightarrow> valid_flight s' = valid_flight s"
  "co_flights s' = co_flights s \<Longrightarrow> flight_result f s' = flight_result f s"
  by (simp_all add: valid_flight_def flight_result_def fun_eq_iff)

text \<open>Removing the entry of a key that no call leads, whose flight is finished.\<close>

lemma remove_entry:
  assumes fl: "flights_ok s" "map_of (co_inflight s) k = Some f" "flight_result f s \<noteq> None"
    and s': "co_inflight s' = AList.delete k (co_inflight s)" "co_flights s' = co_flights s"
  shows "flights_ok s'"
  unfolding flights_ok_def
proof (intro conjI allI impI)
  have del: "map_of (co_inflight s') = (map_of (co_inflight s))(k := None)" using s'(1) by simp
  show "keys_distinct (co_inflight s')" using fl(1) s'(1) by (simp add: flights_ok_def)
  show "valid_flight s' k' g" if "map_of (co_inflight s') k' = Some g" for k' g
    using that fl(1) s'(2) by (simp add: del flights_ok_def valid_flight_def split: if_splits)
  show "map_of (co_inflight s') (fl_key (co_flights s' ! g)) = Some g"
    if "g < length (co_flights s')" "fl_result (co_flights s' ! g) = None" for g
  proof -
    have "map_of (co_inflight s) (fl_key (co_flights s ! g)) = Some g" using that s'(2) fl(1) by (simp add: flights_ok_def)
    moreover have "g \<noteq> f" using that s'(2) fl(3) by (auto simp: flight_result_def)
    ultimately show ?thesis using fl(2) by (auto simp: del s'(2))
  qed
qed

lemma leader_stops:
  assumes inv: "co_inv s" and i: "i < length (co_calls s)" "co_calls s ! i = Running k (Leader f)" and c: "\<And>k. \<not> leading k c"
    and s': "co_flights s' = co_flights s" "co_calls s' = (co_calls s)[i := c]"
      "\<And>k'. k' \<noteq> k \<Longrightarrow> map_of (co_inflight s') k' = map_of (co_inflight s) k' \<and> (waiting_cleanup k' s' \<longleftrightarrow> waiting_cleanup k' s)"
    and new: "call_ok s' c"
    and owner: "\<And>f'. map_of (co_inflight s') k = Some f' \<Longrightarrow> waiting_cleanup k s' \<or> Dropped k (Leader f') \<in> set (co_calls s')"
  shows "calls_ok s' \<and> entries_owned s'"
proof
  have calls: "calls_ok s" using inv by (simp add: co_inv_def)
  note leaves = leader_leaves [OF calls i c]
  have ok: "call_ok s' c'" if c': "c' \<in> set (co_calls s')" for c'
  proof (cases "c' = c")
    case False
    then have "call_ok s c'" using set_update_eq [OF i(1), of c] c' s'(2) calls by (auto simp: calls_ok_def)
    moreover have "k' \<noteq> k" if "leading k' c'" for k' using leaves(1) c' s'(2) that by auto
    ultimately show ?thesis using s'(3) same_flights [OF s'(1)] by (metis call_ok_frame)
  qed (simp add: new)
  then show "calls_ok s'" using leaves(2) by (simp add: calls_ok_def s'(2))
  show "entries_owned s'" unfolding entries_owned_def
  proof (intro allI impI)
    fix k' f' assume get: "map_of (co_inflight s') k' = Some f'"
    show "(\<exists>c \<in> set (co_calls s'). leading k' c) \<or> waiting_cleanup k' s' \<or> Dropped k' (Leader f') \<in> set (co_calls s')"
    proof (cases "k' = k")
      case False
      with get s'(3) have old: "map_of (co_inflight s) k' = Some f'" "waiting_cleanup k' s' \<longleftrightarrow> waiting_cleanup k' s" by auto
      have "Dropped k' (Leader f') \<in> set (co_calls s')" if "Dropped k' (Leader f') \<in> set (co_calls s)"
        using kept_in_update [OF i(1) that] i(2) s'(2) by simp
      then show ?thesis using inv old leaves(3) [OF False] by (simp only: co_inv_def entries_owned_def s'(2)) blast
    qed (use owner get in blast)
  qed
qed

lemma running_leader:
  assumes "co_inv s" "i < length (co_calls s)" "co_calls s ! i = Running k (Leader f)"
  shows "valid_flight s k f" "map_of (co_inflight s) k = Some f" "\<not> waiting_cleanup k s"
proof -
  have "call_ok s (Running k (Leader f))" using assms nth_mem [OF assms(2)] unfolding co_inv_def calls_ok_def by metis
  then show "valid_flight s k f" "map_of (co_inflight s) k = Some f" "\<not> waiting_cleanup k s" by simp_all
qed

lemma leading_ok:
  assumes "co_inv s" "c \<in> set (co_calls s)" "leading k c"
  shows "map_of (co_inflight s) k \<noteq> None" "\<not> waiting_cleanup k s"
proof -
  obtain g where "c = Running k (Leader g)" using assms(3) by (cases "(k, c)" rule: leading.cases) auto
  then have "call_ok s (Running k (Leader g))" using assms(1,2) unfolding co_inv_def calls_ok_def by blast
  then show "map_of (co_inflight s) k \<noteq> None" "\<not> waiting_cleanup k s" by simp_all
qed

lemma inv_resume_leader_now:
  assumes inv: "co_inv s" and i: "i < length (co_calls s)" "co_calls s ! i = Running k (Leader f)" and r: "flight_result f s = Some r"
  shows "co_inv (s\<lparr>co_calls := (co_calls s)[i := Returned k (Leader f) r], co_inflight := AList.delete k (co_inflight s)\<rparr>)" (is "co_inv ?s")
proof -
  note lead = running_leader [OF inv i]
  have "calls_ok ?s \<and> entries_owned ?s"
    by (rule leader_stops [OF inv i, where c = "Returned k (Leader f) r"])
      (use lead r in auto)
  moreover have "flights_ok ?s" by (rule remove_entry [of s k f]) (use inv lead r in \<open>auto simp: co_inv_def\<close>)
  moreover have "cleanups_ok ?s" using inv lead(3) by (auto simp: co_inv_def cleanups_ok_def)
  ultimately show ?thesis by (simp add: co_inv_def)
qed

lemma inv_resume_leader_later:
  assumes inv: "co_inv s" and i: "i < length (co_calls s)" "co_calls s ! i = Running k (Leader f)" and r: "flight_result f s = Some r"
  shows "co_inv (s\<lparr>co_calls := (co_calls s)[i := Returned k (Leader f) r], co_cleanups := co_cleanups s @ [(k, t)]\<rparr>)" (is "co_inv ?s")
proof -
  note lead = running_leader [OF inv i]
  have "calls_ok ?s \<and> entries_owned ?s"
    by (rule leader_stops [OF inv i, where c = "Returned k (Leader f) r"])
      (use lead r in auto)
  moreover have "flights_ok ?s" using inv by (simp add: co_inv_def flights_ok_def)
  moreover have "cleanups_ok ?s" using inv lead r by (auto simp: co_inv_def cleanups_ok_def)
  ultimately show ?thesis by (simp add: co_inv_def)
qed

lemma inv_drop_leader:
  assumes inv: "co_inv s" and i: "i < length (co_calls s)" "co_calls s ! i = Running k (Leader f)"
  shows "co_inv (s\<lparr>co_calls := (co_calls s)[i := Dropped k (Leader f)]\<rparr>)" (is "co_inv ?s")
proof -
  note lead = running_leader [OF inv i]
  have "calls_ok ?s \<and> entries_owned ?s"
    by (rule leader_stops [OF inv i, where c = "Dropped k (Leader f)"])
      (use lead i in \<open>auto simp: set_update_memI\<close>)
  moreover have "flights_ok ?s" "cleanups_ok ?s"
    using inv by (simp_all add: co_inv_def flights_ok_def cleanups_ok_def)
  ultimately show ?thesis by (simp add: co_inv_def)
qed

lemma remove_pending:
  assumes "keys_distinct (us @ (k, t) # vs)"
  shows "keys_distinct (us @ vs)" "k \<notin> fst ` set (us @ vs)" "fst ` set (us @ (k, t) # vs) = insert k (fst ` set (us @ vs))"
  using assms by auto

lemma inv_cleanup:
  assumes inv: "co_inv s" and j: "j < length (co_cleanups s)"
  shows "co_inv (delayed_cleanup j s)"
proof -
  obtain k t where kt: "co_cleanups s ! j = (k, t)" by fastforce
  define rest where "rest = take j (co_cleanups s) @ drop (Suc j) (co_cleanups s)"
  have split: "co_cleanups s = take j (co_cleanups s) @ (k, t) # drop (Suc j) (co_cleanups s)"
    using id_take_nth_drop [OF j] kt by simp
  have dist: "keys_distinct (co_cleanups s)" using inv by (simp add: co_inv_def cleanups_ok_def)
  have rest: "keys_distinct rest" "k \<notin> fst ` set rest" "fst ` set (co_cleanups s) = insert k (fst ` set rest)"
    using remove_pending [of "take j (co_cleanups s)" k t "drop (Suc j) (co_cleanups s)"] dist unfolding rest_def by (simp_all flip: split)
  let ?s = "s\<lparr>co_inflight := AList.delete k (co_inflight s), co_cleanups := rest\<rparr>"
  have k: "waiting_cleanup k s" by (simp add: rest(3))
  then obtain f where f: "map_of (co_inflight s) k = Some f" "flight_result f s \<noteq> None"
    using inv unfolding co_inv_def cleanups_ok_def by blast
  have "flights_ok ?s" by (rule remove_entry [OF _ f]) (use inv in \<open>auto simp: co_inv_def\<close>)
  moreover have "cleanups_ok ?s" using inv rest by (auto simp: co_inv_def cleanups_ok_def)
  moreover have idle: "\<not> leading k c" if "c \<in> set (co_calls s)" for c
    using leading_ok [OF inv that] k by blast
  have "call_ok ?s c" if "c \<in> set (co_calls s)" for c
  proof (rule call_ok_frame)
    show "call_ok s c" using inv that by (simp add: co_inv_def calls_ok_def)
    show "map_of (co_inflight ?s) k' = map_of (co_inflight s) k' \<and> (waiting_cleanup k' ?s \<longrightarrow> waiting_cleanup k' s)" if "leading k' c" for k'
      using idle [OF \<open>c \<in> set (co_calls s)\<close>] that rest(3) by (cases "k' = k") auto
  qed simp_all
  then have "calls_ok ?s" using inv by (simp add: co_inv_def calls_ok_def)
  moreover have "entries_owned ?s" using inv rest(3) by (auto simp: co_inv_def entries_owned_def)
  ultimately show ?thesis by (simp add: co_inv_def delayed_cleanup_def kt rest_def)
qed

lemma inv_start_flight:
  assumes inv: "co_inv s" and i: "i < length (co_calls s)" "co_calls s ! i = Attaching k" and free: "map_of (co_inflight s) k = None"
  shows "co_inv (coalesce_entry i k s)"
proof -
  let ?f = "length (co_flights s)"
  define s' where "s' = coalesce_entry i k s"
  have s': "co_flights s' = co_flights s @ [\<lparr>fl_key = k, fl_result = None\<rparr>]" "co_inflight s' = AList.update k ?f (co_inflight s)"
    "co_calls s' = (co_calls s)[i := Running k (Leader ?f)]" "co_cleanups s' = co_cleanups s"
    by (simp_all add: s'_def coalesce_entry_def free Let_def)
  have fl: "valid_flight s' k' g \<longleftrightarrow> (if g = ?f then k' = k else valid_flight s k' g)"
    "flight_result g s' = (if g = ?f then None else flight_result g s)" for k' g
    by (auto simp: valid_flight_def flight_result_def s'(1) nth_append)
  have idle: "\<not> leading k c" if "c \<in> set (co_calls s)" for c
    using leading_ok [OF inv that] free by fastforce
  have none: "\<not> waiting_cleanup k s" using inv free by (auto simp: co_inv_def cleanups_ok_def)
  have old: "call_ok s' c" if "c \<in> set (co_calls s)" for c
  proof -
    have "call_ok s c" "\<not> leading k c" using that inv idle by (auto simp: co_inv_def calls_ok_def)
    then show ?thesis
      by (elim call_ok_frame) (auto simp: s' nth_append valid_flight_def flight_result_def split: if_splits)
  qed
  have new: "map_of (co_inflight s) k' \<noteq> Some ?f" for k'
    using inv by (auto simp: co_inv_def flights_ok_def valid_flight_def)
  have "flights_ok s'" using inv free
    by (auto simp: co_inv_def flights_ok_def fl s' new nth_append less_Suc_eq split: if_splits)
  moreover have "cleanups_ok s'" using inv free none
    unfolding co_inv_def cleanups_ok_def s'(4) fl s'(2) by (auto simp: flight_result_def) force+
  moreover have "calls_ok s'" unfolding calls_ok_def
  proof (intro conjI ballI allI)
    show "call_ok s' c" if "c \<in> set (co_calls s')" for c
    proof (cases "c = Running k (Leader ?f)")
      case False
      then show ?thesis using that set_update_eq [OF i(1)] old s'(3) by fastforce
    qed (use none in \<open>simp add: fl s'\<close>)
    show "length (filter (leading k') (co_calls s')) \<le> 1" for k'
    proof (cases "k' = k")
      case True
      then have "filter (leading k') (co_calls s) = []" using idle by (simp add: filter_empty_conv)
      then show ?thesis using filter_update_count [OF i(1), of "leading k'" "Running k (Leader ?f)"] by (simp add: s'(3) True)
    next
      case False
      then have "length (filter (leading k') (co_calls s')) = length (filter (leading k') (co_calls s))"
        unfolding s'(3) by (intro leading_update(1)) (use i in auto)
      then show ?thesis using inv by (simp add: co_inv_def calls_ok_def)
    qed
  qed
  moreover have "entries_owned s'" unfolding entries_owned_def
  proof (intro allI impI)
    fix k' g assume get: "map_of (co_inflight s') k' = Some g"
    show "(\<exists>c \<in> set (co_calls s'). leading k' c) \<or> waiting_cleanup k' s' \<or> Dropped k' (Leader g) \<in> set (co_calls s')"
    proof (cases "k' = k")
      case True
      then show ?thesis using set_update_memI [OF i(1), of "Running k (Leader ?f)"] by (force simp: s'(3))
    next
      case False
      then have "map_of (co_inflight s) k' = Some g" using get s'(2) by simp
      moreover have "(\<exists>c \<in> set (co_calls s'). leading k' c) \<longleftrightarrow> (\<exists>c \<in> set (co_calls s). leading k' c)"
        unfolding s'(3) by (rule leading_update(2)) (use i False in auto)
      moreover have "Dropped k' (Leader g) \<in> set (co_calls s')" if "Dropped k' (Leader g) \<in> set (co_calls s)"
        using kept_in_update [OF i(1) that] i(2) s'(3) by simp
      ultimately show ?thesis using inv by (simp only: co_inv_def entries_owned_def s'(4)) blast
    qed
  qed
  ultimately show ?thesis by (simp add: co_inv_def flip: s'_def)
qed

lemma inv_flight_done:
  assumes inv: "co_inv s" and f: "f < length (co_flights s)" "fl_result (co_flights s ! f) = None"
  shows "co_inv (s\<lparr>co_flights := (co_flights s)[f := (co_flights s ! f)\<lparr>fl_result := Some r\<rparr>]\<rparr>)" (is "co_inv ?s")
proof -
  have fl: "valid_flight ?s k g = valid_flight s k g" "flight_result g ?s = (if g = f then Some r else flight_result g s)" for k g
    using f by (auto simp: valid_flight_def flight_result_def nth_list_update)
  have "flights_ok ?s" using inv f(1) unfolding co_inv_def flights_ok_def fl by (simp add: nth_list_update)
  moreover have "cleanups_ok ?s" unfolding cleanups_ok_def
  proof (intro conjI allI impI)
    show "keys_distinct (co_cleanups ?s)" using inv by (simp add: co_inv_def cleanups_ok_def)
    fix k assume "waiting_cleanup k ?s"
    then obtain g where "map_of (co_inflight s) k = Some g" "flight_result g s \<noteq> None"
      using inv by (auto simp: co_inv_def cleanups_ok_def)
    then show "\<exists>g. map_of (co_inflight ?s) k = Some g \<and> flight_result g ?s \<noteq> None" unfolding fl by auto
  qed
  moreover have "call_ok ?s c" if "c \<in> set (co_calls s)" for c
  proof (rule call_ok_frame)
    show "call_ok s c" using inv that by (simp add: co_inv_def calls_ok_def)
    have "flight_result f s = None" using f by (simp add: flight_result_def)
    then show "flight_result g ?s = Some x" if "flight_result g s = Some x" for g x using that unfolding fl by auto
  qed (simp_all add: fl)
  then have "calls_ok ?s" using inv by (simp add: co_inv_def calls_ok_def)
  moreover have "entries_owned ?s" using inv by (simp add: co_inv_def entries_owned_def)
  ultimately show ?thesis by (simp add: co_inv_def)
qed

lemma inv_arrive:
  assumes inv: "co_inv s"
  shows "co_inv (s\<lparr>co_calls := co_calls s @ [Guarding k]\<rparr>)" (is "co_inv ?s")
proof -
  have "call_ok ?s c" if "call_ok s c" for c by (rule call_ok_frame [OF that]) simp_all
  then have "calls_ok ?s" using inv by (auto simp: co_inv_def calls_ok_def)
  then show ?thesis using inv by (auto simp: co_inv_def flights_ok_def cleanups_ok_def entries_owned_def)
qed

lemma inv_new: "co_inv (coalescer_new c)"
  by (simp add: co_inv_defs coalescer_new_def)

lemma call_at_Some: "call_at i s = Some c \<longleftrightarrow> i < length (co_calls s) \<and> co_calls s ! i = c"
  by (simp add: call_at_def)

lemma move_running:
  assumes "co_inv s" "i < length (co_calls s)" "co_calls s ! i = Running k role" "\<And>f. role \<noteq> Leader f"
    "c = Dropped k role \<or> (\<exists>r. c = Returned k role r \<and> (\<forall>f. role = Waiter f \<longrightarrow> flight_result f s = Some r))"
  shows "co_inv (s\<lparr>co_calls := (co_calls s)[i := c]\<rparr>)"
proof -
  have "call_ok s (Running k role)" using assms(1,2,3) nth_mem unfolding co_inv_def calls_ok_def by metis
  then have "call_ok s c" using assms(4,5) by (cases role) auto
  moreover have "\<not> leading k' c" for k' using assms(5) by auto
  moreover have "\<not> leading k' (Running k role)" for k' using assms(4) by (cases role) auto
  ultimately have "co_inv (s\<lparr>co_stats := co_stats s, co_calls := (co_calls s)[i := c]\<rparr>)"
    by (intro move_call [OF assms(1,2)]) (simp_all add: assms(3))
  then show ?thesis by simp
qed

lemma inv_entry:
  assumes "co_inv s" "call_at i s = Some (Attaching k)"
  shows "co_inv (coalesce_entry i k s)"
proof (cases "map_of (co_inflight s) k")
  case None
  then show ?thesis using assms inv_start_flight by (simp add: call_at_Some)
next
  case (Some f)
  then have "valid_flight s k f" using assms(1) by (simp add: co_inv_def flights_ok_def)
  then show ?thesis using assms Some
    by (simp add: coalesce_entry_def) (intro move_call; simp add: call_at_Some)
qed

lemma inv_guard:
  assumes "co_inv s" "call_at i s = Some (Guarding k)"
  shows "co_inv (coalesce_guard i k s)"
proof -
  have "co_inv (s\<lparr>co_stats := co_stats s, co_calls := (co_calls s)[i := Attaching k]\<rparr>)"
    "co_inv (s\<lparr>co_stats := st, co_calls := (co_calls s)[i := Running k Bypass]\<rparr>)" for st
    using assms by (intro move_call; simp add: call_at_Some)+
  then show ?thesis by (simp add: coalesce_guard_def)
qed

lemma inv_resume_leader:
  assumes "co_inv s" "call_at i s = Some (Running k (Leader f))" "flight_result f s = Some r"
  shows "co_inv (coalesce_resume i k (Leader f) r s)"
  using assms inv_resume_leader_now inv_resume_leader_later by (simp add: schedule_cleanup_def call_at_Some)

lemma inv_drop:
  assumes "co_inv s" "i < length (co_calls s)" "co_calls s ! i = Running k role"
  shows "co_inv (s\<lparr>co_calls := (co_calls s)[i := Dropped k role]\<rparr>)"
  using assms inv_drop_leader move_running [OF assms] by (cases role) simp_all

lemma inv_elapse: "co_inv s \<Longrightarrow> co_inv (s\<lparr>co_now := n\<rparr>)"
proof -
  have "call_ok (s\<lparr>co_now := n\<rparr>) c = call_ok s c" for c by (cases "(s, c)" rule: call_ok.cases) simp_all
  then show "co_inv s \<Longrightarrow> co_inv (s\<lparr>co_now := n\<rparr>)" by (simp add: co_inv_defs)
qed

lemma inv_step: "co_inv s \<Longrightarrow> co_step e s = Some s' \<Longrightarrow> co_inv s'"
  by (cases e) (auto simp: inv_arrive inv_guard inv_entry inv_flight_done inv_cleanup inv_elapse call_at_Some inv_drop
    intro: inv_resume_leader [unfolded coalesce_resume.simps] move_running
    split: option.splits coalesce_call.splits call_role.splits if_splits)

lemma inv_reach: "co_reach c s \<Longrightarrow> co_inv s"
  by (induction rule: co_reach.induct) (auto intro: inv_new inv_step)

section \<open>Counters\<close>

fun started :: "coalesce_call \<Rightarrow> call_role option" where
  "started (Running k role) = Some role"
| "started (Returned k role r) = Some role"
| "started (Dropped k role) = Some role"
| "started c = None"

fun is_leader :: "call_role option \<Rightarrow> bool" where
  "is_leader (Some (Leader f)) = True"
| "is_leader r = False"

fun is_waiter :: "call_role option \<Rightarrow> bool" where
  "is_waiter (Some (Waiter f)) = True"
| "is_waiter r = False"

fun is_bypass :: "call_role option \<Rightarrow> bool" where
  "is_bypass (Some Bypass) = True"
| "is_bypass r = False"

definition tally :: "(call_role option \<Rightarrow> bool) \<Rightarrow> request_coalescer \<Rightarrow> nat" where
  "tally P s = length (filter (\<lambda>c. P (started c)) (co_calls s))"

definition counters_ok :: "request_coalescer \<Rightarrow> bool" where
  "counters_ok s \<longleftrightarrow> tally is_leader s = length (co_flights s) \<and>
     co_stats s = \<lparr>cs_leaders = word_of_nat (tally is_leader s), cs_waiters = word_of_nat (tally is_waiter s),
       cs_bypassed = word_of_nat (tally is_bypass s), cs_forwards_saved = word_of_nat (tally is_waiter s)\<rparr>"

lemma tally_update:
  assumes "call_at i s = Some c" "co_calls s' = (co_calls s)[i := c']"
  shows "tally P s' + of_bool (P (started c)) = tally P s + of_bool (P (started c'))"
  using filter_update_count [of i "co_calls s" "\<lambda>c. P (started c)" c'] assms by (simp add: tally_def call_at_Some)

lemma tally_same:
  assumes "call_at i s = Some c" "co_calls s' = (co_calls s)[i := c']" "started c' = started c"
  shows "tally P s' = tally P s"
  using tally_update [OF assms(1,2), of P] assms(3) by simp

text \<open>A call that keeps its role, and one that takes a role.\<close>

lemma counters_keep:
  assumes "counters_ok s" "call_at i s = Some c" "co_calls s' = (co_calls s)[i := c']" "started c' = started c"
    and "co_stats s' = co_stats s" "length (co_flights s') = length (co_flights s)"
  shows "counters_ok s'"
  using assms(1,5,6) tally_same [OF assms(2-4)] by (simp add: counters_ok_def)

lemma counters_guard:
  assumes "counters_ok s" "call_at i s = Some (Guarding k)"
  shows "counters_ok (coalesce_guard i k s)"
proof -
  have upd: "tally P (s\<lparr>co_stats := st, co_calls := (co_calls s)[i := Running k Bypass]\<rparr>) = tally P s + of_bool (P (Some Bypass)) - of_bool (P None)"
    "tally P (s\<lparr>co_calls := (co_calls s)[i := Attaching k]\<rparr>) = tally P s" for P st
    using tally_update [OF assms(2), of "s\<lparr>co_stats := st, co_calls := (co_calls s)[i := Running k Bypass]\<rparr>" "Running k Bypass" P]
      tally_update [OF assms(2), of "s\<lparr>co_calls := (co_calls s)[i := Attaching k]\<rparr>" "Attaching k" P] by simp_all
  show ?thesis using assms(1) by (simp add: coalesce_guard_def counters_ok_def upd)
qed

lemma counters_entry:
  assumes "counters_ok s" "call_at i s = Some (Attaching k)"
  shows "counters_ok (coalesce_entry i k s)"
proof -
  obtain role where role: "co_calls (coalesce_entry i k s) = (co_calls s)[i := Running k role]" "role = (case map_of (co_inflight s) k of Some f \<Rightarrow> Waiter f | None \<Rightarrow> Leader (length (co_flights s)))"
    by (auto simp: coalesce_entry_def Let_def split: option.split)
  have "tally P (coalesce_entry i k s) + of_bool (P None) = tally P s + of_bool (P (Some role))" for P
    using tally_update [OF assms(2) role(1), of P] by simp
  from this [of is_leader] this [of is_waiter] this [of is_bypass] show ?thesis
    using assms(1) role(2) by (auto simp: counters_ok_def coalesce_entry_def Let_def split: option.splits)
qed

lemma counters_frame:
  assumes "counters_ok s" "co_calls s' = co_calls s" "co_stats s' = co_stats s" "length (co_flights s') = length (co_flights s)"
  shows "counters_ok s'"
  using assms by (simp add: counters_ok_def tally_def)

lemma counters_resume:
  assumes "counters_ok s" "call_at i s = Some (Running k role)"
  shows "counters_ok (coalesce_resume i k role r s)"
  by (rule counters_keep [OF assms, where c' = "Returned k role r"]) (cases role; simp add: schedule_cleanup_def)+

lemma counters_drop:
  assumes "counters_ok s" "call_at i s = Some (Running k role)"
  shows "counters_ok (s\<lparr>co_calls := (co_calls s)[i := Dropped k role]\<rparr>)"
  by (rule counters_keep [OF assms, where c' = "Dropped k role"]) simp_all

lemma counters_arrive: "counters_ok s \<Longrightarrow> counters_ok (s\<lparr>co_calls := co_calls s @ [Guarding k]\<rparr>)"
  by (simp add: counters_ok_def tally_def)

lemma counters_step:
  assumes "counters_ok s" "co_step e s = Some s'"
  shows "counters_ok s'"
proof -
  have "counters_ok (delayed_cleanup j s)" "counters_ok (s\<lparr>co_now := n\<rparr>)" "counters_ok (s\<lparr>co_flights := (co_flights s)[f := x]\<rparr>)" for j n f x
    by (rule counters_frame [OF assms(1)]; simp add: delayed_cleanup_def)+
  then show ?thesis using assms
    by (cases e) (auto simp: counters_arrive counters_guard counters_entry counters_drop simp del: coalesce_resume.simps
      intro: counters_resume split: option.splits coalesce_call.splits call_role.splits if_splits)
qed

lemma counters_new: "counters_ok (coalescer_new c)"
  by (simp add: counters_ok_def coalescer_new_def tally_def)

lemma counters_reach: "co_reach c s \<Longrightarrow> counters_ok s"
  by (induction rule: co_reach.induct) (blast intro: counters_step counters_new)+

section \<open>Results\<close>

fun joined :: "call_role \<Rightarrow> nat option" where
  "joined (Leader f) = Some f"
| "joined (Waiter f) = Some f"
| "joined Bypass = None"

fun shares :: "u64 \<Rightarrow> nat \<Rightarrow> coalesce_call \<Rightarrow> bool" where
  "shares k f (Running k' role) = (k' = k \<and> joined role = Some f)"
| "shares k f (Returned k' role r) = (k' = k \<and> joined role = Some f)"
| "shares k f (Dropped k' role) = (k' = k \<and> joined role = Some f)"
| "shares k f c = False"

definition shared_calls :: "request_coalescer \<Rightarrow> nat" where
  "shared_calls s = tally (\<lambda>role. case role of Some r \<Rightarrow> joined r \<noteq> None | None \<Rightarrow> False) s"

lemma shared_calls_tally: "shared_calls s = tally is_leader s + tally is_waiter s"
proof -
  have "length (filter (\<lambda>c. case started c of Some r \<Rightarrow> joined r \<noteq> None | None \<Rightarrow> False) cs) =
      length (filter (\<lambda>c. is_leader (started c)) cs) + length (filter (\<lambda>c. is_waiter (started c)) cs)" for cs
  proof (induction cs)
    case (Cons c cs)
    consider "started c = None" | f where "started c = Some (Leader f)" | f where "started c = Some (Waiter f)" | "started c = Some Bypass"
      by (metis call_role.exhaust option.exhaust)
    then show ?case using Cons by cases auto
  qed simp
  then show ?thesis by (simp add: shared_calls_def tally_def)
qed

lemma shares_valid: "co_inv s \<Longrightarrow> c \<in> set (co_calls s) \<Longrightarrow> shares k f c \<Longrightarrow> valid_flight s k f"
proof -
  assume "co_inv s" "c \<in> set (co_calls s)" "shares k f c"
  moreover from this(1,2) have "call_ok s c" unfolding co_inv_def calls_ok_def by blast
  ultimately show ?thesis
    by (cases c) (auto elim: joined.elims)
qed

lemma unfinished_unique:
  assumes "co_inv s" "f < length (co_flights s)" "g < length (co_flights s)"
    "fl_result (co_flights s ! f) = None" "fl_result (co_flights s ! g) = None" "fl_key (co_flights s ! f) = fl_key (co_flights s ! g)"
  shows "f = g"
proof -
  have "map_of (co_inflight s) (fl_key (co_flights s ! h)) = Some h"
    if "h < length (co_flights s)" "fl_result (co_flights s ! h) = None" for h
    using that assms(1) by (simp add: co_inv_def flights_ok_def)
  from this [OF assms(2,4)] this [OF assms(3,5)] show ?thesis unfolding assms(6) by simp
qed

lemma returned_result:
  assumes "co_inv s" "Returned k role r \<in> set (co_calls s)" "joined role = Some f"
  shows "valid_flight s k f" "flight_result f s = Some r"
proof -
  have "call_ok s (Returned k role r)" using assms(1,2) unfolding co_inv_def calls_ok_def by blast
  moreover have "role = Leader f \<or> role = Waiter f" using assms(3) by (cases role) simp_all
  ultimately show "valid_flight s k f" "flight_result f s = Some r" by auto
qed

text \<open>C8. Single flight, under every interleaving of calls, completions, delayed removals and dropped
  calls: a key has at most one unfinished shared forward; calls that shared a forward have the same key and
  return the same result; and as long as no forward of a key has finished, all the calls of that key that were
  not let past the coalescer at its capacity share one forward. The forwards counted as saved are those calls,
  over all keys, less the shared forwards started, modulo the width of the counter.\<close>

theorem single_flight:
  assumes "co_reach c s"
  shows "(\<forall>f g. f < length (co_flights s) \<and> g < length (co_flights s) \<and> fl_result (co_flights s ! f) = None \<and>
        fl_result (co_flights s ! g) = None \<and> fl_key (co_flights s ! f) = fl_key (co_flights s ! g) \<longrightarrow> f = g) \<and>
    (\<forall>k role r k' role' r'. Returned k role r \<in> set (co_calls s) \<and> Returned k' role' r' \<in> set (co_calls s) \<and>
        joined role \<noteq> None \<and> joined role = joined role' \<longrightarrow> k = k' \<and> r = r') \<and>
    (\<forall>k. (\<forall>h < length (co_flights s). fl_key (co_flights s ! h) = k \<longrightarrow> fl_result (co_flights s ! h) = None) \<longrightarrow>
      (\<forall>f g. \<forall>a \<in> set (co_calls s). \<forall>b \<in> set (co_calls s). shares k f a \<and> shares k g b \<longrightarrow> f = g \<and> f < length (co_flights s))) \<and>
    length (co_flights s) \<le> shared_calls s \<and>
    cs_forwards_saved (co_stats s) = word_of_nat (shared_calls s - length (co_flights s))"
proof (intro conjI allI impI ballI)
  note inv = inv_reach [OF assms] counters_reach [OF assms]
  show "f = g" if "f < length (co_flights s) \<and> g < length (co_flights s) \<and> fl_result (co_flights s ! f) = None \<and>
      fl_result (co_flights s ! g) = None \<and> fl_key (co_flights s ! f) = fl_key (co_flights s ! g)" for f g
    using unfinished_unique [OF inv(1)] that by blast
  fix k role r k' role' r'
  assume "Returned k role r \<in> set (co_calls s) \<and> Returned k' role' r' \<in> set (co_calls s) \<and> joined role \<noteq> None \<and> joined role = joined role'"
  then obtain f where "Returned k role r \<in> set (co_calls s)" "Returned k' role' r' \<in> set (co_calls s)" "joined role = Some f" "joined role' = Some f"
    by (metis option.exhaust)
  from returned_result [OF inv(1) this(1,3)] returned_result [OF inv(1) this(2,4)] show "k = k'" "r = r'"
    by (simp_all add: valid_flight_def)
next
  note inv = inv_reach [OF assms]
  fix k f g a b
  assume none: "\<forall>h < length (co_flights s). fl_key (co_flights s ! h) = k \<longrightarrow> fl_result (co_flights s ! h) = None"
    and calls: "a \<in> set (co_calls s)" "b \<in> set (co_calls s)" "shares k f a \<and> shares k g b"
  then have valid: "valid_flight s k f" "valid_flight s k g" using shares_valid [OF inv] by blast+
  then show "f < length (co_flights s)" by (simp add: valid_flight_def)
  from valid none show "f = g" by (intro unfinished_unique [OF inv]) (auto simp: valid_flight_def)
next
  note inv = counters_reach [OF assms]
  show "length (co_flights s) \<le> shared_calls s" "cs_forwards_saved (co_stats s) = word_of_nat (shared_calls s - length (co_flights s))"
    using inv by (simp_all add: counters_ok_def shared_calls_tally)
qed

lemma reach_run: "co_reach c s \<Longrightarrow> co_run es s = Some s' \<Longrightarrow> co_reach c s'"
  by (induction es arbitrary: s) (auto simp: Option.bind_eq_Some_conv intro: co_reach.step)

theorem single_flight_witness:
  "\<exists>s. co_run [Arrive 7, Arrive 7, Arrive 7, Guard 1, Guard 0, Guard 2, Entry 1, Entry 0, Entry 2, Arrive 8, Guard 3] (coalescer_new (coalescing_default\<lparr>cc_max_inflight := 1\<rparr>)) = Some s \<and>
     co_calls s = [Running 7 (Waiter 0), Running 7 (Leader 0), Running 7 (Waiter 0), Running 8 Bypass] \<and>
     shared_calls s = 3 \<and> cs_forwards_saved (co_stats s) = 2 \<and> (\<forall>f. shares 7 f (co_calls s ! 2) \<longrightarrow> f = 0)"
proof -
  obtain s where s: "co_run [Arrive 7, Arrive 7, Arrive 7, Guard 1, Guard 0, Guard 2, Entry 1, Entry 0, Entry 2, Arrive 8, Guard 3] (coalescer_new (coalescing_default\<lparr>cc_max_inflight := 1\<rparr>)) = Some s"
      "co_calls s = [Running 7 (Waiter 0), Running 7 (Leader 0), Running 7 (Waiter 0), Running 8 Bypass]" "map fl_result (co_flights s) = [None]"
    by (simp add: coalescer_new_def coalescing_default_def call_at_def coalesce_guard_def inflight_count_def coalesce_entry_def)
  have len: "length (co_flights s) = 1" using arg_cong [OF s(3), of length] by simp
  have shared: "shared_calls s = 3" by (simp add: shared_calls_def tally_def s(2))
  note sf = single_flight [OF reach_run [OF co_reach.start s(1)]]
  have "cs_forwards_saved (co_stats s) = 2" using sf shared len by simp
  moreover have "f = 0" if "shares 7 f (co_calls s ! 2)" for f using that by (simp add: s(2))
  ultimately show ?thesis using s(1,2) shared by blast
qed

lemma tally_total: "tally is_leader s + tally is_waiter s + tally is_bypass s = length (filter (\<lambda>c. started c \<noteq> None) (co_calls s))"
proof -
  have "length (filter (\<lambda>c. is_leader (started c)) cs) + length (filter (\<lambda>c. is_waiter (started c)) cs) +
      length (filter (\<lambda>c. is_bypass (started c)) cs) = length (filter (\<lambda>c. started c \<noteq> None) cs)" for cs
  proof (induction cs)
    case (Cons c cs)
    consider "started c = None" | f where "started c = Some (Leader f)" | f where "started c = Some (Waiter f)" | "started c = Some Bypass"
      by (metis call_role.exhaust option.exhaust)
    then show ?case using Cons by cases auto
  qed simp
  then show ?thesis by (simp add: tally_def)
qed

lemma resume_call:
  assumes "call_at i s = Some c"
  shows "call_at i (coalesce_resume i k role r s) = Some (Returned k role r)"
proof -
  have "co_calls (coalesce_resume i k role r s) = (co_calls s)[i := Returned k role r]"
    by (cases role) (simp_all add: schedule_cleanup_def)
  then show ?thesis using assms by (simp add: call_at_Some)
qed

lemma resume_returns:
  assumes "call_at i s = Some (Running k role)" "joined role = Some f" "flight_result f s = Some r"
  shows "\<exists>s'. co_step (Resume i) s = Some s' \<and> call_at i s' = Some (Returned k role r)"
  using assms resume_call [OF assms(1), of k role r] by (cases role) (simp_all del: coalesce_resume.simps)

lemma call_can_return:
  assumes inv: "co_inv s" and call: "call_at i s = Some (Running k role)"
  shows "\<exists>es s' r. co_run es s = Some s' \<and> call_at i s' = Some (Returned k role r)"
proof (cases "joined role")
  case None
  then have "role = Bypass" by (cases role) simp_all
  then have "co_run [ForwardDone i r] s = Some (coalesce_resume i k role r s) \<and>
      call_at i (coalesce_resume i k role r s) = Some (Returned k role r)" for r
    using call resume_call [OF call, of k role r] by (simp del: coalesce_resume.simps)
  then show ?thesis by blast
next
  case (Some f)
  have i: "i < length (co_calls s)" "co_calls s ! i = Running k role" using call by (simp_all add: call_at_Some)
  have role: "role = Leader f \<or> role = Waiter f" using Some by (cases role) simp_all
  have "call_ok s (Running k role)" using inv i nth_mem unfolding co_inv_def calls_ok_def by metis
  then have f: "f < length (co_flights s)" using role by (auto simp: valid_flight_def)
  show ?thesis
  proof (cases "flight_result f s")
    case (Some r)
    obtain s' where "co_step (Resume i) s = Some s'" "call_at i s' = Some (Returned k role r)"
      using resume_returns [OF call \<open>joined role = Some f\<close> Some] by blast
    then have "co_run [Resume i] s = Some s' \<and> call_at i s' = Some (Returned k role r)" by (simp del: co_step.simps)
    then show ?thesis by blast
  next
    case None
    let ?r = "Inl (CoalesceError [])"
    let ?t = "s\<lparr>co_flights := (co_flights s)[f := (co_flights s ! f)\<lparr>fl_result := Some ?r\<rparr>]\<rparr>"
    have "list_ex (polls f) (co_calls s)" unfolding list_ex_iff using i role nth_mem [OF i(1)] by (intro bexI [of _ "co_calls s ! i"]) auto
    then have step: "co_step (FlightDone f ?r) s = Some ?t" using None f by (simp add: flight_result_def)
    have "call_at i ?t = Some (Running k role)" "flight_result f ?t = Some ?r" using call f by (simp_all add: call_at_Some flight_result_def)
    then obtain s' where "co_step (Resume i) ?t = Some s'" "call_at i s' = Some (Returned k role ?r)"
      using resume_returns [OF _ \<open>joined role = Some f\<close>] by blast
    then have "co_run [FlightDone f ?r, Resume i] s = Some s' \<and> call_at i s' = Some (Returned k role ?r)"
      using step by (simp del: co_step.simps)
    then show ?thesis by blast
  qed
qed

text \<open>Coalescing delivers and drains. In every reachable state, whatever was dropped before, each call
  that is running can return. The counters account for every call that got past its entry, leaders
  being the shared forwards and the waiters the forwards saved. Once every call has returned and no
  delayed removal is pending, the in-flight map is empty.\<close>

theorem coalesce_drains:
  assumes "co_reach c s"
  shows "(\<forall>i k role. call_at i s = Some (Running k role) \<longrightarrow>
        (\<exists>es s' r. co_run es s = Some s' \<and> call_at i s' = Some (Returned k role r))) \<and>
    stats_snapshot (co_stats s) = (word_of_nat (length (co_flights s)), word_of_nat (tally is_waiter s),
        word_of_nat (tally is_bypass s), word_of_nat (tally is_waiter s)) \<and>
    length (co_flights s) + tally is_waiter s + tally is_bypass s = length (filter (\<lambda>c. started c \<noteq> None) (co_calls s)) \<and>
    (co_cleanups s = [] \<and> (\<forall>c \<in> set (co_calls s). \<exists>k role r. c = Returned k role r) \<longrightarrow> inflight_count s = 0)"
proof (intro conjI allI impI)
  note inv = inv_reach [OF assms] and counters = counters_reach [OF assms]
  show "\<exists>es s' r. co_run es s = Some s' \<and> call_at i s' = Some (Returned k role r)" if "call_at i s = Some (Running k role)" for i k role
    by (rule call_can_return [OF inv that])
  show "stats_snapshot (co_stats s) = (word_of_nat (length (co_flights s)), word_of_nat (tally is_waiter s),
      word_of_nat (tally is_bypass s), word_of_nat (tally is_waiter s))"
    using counters by (simp add: counters_ok_def stats_snapshot_def)
  show "length (co_flights s) + tally is_waiter s + tally is_bypass s = length (filter (\<lambda>c. started c \<noteq> None) (co_calls s))"
    using counters tally_total [of s] by (simp only: counters_ok_def)
  assume idle: "co_cleanups s = [] \<and> (\<forall>c \<in> set (co_calls s). \<exists>k role r. c = Returned k role r)"
  have "map_of (co_inflight s) k = None" for k
  proof (rule ccontr)
    assume "map_of (co_inflight s) k \<noteq> None"
    then obtain f where "map_of (co_inflight s) k = Some f" by blast
    then obtain c where "c \<in> set (co_calls s)" "leading k c \<or> c = Dropped k (Leader f)"
      using inv idle unfolding co_inv_def entries_owned_def by fastforce
    moreover from this idle obtain k' role r where "c = Returned k' role r" by blast
    ultimately show False by simp
  qed
  then have "map_of (co_inflight s) = Map.empty" by blast
  then show "inflight_count s = 0" by (simp add: inflight_count_def)
qed

theorem coalesce_drains_witness:
  "\<exists>s. co_run [Arrive 7, Guard 0, Entry 0, Arrive 7, Guard 1, Entry 1, FlightDone 0 (Inl (CoalesceError ''down'')), Resume 1, Resume 0, Elapse 50, Cleanup 0]
      (coalescer_new coalescing_default) = Some s \<and> inflight_count s = 0 \<and> stats_snapshot (co_stats s) = (1, 1, 0, 1)"
proof -
  obtain s where s: "co_run [Arrive 7, Guard 0, Entry 0, Arrive 7, Guard 1, Entry 1, FlightDone 0 (Inl (CoalesceError ''down'')), Resume 1, Resume 0, Elapse 50, Cleanup 0]
      (coalescer_new coalescing_default) = Some s" "co_cleanups s = []" "length (co_flights s) = 1"
      "co_calls s = [Returned 7 (Leader 0) (Inl (CoalesceError ''down'')), Returned 7 (Waiter 0) (Inl (CoalesceError ''down''))]"
    by (simp add: coalescer_new_def coalescing_default_def call_at_def coalesce_guard_def inflight_count_def coalesce_entry_def
      flight_result_def schedule_cleanup_def delayed_cleanup_def)
  then show ?thesis using coalesce_drains [OF reach_run [OF co_reach.start s(1)]] by (simp add: tally_def)
qed

end
