(* ===== verification/Request.thy ===== *)
theory Request
  imports CoreTypes
begin

text \<open>
  The types of the routing layer: \<open>RoutingContext\<close> and \<open>ScoredBackend\<close> of \<open>crates/hier-kv-gateway-core/src/request.rs\<close>,
  the error type of \<open>error.rs\<close>, the trait of \<open>crates/hier-kv-gateway-routing/src/strategy.rs\<close>, and the
  floating-point operations the scores need.
\<close>

section \<open>Floating-point arithmetic\<close>

text \<open>
  The arithmetic is the exact rational result followed by the rounding of the processor, the
  parameter \<open>fp_round\<close>, which may overflow to an infinity; \<open>exp\<close> and \<open>sqrt\<close> are the library's, \<open>fp_exp\<close> and \<open>fp_sqrt\<close>. The sign of zero
  is not kept: no code divides by a zero it could distinguish.
\<close>

record fpu =
  fp_round :: "rat \<Rightarrow> f64"
  fp_exp :: "f64 \<Rightarrow> f64"
  fp_sqrt :: "f64 \<Rightarrow> f64"

text \<open>The arithmetic without rounding, for concrete instances.\<close>

definition exact_fpu :: fpu where
  "exact_fpu = \<lparr>fp_round = Fin, fp_exp = id, fp_sqrt = id\<rparr>"

definition of_usize :: "fpu \<Rightarrow> nat \<Rightarrow> f64" where
  "of_usize F n = fp_round F (of_nat n)"

fun f64_neg :: "f64 \<Rightarrow> f64" where
  "f64_neg (Fin x) = Fin (- x)"
| "f64_neg PInf = NInf"
| "f64_neg NInf = PInf"
| "f64_neg NaN = NaN"

fun f64_add :: "fpu \<Rightarrow> f64 \<Rightarrow> f64 \<Rightarrow> f64" where
  "f64_add F (Fin x) (Fin y) = fp_round F (x + y)"
| "f64_add F NaN _ = NaN"
| "f64_add F _ NaN = NaN"
| "f64_add F PInf NInf = NaN"
| "f64_add F NInf PInf = NaN"
| "f64_add F PInf _ = PInf"
| "f64_add F _ PInf = PInf"
| "f64_add F NInf _ = NInf"
| "f64_add F _ NInf = NInf"

definition f64_sub :: "fpu \<Rightarrow> f64 \<Rightarrow> f64 \<Rightarrow> f64" where
  "f64_sub F x y = f64_add F x (f64_neg y)"

definition f64_signed_inf :: "rat \<Rightarrow> f64" where
  "f64_signed_inf x = (if x = 0 then NaN else if 0 < x then PInf else NInf)"

fun f64_mul :: "fpu \<Rightarrow> f64 \<Rightarrow> f64 \<Rightarrow> f64" where
  "f64_mul F (Fin x) (Fin y) = fp_round F (x * y)"
| "f64_mul F NaN _ = NaN"
| "f64_mul F _ NaN = NaN"
| "f64_mul F PInf (Fin y) = f64_signed_inf y"
| "f64_mul F (Fin x) PInf = f64_signed_inf x"
| "f64_mul F NInf (Fin y) = f64_signed_inf (- y)"
| "f64_mul F (Fin x) NInf = f64_signed_inf (- x)"
| "f64_mul F x y = (if x = y then PInf else NInf)"

fun f64_div :: "fpu \<Rightarrow> f64 \<Rightarrow> f64 \<Rightarrow> f64" where
  "f64_div F (Fin x) (Fin y) = (if y = 0 then f64_signed_inf x else fp_round F (x / y))"
| "f64_div F NaN _ = NaN"
| "f64_div F _ NaN = NaN"
| "f64_div F (Fin x) _ = Fin 0"
| "f64_div F PInf (Fin y) = (if 0 \<le> y then PInf else NInf)"
| "f64_div F NInf (Fin y) = (if 0 \<le> y then NInf else PInf)"
| "f64_div F _ _ = NaN"

definition f64_le :: "f64 \<Rightarrow> f64 \<Rightarrow> bool" where
  "f64_le x y \<longleftrightarrow> f64_less x y \<or> (x = y \<and> x \<noteq> NaN)"

fun f64_is_finite :: "f64 \<Rightarrow> bool" where
  "f64_is_finite (Fin _) = True"
| "f64_is_finite _ = False"

text \<open>\<open>f64::min\<close> and \<open>f64::clamp\<close>; the largest double and the machine epsilon.\<close>

definition f64_min :: "f64 \<Rightarrow> f64 \<Rightarrow> f64" where
  "f64_min x y = (if x = NaN then y else if y = NaN then x else if f64_less y x then y else x)"

definition f64_clamp :: "f64 \<Rightarrow> f64 \<Rightarrow> f64 \<Rightarrow> f64" where
  "f64_clamp lo hi x = (if f64_less x lo then lo else if f64_less hi x then hi else x)"

definition f64_sum :: "fpu \<Rightarrow> f64 list \<Rightarrow> f64" where
  "f64_sum F xs = foldl (f64_add F) (Fin 0) xs"

definition F64_MAX :: rat where
  "F64_MAX = (2 ^ 53 - 1) * 2 ^ 971"

definition F64_EPSILON :: rat where
  "F64_EPSILON = 1 / 2 ^ 52"

text \<open>
  A rounding without overflow, as far as proofs need it: IEEE 754 rounds to a nearest double, so it is
  monotone, keeps doubles and in particular powers of two.
\<close>

definition rounds :: "fpu \<Rightarrow> (rat \<Rightarrow> rat) \<Rightarrow> bool" where
  "rounds F rnd \<longleftrightarrow> fp_round F = (\<lambda>x. Fin (rnd x)) \<and> mono rnd \<and> rnd 0 = 0 \<and> (\<forall>k. rnd (2 ^ k) = 2 ^ k \<and> rnd (1 / 2 ^ k) = 1 / 2 ^ k)"

lemma rounds_exact: "rounds exact_fpu id"
  by (simp add: rounds_def exact_fpu_def mono_def fun_eq_iff)

lemma rounds_one: "rounds F rnd \<Longrightarrow> rnd 1 = 1"
  unfolding rounds_def by (metis power_0)

lemma rounds_fp: "rounds F rnd \<Longrightarrow> fp_round F x = Fin (rnd x)"
  by (simp add: rounds_def)

lemma rounds_ops:
  assumes "rounds F rnd"
  shows "f64_add F (Fin x) (Fin y) = Fin (rnd (x + y))" "f64_sub F (Fin x) (Fin y) = Fin (rnd (x - y))"
    "f64_mul F (Fin x) (Fin y) = Fin (rnd (x * y))" "y \<noteq> 0 \<Longrightarrow> f64_div F (Fin x) (Fin y) = Fin (rnd (x / y))"
    "of_usize F n = Fin (rnd (of_nat n))"
  using assms by (simp_all add: rounds_def f64_sub_def of_usize_def)

lemma rounds_mono: "rounds F rnd \<Longrightarrow> x \<le> y \<Longrightarrow> rnd x \<le> rnd y"
  by (simp add: rounds_def monoD)

lemma rounds_nonneg: "rounds F rnd \<Longrightarrow> 0 \<le> x \<Longrightarrow> 0 \<le> rnd x"
  using rounds_mono [of F rnd 0 x] by (simp add: rounds_def)

lemma rounds_le_one: "rounds F rnd \<Longrightarrow> x \<le> 1 \<Longrightarrow> rnd x \<le> 1"
  using rounds_mono [of F rnd x 1] by (simp add: rounds_one)

lemma exact_round: "rounds F id \<Longrightarrow> fp_round F x = Fin x"
  by (simp add: rounds_def)

definition in_unit :: "f64 \<Rightarrow> bool" where
  "in_unit x \<longleftrightarrow> (\<exists>r. x = Fin r \<and> 0 \<le> r \<and> r \<le> 1)"

lemma in_unit_Fin [simp]: "in_unit (Fin q) \<longleftrightarrow> 0 \<le> q \<and> q \<le> 1"
  by (simp add: in_unit_def)

lemma clamp_unit: "x \<noteq> NaN \<Longrightarrow> in_unit (f64_clamp (Fin 0) (Fin 1) x)"
  by (cases x) (simp_all add: f64_clamp_def)

section \<open>Requests, scores, errors\<close>

record routing_context =
  rc_request_id :: "request_id option"
  rc_session_id :: "session_id option"
  rc_tenant_id :: "tenant_id option"
  rc_model_name :: "string option"
  rc_token_ids :: "u32 list"
  rc_block_hashes :: "u64 list"
  rc_block_size :: u32
  rc_lora_name :: "string option"
  rc_cache_namespace :: "string option"
  rc_estimated_output_tokens :: u32
  rc_requires_tool_calling :: bool

record scored_backend =
  sb_backend_id :: backend_id
  sb_score :: f64
  sb_raw_cost :: f64
  sb_meta_version :: u64

datatype gateway_error =
    BackendUnavailable
  | RoutingFailed string
  | ConnectorError string
  | MetricsError string
  | ConfigError string
  | ClusterError string
  | NotFound string
  | RateLimited
  | InternalError string

text \<open>How a call fails: it returns an error, or it panics.\<close>

datatype failure = Err gateway_error | Panicked

end
