(* ===== verification/Selection.thy ===== *)
theory Selection
  imports Request "HOL-Library.Multiset"
begin

text \<open>
  Selection from scores: \<open>select_with_temperature\<close> and \<open>select_ranked\<close> of \<open>crates/hier-kv-gateway-routing/src/engine.rs\<close>.
  The sampling of the \<open>rand\<close> crate is the parameter \<open>draw\<close>: from the round and the weights, the index it
  returns, or \<open>None\<close> where \<open>WeightedIndex::new\<close> refuses the weights.
\<close>

section \<open>Operations\<close>

text \<open>\<open>max_by\<close> with \<open>partial_cmp(..).unwrap_or(Equal)\<close>: the last of the greatest elements.\<close>

fun max_by_score :: "scored_backend list \<Rightarrow> scored_backend option" where
  "max_by_score [] = None"
| "max_by_score (x # xs) = Some (foldl (\<lambda>best y. if f64_less (sb_score y) (sb_score best) then best else y) x xs)"

definition select_with_temperature :: "fpu \<Rightarrow> (f64 list \<Rightarrow> nat option) \<Rightarrow> scored_backend list \<Rightarrow> f64 \<Rightarrow> scored_backend option" where
  "select_with_temperature F draw scores temperature =
     (if scores = [] then None
      else if f64_le temperature (Fin 0) then max_by_score scores
      else let max_score = foldl f64_max NInf (map sb_score scores);
               exps = map (\<lambda>s. fp_exp F (f64_div F (f64_sub F (sb_score s) max_score) temperature)) scores;
               sum = foldl (f64_add F) (Fin 0) exps
           in if \<not> f64_is_finite sum \<or> f64_le sum (Fin 0) then max_by_score scores
              else map_option (\<lambda>idx. scores ! idx) (draw (map (\<lambda>e. f64_div F e sum) exps)))"

fun position :: "('a \<Rightarrow> bool) \<Rightarrow> 'a list \<Rightarrow> nat option" where
  "position P [] = None"
| "position P (x # xs) = (if P x then Some 0 else map_option Suc (position P xs))"

lemma position_less: "position P xs = Some i \<Longrightarrow> i < length xs \<and> P (xs ! i)"
  by (induction xs arbitrary: i) (auto split: if_splits)

function select_loop :: "fpu \<Rightarrow> (nat \<Rightarrow> f64 list \<Rightarrow> nat option) \<Rightarrow> f64 \<Rightarrow> nat \<Rightarrow> scored_backend list \<Rightarrow> scored_backend list \<Rightarrow> scored_backend list" where
  "select_loop F draw temperature limit pool out =
     (if length out < limit \<and> pool \<noteq> [] then
        (case select_with_temperature F (draw (length out)) pool temperature of
           None \<Rightarrow> out
         | Some pick \<Rightarrow>
             (case position (\<lambda>s. sb_backend_id s = sb_backend_id pick) pool of
                None \<Rightarrow> out
              | Some pos \<Rightarrow> select_loop F draw temperature limit (take pos pool @ drop (Suc pos) pool) (out @ [pool ! pos])))
      else out)"
  by pat_completeness auto
termination
  by (relation "measure (\<lambda>(F, draw, temperature, limit, pool, out). length pool)") (auto dest: position_less)

declare select_loop.simps [simp del]

definition select_ranked :: "fpu \<Rightarrow> (nat \<Rightarrow> f64 list \<Rightarrow> nat option) \<Rightarrow> scored_backend list \<Rightarrow> f64 \<Rightarrow> nat \<Rightarrow> scored_backend list" where
  "select_ranked F draw scores temperature limit = select_loop F draw temperature limit scores []"

section \<open>The order of scores\<close>

text \<open>The order that sorts scores: IEEE's on numbers, with \<open>NaN\<close> last.\<close>

instantiation f64 :: linorder
begin

definition less_f64 :: "f64 \<Rightarrow> f64 \<Rightarrow> bool" where
  "x < y \<longleftrightarrow> f64_less x y \<or> (y = NaN \<and> x \<noteq> NaN)"

definition less_eq_f64 :: "f64 \<Rightarrow> f64 \<Rightarrow> bool" where
  "x \<le> y \<longleftrightarrow> x = y \<or> x < y" for x y :: f64

instance
proof
  fix x y z :: f64
  show "x < y \<longleftrightarrow> x \<le> y \<and> \<not> y \<le> x"
    by (cases x; cases y) (auto simp: less_f64_def less_eq_f64_def)
  show "x \<le> x" by (simp add: less_eq_f64_def)
  show "x \<le> y \<Longrightarrow> y \<le> z \<Longrightarrow> x \<le> z"
    by (cases x; cases y; cases z) (auto simp: less_f64_def less_eq_f64_def)
  show "x \<le> y \<Longrightarrow> y \<le> x \<Longrightarrow> x = y"
    by (cases x; cases y) (auto simp: less_f64_def less_eq_f64_def)
  show "x \<le> y \<or> y \<le> x"
    by (cases x; cases y) (auto simp: less_f64_def less_eq_f64_def)
qed

end

lemma f64_less_iff: "x \<noteq> NaN \<Longrightarrow> y \<noteq> NaN \<Longrightarrow> f64_less x y \<longleftrightarrow> x < y"
  by (simp add: less_f64_def)

definition numeric :: "scored_backend list \<Rightarrow> bool" where
  "numeric xs \<longleftrightarrow> (\<forall>x \<in> set xs. sb_score x \<noteq> NaN)"

section \<open>Greedy selection\<close>

lemma max_by_snoc:
  "max_by_score (xs @ [y]) = (case max_by_score xs of None \<Rightarrow> Some y
     | Some best \<Rightarrow> Some (if f64_less (sb_score y) (sb_score best) then best else y))"
  by (cases xs) simp_all

lemma max_by_None [simp]: "max_by_score xs = None \<longleftrightarrow> xs = []"
  by (cases xs) simp_all

lemma max_by_mem: "max_by_score xs = Some p \<Longrightarrow> p \<in> set xs"
  by (induction xs arbitrary: p rule: rev_induct) (auto simp: max_by_snoc split: option.splits if_splits)

lemma max_by_split:
  "numeric xs \<Longrightarrow> max_by_score xs = Some p \<Longrightarrow>
    \<exists>us vs. xs = us @ p # vs \<and> (\<forall>u \<in> set us. sb_score u \<le> sb_score p) \<and> (\<forall>v \<in> set vs. sb_score v < sb_score p)"
proof (induction xs arbitrary: p rule: rev_induct)
  case (snoc y xs)
  have num: "numeric xs" "sb_score y \<noteq> NaN" using snoc.prems(1) by (auto simp: numeric_def)
  show ?case
  proof (cases "max_by_score xs")
    case None
    then have "xs @ [y] = [] @ p # []" using snoc.prems(2) by (simp add: max_by_snoc)
    then show ?thesis by fastforce
  next
    case (Some q)
    then obtain us vs where IH: "xs = us @ q # vs" "\<forall>u \<in> set us. sb_score u \<le> sb_score q" "\<forall>v \<in> set vs. sb_score v < sb_score q"
      using snoc.IH num(1) by blast
    then have "sb_score q \<noteq> NaN" using num(1) by (auto simp: numeric_def)
    then have less: "f64_less (sb_score y) (sb_score q) \<longleftrightarrow> sb_score y < sb_score q" using num(2) by (rule f64_less_iff [rotated])
    show ?thesis
    proof (cases "sb_score y < sb_score q")
      case True
      then have "p = q" using snoc.prems(2) Some less by (simp add: max_by_snoc)
      then have "xs @ [y] = us @ p # (vs @ [y])" "\<forall>v \<in> set (vs @ [y]). sb_score v < sb_score p" using IH True by auto
      then show ?thesis using IH(2) \<open>p = q\<close> by blast
    next
      case False
      then have "p = y" using snoc.prems(2) Some less by (simp add: max_by_snoc)
      then have "xs @ [y] = xs @ p # []" "\<forall>u \<in> set xs. sb_score u \<le> sb_score p" using IH False by (auto intro: order_trans)
      then show ?thesis by fastforce
    qed
  qed
qed simp

text \<open>Taking the last greatest element is taking the end of the stable sort.\<close>

lemma sort_key_last:
  fixes f :: "'a \<Rightarrow> 'b::linorder"
  assumes "\<forall>u \<in> set us. f u \<le> f p" "\<forall>v \<in> set vs. f v < f p"
  shows "sort_key f (us @ p # vs) = sort_key f (us @ vs) @ [p]"
proof (rule properties_for_sort_key)
  show "mset (sort_key f (us @ vs) @ [p]) = mset (us @ p # vs)" by simp
  show "sorted (map f (sort_key f (us @ vs) @ [p]))" using assms by (auto simp: sorted_append intro: less_imp_le)
  have stable: "filter (\<lambda>x. f k = f x) (sort_key f xs) = filter (\<lambda>x. f k = f x) xs" for k xs
    by (metis (mono_tags, lifting) filter_cong sort_key_stable)
  show "filter (\<lambda>x. f k = f x) (sort_key f (us @ vs) @ [p]) = filter (\<lambda>x. f k = f x) (us @ p # vs)" for k
  proof (cases "f k = f p")
    case True
    then have "filter (\<lambda>x. f k = f x) vs = []" using assms(2) by (auto simp: filter_empty_conv)
    then show ?thesis using True by (simp add: stable)
  qed (simp add: stable)
qed

lemma position_first:
  assumes "distinct (map g (us @ p # vs))"
  shows "position (\<lambda>s. g s = g p) (us @ p # vs) = Some (length us)"
  using assms by (induction us) auto

lemma greedy_pick: "pool \<noteq> [] \<Longrightarrow> f64_le temperature (Fin 0) \<Longrightarrow> select_with_temperature F d pool temperature = max_by_score pool"
  by (simp add: select_with_temperature_def)

lemma select_loop_greedy:
  assumes "numeric pool" "distinct (map sb_backend_id pool)" "f64_le temperature (Fin 0)"
  shows "select_loop F draw temperature limit pool out = out @ take (limit - length out) (rev (sort_key sb_score pool))"
  using assms
proof (induction "length pool" arbitrary: pool out)
  case 0
  then show ?case by (simp add: select_loop.simps)
next
  case (Suc n)
  then obtain p where p: "max_by_score pool = Some p" by (metis max_by_None length_0_conv nat.distinct(1) not_None_eq)
  then obtain us vs where split: "pool = us @ p # vs" "\<forall>u \<in> set us. sb_score u \<le> sb_score p" "\<forall>v \<in> set vs. sb_score v < sb_score p"
    using max_by_split Suc.prems(1) by blast
  have pos: "position (\<lambda>s. sb_backend_id s = sb_backend_id p) pool = Some (length us)"
    unfolding split(1) by (rule position_first) (use Suc.prems(2) split(1) in simp)
  have rest: "take (length us) pool @ drop (Suc (length us)) pool = us @ vs" "pool ! length us = p" by (simp_all add: split(1))
  have rev: "rev (sort_key sb_score pool) = p # rev (sort_key sb_score (us @ vs))"
    using sort_key_last [OF split(2,3)] by (simp add: split(1))
  show ?case
  proof (cases "length out < limit")
    case True
    have "pool \<noteq> []" by (simp add: split(1))
    then have "select_loop F draw temperature limit pool out = select_loop F draw temperature limit (us @ vs) (out @ [p])"
      using True p pos rest greedy_pick [OF _ Suc.prems(3)] by (subst select_loop.simps) simp
    also have "\<dots> = out @ [p] @ take (limit - Suc (length out)) (rev (sort_key sb_score (us @ vs)))"
      using Suc.hyps(1) [of "us @ vs" "out @ [p]"] Suc.hyps(2) Suc.prems by (simp add: split(1) numeric_def)
    finally show ?thesis using True by (simp add: rev take_Cons')
  qed (simp add: select_loop.simps)
qed

section \<open>Selection at any temperature\<close>

lemma select_loop_subset:
  "\<exists>rest. select_loop F draw temperature limit pool out = out @ rest \<and> mset rest \<subseteq># mset pool \<and> length out + length rest \<le> max limit (length out)"
proof (induction F draw temperature limit pool out rule: select_loop.induct)
  case (1 F draw temperature limit pool out)
  show ?case
  proof (cases "length out < limit \<and> pool \<noteq> []")
    case True
    show ?thesis
    proof (cases "select_with_temperature F (draw (length out)) pool temperature")
      case (Some pick)
      show ?thesis
      proof (cases "position (\<lambda>s. sb_backend_id s = sb_backend_id pick) pool")
        case (Some pos)
        let ?pool = "take pos pool @ drop (Suc pos) pool"
        have "pos < length pool" using position_less [OF Some] by simp
        then have pool: "mset pool = add_mset (pool ! pos) (mset ?pool)" using id_take_nth_drop [of pos pool]
          by (metis mset.simps(2) mset_append union_mset_add_mset_right)
        obtain rest where rest: "select_loop F draw temperature limit ?pool (out @ [pool ! pos]) = (out @ [pool ! pos]) @ rest"
          "mset rest \<subseteq># mset ?pool" "length (out @ [pool ! pos]) + length rest \<le> max limit (length (out @ [pool ! pos]))"
          using 1 [OF True \<open>select_with_temperature F (draw (length out)) pool temperature = Some pick\<close> Some] by blast
        then have "select_loop F draw temperature limit pool out = out @ (pool ! pos # rest)"
          using True \<open>select_with_temperature F (draw (length out)) pool temperature = Some pick\<close> Some by (subst select_loop.simps) simp
        then show ?thesis using rest(2,3) pool True by (intro exI [of _ "pool ! pos # rest"]) auto
      qed (use True \<open>select_with_temperature F (draw (length out)) pool temperature = Some pick\<close> in \<open>simp add: select_loop.simps\<close>)
    qed (use True in \<open>simp add: select_loop.simps\<close>)
  qed (auto simp: select_loop.simps)
qed

lemma pick_in_pool:
  assumes "\<And>ws. ws \<noteq> [] \<Longrightarrow> \<exists>i < length ws. d ws = Some i" "pool \<noteq> []"
  shows "\<exists>pick \<in> set pool. select_with_temperature F d pool temperature = Some pick"
proof -
  have greedy: "\<exists>pick \<in> set pool. max_by_score pool = Some pick" using assms(2) max_by_mem by (metis max_by_None not_None_eq)
  have draw: "\<exists>pick \<in> set pool. map_option ((!) pool) (d (map g (map h pool))) = Some pick" for g :: "f64 \<Rightarrow> f64" and h
  proof -
    obtain i where "i < length pool" "d (map g (map h pool)) = Some i" using assms(1) [of "map g (map h pool)"] assms(2) by auto
    then show ?thesis by auto
  qed
  show ?thesis unfolding select_with_temperature_def Let_def using greedy draw assms(2) by simp
qed

lemma position_mem: "x \<in> set xs \<Longrightarrow> P x \<Longrightarrow> \<exists>i. position P xs = Some i"
  by (induction xs) auto

lemma select_loop_length:
  assumes "\<And>k ws. ws \<noteq> [] \<Longrightarrow> \<exists>i < length ws. draw k ws = Some i"
  shows "length out \<le> limit \<Longrightarrow> length (select_loop F draw temperature limit pool out) = min limit (length out + length pool)"
proof (induction "length pool" arbitrary: pool out)
  case 0
  then show ?case by (simp add: select_loop.simps)
next
  case (Suc n)
  show ?case
  proof (cases "length out < limit")
    case True
    have pool: "pool \<noteq> []" using Suc.hyps(2) by auto
    have "\<exists>i < length ws. draw (length out) ws = Some i" if "ws \<noteq> []" for ws using assms that .
    from pick_in_pool [OF this pool] obtain pick where pick: "pick \<in> set pool"
      "select_with_temperature F (draw (length out)) pool temperature = Some pick" by blast
    obtain pos where pos: "position (\<lambda>s. sb_backend_id s = sb_backend_id pick) pool = Some pos"
      using position_mem [OF pick(1), of "\<lambda>s. sb_backend_id s = sb_backend_id pick"] by auto
    let ?pool = "take pos pool @ drop (Suc pos) pool"
    have len: "length ?pool = n" using position_less [OF pos] Suc.hyps(2) by simp
    have "select_loop F draw temperature limit pool out = select_loop F draw temperature limit ?pool (out @ [pool ! pos])"
      using True pool pick(2) pos by (subst select_loop.simps) simp
    then show ?thesis using Suc.hyps(1) [of ?pool "out @ [pool ! pos]"] len True Suc.hyps(2) by simp
  qed (use Suc.prems in \<open>simp add: select_loop.simps\<close>)
qed

text \<open>C30. Selection of a failover order. At every temperature, \<open>select_ranked\<close> returns at most \<open>limit\<close> of the given
  scores, none twice; if the sampling always yields an index, it returns exactly \<open>limit\<close> of them, or all
  when there are fewer. At a temperature of zero or below, on numeric scores of distinct backends, it
  equals sorting by score, reversing and truncating.\<close>

theorem ranked_selection:
  "mset (select_ranked F draw scores temperature limit) \<subseteq># mset scores \<and>
   length (select_ranked F draw scores temperature limit) \<le> limit \<and>
   ((\<forall>k ws. ws \<noteq> [] \<longrightarrow> (\<exists>i < length ws. draw k ws = Some i)) \<longrightarrow>
     length (select_ranked F draw scores temperature limit) = min limit (length scores)) \<and>
   (numeric scores \<and> distinct (map sb_backend_id scores) \<and> f64_le temperature (Fin 0) \<longrightarrow>
     select_ranked F draw scores temperature limit = take limit (rev (sort_key sb_score scores)))"
proof -
  obtain rest where "select_loop F draw temperature limit scores [] = rest" "mset rest \<subseteq># mset scores" "length rest \<le> limit"
    using select_loop_subset [of F draw temperature limit scores "[]"] by auto
  moreover have "length (select_loop F draw temperature limit scores []) = min limit (length scores)"
    if "\<forall>k ws. ws \<noteq> [] \<longrightarrow> (\<exists>i < length ws. draw k ws = Some i)"
    using select_loop_length [of draw "[]"] that by simp
  ultimately show ?thesis using select_loop_greedy [of scores temperature F draw limit "[]"] by (simp add: select_ranked_def)
qed

definition score_of :: "string \<Rightarrow> rat \<Rightarrow> scored_backend" where
  "score_of n x = \<lparr>sb_backend_id = BackendId (RegionId ''eu'') (BackendInstanceId n), sb_score = Fin x, sb_raw_cost = Fin (- x), sb_meta_version = 0\<rparr>"

theorem ranked_selection_witness:
  "select_ranked exact_fpu (\<lambda>_ _. None) [score_of ''a'' 1, score_of ''b'' 3, score_of ''c'' 2] (Fin 0) 2 =
    [score_of ''b'' 3, score_of ''c'' 2]"
proof -
  have "numeric [score_of ''a'' 1, score_of ''b'' 3, score_of ''c'' 2]"
    "distinct (map sb_backend_id [score_of ''a'' 1, score_of ''b'' 3, score_of ''c'' 2])" "f64_le (Fin 0) (Fin 0)"
    by (simp_all add: numeric_def score_of_def f64_le_def)
  then show ?thesis
    using ranked_selection [of "exact_fpu" "\<lambda>_ _. None" "[score_of ''a'' 1, score_of ''b'' 3, score_of ''c'' 2]" "Fin 0" 2,
        THEN conjunct2, THEN conjunct2, THEN conjunct2]
    by (simp add: score_of_def less_eq_f64_def less_f64_def)
qed

end
