(* ===== verification/PrefixHistory.thy ===== *)
theory PrefixHistory
  imports Ids "HOL-Library.Multiset"
begin

text \<open>
  The dispatch history of request prefixes, \<open>crates/hier-kv-gateway-routing/src/prefix_history.rs\<close>. The clock (Unix seconds) is the argument \<open>now\<close>. Eviction sorts
  by time stamp with an unstable sort over the unspecified order of a hash map; a stable sort over
  the association list, whose order is unspecified, gives every outcome.
\<close>

section \<open>State and operations\<close>

definition PREFIX_SEED :: u64 where
  "PREFIX_SEED = 0x484945524B564757"

definition DEFAULT_MAX_ENTRIES :: nat where
  "DEFAULT_MAX_ENTRIES = 10000"

record dispatch_record =
  dr_backend :: backend_id
  dr_dispatch_count :: u64
  dr_last_dispatched_unix :: u64

record prefix_reuse_history =
  ph_entries :: "(u64 \<times> dispatch_record) list"
  ph_max_entries :: nat

definition prefix_history_new :: "nat \<Rightarrow> prefix_reuse_history" where
  "prefix_history_new n = \<lparr>ph_entries = [], ph_max_entries = n\<rparr>"

definition with_default_capacity :: prefix_reuse_history where
  "with_default_capacity = prefix_history_new DEFAULT_MAX_ENTRIES"

text \<open>The loop of \<open>compute_prefix_hashes\<close> after the first block.\<close>

fun chain_hashes :: "xxh3 \<Rightarrow> u64 \<Rightarrow> u64 list \<Rightarrow> u64 list" where
  "chain_hashes xxh prev [] = []"
| "chain_hashes xxh prev (h # hs) =
     (let next_hash = xxh (le_bytes64 prev @ le_bytes64 h) PREFIX_SEED in next_hash # chain_hashes xxh next_hash hs)"

fun compute_prefix_hashes :: "xxh3 \<Rightarrow> u64 list \<Rightarrow> u64 list" where
  "compute_prefix_hashes xxh [] = []"
| "compute_prefix_hashes xxh (h # hs) =
     (let first_hash = xxh (le_bytes64 h) PREFIX_SEED in first_hash # chain_hashes xxh first_hash hs)"

definition evict_if_needed :: "prefix_reuse_history \<Rightarrow> prefix_reuse_history" where
  "evict_if_needed s =
     (if length (ph_entries s) \<le> ph_max_entries s then s
      else let surplus = length (ph_entries s) - ph_max_entries s;
               stamped = map (\<lambda>(k, v). (k, dr_last_dispatched_unix v)) (ph_entries s);
               to_remove = map fst (take surplus (sort_key snd stamped))
           in s\<lparr>ph_entries := fold AList.delete to_remove (ph_entries s)\<rparr>)"

definition record_prefix :: "u64 \<Rightarrow> backend_id \<Rightarrow> u64 \<Rightarrow> (u64 \<times> dispatch_record) list \<Rightarrow> (u64 \<times> dispatch_record) list" where
  "record_prefix now b ph es =
     (case map_of es ph of
        Some rec \<Rightarrow> AList.update ph (rec\<lparr>dr_dispatch_count := sat_add (dr_dispatch_count rec) 1,
                      dr_last_dispatched_unix := now, dr_backend := b\<rparr>) es
      | None \<Rightarrow> AList.update ph \<lparr>dr_backend = b, dr_dispatch_count = 1, dr_last_dispatched_unix = now\<rparr> es)"

definition record_dispatch :: "xxh3 \<Rightarrow> u64 \<Rightarrow> u64 list \<Rightarrow> backend_id \<Rightarrow> prefix_reuse_history \<Rightarrow> prefix_reuse_history" where
  "record_dispatch xxh now hs b s =
     (if hs = [] then s
      else evict_if_needed (s\<lparr>ph_entries := fold (record_prefix now b) (compute_prefix_hashes xxh hs) (ph_entries s)\<rparr>))"

text \<open>The search from the longest prefix down: index and hash of each prefix, longest first.\<close>

fun longest_from :: "(u64 \<times> dispatch_record) list \<Rightarrow> (nat \<times> u64) list \<Rightarrow> (nat \<times> dispatch_record) option" where
  "longest_from es [] = None"
| "longest_from es ((idx, ph) # rest) =
     (case map_of es ph of Some rec \<Rightarrow> Some (idx + 1, rec) | None \<Rightarrow> longest_from es rest)"

definition find_longest_match :: "xxh3 \<Rightarrow> u64 list \<Rightarrow> prefix_reuse_history \<Rightarrow> (nat \<times> dispatch_record) option" where
  "find_longest_match xxh hs s =
     (if hs = [] then None else longest_from (ph_entries s) (rev (enumerate 0 (compute_prefix_hashes xxh hs))))"

definition history_record :: "u64 \<Rightarrow> prefix_reuse_history \<Rightarrow> dispatch_record option" where
  "history_record ph s = map_of (ph_entries s) ph"

definition history_len :: "prefix_reuse_history \<Rightarrow> nat" where
  "history_len s = length (ph_entries s)"

section \<open>Prefix hashes\<close>

lemma length_chain [simp]: "length (chain_hashes xxh p hs) = length hs"
  by (induction hs arbitrary: p) (simp_all add: Let_def)

lemma length_prefix_hashes [simp]: "length (compute_prefix_hashes xxh hs) = length hs"
  by (cases hs) (simp_all add: Let_def)

lemma chain_take: "chain_hashes xxh p (take n hs) = take n (chain_hashes xxh p hs)"
  by (induction hs arbitrary: p n) (auto simp: Let_def take_Cons')

lemma prefix_hashes_take: "compute_prefix_hashes xxh (take n hs) = take n (compute_prefix_hashes xxh hs)"
  by (cases hs) (auto simp: Let_def chain_take take_Cons')

lemma longest_from_snoc:
  "longest_from es (rev (enumerate i (xs @ [x]))) =
    (case map_of es x of Some rec \<Rightarrow> Some (i + length xs + 1, rec) | None \<Rightarrow> longest_from es (rev (enumerate i xs)))"
  by (simp add: enumerate_append_eq)

lemma longest_from_Some:
  "longest_from es (rev (enumerate 0 xs)) = Some (n, rec) \<longleftrightarrow>
    0 < n \<and> n \<le> length xs \<and> map_of es (xs ! (n - 1)) = Some rec \<and> (\<forall>k. n \<le> k \<and> k < length xs \<longrightarrow> map_of es (xs ! k) = None)"
proof (induction xs rule: rev_induct)
  case Nil
  then show ?case by auto
next
  case (snoc x xs)
  show ?case
  proof (cases "map_of es x")
    case None
    have "(\<forall>k. n \<le> k \<and> k < length (xs @ [x]) \<longrightarrow> map_of es ((xs @ [x]) ! k) = None) \<longleftrightarrow>
        (\<forall>k. n \<le> k \<and> k < length xs \<longrightarrow> map_of es (xs ! k) = None)"
      using None by (auto simp: nth_append less_Suc_eq)
    moreover have "0 < n \<and> n \<le> length (xs @ [x]) \<and> map_of es ((xs @ [x]) ! (n - 1)) = Some rec \<longleftrightarrow>
        0 < n \<and> n \<le> length xs \<and> map_of es (xs ! (n - 1)) = Some rec"
      using None by (auto simp: nth_append le_Suc_eq)
    ultimately show ?thesis unfolding longest_from_snoc using None snoc.IH by auto
  next
    case (Some r)
    show ?thesis
    proof
      assume "longest_from es (rev (enumerate 0 (xs @ [x]))) = Some (n, rec)"
      then have "n = Suc (length xs)" "rec = r" unfolding longest_from_snoc using Some by auto
      then show "0 < n \<and> n \<le> length (xs @ [x]) \<and> map_of es ((xs @ [x]) ! (n - 1)) = Some rec \<and>
          (\<forall>k. n \<le> k \<and> k < length (xs @ [x]) \<longrightarrow> map_of es ((xs @ [x]) ! k) = None)" using Some by auto
    next
      assume R: "0 < n \<and> n \<le> length (xs @ [x]) \<and> map_of es ((xs @ [x]) ! (n - 1)) = Some rec \<and>
          (\<forall>k. n \<le> k \<and> k < length (xs @ [x]) \<longrightarrow> map_of es ((xs @ [x]) ! k) = None)"
      then have "\<not> n \<le> length xs" using Some by (metis length_append_singleton lessI nth_append_length option.distinct(1))
      then have "n = Suc (length xs)" using R by simp
      then show "longest_from es (rev (enumerate 0 (xs @ [x]))) = Some (n, rec)"
        unfolding longest_from_snoc using Some R by simp
    qed
  qed
qed

section \<open>Eviction\<close>

lemma map_of_fold_delete:
  "map_of (fold AList.delete ks es) k = (if k \<in> set ks then None else map_of es k)"
  by (induction ks arbitrary: es) (auto simp: delete_conv)

lemma length_delete: "distinct (map fst es) \<Longrightarrow> k \<in> fst ` set es \<Longrightarrow> Suc (length (AList.delete k es)) = length es"
proof (induction es)
  case (Cons e es)
  have "AList.delete k es = es" if "k \<notin> fst ` set es" using that by (induction es) auto
  then show ?case using Cons by auto
qed simp

lemma keys_delete: "fst ` set (AList.delete k es) = fst ` set es - {k}"
  by (auto simp: AList.delete_eq)

lemma fold_delete_size:
  "distinct (map fst es) \<Longrightarrow> distinct ks \<Longrightarrow> set ks \<subseteq> fst ` set es \<Longrightarrow>
    length (fold AList.delete ks es) + length ks = length es \<and> distinct (map fst (fold AList.delete ks es))"
proof (induction ks arbitrary: es)
  case (Cons k ks)
  have "set ks \<subseteq> fst ` set (AList.delete k es)" using Cons.prems by (auto simp: keys_delete)
  with Cons.IH [of "AList.delete k es"] Cons.prems length_delete [of es k] show ?case
    by auto
qed simp

lemma oldest_first:
  fixes es :: "('k \<times> 'v::linorder) list"
  assumes few: "n \<le> length (filter (\<lambda>e. snd e < t) es)" and e: "e \<in> set (take n (sort_key snd es))"
  shows "snd e < t"
proof (rule ccontr)
  assume late: "\<not> snd e < t"
  let ?s = "sort_key snd es"
  from e obtain i where i: "i < n" "i < length ?s" "e = ?s ! i" by (auto simp: in_set_conv_nth)
  have tail: "\<not> snd x < t" if "x \<in> set (drop i ?s)" for x
  proof -
    from that obtain j where "x = ?s ! (i + j)" "i + j < length ?s" by (auto simp: in_set_conv_nth)
    moreover have "map snd ?s ! i \<le> map snd ?s ! (i + j)" if "i + j < length ?s"
      using that by (intro sorted_nth_mono) simp_all
    ultimately show ?thesis using late i by auto
  qed
  have "filter (\<lambda>e. snd e < t) ?s = filter (\<lambda>e. snd e < t) (take i ?s @ drop i ?s)" by simp
  also have "\<dots> = filter (\<lambda>e. snd e < t) (take i ?s)" using tail by (simp only: filter_append) (simp add: filter_empty_conv)
  finally have "length (filter (\<lambda>e. snd e < t) ?s) \<le> i"
    by (metis (no_types, lifting) length_filter_le length_take min.bounded_iff)
  moreover have "length (filter (\<lambda>e. snd e < t) ?s) = length (filter (\<lambda>e. snd e < t) es)"
    by (simp add: filter_sort)
  ultimately show False using few i by simp
qed

text \<open>The invariant: a prefix has one record and there are at most \<open>max_entries\<close> of them.\<close>

definition history_ok :: "prefix_reuse_history \<Rightarrow> bool" where
  "history_ok s \<longleftrightarrow> distinct (map fst (ph_entries s)) \<and> length (ph_entries s) \<le> ph_max_entries s"

definition stamps_of :: "(u64 \<times> dispatch_record) list \<Rightarrow> (u64 \<times> u64) list" where
  "stamps_of es = map (\<lambda>(k, v). (k, dr_last_dispatched_unix v)) es"

lemma fst_stamps [simp]: "map fst (stamps_of es) = map fst es"
  by (simp add: stamps_of_def case_prod_beta comp_def)

lemma fst_set_stamps [simp]: "fst ` set (stamps_of es) = fst ` set es"
  by (metis fst_stamps list.set_map)

lemma evicted_keys:
  assumes "distinct (map fst es)"
  shows "distinct (map fst (take n (sort_key snd (stamps_of es))))" "set (map fst (take n (sort_key snd (stamps_of es)))) \<subseteq> fst ` set es"
proof -
  have "mset (map fst (sort_key snd (stamps_of es))) = mset (map fst (stamps_of es))" by (simp only: mset_map mset_sort)
  then have "distinct (map fst (sort_key snd (stamps_of es)))" "set (map fst (sort_key snd (stamps_of es))) = fst ` set es"
    using assms by (metis fst_stamps mset_eq_imp_distinct_iff, metis fst_stamps list.set_map set_mset_mset)
  then show "distinct (map fst (take n (sort_key snd (stamps_of es))))" "set (map fst (take n (sort_key snd (stamps_of es)))) \<subseteq> fst ` set es"
    by (metis distinct_take take_map, metis set_take_subset take_map)
qed

lemma evict_ok:
  assumes "distinct (map fst (ph_entries s))"
  shows "history_ok (evict_if_needed s)" "ph_max_entries (evict_if_needed s) = ph_max_entries s"
proof -
  show "history_ok (evict_if_needed s)"
    using fold_delete_size [OF assms evicted_keys [OF assms, of "length (ph_entries s) - ph_max_entries s"]] assms
    by (auto simp: history_ok_def evict_if_needed_def Let_def stamps_of_def)
qed (simp add: evict_if_needed_def Let_def)

text \<open>Eviction drops no record of the latest second when those records fit.\<close>

lemma evict_keeps_recent:
  assumes dist: "distinct (map fst (ph_entries s))" and get: "map_of (ph_entries s) k = Some rec"
    and t: "dr_last_dispatched_unix rec = t"
    and fit: "length (filter (\<lambda>e. \<not> snd e < t) (stamps_of (ph_entries s))) \<le> ph_max_entries s"
  shows "map_of (ph_entries (evict_if_needed s)) k = Some rec"
proof -
  let ?es = "ph_entries s" let ?n = "length ?es - ph_max_entries s"
  have "length (filter (\<lambda>e. snd e < t) (stamps_of ?es)) + length (filter (\<lambda>e. \<not> snd e < t) (stamps_of ?es)) = length (stamps_of ?es)"
    by (rule sum_length_filter_compl)
  then have n: "?n \<le> length (filter (\<lambda>e. snd e < t) (stamps_of ?es))" using fit by (simp add: stamps_of_def)
  have "k \<notin> fst ` set (take ?n (sort_key snd (stamps_of ?es)))"
  proof
    assume "k \<in> fst ` set (take ?n (sort_key snd (stamps_of ?es)))"
    then obtain u where u: "(k, u) \<in> set (take ?n (sort_key snd (stamps_of ?es)))" by auto
    from oldest_first [OF n u] have "u < t" by simp
    moreover have "(k, u) \<in> set (stamps_of ?es)" using in_set_takeD [OF u] by simp
    then obtain r where "(k, r) \<in> set ?es" "u = dr_last_dispatched_unix r" by (auto simp: stamps_of_def)
    then have "u = t" using map_of_is_SomeI [OF dist, of k r] get t by simp
    ultimately show False by simp
  qed
  then show ?thesis using get by (simp add: evict_if_needed_def Let_def map_of_fold_delete flip: stamps_of_def)
qed

section \<open>Recording\<close>

definition stamped_with :: "backend_id \<Rightarrow> u64 \<Rightarrow> dispatch_record \<Rightarrow> bool" where
  "stamped_with b now rec \<longleftrightarrow> dr_backend rec = b \<and> dr_last_dispatched_unix rec = now \<and> 0 < dr_dispatch_count rec"

lemma sat_add_one_pos: "0 < sat_add (x :: u64) 1"
  using unat_sat_add [of x 1] by (simp add: word_less_nat_alt)

lemma record_prefix_get:
  "map_of (record_prefix now b ph es) k = (if k = ph then map_of (record_prefix now b ph es) ph else map_of es k)"
  by (auto simp: record_prefix_def update_conv split: option.splits)

lemma record_prefix_same: "\<exists>rec. map_of (record_prefix now b ph es) ph = Some rec \<and> stamped_with b now rec"
  by (auto simp: record_prefix_def stamped_with_def sat_add_one_pos update_conv split: option.splits)

lemma record_prefix_distinct [simp]: "keys_distinct es \<Longrightarrow> keys_distinct (record_prefix now b ph es)"
  by (auto simp: record_prefix_def split: option.splits)

lemma record_all:
  "keys_distinct es \<Longrightarrow> keys_distinct (fold (record_prefix now b) phs es)"
  "k \<in> set phs \<Longrightarrow> \<exists>rec. map_of (fold (record_prefix now b) phs es) k = Some rec \<and> stamped_with b now rec"
  "k \<notin> set phs \<Longrightarrow> map_of (fold (record_prefix now b) phs es) k = map_of es k"
proof (induction phs arbitrary: es)
  case (Cons ph phs)
  { case 1 with Cons.IH(1) show ?case by simp
  next case 2 show ?case
    proof (cases "k \<in> set phs")
      case True then show ?thesis using Cons.IH(2) by simp
    next
      case False
      then show ?thesis using 2 Cons.IH(3) record_prefix_same by simp
    qed
  next case 3 with Cons.IH(3) show ?case by (simp add: record_prefix_get [of _ _ ph]) }
qed simp_all

lemma recorded_count:
  assumes dist: "keys_distinct es" and old: "\<forall>e \<in> set es. dr_last_dispatched_unix (snd e) < now"
  shows "length (filter (\<lambda>e. \<not> snd e < now) (stamps_of (fold (record_prefix now b) phs es))) \<le> length phs"
proof -
  let ?es = "fold (record_prefix now b) phs es" let ?late = "filter (\<lambda>e. \<not> snd e < now) (stamps_of ?es)"
  have d: "keys_distinct ?es" using record_all(1) [OF dist] .
  have "fst ` set ?late \<subseteq> set phs"
  proof
    fix k assume "k \<in> fst ` set ?late"
    then obtain rec where rec: "(k, rec) \<in> set ?es" "\<not> dr_last_dispatched_unix rec < now" by (auto simp: stamps_of_def)
    have "map_of ?es k = Some rec" using map_of_is_SomeI [OF d rec(1)] .
    then have "map_of es k = Some rec" if "k \<notin> set phs" using record_all(3) [OF that, of now b es] by metis
    then have "(k, rec) \<in> set es" if "k \<notin> set phs" using that map_of_SomeD by metis
    then show "k \<in> set phs" using old rec(2) by (metis snd_conv)
  qed
  then have "card (fst ` set ?late) \<le> card (set phs)" by (rule card_mono [OF finite_set])
  then have "card (set (map fst ?late)) \<le> length phs" unfolding list.set_map using card_length by (rule le_trans)
  moreover have "distinct (map fst ?late)" by (rule distinct_map_filter) (simp only: fst_stamps d)
  ultimately show ?thesis by (simp only: distinct_card length_map)
qed

lemma dispatch_recorded:
  assumes ok: "history_ok s" and hs: "hs \<noteq> []" and fit: "length hs \<le> ph_max_entries s"
    and old: "\<forall>e \<in> set (ph_entries s). dr_last_dispatched_unix (snd e) < now"
    and k: "k \<in> set (compute_prefix_hashes xxh hs)"
  shows "\<exists>rec. map_of (ph_entries (record_dispatch xxh now hs b s)) k = Some rec \<and> stamped_with b now rec"
proof -
  let ?es = "fold (record_prefix now b) (compute_prefix_hashes xxh hs) (ph_entries s)"
  have dist: "keys_distinct (ph_entries s)" using ok by (simp add: history_ok_def)
  obtain rec where rec: "map_of ?es k = Some rec" "stamped_with b now rec" using record_all(2) [OF k] by blast
  have "map_of (ph_entries (evict_if_needed (s\<lparr>ph_entries := ?es\<rparr>))) k = Some rec"
    by (rule evict_keeps_recent [where t = now])
      (use rec record_all(1) [OF dist] recorded_count [OF dist old, of b "compute_prefix_hashes xxh hs"] fit in \<open>auto simp: stamped_with_def\<close>)
  then show ?thesis using rec(2) hs by (auto simp: record_dispatch_def)
qed

lemma dispatch_ok: "history_ok s \<Longrightarrow> history_ok (record_dispatch xxh now hs b s)"
  using evict_ok(1) record_all(1) by (auto simp: record_dispatch_def history_ok_def)

lemma find_longest_match_iff:
  "find_longest_match xxh hs s = Some (n, rec) \<longleftrightarrow>
    0 < n \<and> n \<le> length hs \<and> history_record (compute_prefix_hashes xxh hs ! (n - 1)) s = Some rec \<and>
    (\<forall>k. n < k \<and> k \<le> length hs \<longrightarrow> history_record (compute_prefix_hashes xxh hs ! (k - 1)) s = None)"
proof -
  have "(\<forall>k. n \<le> k \<and> k < length hs \<longrightarrow> P k) \<longleftrightarrow> (\<forall>k. n < k \<and> k \<le> length hs \<longrightarrow> P (k - 1))" for P
  proof (intro iffI allI impI)
    fix k assume "\<forall>k. n \<le> k \<and> k < length hs \<longrightarrow> P k" "n < k \<and> k \<le> length hs"
    then show "P (k - 1)" by (metis Suc_le_eq Suc_pred' gr_zeroI not_less_zero less_Suc_eq_le)
  next
    fix k assume "\<forall>k. n < k \<and> k \<le> length hs \<longrightarrow> P (k - 1)" "n \<le> k \<and> k < length hs"
    then show "P k" by (metis Suc_le_eq diff_Suc_1 less_Suc_eq_le)
  qed
  note shift = this [of "\<lambda>i. map_of (ph_entries s) (compute_prefix_hashes xxh hs ! i) = None"]
  show ?thesis
  proof (cases "hs = []")
    case False
    then show ?thesis using shift by (simp add: find_longest_match_def longest_from_Some history_record_def)
  qed (auto simp: find_longest_match_def)
qed

lemma longest_at_least:
  assumes "0 < n" "n \<le> length hs" "history_record (compute_prefix_hashes xxh hs ! (n - 1)) s = Some rec"
  shows "\<exists>m r. find_longest_match xxh hs s = Some (m, r) \<and> n \<le> m"
proof -
  let ?P = "\<lambda>m. 0 < m \<and> m \<le> length hs \<and> history_record (compute_prefix_hashes xxh hs ! (m - 1)) s \<noteq> None"
  define m where "m = Greatest ?P"
  have P: "?P n" using assms by simp
  have m: "?P m" unfolding m_def by (rule GreatestI_nat [where P = ?P and k = n and b = "length hs"]) (use P in auto)
  have max: "k \<le> m" if "?P k" for k
    unfolding m_def by (rule Greatest_le_nat [where P = ?P and b = "length hs"]) (use that in auto)
  from m obtain r where "history_record (compute_prefix_hashes xxh hs ! (m - 1)) s = Some r" by auto
  moreover have "history_record (compute_prefix_hashes xxh hs ! (k - 1)) s = None" if "m < k" "k \<le> length hs" for k
    using max [of k] that by fastforce
  ultimately have "find_longest_match xxh hs s = Some (m, r)" using m by (simp add: find_longest_match_iff)
  then show ?thesis using max [OF P] by blast
qed

lemma prefix_hash_last:
  assumes "0 < k" "k \<le> length hs"
  shows "last (compute_prefix_hashes xxh (take k hs)) = compute_prefix_hashes xxh hs ! (k - 1)"
  using assms by (simp add: prefix_hashes_take last_conv_nth flip: length_0_conv)

lemma dispatch_found:
  assumes "history_ok s" and hs: "hs \<noteq> []" and fit: "length hs \<le> ph_max_entries s"
    and old: "\<forall>e \<in> set (ph_entries s). dr_last_dispatched_unix (snd e) < now"
  shows "\<exists>r. find_longest_match xxh hs (record_dispatch xxh now hs b s) = Some (length hs, r) \<and>
      dr_backend r = b \<and> dr_last_dispatched_unix r = now"
    and "\<exists>m r. find_longest_match xxh (hs @ ext) (record_dispatch xxh now hs b s) = Some (m, r) \<and> length hs \<le> m"
proof -
  let ?s = "record_dispatch xxh now hs b s"
  have "compute_prefix_hashes xxh hs ! (length hs - 1) \<in> set (compute_prefix_hashes xxh hs)" using hs by simp
  from dispatch_recorded [OF assms this] obtain r
    where r: "history_record (compute_prefix_hashes xxh hs ! (length hs - 1)) ?s = Some r" "stamped_with b now r"
    unfolding history_record_def by blast
  then have "find_longest_match xxh hs ?s = Some (length hs, r)" using hs by (auto simp: find_longest_match_iff)
  with r(2) show "\<exists>r. find_longest_match xxh hs ?s = Some (length hs, r) \<and> dr_backend r = b \<and> dr_last_dispatched_unix r = now"
    by (auto simp: stamped_with_def)
  have "compute_prefix_hashes xxh (hs @ ext) ! (length hs - 1) = compute_prefix_hashes xxh hs ! (length hs - 1)"
    using hs prefix_hashes_take [of xxh "length hs" "hs @ ext"] by (metis append_eq_conv_conj diff_less length_greater_0_conv nth_take zero_less_one)
  with r(1) show "\<exists>m r. find_longest_match xxh (hs @ ext) ?s = Some (m, r) \<and> length hs \<le> m"
    using longest_at_least [of "length hs" "hs @ ext" xxh ?s r] hs by auto
qed

section \<open>Results\<close>

text \<open>The dispatch history is a bounded longest-prefix table. \<open>find_longest_match\<close> returns \<open>(n, rec)\<close> exactly
  when \<open>rec\<close> is the record of the first \<open>n\<close> blocks and no longer prefix of the request has a record.
  A dispatch keeps at most \<open>max_entries\<close> records, one per prefix hash. When the clock has advanced past
  every stored stamp and the blocks of the request fit in the table, eviction removes none of the
  records just written: the request is found at its full length with the backend it was sent to,
  and every extension of it is found at that length or more.\<close>

theorem dispatch_history:
  assumes "history_ok s"
  shows "(find_longest_match xxh hs s = Some (n, rec) \<longleftrightarrow>
      0 < n \<and> n \<le> length hs \<and> history_record (last (compute_prefix_hashes xxh (take n hs))) s = Some rec \<and>
      (\<forall>k. n < k \<and> k \<le> length hs \<longrightarrow> history_record (last (compute_prefix_hashes xxh (take k hs))) s = None)) \<and>
    history_ok (record_dispatch xxh now hs b s) \<and>
    (hs \<noteq> [] \<and> length hs \<le> ph_max_entries s \<and> (\<forall>e \<in> set (ph_entries s). dr_last_dispatched_unix (snd e) < now) \<longrightarrow>
      (\<exists>r. find_longest_match xxh hs (record_dispatch xxh now hs b s) = Some (length hs, r) \<and>
        dr_backend r = b \<and> dr_last_dispatched_unix r = now) \<and>
      (\<exists>m r. find_longest_match xxh (hs @ ext) (record_dispatch xxh now hs b s) = Some (m, r) \<and> length hs \<le> m))"
proof -
  have "find_longest_match xxh hs s = Some (n, rec) \<longleftrightarrow>
      0 < n \<and> n \<le> length hs \<and> history_record (last (compute_prefix_hashes xxh (take n hs))) s = Some rec \<and>
      (\<forall>k. n < k \<and> k \<le> length hs \<longrightarrow> history_record (last (compute_prefix_hashes xxh (take k hs))) s = None)"
    unfolding find_longest_match_iff by (auto simp: prefix_hash_last)
  then show ?thesis using dispatch_ok [OF assms] dispatch_found [OF assms] by blast
qed

text \<open>A full table of two records: the third dispatch evicts the oldest record and is found itself.\<close>

definition full_history :: prefix_reuse_history where
  "full_history = \<lparr>ph_entries =
     [(1, \<lparr>dr_backend = BackendId (RegionId ''eu'') (BackendInstanceId ''a''), dr_dispatch_count = 1, dr_last_dispatched_unix = 5\<rparr>),
      (2, \<lparr>dr_backend = BackendId (RegionId ''eu'') (BackendInstanceId ''b''), dr_dispatch_count = 1, dr_last_dispatched_unix = 7\<rparr>)],
     ph_max_entries = 2\<rparr>"

theorem dispatch_history_witness:
  "history_ok full_history \<and>
   (\<exists>r. find_longest_match (\<lambda>bs s. word_of_nat (length bs)) [4, 6] (record_dispatch (\<lambda>bs s. word_of_nat (length bs)) 9 [4, 6]
       (BackendId (RegionId ''us'') (BackendInstanceId ''c'')) full_history) = Some (2, r) \<and>
     dr_backend r = BackendId (RegionId ''us'') (BackendInstanceId ''c'') \<and> dr_last_dispatched_unix r = 9)"
proof -
  have ok: "history_ok full_history" by (simp add: history_ok_def full_history_def)
  have "\<forall>e \<in> set (ph_entries full_history). dr_last_dispatched_unix (snd e) < 9" "ph_max_entries full_history = 2"
    by (simp_all add: full_history_def)
  then show ?thesis
    using ok dispatch_history [OF ok, where hs = "[4, 6]" and now = 9 and ext = "[]" and xxh = "\<lambda>bs s. word_of_nat (length bs)"
        and b = "BackendId (RegionId ''us'') (BackendInstanceId ''c'')", THEN conjunct2, THEN conjunct2]
    by (simp add: numeral_2_eq_2)
qed

end
