(* ===== verification/Degradation.thy ===== *)
theory Degradation
  imports Selection Store PrefixHistory
begin

text \<open>
  The strategy interface of \<open>crates/hier-kv-gateway-routing/src/strategy.rs\<close> and the degradation strategy of
  \<open>degradation.rs\<close>. A strategy may keep state behind its shared reference (a cursor, cached weights), so an
  evaluation returns the strategy as it is afterwards.
\<close>

section \<open>Strategies\<close>

type_synonym scoring = "failure + scored_backend list"

text \<open>The methods of the trait. The arguments of \<open>st_evaluate\<close> before those of the code are the clocks: the \<open>Instant\<close>
  in nanoseconds and the Unix time in seconds.\<close>

codatatype strategy = Strategy (st_name: string) (st_weight: f64)
  (st_is_available: "u64 \<Rightarrow> metadata_store \<Rightarrow> bool")
  (st_evaluate: "nat \<Rightarrow> u64 \<Rightarrow> routing_context \<Rightarrow> backend_id list \<Rightarrow> metadata_store \<Rightarrow> scoring \<times> strategy")

text \<open>What the engine relies on: a strategy scores candidates only, none twice, now and later.\<close>

definition scores_candidates :: "backend_id list \<Rightarrow> scored_backend list \<Rightarrow> bool" where
  "scores_candidates cs out \<longleftrightarrow> distinct (map sb_backend_id out) \<and> sb_backend_id ` set out \<subseteq> set cs"

coinductive sound_strategy :: "strategy \<Rightarrow> bool" where
  "(\<And>inst now ctx cs meta. distinct cs \<Longrightarrow>
      (\<forall>out. fst (st_evaluate st inst now ctx cs meta) = Inr out \<longrightarrow> scores_candidates cs out)) \<Longrightarrow>
   (\<And>inst now ctx cs meta. sound_strategy (snd (st_evaluate st inst now ctx cs meta))) \<Longrightarrow> sound_strategy st"

inductive_cases sound_strategyE: "sound_strategy st"

section \<open>Confidence of the KV index\<close>

text \<open>
  \<open>kv_confidence\<close> of \<open>kv_index.rs\<close> on doubles. The products and the quotient are by powers of two and exact; the
  difference is rounded to the 53 bits of a number in \<open>[1/2, 1)\<close>.
\<close>

definition LN_2 :: rat where
  "LN_2 = 6243314768165359 / 2 ^ 53"

definition kv_confidence :: f64 where
  "kv_confidence =
     (let b = of_nat FP_PER_BUCKET; fpr = 2 * b * LN_2 / 2 ^ FINGERPRINT_BITS;
          diff = of_int (round (2 ^ 53 * (1 - fpr))) / 2 ^ 53
      in Fin (max 0 (min 1 diff)))"

section \<open>The degradation strategy\<close>

definition LOAD_STALE_THRESHOLD_SECS :: u64 where
  "LOAD_STALE_THRESHOLD_SECS = 30"

definition MIN_CONFIDENT_HISTORY_ENTRIES :: nat where
  "MIN_CONFIDENT_HISTORY_ENTRIES = 10"

definition history_confidence :: "fpu \<Rightarrow> prefix_reuse_history \<Rightarrow> f64" where
  "history_confidence F h =
     (if MIN_CONFIDENT_HISTORY_ENTRIES \<le> history_len h then Fin 1
      else f64_div F (of_usize F (history_len h)) (of_usize F MIN_CONFIDENT_HISTORY_ENTRIES))"

definition degradation_score :: "fpu \<Rightarrow> xxh3 \<Rightarrow> u64 list \<Rightarrow> prefix_reuse_history \<Rightarrow> backend_id \<Rightarrow> scored_backend" where
  "degradation_score F xxh hashes h cand =
     (let total_len = of_usize F (max (length hashes) 1);
          low = (fp_round F (1 / 100), Fin 1);
          (score, raw_cost) =
            (case find_longest_match xxh hashes h of
               Some (match_len, rec) \<Rightarrow>
                 if dr_backend rec = cand then
                   (let prefix_score = f64_div F (of_usize F match_len) total_len
                    in (f64_mul F prefix_score (history_confidence F h), f64_neg (f64_mul F prefix_score (history_confidence F h))))
                 else low
             | None \<Rightarrow> low)
      in \<lparr>sb_backend_id = cand, sb_score = score, sb_raw_cost = raw_cost, sb_meta_version = 0\<rparr>)"

definition degradation_evaluate :: "fpu \<Rightarrow> xxh3 \<Rightarrow> routing_context \<Rightarrow> backend_id list \<Rightarrow> prefix_reuse_history \<Rightarrow> scored_backend list" where
  "degradation_evaluate F xxh ctx candidates h = map (degradation_score F xxh (rc_block_hashes ctx) h) candidates"

definition degradation_is_available :: "u64 \<Rightarrow> metadata_store \<Rightarrow> bool" where
  "degradation_is_available now meta =
     (let kv_degraded = (kv_confidence = Fin 0);
          no_backends = (backends_len meta = 0);
          all_load_stale = (if backends_all meta = [] then True
            else list_all (\<lambda>b. case load_freshness now (bi_id b) (ms_load meta) of
                                 Some d \<Rightarrow> LOAD_STALE_THRESHOLD_SECS < d | None \<Rightarrow> True) (backends_all meta))
      in kv_degraded \<or> no_backends \<or> all_load_stale)"

section \<open>Properties\<close>

lemma kv_confidence_value: "kv_confidence = Fin (9006437131356206 / 2 ^ 53)"
  by (simp add: kv_confidence_def LN_2_def FINGERPRINT_BITS_def FP_PER_BUCKET_def round_def floor_eq_iff)

text \<open>The confidence is a constant other than zero, so only stale load data, or no backend at all, makes
  the strategy available.\<close>

lemma degradation_available_iff:
  "degradation_is_available now meta \<longleftrightarrow>
    (\<forall>b \<in> set (backends_all meta). case load_freshness now (bi_id b) (ms_load meta) of
       Some d \<Rightarrow> LOAD_STALE_THRESHOLD_SECS < d | None \<Rightarrow> True)"
  by (auto simp: degradation_is_available_def kv_confidence_value Let_def list_all_iff backends_len_def backends_all_def)

lemma degradation_ids [simp]: "map sb_backend_id (degradation_evaluate F xxh ctx cs h) = cs"
  by (simp add: degradation_evaluate_def degradation_score_def Let_def case_prod_beta comp_def)

lemma degradation_sound: "distinct cs \<Longrightarrow> scores_candidates cs (degradation_evaluate F xxh ctx cs h)"
  unfolding scores_candidates_def by (metis degradation_ids list.set_map order_refl)

lemma last_sort_max:
  fixes f :: "'a \<Rightarrow> 'b::linorder"
  assumes "y \<in> set xs"
  shows "last (sort_key f xs) \<in> set xs" "f y \<le> f (last (sort_key f xs))"
proof -
  have ne: "sort_key f xs \<noteq> []" using assms by (metis empty_iff empty_set set_sort)
  then show "last (sort_key f xs) \<in> set xs" by (metis last_in_set set_sort)
  have "sorted (map f (butlast (sort_key f xs) @ [last (sort_key f xs)]))" using ne by simp
  moreover have "y \<in> set (butlast (sort_key f xs) @ [last (sort_key f xs)])" using ne assms by simp
  ultimately show "f y \<le> f (last (sort_key f xs))" by (auto simp: sorted_append)
qed

text \<open>The score of the backend that a matching prefix was sent to, and of every other candidate.\<close>

definition replay_score :: "fpu \<Rightarrow> nat \<Rightarrow> nat \<Rightarrow> prefix_reuse_history \<Rightarrow> f64" where
  "replay_score F match_len total_len h =
     f64_mul F (f64_div F (of_usize F match_len) (of_usize F (max total_len 1))) (history_confidence F h)"

lemma degradation_score_cases:
  assumes "find_longest_match xxh hashes h = Some (n, rec)"
  shows "sb_score (degradation_score F xxh hashes h c) =
    (if c = dr_backend rec then replay_score F n (length hashes) h else fp_round F (1 / 100))"
  using assms by (simp add: degradation_score_def replay_score_def Let_def)

lemma greedy_head:
  assumes "numeric scores" "distinct (map sb_backend_id scores)" "f64_le temperature (Fin 0)" "0 < limit" "scores \<noteq> []"
  shows "hd (select_ranked F draw scores temperature limit) = last (sort_key sb_score scores)"
proof -
  have "sort_key sb_score scores \<noteq> []" using assms(5) by (metis set_empty set_sort)
  then have "hd (take limit (rev (sort_key sb_score scores))) = last (sort_key sb_score scores)"
    using assms(4) by (simp add: hd_rev)
  then show ?thesis using select_loop_greedy [OF assms(1-3), of F draw limit "[]"] by (simp add: select_ranked_def)
qed

text \<open>In degraded mode, with greedy selection, the first choice is the backend that served the longest
  known prefix of the request exactly when its score, the matched share of the request scaled by the
  confidence in the history, beats the constant \<open>0.01\<close> that every other candidate gets: above the
  constant it leads, below it every other candidate comes before it.\<close>

theorem degraded_replay:
  assumes "distinct cs" "find_longest_match xxh (rc_block_hashes ctx) h = Some (n, rec)" "dr_backend rec \<in> set cs"
    and "f64_le temperature (Fin 0)" "0 < limit" "fp_round F (1 / 100) \<noteq> NaN"
    and "replay_score F n (length (rc_block_hashes ctx)) h \<noteq> NaN"
  shows "(f64_less (fp_round F (1 / 100)) (replay_score F n (length (rc_block_hashes ctx)) h) \<longrightarrow>
      sb_backend_id (hd (select_ranked F draw (degradation_evaluate F xxh ctx cs h) temperature limit)) = dr_backend rec) \<and>
    (f64_less (replay_score F n (length (rc_block_hashes ctx)) h) (fp_round F (1 / 100)) \<and> set cs \<noteq> {dr_backend rec} \<longrightarrow>
      sb_backend_id (hd (select_ranked F draw (degradation_evaluate F xxh ctx cs h) temperature limit)) \<noteq> dr_backend rec)"
proof -
  let ?scores = "degradation_evaluate F xxh ctx cs h" let ?s = "degradation_score F xxh (rc_block_hashes ctx) h"
  let ?low = "fp_round F (1 / 100)" let ?replay = "replay_score F n (length (rc_block_hashes ctx)) h"
  let ?last = "last (sort_key sb_score ?scores)"
  have score: "sb_score (?s c) = (if c = dr_backend rec then ?replay else ?low)" for c by (rule degradation_score_cases [OF assms(2)])
  have id: "sb_backend_id (?s c) = c" for c by (simp add: degradation_score_def Let_def case_prod_beta)
  have mem: "?s c \<in> set ?scores" if "c \<in> set cs" for c using that by (simp add: degradation_evaluate_def)
  have head: "hd (select_ranked F draw ?scores temperature limit) = ?last"
    by (rule greedy_head) (use assms score in \<open>auto simp: numeric_def degradation_evaluate_def comp_def id\<close>)
  from mem [OF assms(3)] have "?last \<in> set ?scores" by (rule last_sort_max)
  then obtain c where c: "c \<in> set cs" "?last = ?s c" by (auto simp: degradation_evaluate_def)
  have max: "sb_score (?s c') \<le> sb_score (?s c)" if "c' \<in> set cs" for c'
    using last_sort_max(2) [OF mem [OF that], of sb_score] c(2) by simp
  have "c = dr_backend rec" if "?low < ?replay"
    using max [OF assms(3)] that by (cases "c = dr_backend rec") (simp_all add: score)
  moreover have "c \<noteq> dr_backend rec" if below: "?replay < ?low" "set cs \<noteq> {dr_backend rec}"
  proof -
    obtain c' where "c' \<in> set cs" "c' \<noteq> dr_backend rec" using below(2) assms(3) by auto
    then show ?thesis using max [of c'] below(1) by (auto simp: score)
  qed
  ultimately show ?thesis using assms(6,7) by (auto simp: head c(2) id f64_less_iff)
qed

definition eu_backend :: "string \<Rightarrow> backend_id" where
  "eu_backend n = BackendId (RegionId ''eu'') (BackendInstanceId n)"

definition short_history :: prefix_reuse_history where
  "short_history = record_dispatch (\<lambda>bs s. word_of_nat (length bs)) 9 [4] (eu_backend ''a'') with_default_capacity"

definition long_request :: routing_context where
  "long_request = \<lparr>rc_request_id = None, rc_session_id = None, rc_tenant_id = None, rc_model_name = None, rc_token_ids = [],
     rc_block_hashes = [4, 5, 6, 7, 8, 9, 10, 11, 12, 13, 14], rc_block_size = 16, rc_lora_name = None, rc_cache_namespace = None,
     rc_estimated_output_tokens = 0, rc_requires_tool_calling = False\<rparr>"

lemma length_le_bytes64: "length (le_bytes64 x) = 8"
  by (simp add: le_bytes64_def)

lemma short_history_match:
  "find_longest_match (\<lambda>bs s. word_of_nat (length bs)) (rc_block_hashes long_request) short_history =
     Some (1, \<lparr>dr_backend = eu_backend ''a'', dr_dispatch_count = 1, dr_last_dispatched_unix = 9\<rparr>)"
  by (simp add: short_history_def long_request_def record_dispatch_def with_default_capacity_def prefix_history_new_def
      evict_if_needed_def DEFAULT_MAX_ENTRIES_def record_prefix_def find_longest_match_def length_le_bytes64)

text \<open>One block of eleven matched, one record of the ten that give full confidence: the score is
  \<open>1 / 110\<close>, below \<open>0.01\<close>, and the backend that holds the prefix loses.\<close>

theorem degraded_replay_witness:
  "sb_backend_id (hd (select_ranked exact_fpu (\<lambda>_ _. None) (degradation_evaluate exact_fpu (\<lambda>bs s. word_of_nat (length bs)) long_request
     [eu_backend ''a'', eu_backend ''b''] short_history) (Fin 0) 1)) \<noteq> eu_backend ''a''"
proof -
  have "history_len short_history = 1"
    by (simp add: history_len_def short_history_def record_dispatch_def with_default_capacity_def prefix_history_new_def
      evict_if_needed_def DEFAULT_MAX_ENTRIES_def record_prefix_def Let_def)
  then have replay: "replay_score exact_fpu 1 (length (rc_block_hashes long_request)) short_history = Fin (1 / 110)"
    by (simp add: replay_score_def history_confidence_def MIN_CONFIDENT_HISTORY_ENTRIES_def of_usize_def exact_fpu_def long_request_def)
  have low: "fp_round exact_fpu x = Fin x" for x by (simp add: exact_fpu_def)
  have two: "eu_backend ''a'' \<noteq> eu_backend ''b''" by (simp add: eu_backend_def)
  show ?thesis
    using degraded_replay [OF _ short_history_match, where cs = "[eu_backend ''a'', eu_backend ''b'']" and temperature = "Fin 0"
        and limit = 1 and F = exact_fpu and draw = "\<lambda>_ _. None", unfolded replay low] two
    by (simp add: f64_le_def)
qed

end
