(* ===== verification/Strategies.thy ===== *)
theory Strategies
  imports Degradation StoreProof
begin

text \<open>
  The sub-strategies of the hybrid strategy, \<open>crates/hier-kv-gateway-routing/src/kv_aware.rs\<close>, \<open>model_aware.rs\<close>,
  \<open>load_aware.rs\<close> and \<open>topology_aware.rs\<close>, and the plugins of \<open>plugin.rs\<close>. Each keeps no state: an evaluation
  returns the strategy itself. The decimal constants of the code are rounded by the processor.
\<close>

text \<open>How an excluded candidate is marked.\<close>

definition excluded :: "backend_id \<Rightarrow> scored_backend" where
  "excluded b = \<lparr>sb_backend_id = b, sb_score = Fin 0, sb_raw_cost = Fin F64_MAX, sb_meta_version = 0\<rparr>"

definition score_entry :: "backend_id \<Rightarrow> f64 \<Rightarrow> f64 \<Rightarrow> scored_backend" where
  "score_entry b score cost = \<lparr>sb_backend_id = b, sb_score = score, sb_raw_cost = cost, sb_meta_version = 0\<rparr>"

text \<open>\<open>1.0 / (1.0 + cost)\<close>.\<close>

definition inverse_cost :: "fpu \<Rightarrow> f64 \<Rightarrow> f64" where
  "inverse_cost F cost = f64_div F (Fin 1) (f64_add F (Fin 1) cost)"

lemma excluded_simps [simp]: "sb_backend_id (excluded b) = b" "sb_score (excluded b) = Fin 0" "sb_raw_cost (excluded b) = Fin F64_MAX"
  by (simp_all add: excluded_def)

lemma scored_simps [simp]: "sb_backend_id (score_entry b s c) = b" "sb_score (score_entry b s c) = s" "sb_raw_cost (score_entry b s c) = c"
  by (simp_all add: score_entry_def)

section \<open>KV-aware strategy\<close>

record kv_aware_strategy =
  ka_overlap_score_credit :: f64
  ka_prefill_load_scale :: f64
  ka_ckf_false_positive_penalty :: f64

definition kv_aware_default :: kv_aware_strategy where
  "kv_aware_default = \<lparr>ka_overlap_score_credit = Fin 0, ka_prefill_load_scale = Fin 1, ka_ckf_false_positive_penalty = Fin 0\<rparr>"

definition effective_remote :: "fpu \<Rightarrow> kv_aware_strategy \<Rightarrow> u32 \<Rightarrow> f64" where
  "effective_remote F ka remote =
     (if f64_less (Fin 0) (ka_ckf_false_positive_penalty ka)
      then f64_mul F (of_usize F (unat remote)) (f64_sub F (Fin 1) (f64_clamp (Fin 0) (Fin 1) (ka_ckf_false_positive_penalty ka)))
      else of_usize F (unat remote))"

definition kv_aware_score :: "fpu \<Rightarrow> kv_aware_strategy \<Rightarrow> nat \<Rightarrow> u32 \<Rightarrow> u32 \<Rightarrow> backend_metrics option \<Rightarrow> backend_id \<Rightarrow> scored_backend" where
  "kv_aware_score F ka hash_count local remote metrics cand =
     (let total_overlap = f64_add F (of_usize F (unat local)) (effective_remote F ka remote);
          prefill_blocks = f64_max (f64_sub F (of_usize F hash_count) total_overlap) (Fin 0);
          decode_blocks = (case metrics of Some m \<Rightarrow> of_usize F (unat (active_decode_blocks m)) | None \<Rightarrow> Fin 0);
          cost = f64_add F (f64_mul F (ka_prefill_load_scale ka) prefill_blocks) decode_blocks;
          score = f64_add F (inverse_cost F cost) (f64_mul F (ka_overlap_score_credit ka) total_overlap)
      in score_entry cand score cost)"

text \<open>The query of a remote lane may index out of range, so the evaluation may panic.\<close>

fun kv_aware_loop :: "fpu \<Rightarrow> xxh3 \<Rightarrow> kv_aware_strategy \<Rightarrow> u64 list \<Rightarrow> (backend_id \<times> u32) list \<Rightarrow> backend_id list
    \<Rightarrow> metadata_store \<Rightarrow> scoring" where
  "kv_aware_loop F xxh ka hashes local_overlaps [] meta = Inr []"
| "kv_aware_loop F xxh ka hashes local_overlaps (cand # cands) meta =
     (let local_overlap = (case map_of local_overlaps cand of Some n \<Rightarrow> n | None \<Rightarrow> 0)
      in case kv_find_global_overlap xxh hashes (b_region cand) (ms_kv meta) of
           None \<Rightarrow> Inl Panicked
         | Some remote_overlap \<Rightarrow>
             map_sum id ((#) (kv_aware_score F ka (length hashes) local_overlap remote_overlap (load_get cand (ms_load meta)) cand))
               (kv_aware_loop F xxh ka hashes local_overlaps cands meta))"

definition kv_aware_evaluate :: "fpu \<Rightarrow> xxh3 \<Rightarrow> kv_aware_strategy \<Rightarrow> routing_context \<Rightarrow> backend_id list \<Rightarrow> metadata_store \<Rightarrow> scoring" where
  "kv_aware_evaluate F xxh ka ctx candidates meta =
     kv_aware_loop F xxh ka (rc_block_hashes ctx) (kv_find_all_local_overlap xxh (rc_block_hashes ctx) (ms_kv meta)) candidates meta"

primcorec kv_aware :: "fpu \<Rightarrow> xxh3 \<Rightarrow> kv_aware_strategy \<Rightarrow> strategy" where
  "st_name (kv_aware F xxh ka) = ''kv_aware''"
| "st_weight (kv_aware F xxh ka) = fp_round F (35 / 100)"
| "st_is_available (kv_aware F xxh ka) = (\<lambda>now meta. f64_less (Fin 0) kv_confidence)"
| "st_evaluate (kv_aware F xxh ka) = (\<lambda>inst now ctx candidates meta. (kv_aware_evaluate F xxh ka ctx candidates meta, kv_aware F xxh ka))"

section \<open>Model-aware strategy\<close>

definition name_match :: "string \<Rightarrow> model_instance \<Rightarrow> bool" where
  "name_match name inst \<longleftrightarrow> model_name inst = name \<or> (model_architecture inst \<noteq> [] \<and> model_architecture inst = name)"

definition model_aware_score :: "fpu \<Rightarrow> routing_context \<Rightarrow> model_registry \<Rightarrow> backend_id \<Rightarrow> scored_backend" where
  "model_aware_score F ctx models cand =
     (let name = (case rc_model_name ctx of Some n \<Rightarrow> n | None \<Rightarrow> []);
          token_count = (of_nat (length (rc_token_ids ctx)) :: u32);
          m = model_match_score cand name models
      in if f64_le m (Fin 0) then excluded cand
         else let matching = filter (name_match name) (models_get_instances cand models);
                  passes_ctx = list_ex (\<lambda>inst. token_count = 0 \<or> token_count \<le> max_context_len inst) matching;
                  passes_tool = list_ex (\<lambda>inst. \<not> rc_requires_tool_calling ctx \<or> supports_tool_calling inst) matching
              in if \<not> passes_ctx \<or> \<not> passes_tool then excluded cand
                 else let cost = f64_sub F (Fin 1) m in score_entry cand (inverse_cost F cost) cost)"

definition model_aware_evaluate :: "fpu \<Rightarrow> routing_context \<Rightarrow> backend_id list \<Rightarrow> metadata_store \<Rightarrow> scored_backend list" where
  "model_aware_evaluate F ctx candidates meta = map (model_aware_score F ctx (ms_models meta)) candidates"

primcorec model_aware :: "fpu \<Rightarrow> strategy" where
  "st_name (model_aware F) = ''model_aware''"
| "st_weight (model_aware F) = Fin 1"
| "st_is_available (model_aware F) = (\<lambda>now meta. True)"
| "st_evaluate (model_aware F) = (\<lambda>inst now ctx candidates meta. (Inr (model_aware_evaluate F ctx candidates meta), model_aware F))"

section \<open>Load-aware strategy\<close>

record load_aware_strategy =
  la_req :: f64
  la_queue :: f64
  la_lat :: f64
  la_gpu :: f64
  la_kv :: f64
  la_decode :: f64
  la_prefill :: f64

definition load_aware_default :: "fpu \<Rightarrow> load_aware_strategy" where
  "load_aware_default F = \<lparr>la_req = Fin 1, la_queue = Fin 1, la_lat = fp_round F (1 / 100), la_gpu = Fin 1, la_kv = Fin 1,
     la_decode = fp_round F (2 / 100), la_prefill = fp_round F (1 / 1000)\<rparr>"

definition kv_cache_usage :: "fpu \<Rightarrow> backend_metrics \<Rightarrow> f64" where
  "kv_cache_usage F m =
     (if kv_total_blocks m = 0 then Fin 0 else f64_div F (of_usize F (unat (kv_used_blocks m))) (of_usize F (unat (kv_total_blocks m))))"

text \<open>The blocks a request adds: its token budget over the block size, rounded up. The sum of two \<open>u32\<close> fits \<open>u64\<close>.\<close>

definition req_decode_blocks :: "routing_context \<Rightarrow> u64" where
  "req_decode_blocks ctx =
     (if 0 < rc_block_size ctx
      then (ucast (rc_estimated_output_tokens ctx) + ucast (rc_block_size ctx) - 1) div ucast (rc_block_size ctx)
      else 0)"

definition load_cost :: "fpu \<Rightarrow> load_aware_strategy \<Rightarrow> routing_context \<Rightarrow> backend_metrics \<Rightarrow> f64" where
  "load_cost F la ctx m =
     (let projected = f64_add F (of_usize F (unat (active_decode_blocks m))) (of_usize F (unat (req_decode_blocks ctx)))
      in foldl (f64_add F) (f64_mul F (la_req la) (of_usize F (unat (active_requests m))))
           [f64_mul F (la_queue la) (of_usize F (unat (queue_depth m))),
            f64_mul F (la_lat la) (f64_div F (p99_ms (bm_latency m)) (Fin 100)),
            f64_mul F (la_gpu la) (gpu_utilization m),
            f64_mul F (la_kv la) (kv_cache_usage F m),
            f64_mul F (la_decode la) projected,
            f64_mul F (la_prefill la) (of_usize F (unat (active_prefill_tokens m)))])"

definition load_aware_score :: "fpu \<Rightarrow> load_aware_strategy \<Rightarrow> routing_context \<Rightarrow> load_stats \<Rightarrow> backend_id \<Rightarrow> scored_backend" where
  "load_aware_score F la ctx stats cand =
     (case load_get cand stats of
        None \<Rightarrow> excluded cand
      | Some m \<Rightarrow>
          if sint (available_capacity m) \<le> 0 then excluded cand
          else let cost = load_cost F la ctx m in score_entry cand (inverse_cost F cost) cost)"

definition load_aware_evaluate :: "fpu \<Rightarrow> load_aware_strategy \<Rightarrow> routing_context \<Rightarrow> backend_id list \<Rightarrow> metadata_store \<Rightarrow> scored_backend list" where
  "load_aware_evaluate F la ctx candidates meta = map (load_aware_score F la ctx (ms_load meta)) candidates"

primcorec load_aware :: "fpu \<Rightarrow> load_aware_strategy \<Rightarrow> strategy" where
  "st_name (load_aware F la) = ''load_aware''"
| "st_weight (load_aware F la) = fp_round F (30 / 100)"
| "st_is_available (load_aware F la) = (\<lambda>now meta. list_ex (\<lambda>b. load_get (bi_id b) (ms_load meta) \<noteq> None) (backends_all meta))"
| "st_evaluate (load_aware F la) = (\<lambda>inst now ctx candidates meta. (Inr (load_aware_evaluate F la ctx candidates meta), load_aware F la))"

section \<open>Topology-aware strategy\<close>

record topology_aware_strategy =
  ta_rtt :: f64
  ta_bw :: f64
  ta_self_region :: region_id

definition topology_aware_score :: "fpu \<Rightarrow> topology_aware_strategy \<Rightarrow> topology_graph \<Rightarrow> backend_id \<Rightarrow> scored_backend" where
  "topology_aware_score F ta topo cand =
     (let network_cost = f64_mul F (ta_rtt ta) (topo_rtt_ms (ta_self_region ta) (b_region cand) topo)
      in score_entry cand (inverse_cost F (f64_div F network_cost (Fin 100))) network_cost)"

definition topology_aware_evaluate :: "fpu \<Rightarrow> topology_aware_strategy \<Rightarrow> backend_id list \<Rightarrow> metadata_store \<Rightarrow> scored_backend list" where
  "topology_aware_evaluate F ta candidates meta = map (topology_aware_score F ta (ms_topology meta)) candidates"

primcorec topology_aware :: "fpu \<Rightarrow> topology_aware_strategy \<Rightarrow> strategy" where
  "st_name (topology_aware F ta) = ''topology_aware''"
| "st_weight (topology_aware F ta) = fp_round F (20 / 100)"
| "st_is_available (topology_aware F ta) = (\<lambda>now meta. True)"
| "st_evaluate (topology_aware F ta) = (\<lambda>inst now ctx candidates meta. (Inr (topology_aware_evaluate F ta candidates meta), topology_aware F ta))"

section \<open>Plugins\<close>

record routing_plugin =
  rp_strategy :: strategy
  rp_id :: string

definition from_strategy :: "strategy \<Rightarrow> routing_plugin" where
  "from_strategy st = \<lparr>rp_strategy = st, rp_id = st_name st\<rparr>"

definition with_id :: "strategy \<Rightarrow> string \<Rightarrow> routing_plugin" where
  "with_id st i = \<lparr>rp_strategy = st, rp_id = i\<rparr>"

section \<open>Contracts\<close>

lemma kv_aware_ids: "kv_aware_loop F xxh ka hashes local_overlaps cands meta = Inr out \<Longrightarrow> map sb_backend_id out = cands"
proof (induction cands arbitrary: out)
  case (Cons c cs)
  obtain remote where r: "kv_find_global_overlap xxh hashes (b_region c) (ms_kv meta) = Some remote"
    using Cons.prems by (cases "kv_find_global_overlap xxh hashes (b_region c) (ms_kv meta)") simp_all
  obtain rest where rest: "kv_aware_loop F xxh ka hashes local_overlaps cs meta = Inr rest"
    using Cons.prems r by (cases "kv_aware_loop F xxh ka hashes local_overlaps cs meta") simp_all
  have "sb_backend_id (hd out) = c" "tl out = rest" "out \<noteq> []"
    using Cons.prems r rest by (auto simp: kv_aware_score_def Let_def)
  then show ?case using Cons.IH [OF rest] by (cases out) simp_all
qed simp

lemma pointwise_ids [simp]:
  "map sb_backend_id (model_aware_evaluate F ctx cs meta) = cs" "map sb_backend_id (load_aware_evaluate F la ctx cs meta) = cs"
  "map sb_backend_id (topology_aware_evaluate F ta cs meta) = cs"
  by (induction cs) (simp_all add: model_aware_evaluate_def model_aware_score_def load_aware_evaluate_def load_aware_score_def
      topology_aware_evaluate_def topology_aware_score_def Let_def split: option.splits)

lemma scores_candidates_ids: "distinct cs \<Longrightarrow> map sb_backend_id out = cs \<Longrightarrow> scores_candidates cs out"
  unfolding scores_candidates_def by (metis list.set_map order_refl)

text \<open>A strategy that keeps no state and scores candidates only meets the contract of the engine.\<close>

lemma stateless_sound:
  assumes "\<And>inst now ctx cs meta. snd (st_evaluate st inst now ctx cs meta) = st"
    and "\<And>inst now ctx cs meta out. distinct cs \<Longrightarrow> fst (st_evaluate st inst now ctx cs meta) = Inr out \<Longrightarrow> scores_candidates cs out"
  shows "sound_strategy st"
proof -
  have "s = st \<Longrightarrow> sound_strategy s" for s
  proof (coinduction arbitrary: s)
    case sound_strategy
    then show ?case using assms by auto
  qed
  then show ?thesis by simp
qed

lemma sub_strategies_sound:
  "sound_strategy (kv_aware F xxh ka)" "sound_strategy (model_aware F)" "sound_strategy (load_aware F la)" "sound_strategy (topology_aware F ta)"
  by (rule stateless_sound; auto simp: kv_aware_evaluate_def intro: scores_candidates_ids kv_aware_ids)+

section \<open>The model filter\<close>

lemma match_score_pos: "f64_less (Fin 0) (match_score mi name) \<longleftrightarrow> name_match name mi"
  by (auto simp: match_score_def name_match_def)

lemma match_score_unit: "in_unit (match_score mi name)"
  by (simp add: match_score_def)

lemma best_match:
  assumes "in_unit best"
  shows "in_unit (fold (\<lambda>mi best. let score = match_score mi name in if f64_less best score then score else best) ms best) \<and>
    (f64_less (Fin 0) (fold (\<lambda>mi best. let score = match_score mi name in if f64_less best score then score else best) ms best) \<longleftrightarrow>
      f64_less (Fin 0) best \<or> (\<exists>mi \<in> set ms. name_match name mi))"
  using assms
proof (induction ms arbitrary: best)
  case (Cons m ms)
  let ?b = "if f64_less best (match_score m name) then match_score m name else best"
  have u: "in_unit ?b" using Cons.prems match_score_unit by simp
  obtain r s where rs: "best = Fin r" "0 \<le> r" "match_score m name = Fin s" "0 \<le> s"
    using Cons.prems match_score_unit [of m name] by (auto simp: in_unit_def)
  have "f64_less (Fin 0) ?b \<longleftrightarrow> f64_less (Fin 0) best \<or> name_match name m"
    using rs match_score_pos [of m name] by auto
  then show ?case using Cons.IH [OF u] by (auto simp: Let_def)
qed simp

lemma model_match:
  "in_unit (model_match_score b name models)"
  "f64_less (Fin 0) (model_match_score b name models) \<longleftrightarrow> (\<exists>mi \<in> set (models_get_instances b models). name_match name mi)"
  using best_match [of "Fin 0" name]
  by (auto simp: model_match_score_def models_get_instances_def in_unit_def split: option.split)

lemma inverse_cost_unit:
  assumes "rounds F rnd" "0 \<le> c" "c \<le> 1"
  shows "\<exists>r. inverse_cost F (Fin c) = Fin r \<and> 1 / 2 \<le> r \<and> r \<le> 1"
proof -
  have two: "rnd 2 = 2" "rnd (1 / 2) = 1 / 2" "rnd 1 = 1"
    using assms(1) rounds_one unfolding rounds_def by (metis power_one_right)+
  have a: "1 \<le> rnd (1 + c)" "rnd (1 + c) \<le> 2"
    using rounds_mono [OF assms(1), of 1 "1 + c"] rounds_mono [OF assms(1), of "1 + c" 2] assms(2,3) two by simp_all
  then have "1 / 2 \<le> 1 / rnd (1 + c)" "1 / rnd (1 + c) \<le> 1" by (simp_all add: field_simps)
  then have "1 / 2 \<le> rnd (1 / rnd (1 + c))" "rnd (1 / rnd (1 + c)) \<le> 1"
    using rounds_mono [OF assms(1)] two by metis+
  moreover have "inverse_cost F (Fin c) = Fin (rnd (1 / rnd (1 + c)))"
    using a(1) unfolding inverse_cost_def rounds_ops(1) [OF assms(1)] by (intro rounds_ops(4) [OF assms(1)]) simp
  ultimately show ?thesis by blast
qed

text \<open>C32. 
  The model filter lets a candidate through exactly when one of its instances that matches the requested
  name, or architecture, has room for the prompt and one that matches supports tools if the request
  needs them; the two may be different instances. Whatever the rounding, a passing candidate scores in
  \<open>[1/2, 1]\<close>; the others are marked as excluded.
\<close>

theorem model_filter:
  assumes "rounds F rnd"
    and "matching = filter (name_match (case rc_model_name ctx of Some n \<Rightarrow> n | None \<Rightarrow> [])) (models_get_instances cand models)"
    and "tokens = (of_nat (length (rc_token_ids ctx)) :: u32)"
  shows "(f64_less (Fin 0) (sb_score (model_aware_score F ctx models cand)) \<longleftrightarrow>
      (\<exists>i \<in> set matching. tokens = 0 \<or> tokens \<le> max_context_len i) \<and>
      (\<exists>i \<in> set matching. rc_requires_tool_calling ctx \<longrightarrow> supports_tool_calling i)) \<and>
    (f64_less (Fin 0) (sb_score (model_aware_score F ctx models cand)) \<longrightarrow>
      (\<exists>r. sb_score (model_aware_score F ctx models cand) = Fin r \<and> 1 / 2 \<le> r \<and> r \<le> 1)) \<and>
    (\<not> f64_less (Fin 0) (sb_score (model_aware_score F ctx models cand)) \<longrightarrow> model_aware_score F ctx models cand = excluded cand)"
proof -
  let ?name = "case rc_model_name ctx of Some n \<Rightarrow> n | None \<Rightarrow> []"
  let ?s = "model_aware_score F ctx models cand"
  obtain m where m: "model_match_score cand ?name models = Fin m" "0 \<le> m" "m \<le> 1"
    using model_match(1) [of cand ?name models] by (auto simp: in_unit_def)
  have pos: "0 < m \<longleftrightarrow> matching \<noteq> []"
    using model_match(2) [of cand ?name models] m(1) by (auto simp: assms(2) filter_empty_conv)
  obtain r where r: "inverse_cost F (Fin (rnd (1 - m))) = Fin r" "1 / 2 \<le> r" "r \<le> 1"
    using inverse_cost_unit [OF assms(1), of "rnd (1 - m)"] rounds_nonneg [OF assms(1)] rounds_le_one [OF assms(1)] m(2,3) by auto
  let ?passes = "(\<exists>i \<in> set matching. tokens = 0 \<or> tokens \<le> max_context_len i) \<and>
      (\<exists>i \<in> set matching. rc_requires_tool_calling ctx \<longrightarrow> supports_tool_calling i)"
  have "?s = (if ?passes then score_entry cand (Fin r) (Fin (rnd (1 - m))) else excluded cand)"
    using pos m(2) r(1) by (auto simp: model_aware_score_def Let_def m(1) f64_le_def list_ex_iff rounds_ops [OF assms(1)] simp flip: assms(2,3))
  then show ?thesis using r(2,3) by (cases ?passes) simp_all
qed

definition instance_of :: "u32 \<Rightarrow> bool \<Rightarrow> model_instance" where
  "instance_of context_len tools = \<lparr>model_name = ''m'', model_architecture = [], mi_quantization = Fp16, max_context_len = context_len,
     supports_tool_calling = tools, supports_streaming = True\<rparr>"

definition tool_request :: routing_context where
  "tool_request = \<lparr>rc_request_id = None, rc_session_id = None, rc_tenant_id = None, rc_model_name = Some ''m'', rc_token_ids = replicate 20 1,
     rc_block_hashes = [], rc_block_size = 16, rc_lora_name = None, rc_cache_namespace = None, rc_estimated_output_tokens = 5,
     rc_requires_tool_calling = True\<rparr>"

text \<open>A backend that no single instance of which can serve the request passes.\<close>

theorem model_filter_witness:
  "f64_less (Fin 0) (sb_score (model_aware_score exact_fpu tool_request [(eu_backend ''a'', [instance_of 8 True, instance_of 99 False])] (eu_backend ''a''))) \<and>
   \<not> list_ex (\<lambda>i. 20 \<le> max_context_len i \<and> supports_tool_calling i) [instance_of 8 True, instance_of 99 False]"
  using model_filter [OF rounds_exact refl refl, where ctx = tool_request and cand = "eu_backend ''a''" and models = "[(eu_backend ''a'', [instance_of 8 True, instance_of 99 False])]", THEN conjunct1]
  by (simp add: tool_request_def instance_of_def name_match_def models_get_instances_def)

text \<open>Without a model name in the request, and with names in all registrations, no candidate passes.\<close>

lemma model_filter_nameless:
  assumes "rc_model_name ctx = None" "\<forall>i \<in> set (models_get_instances cand models). model_name i \<noteq> []"
  shows "model_aware_score F ctx models cand = excluded cand"
proof -
  have "\<not> f64_less (Fin 0) (model_match_score cand [] models)"
    using model_match(2) [of cand "[]" models] assms(2) by (auto simp: name_match_def)
  then have "f64_le (model_match_score cand [] models) (Fin 0)"
    using model_match(1) [of cand "[]" models] by (auto simp: in_unit_def f64_le_def)
  then show ?thesis using assms(1) by (simp add: model_aware_score_def)
qed

section \<open>Load and distance\<close>

text \<open>A backend is scored for its load when it reported metrics with free blocks, counted in wrapping 64-bit
  arithmetic; all others are excluded.\<close>

lemma load_excludes:
  "load_aware_score F la ctx stats b =
     (case load_get b stats of
        Some m \<Rightarrow> if 0 < sint (kv_total_blocks m - (kv_used_blocks m + active_decode_blocks m))
                  then score_entry b (inverse_cost F (load_cost F la ctx m)) (load_cost F la ctx m) else excluded b
      | None \<Rightarrow> excluded b)"
  by (simp add: load_aware_score_def available_capacity_def Let_def not_less split: option.split)

text \<open>The blocks a request adds, computed in 64 bits, are the exact quotient rounded up.\<close>

lemma req_decode_blocks_exact:
  "unat (req_decode_blocks ctx) =
     (if rc_block_size ctx = 0 then 0
      else (unat (rc_estimated_output_tokens ctx) + unat (rc_block_size ctx) - 1) div unat (rc_block_size ctx))"
proof (cases "rc_block_size ctx = 0")
  case False
  let ?t = "rc_estimated_output_tokens ctx" let ?b = "rc_block_size ctx"
  have b: "0 < unat ?b" "unat ?b < 2 ^ 32" "unat ?t < 2 ^ 32" using False unsigned_less [of ?b] unsigned_less [of ?t] by (simp_all add: unat_gt_0)
  have c: "unat (ucast ?b :: u64) = unat ?b" "unat (ucast ?t :: u64) = unat ?t"
    by (simp_all add: unsigned_ucast_eq take_bit_nat_eq_self_iff unsigned_take_bit_eq) (use b in \<open>simp_all add: take_bit_nat_eq_self_iff\<close>)
  have s: "unat (ucast ?t + ucast ?b :: u64) = unat ?t + unat ?b"
    using b by (subst unat_add_lem [THEN iffD1]) (simp_all add: c)
  have "unat (ucast ?t + ucast ?b - 1 :: u64) = unat ?t + unat ?b - 1"
    using b(1) s by (subst unat_sub) (simp_all add: word_le_nat_alt)
  then show ?thesis using False b(1) by (simp add: req_decode_blocks_def unat_div c word_greater_zero_iff)
qed (simp add: req_decode_blocks_def)

end
