(* ===== verification/Adaptive.thy ===== *)
theory Adaptive
  imports Degradation
begin

text \<open>
  The feedback controller of the hybrid weights, \<open>crates/hier-kv-gateway-routing/src/adaptive.rs\<close>, with its
  configuration of \<open>crates/hier-kv-gateway-core/src/config.rs\<close>. An \<open>Instant\<close> is its nanoseconds. Each call holds its
  lock throughout, except \<open>effective_weights\<close>, which gives it up while computing: two calls that find the
  interval elapsed compute both, and the step is the one that writes last.
\<close>

section \<open>State\<close>

record strategy_weights =
  sw_kv :: f64
  sw_load :: f64
  sw_topology :: f64
  sw_cost :: f64

record adaptive_config =
  ac_enabled :: bool
  ac_ema_alpha :: f64
  ac_max_adjustment :: f64
  ac_min_weight :: f64
  ac_adjust_interval_secs :: u64

definition adaptive_default :: "fpu \<Rightarrow> adaptive_config" where
  "adaptive_default F = \<lparr>ac_enabled = False, ac_ema_alpha = fp_round F (2 / 10), ac_max_adjustment = Fin (1 / 4),
     ac_min_weight = fp_round F (5 / 100), ac_adjust_interval_secs = 10\<rparr>"

record outcome_stats =
  os_ema_success :: f64
  os_ema_latency_ms :: f64
  os_samples :: u64

definition outcome_default :: outcome_stats where
  "outcome_default = \<lparr>os_ema_success = Fin 1, os_ema_latency_ms = Fin 0, os_samples = 0\<rparr>"

record adaptive_controller =
  aw_base :: strategy_weights
  aw_cfg :: adaptive_config
  aw_outcomes :: "(backend_id \<times> outcome_stats) list"
  aw_kv_hit_ema :: "f64 option"
  aw_last_adjust :: nat
  aw_current :: strategy_weights

definition adaptive_new :: "nat \<Rightarrow> strategy_weights \<Rightarrow> adaptive_config \<Rightarrow> adaptive_controller" where
  "adaptive_new inst base cfg = \<lparr>aw_base = base, aw_cfg = cfg, aw_outcomes = [], aw_kv_hit_ema = None, aw_last_adjust = inst, aw_current = base\<rparr>"

section \<open>Feedback\<close>

definition ema :: "fpu \<Rightarrow> f64 \<Rightarrow> f64 \<Rightarrow> f64 \<Rightarrow> u64 \<Rightarrow> f64" where
  "ema F prev value alpha samples =
     (if samples = 0 then value else f64_add F prev (f64_mul F alpha (f64_sub F value prev)))"

definition ema_alpha_of :: "adaptive_controller \<Rightarrow> f64" where
  "ema_alpha_of ctl = f64_clamp (Fin F64_EPSILON) (Fin 1) (ac_ema_alpha (aw_cfg ctl))"

definition outcome_stats_of :: "backend_id \<Rightarrow> adaptive_controller \<Rightarrow> outcome_stats option" where
  "outcome_stats_of b ctl = map_of (aw_outcomes ctl) b"

definition outcome_entry :: "backend_id \<Rightarrow> adaptive_controller \<Rightarrow> outcome_stats" where
  "outcome_entry b ctl = (case outcome_stats_of b ctl of Some s \<Rightarrow> s | None \<Rightarrow> outcome_default)"

text \<open>\<open>as_secs_f64\<close>: the whole seconds and the nanoseconds are converted apart.\<close>

definition as_secs_f64 :: "fpu \<Rightarrow> nat \<Rightarrow> f64" where
  "as_secs_f64 F nanos = f64_add F (of_usize F (nanos div 10 ^ 9)) (f64_div F (of_usize F (nanos mod 10 ^ 9)) (Fin (10 ^ 9)))"

definition record_success :: "fpu \<Rightarrow> backend_id \<Rightarrow> nat \<Rightarrow> adaptive_controller \<Rightarrow> adaptive_controller" where
  "record_success F b latency ctl =
     (let alpha = ema_alpha_of ctl; s = outcome_entry b ctl;
          s' = \<lparr>os_ema_success = ema F (os_ema_success s) (Fin 1) alpha (os_samples s),
                os_ema_latency_ms = ema F (os_ema_latency_ms s) (f64_mul F (as_secs_f64 F latency) (Fin 1000)) alpha (os_samples s),
                os_samples = os_samples s + 1\<rparr>
      in ctl\<lparr>aw_outcomes := AList.update b s' (aw_outcomes ctl)\<rparr>)"

definition record_failure :: "fpu \<Rightarrow> backend_id \<Rightarrow> adaptive_controller \<Rightarrow> adaptive_controller" where
  "record_failure F b ctl =
     (let alpha = ema_alpha_of ctl; s = outcome_entry b ctl;
          s' = s\<lparr>os_ema_success := ema F (os_ema_success s) (Fin 0) alpha (os_samples s), os_samples := os_samples s + 1\<rparr>
      in ctl\<lparr>aw_outcomes := AList.update b s' (aw_outcomes ctl)\<rparr>)"

definition record_kv_overlap :: "fpu \<Rightarrow> u32 \<Rightarrow> u32 \<Rightarrow> adaptive_controller \<Rightarrow> adaptive_controller" where
  "record_kv_overlap F overlap prompt_blocks ctl =
     (if prompt_blocks = 0 then ctl
      else let ratio = f64_clamp (Fin 0) (Fin 1) (f64_div F (of_usize F (unat overlap)) (of_usize F (unat prompt_blocks)));
               alpha = ema_alpha_of ctl
           in ctl\<lparr>aw_kv_hit_ema := Some (case aw_kv_hit_ema ctl of
                    Some prev \<Rightarrow> f64_add F prev (f64_mul F alpha (f64_sub F ratio prev))
                  | None \<Rightarrow> ratio)\<rparr>)"

section \<open>Weights\<close>

text \<open>
  \<open>normalize_with_floor\<close>: one pass scales the weights not yet clamped to the budget the clamped ones leave and
  clamps those that fall below the floor; passes repeat until none is clamped anew.
\<close>

definition floor_pass :: "fpu \<Rightarrow> f64 \<Rightarrow> (f64 \<times> bool) list \<Rightarrow> (f64 \<times> bool) list" where
  "floor_pass F low ws =
     (let fixed = f64_sum F (map fst (filter snd ws));
          rest_sum = f64_sum F (map fst (filter (\<lambda>w. \<not> snd w) ws));
          budget = f64_sub F (Fin 1) fixed;
          n_rest = of_usize F (length (filter (\<lambda>w. \<not> snd w) ws))
      in map (\<lambda>(v, clamped).
            if clamped then (v, True)
            else let v' = (if f64_less (Fin 0) rest_sum then f64_mul F (f64_div F v rest_sum) budget
                           else f64_div F budget (f64_max n_rest (Fin 1)))
                 in if f64_less v' low then (low, True) else (v', False)) ws)"

lemma floor_pass_length [simp]: "length (floor_pass F low ws) = length ws"
  by (simp add: floor_pass_def Let_def)

lemma floor_pass_keeps: "i < length ws \<Longrightarrow> snd (ws ! i) \<Longrightarrow> floor_pass F low ws ! i = ws ! i"
  by (cases "ws ! i") (simp add: floor_pass_def Let_def)

abbreviation unclamped :: "('a \<times> bool) list \<Rightarrow> nat" where
  "unclamped ws \<equiv> length (filter (\<lambda>w. \<not> snd w) ws)"

lemma unclamped_le:
  "length vs = length ws \<Longrightarrow> (\<And>i. i < length ws \<Longrightarrow> snd (ws ! i) \<Longrightarrow> snd (vs ! i)) \<Longrightarrow> unclamped vs \<le> unclamped ws"
proof (induction vs ws rule: list_induct2)
  case (Cons v vs w ws)
  have "snd w \<Longrightarrow> snd v" using Cons.prems [of 0] by simp
  moreover have "unclamped vs \<le> unclamped ws" using Cons.IH Cons.prems [of "Suc _"] by simp
  ultimately show ?case by auto
qed simp

lemma unclamped_less:
  "length vs = length ws \<Longrightarrow> (\<And>i. i < length ws \<Longrightarrow> snd (ws ! i) \<Longrightarrow> snd (vs ! i)) \<Longrightarrow> map snd vs \<noteq> map snd ws \<Longrightarrow>
    unclamped vs < unclamped ws"
proof (induction vs ws rule: list_induct2)
  case (Cons v vs w ws)
  have v: "snd w \<Longrightarrow> snd v" using Cons.prems(1) [of 0] by simp
  have tl: "\<And>i. i < length ws \<Longrightarrow> snd (ws ! i) \<Longrightarrow> snd (vs ! i)" using Cons.prems(1) [of "Suc _"] by simp
  have le: "unclamped vs \<le> unclamped ws" by (rule unclamped_le [OF Cons.hyps tl])
  show ?case
  proof (cases "snd v = snd w")
    case True
    then have "unclamped vs < unclamped ws" using Cons.IH [OF tl] Cons.prems(2) by simp
    then show ?thesis using True by simp
  qed (use v le in auto)
qed simp

lemma floor_pass_shrinks: "map snd (floor_pass F low ws) \<noteq> map snd ws \<Longrightarrow> unclamped (floor_pass F low ws) < unclamped ws"
  by (rule unclamped_less) (simp_all add: floor_pass_keeps)

function floor_loop :: "fpu \<Rightarrow> f64 \<Rightarrow> (f64 \<times> bool) list \<Rightarrow> f64 list" where
  "floor_loop F low ws =
     (let ws' = floor_pass F low ws in if map snd ws' \<noteq> map snd ws then floor_loop F low ws' else map fst ws')"
  by pat_completeness auto
termination
  by (relation "measure (\<lambda>(F, low, ws). unclamped ws)") (simp_all add: floor_pass_shrinks)

declare floor_loop.simps [simp del]

definition normalize_with_floor :: "fpu \<Rightarrow> f64 list \<Rightarrow> f64 \<Rightarrow> f64 list" where
  "normalize_with_floor F w low = floor_loop F low (map (\<lambda>v. (v, False)) w)"

definition load_spread :: "fpu \<Rightarrow> metadata_store \<Rightarrow> f64" where
  "load_spread F meta =
     (let values = map (\<lambda>m. of_usize F (unat (active_requests m))) (List.map_filter (\<lambda>b. load_get (bi_id b) (ms_load meta)) (backends_all meta));
          n = of_usize F (length values);
          mean = f64_div F (f64_sum F values) n;
          var = f64_div F (f64_sum F (map (\<lambda>v. f64_mul F (f64_sub F v mean) (f64_sub F v mean)) values)) n
      in if length values < 2 then Fin 0
         else if f64_le mean (Fin 0) then Fin 0
         else f64_div F (fp_sqrt F var) mean)"

definition failure_pressure :: "fpu \<Rightarrow> adaptive_controller \<Rightarrow> f64" where
  "failure_pressure F ctl =
     (case map os_ema_success (filter (\<lambda>s. 0 < os_samples s) (map snd (aw_outcomes ctl))) of
        [] \<Rightarrow> Fin 0
      | x # xs \<Rightarrow> f64_clamp (Fin 0) (Fin 1) (f64_sub F (Fin 1) (foldl f64_min x xs)))"

definition adaptive_compute :: "fpu \<Rightarrow> metadata_store \<Rightarrow> adaptive_controller \<Rightarrow> strategy_weights" where
  "adaptive_compute F meta ctl =
     (let max_adj = f64_max (ac_max_adjustment (aw_cfg ctl)) (Fin 0);
          kv_boost = (case aw_kv_hit_ema ctl of None \<Rightarrow> Fin 0
            | Some r \<Rightarrow> f64_mul F (f64_clamp (Fin 0) (Fin 1) (f64_mul F (f64_sub F r (Fin (1 / 2))) (Fin 2))) max_adj);
          load_boost = f64_mul F (f64_clamp (Fin 0) (Fin 1) (f64_max (failure_pressure F ctl) (load_spread F meta))) max_adj;
          w_kv = f64_mul F (sw_kv (aw_base ctl)) (f64_add F (Fin 1) kv_boost);
          w_load = f64_mul F (sw_load (aw_base ctl)) (f64_add F (Fin 1) load_boost);
          w_topo = sw_topology (aw_base ctl);
          w_cost = sw_cost (aw_base ctl);
          sum = f64_add F (f64_add F (f64_add F w_kv w_load) w_topo) w_cost
      in if f64_le sum (Fin 0) then aw_base ctl
         else let low = f64_clamp (Fin 0) (Fin (1 / 4)) (ac_min_weight (aw_cfg ctl));
                  ws = normalize_with_floor F [f64_div F w_kv sum, f64_div F w_load sum, f64_div F w_topo sum, f64_div F w_cost sum] low
              in \<lparr>sw_kv = ws ! 0, sw_load = ws ! 1, sw_topology = ws ! 2, sw_cost = ws ! 3\<rparr>)"

definition effective_weights :: "fpu \<Rightarrow> nat \<Rightarrow> metadata_store \<Rightarrow> adaptive_controller \<Rightarrow> strategy_weights \<times> adaptive_controller" where
  "effective_weights F inst meta ctl =
     (if inst - aw_last_adjust ctl < unat (ac_adjust_interval_secs (aw_cfg ctl)) * 10 ^ 9 then (aw_current ctl, ctl)
      else let adjusted = adaptive_compute F meta ctl
           in (adjusted, ctl\<lparr>aw_last_adjust := inst, aw_current := adjusted\<rparr>))"

section \<open>The floor\<close>

definition clamped_at :: "f64 \<Rightarrow> (f64 \<times> bool) list \<Rightarrow> bool" where
  "clamped_at low ws \<longleftrightarrow> (\<forall>w \<in> set ws. snd w \<longrightarrow> fst w = low)"

lemma floor_pass_clamped: "clamped_at low ws \<Longrightarrow> clamped_at low (floor_pass F low ws)"
  by (auto simp: clamped_at_def floor_pass_def Let_def split: if_splits)

lemma floor_pass_above: "clamped_at low ws \<Longrightarrow> w \<in> set (floor_pass F low ws) \<Longrightarrow> \<not> f64_less (fst w) low"
  by (cases low) (auto simp: clamped_at_def floor_pass_def Let_def split: if_splits)

text \<open>Whatever the rounding, no weight that comes out is below the floor.\<close>

lemma floor_loop_above:
  "clamped_at low ws \<Longrightarrow> length (floor_loop F low ws) = length ws \<and> (\<forall>v \<in> set (floor_loop F low ws). \<not> f64_less v low)"
proof (induction F low ws rule: floor_loop.induct)
  case (1 F low ws)
  show ?case
  proof (cases "map snd (floor_pass F low ws) = map snd ws")
    case True
    then have "floor_loop F low ws = map fst (floor_pass F low ws)" by (simp add: floor_loop.simps [of F low ws] Let_def)
    then show ?thesis using floor_pass_above [OF "1.prems"] by auto
  next
    case False
    then have "floor_loop F low ws = floor_loop F low (floor_pass F low ws)" by (subst floor_loop.simps) (simp add: Let_def)
    then show ?thesis using "1.IH" [OF refl] False floor_pass_clamped [OF "1.prems"] by simp
  qed
qed

lemma normalize_above:
  "length (normalize_with_floor F w low) = length w" "v \<in> set (normalize_with_floor F w low) \<Longrightarrow> \<not> f64_less v low"
  using floor_loop_above [of low "map (\<lambda>v. (v, False)) w" F] by (simp_all add: normalize_with_floor_def clamped_at_def)

text \<open>The pass in exact arithmetic, on rationals.\<close>

abbreviation fin_pairs :: "(rat \<times> bool) list \<Rightarrow> (f64 \<times> bool) list" where
  "fin_pairs xs \<equiv> map (\<lambda>x. (Fin (fst x), snd x)) xs"

definition rest_of :: "(rat \<times> bool) list \<Rightarrow> rat list" where
  "rest_of xs = map fst (filter (\<lambda>x. \<not> snd x) xs)"

definition fixed_of :: "(rat \<times> bool) list \<Rightarrow> rat list" where
  "fixed_of xs = map fst (filter snd xs)"

definition scale_to :: "(rat \<times> bool) list \<Rightarrow> rat \<Rightarrow> rat" where
  "scale_to xs v =
     (let rest = sum_list (rest_of xs); budget = 1 - sum_list (fixed_of xs)
      in if 0 < rest then v / rest * budget else budget / max (of_nat (length (rest_of xs))) 1)"

definition rat_pass :: "rat \<Rightarrow> (rat \<times> bool) list \<Rightarrow> (rat \<times> bool) list" where
  "rat_pass low xs =
     map (\<lambda>(v, c). if c then (v, True) else if scale_to xs v < low then (low, True) else (scale_to xs v, False)) xs"

lemma f64_sum_exact:
  assumes "rounds F id"
  shows "f64_sum F (map Fin xs) = Fin (sum_list xs)"
proof -
  have "foldl (f64_add F) (Fin a) (map Fin xs) = Fin (a + sum_list xs)" for a
    by (induction xs arbitrary: a) (simp_all add: exact_round [OF assms] ac_simps)
  then show ?thesis by (simp add: f64_sum_def)
qed

lemma pass_exact:
  assumes "rounds F id"
  shows "floor_pass F (Fin low) (fin_pairs xs) = fin_pairs (rat_pass low xs)"
proof -
  have filters: "map fst (filter snd (fin_pairs xs)) = map Fin (fixed_of xs)"
      "map fst (filter (\<lambda>w. \<not> snd w) (fin_pairs xs)) = map Fin (rest_of xs)" "unclamped (fin_pairs xs) = length (rest_of xs)"
    by (induction xs) (auto simp: fixed_of_def rest_of_def)
  have scale: "(if f64_less (Fin 0) (Fin (sum_list (rest_of xs)))
       then f64_mul F (f64_div F (Fin v) (Fin (sum_list (rest_of xs)))) (f64_sub F (Fin 1) (Fin (sum_list (fixed_of xs))))
       else f64_div F (f64_sub F (Fin 1) (Fin (sum_list (fixed_of xs)))) (f64_max (of_usize F (length (rest_of xs))) (Fin 1))) =
       Fin (scale_to xs v)" for v
    by (auto simp: scale_to_def Let_def exact_round [OF assms] f64_sub_def of_usize_def f64_max_def max_def le_Suc_eq)
  show ?thesis
    unfolding floor_pass_def Let_def filters f64_sum_exact [OF assms] rat_pass_def list.map_comp
    by (rule map_cong [OF refl]) (simp only: comp_apply case_prod_beta fst_conv snd_conv scale, simp)
qed

definition floor_inv :: "rat \<Rightarrow> (rat \<times> bool) list \<Rightarrow> bool" where
  "floor_inv low xs \<longleftrightarrow> 0 \<le> low \<and> of_nat (length xs) * low \<le> 1 \<and> rest_of xs \<noteq> [] \<and>
     (\<forall>x \<in> set xs. if snd x then fst x = low else 0 \<le> fst x)"

lemma fixed_sum: "(\<And>x. x \<in> set xs \<Longrightarrow> snd x \<Longrightarrow> fst x = low) \<Longrightarrow> sum_list (fixed_of xs) + of_nat (length (rest_of xs)) * low = of_nat (length xs) * low"
  by (induction xs) (auto simp: fixed_of_def rest_of_def algebra_simps)

lemma sum_parts: "sum_list (map fst xs) = sum_list (fixed_of xs) + sum_list (rest_of xs)"
  by (induction xs) (auto simp: fixed_of_def rest_of_def)

lemma budget_covers: "floor_inv low xs \<Longrightarrow> of_nat (length (rest_of xs)) * low \<le> 1 - sum_list (fixed_of xs)"
  using fixed_sum [of xs low] by (fastforce simp: floor_inv_def)

lemma scale_nonneg:
  assumes "floor_inv low xs" "0 \<le> v"
  shows "0 \<le> scale_to xs v"
proof -
  have "0 \<le> 1 - sum_list (fixed_of xs)"
    using budget_covers [OF assms(1)] assms(1) by (meson floor_inv_def mult_nonneg_nonneg of_nat_0_le_iff order_trans)
  then show ?thesis using assms(2) by (auto simp: scale_to_def Let_def max_def)
qed

lemma sum_scale:
  assumes "floor_inv low xs"
  shows "sum_list (map (scale_to xs) (rest_of xs)) = 1 - sum_list (fixed_of xs)"
proof (cases "0 < sum_list (rest_of xs)")
  case True
  then have "scale_to xs = (\<lambda>v. v * ((1 - sum_list (fixed_of xs)) / sum_list (rest_of xs)))"
    by (intro ext) (simp add: scale_to_def Let_def)
  then have "sum_list (map (scale_to xs) (rest_of xs)) = sum_list (rest_of xs) * ((1 - sum_list (fixed_of xs)) / sum_list (rest_of xs))"
    by (simp only: sum_list_mult_const) simp
  then show ?thesis using True by simp
next
  case False
  have "1 \<le> length (rest_of xs)" using assms by (cases "rest_of xs") (simp_all add: floor_inv_def)
  then have "max (of_nat (length (rest_of xs))) 1 = (of_nat (length (rest_of xs)) :: rat)" by (simp add: max_def)
  then have "scale_to xs = (\<lambda>_. (1 - sum_list (fixed_of xs)) / of_nat (length (rest_of xs)))"
    using False by (intro ext) (simp add: scale_to_def Let_def)
  then show ?thesis using assms by (simp add: sum_list_triv floor_inv_def)
qed

lemma rat_pass_rest: "rest_of (rat_pass low xs) = filter (\<lambda>v. \<not> v < low) (map (scale_to xs) (rest_of xs))"
proof -
  have "rest_of (map (\<lambda>(v, c). if c then (v, True) else if g v < low then (low, True) else (g v, False)) ys) =
      filter (\<lambda>v. \<not> v < low) (map g (rest_of ys))" for g and ys :: "(rat \<times> bool) list"
    by (induction ys) (auto simp: rest_of_def)
  then show ?thesis by (simp add: rat_pass_def)
qed

lemma rat_pass_inv:
  assumes "floor_inv low xs"
  shows "floor_inv low (rat_pass low xs)"
proof -
  have "rest_of (rat_pass low xs) \<noteq> []"
  proof
    assume "rest_of (rat_pass low xs) = []"
    then have small: "\<forall>v \<in> set (rest_of xs). scale_to xs v < low" by (simp add: rat_pass_rest filter_empty_conv)
    have "sum_list (map (scale_to xs) (rest_of xs)) < sum_list (map (\<lambda>_. low) (rest_of xs))"
      using assms small by (intro sum_list_strict_mono) (simp_all add: floor_inv_def)
    then show False using sum_scale [OF assms] budget_covers [OF assms] by (simp add: sum_list_triv)
  qed
  moreover have "if snd y then fst y = low else 0 \<le> fst y" if y: "y \<in> set (rat_pass low xs)" for y
  proof -
    obtain x where "x \<in> set xs" "y = (case x of (v, c) \<Rightarrow> if c then (v, True) else if scale_to xs v < low then (low, True) else (scale_to xs v, False))"
      using y unfolding rat_pass_def set_map by blast
    then obtain v c where x: "(v, c) \<in> set xs" "y = (if c then (v, True) else if scale_to xs v < low then (low, True) else (scale_to xs v, False))"
      by (cases rule: prod.exhaust [of x]) simp
    then have "if c then v = low else 0 \<le> v" using assms by (fastforce simp: floor_inv_def)
    then show ?thesis using x(2) scale_nonneg [OF assms, of v] by (cases c) simp_all
  qed
  ultimately show ?thesis using assms by (simp add: floor_inv_def rat_pass_def)
qed

lemma rat_pass_final:
  assumes "floor_inv low xs" "map snd (rat_pass low xs) = map snd xs"
  shows "map fst (rat_pass low xs) = map (\<lambda>(v, c). if c then v else scale_to xs v) xs" "sum_list (map fst (rat_pass low xs)) = 1"
proof -
  have same: "snd (rat_pass low xs ! i) = snd (xs ! i)" if "i < length xs" for i
    using assms(2) that by (metis length_map nth_map)
  have "fst (rat_pass low xs ! i) = (if snd (xs ! i) then fst (xs ! i) else scale_to xs (fst (xs ! i)))" if i: "i < length xs" for i
    using same [OF i] assms(1) nth_mem [OF i] by (auto simp: rat_pass_def i floor_inv_def case_prod_beta split: if_splits)
  then show eq: "map fst (rat_pass low xs) = map (\<lambda>(v, c). if c then v else scale_to xs v) xs"
    by (intro nth_equalityI) (simp_all add: rat_pass_def case_prod_beta)
  have "sum_list (map (\<lambda>(v, c). if c then v else g v) ys) = sum_list (fixed_of ys) + sum_list (map g (rest_of ys))" for ys and g :: "rat \<Rightarrow> rat"
    by (induction ys) (auto simp: fixed_of_def rest_of_def)
  then show "sum_list (map fst (rat_pass low xs)) = 1" by (simp add: eq sum_scale [OF assms(1)])
qed

text \<open>In exact arithmetic the weights that come out sum to one; when no weight is below the floor after the first
  scaling they are the given ones over their sum.\<close>

lemma floor_loop_exact:
  assumes "rounds F id" "floor_inv low xs"
  shows "\<exists>ys. floor_loop F (Fin low) (fin_pairs xs) = map Fin ys \<and> sum_list ys = 1"
  using assms(2)
proof (induction "length (rest_of xs)" arbitrary: xs rule: less_induct)
  case less
  have eq: "floor_pass F (Fin low) (fin_pairs xs) = fin_pairs (rat_pass low xs)" by (rule pass_exact [OF assms(1)])
  have snds: "map snd (fin_pairs ys) = map snd ys" for ys by simp
  show ?case
  proof (cases "map snd (rat_pass low xs) = map snd xs")
    case True
    then have "floor_loop F (Fin low) (fin_pairs xs) = map fst (fin_pairs (rat_pass low xs))"
      unfolding floor_loop.simps [of F "Fin low" "fin_pairs xs"] Let_def eq snds by simp
    then have "floor_loop F (Fin low) (fin_pairs xs) = map Fin (map fst (rat_pass low xs))" by simp
    then show ?thesis using rat_pass_final(2) [OF less.prems True] by blast
  next
    case False
    have "length (rest_of ys) = unclamped (fin_pairs ys)" for ys by (induction ys) (simp_all add: rest_of_def)
    then have "length (rest_of (rat_pass low xs)) < length (rest_of xs)"
      using floor_pass_shrinks [of F "Fin low" "fin_pairs xs"] False unfolding eq snds by simp
    moreover have "floor_loop F (Fin low) (fin_pairs xs) = floor_loop F (Fin low) (fin_pairs (rat_pass low xs))"
      using False unfolding floor_loop.simps [of F "Fin low" "fin_pairs xs"] Let_def eq snds by simp
    ultimately show ?thesis using less.hyps [OF _ rat_pass_inv [OF less.prems]] by simp
  qed
qed

lemma normalize_exact:
  assumes "rounds F id" "0 \<le> low" "of_nat (length xs) * low \<le> 1" "xs \<noteq> []" "\<forall>x \<in> set xs. 0 \<le> x"
  shows "\<exists>ys. normalize_with_floor F (map Fin xs) (Fin low) = map Fin ys \<and> length ys = length xs \<and> sum_list ys = 1 \<and> (\<forall>y \<in> set ys. low \<le> y)"
proof -
  have pairs: "map (\<lambda>v. (v, False)) (map Fin xs) = fin_pairs (map (\<lambda>x. (x, False)) xs)" by simp
  have "rest_of (map (\<lambda>x. (x, False)) xs) = xs" by (simp add: rest_of_def comp_def)
  then have "floor_inv low (map (\<lambda>x. (x, False)) xs)" using assms by (simp add: floor_inv_def)
  then obtain ys where ys: "normalize_with_floor F (map Fin xs) (Fin low) = map Fin ys" "sum_list ys = 1"
    using floor_loop_exact [OF assms(1)] unfolding normalize_with_floor_def pairs by blast
  moreover have "low \<le> y" if "y \<in> set ys" for y
    using normalize_above(2) [of "Fin y" F "map Fin xs" "Fin low"] that ys(1) by simp
  ultimately show ?thesis using normalize_above(1) [of F "map Fin xs" "Fin low"] by auto
qed

section \<open>The controller over time\<close>

text \<open>The calls that change a controller, in any order.\<close>

datatype feedback =
    ForwardOk backend_id nat
  | ForwardFailed backend_id
  | Served u32 u32
  | Weigh nat metadata_store

fun feed :: "fpu \<Rightarrow> feedback \<Rightarrow> adaptive_controller \<Rightarrow> adaptive_controller" where
  "feed F (ForwardOk b latency) ctl = record_success F b latency ctl"
| "feed F (ForwardFailed b) ctl = record_failure F b ctl"
| "feed F (Served overlap blocks) ctl = record_kv_overlap F overlap blocks ctl"
| "feed F (Weigh inst meta) ctl = snd (effective_weights F inst meta ctl)"

definition weight_floor :: "adaptive_config \<Rightarrow> f64" where
  "weight_floor cfg = f64_clamp (Fin 0) (Fin (1 / 4)) (ac_min_weight cfg)"

text \<open>Shares: the weights sum to one and none is below the floor.\<close>

definition shares :: "f64 \<Rightarrow> strategy_weights \<Rightarrow> bool" where
  "shares low w \<longleftrightarrow> (\<exists>k l t c. w = \<lparr>sw_kv = Fin k, sw_load = Fin l, sw_topology = Fin t, sw_cost = Fin c\<rparr> \<and>
     k + l + t + c = 1 \<and> (\<forall>x \<in> {k, l, t, c}. \<not> f64_less (Fin x) low))"

definition base_ok :: "strategy_weights \<Rightarrow> bool" where
  "base_ok w \<longleftrightarrow> (\<exists>k l t c. w = \<lparr>sw_kv = Fin k, sw_load = Fin l, sw_topology = Fin t, sw_cost = Fin c\<rparr> \<and>
     0 \<le> k \<and> 0 \<le> l \<and> 0 \<le> t \<and> 0 \<le> c \<and> 0 < k + l + t + c)"

definition config_ok :: "adaptive_config \<Rightarrow> bool" where
  "config_ok cfg \<longleftrightarrow> ac_ema_alpha cfg \<noteq> NaN \<and> ac_min_weight cfg \<noteq> NaN \<and> ac_max_adjustment cfg \<noteq> PInf"

definition emas_ok :: "adaptive_controller \<Rightarrow> bool" where
  "emas_ok ctl \<longleftrightarrow> (\<forall>e \<in> set (aw_outcomes ctl). in_unit (os_ema_success (snd e))) \<and> (\<forall>r. aw_kv_hit_ema ctl = Some r \<longrightarrow> in_unit r)"

lemma alpha_unit: "ac_ema_alpha (aw_cfg ctl) \<noteq> NaN \<Longrightarrow> in_unit (ema_alpha_of ctl)"
  by (cases "ac_ema_alpha (aw_cfg ctl)") (simp_all add: ema_alpha_of_def f64_clamp_def F64_EPSILON_def)

lemma blend_unit:
  assumes "rounds F id" "in_unit prev" "in_unit value" "in_unit alpha"
  shows "in_unit (f64_add F prev (f64_mul F alpha (f64_sub F value prev)))"
proof -
  obtain p v a where r: "prev = Fin p" "0 \<le> p" "p \<le> 1" "value = Fin v" "0 \<le> v" "v \<le> 1" "alpha = Fin a" "0 \<le> a" "a \<le> 1"
    using assms(2-4) by (auto simp: in_unit_def)
  have "p + a * (v - p) = (1 - a) * p + a * v" by (simp add: algebra_simps)
  moreover have "0 \<le> (1 - a) * p + a * v" using r by simp
  moreover have "(1 - a) * p + a * v \<le> (1 - a) * 1 + a * 1" using r by (intro add_mono mult_left_mono) simp_all
  ultimately show ?thesis by (simp add: r(1,4,7) exact_round [OF assms(1)] f64_sub_def)
qed

lemma ema_unit: "rounds F id \<Longrightarrow> in_unit prev \<Longrightarrow> in_unit value \<Longrightarrow> in_unit alpha \<Longrightarrow> in_unit (ema F prev value alpha n)"
  by (simp add: ema_def blend_unit)

lemma outcome_entry_unit: "emas_ok ctl \<Longrightarrow> in_unit (os_ema_success (outcome_entry b ctl))"
  by (fastforce simp: outcome_entry_def outcome_stats_of_def outcome_default_def emas_ok_def dest: map_of_SomeD split: option.split)

lemma set_update: "set (AList.update k v xs) \<subseteq> insert (k, v) (set xs)"
  by (induction xs) auto

lemma feed_emas:
  assumes "rounds F id" "ac_ema_alpha (aw_cfg ctl) \<noteq> NaN" "emas_ok ctl"
  shows "emas_ok (feed F ev ctl)"
proof (cases ev)
  case (ForwardOk b n)
  have "in_unit (ema F (os_ema_success (outcome_entry b ctl)) (Fin 1) (ema_alpha_of ctl) (os_samples (outcome_entry b ctl)))"
    by (intro ema_unit assms(1) outcome_entry_unit [OF assms(3)] alpha_unit [OF assms(2)]) simp
  then show ?thesis using ForwardOk assms(3) set_update by (fastforce simp: record_success_def emas_ok_def Let_def)
next
  case (ForwardFailed b)
  have "in_unit (ema F (os_ema_success (outcome_entry b ctl)) (Fin 0) (ema_alpha_of ctl) (os_samples (outcome_entry b ctl)))"
    by (intro ema_unit assms(1) outcome_entry_unit [OF assms(3)] alpha_unit [OF assms(2)]) simp
  then show ?thesis using ForwardFailed assms(3) set_update by (fastforce simp: record_failure_def emas_ok_def Let_def)
next
  case (Served n m)
  show ?thesis
  proof (cases "m = 0")
    case False
    have "f64_div F (of_usize F (unat n)) (of_usize F (unat m)) \<noteq> NaN"
      using False unat_gt_0 [of m] by (simp add: of_usize_def exact_round [OF assms(1)] del: of_nat_unat)
    then have "in_unit (f64_clamp (Fin 0) (Fin 1) (f64_div F (of_usize F (unat n)) (of_usize F (unat m))))" by (rule clamp_unit)
    then show ?thesis using Served False assms(3) blend_unit [OF assms(1)] alpha_unit [OF assms(2)]
      by (auto simp: record_kv_overlap_def emas_ok_def Let_def split: option.splits)
  qed (use Served assms(3) in \<open>simp add: record_kv_overlap_def\<close>)
qed (use assms(3) in \<open>simp add: effective_weights_def emas_ok_def Let_def\<close>)

lemma feed_frame: "aw_cfg (feed F ev ctl) = aw_cfg ctl" "aw_base (feed F ev ctl) = aw_base ctl"
  by (cases ev; simp add: record_success_def record_failure_def record_kv_overlap_def effective_weights_def Let_def)+

lemma foldl_min_unit: "in_unit x \<Longrightarrow> \<forall>y \<in> set ys. in_unit y \<Longrightarrow> in_unit (foldl f64_min x ys)"
  by (induction ys arbitrary: x) (auto simp: f64_min_def)

lemma failure_pressure_unit:
  assumes "rounds F id" "emas_ok ctl"
  shows "in_unit (failure_pressure F ctl)"
proof (cases "map os_ema_success (filter (\<lambda>s. 0 < os_samples s) (map snd (aw_outcomes ctl)))")
  case (Cons x xs)
  then have "set (x # xs) \<subseteq> os_ema_success ` snd ` set (aw_outcomes ctl)" by (metis filter_is_subset image_mono list.set_map)
  then have "\<forall>y \<in> set (x # xs). in_unit y" using assms(2) by (auto simp: emas_ok_def)
  then have "in_unit (foldl f64_min x xs)" by (simp add: foldl_min_unit)
  then have "f64_sub F (Fin 1) (foldl f64_min x xs) \<noteq> NaN" by (auto simp: in_unit_def f64_sub_def exact_round [OF assms(1)])
  then show ?thesis unfolding failure_pressure_def Cons by (simp add: clamp_unit)
qed (simp add: failure_pressure_def)

lemma boost_factor:
  assumes "rounds F id" "in_unit u" "a \<noteq> PInf"
  shows "\<exists>b \<ge> 1. f64_add F (Fin 1) (f64_mul F u (f64_max a (Fin 0))) = Fin b"
proof -
  have "\<exists>q. f64_max a (Fin 0) = Fin q \<and> 0 \<le> q" using assms(3) by (cases a) (auto simp: f64_max_def)
  then obtain q where q: "f64_max a (Fin 0) = Fin q" "0 \<le> q" by blast
  obtain r where "u = Fin r" "0 \<le> r" using assms(2) by (auto simp: in_unit_def)
  then show ?thesis by (auto simp: q exact_round [OF assms(1)])
qed

lemma clamp_range: "0 \<le> hi \<Longrightarrow> x \<noteq> NaN \<Longrightarrow> \<exists>q. f64_clamp (Fin 0) (Fin hi) x = Fin q \<and> 0 \<le> q \<and> q \<le> hi"
  by (cases x) (auto simp: f64_clamp_def)

lemma weight_floor_cases: "ac_min_weight cfg \<noteq> NaN \<Longrightarrow> \<exists>q. weight_floor cfg = Fin q \<and> 0 \<le> q \<and> q \<le> 1 / 4"
  unfolding weight_floor_def by (rule clamp_range) simp_all

lemma base_okI: "0 \<le> k \<Longrightarrow> 0 \<le> l \<Longrightarrow> 0 \<le> t \<Longrightarrow> 0 \<le> c \<Longrightarrow> 0 < k + l + t + c \<Longrightarrow>
    base_ok \<lparr>sw_kv = Fin k, sw_load = Fin l, sw_topology = Fin t, sw_cost = Fin c\<rparr>"
  by (simp add: base_ok_def)

lemma compute_shares:
  assumes "rounds F id" "config_ok (aw_cfg ctl)" "base_ok (aw_base ctl)" "emas_ok ctl"
  shows "shares (weight_floor (aw_cfg ctl)) (adaptive_compute F meta ctl)"
proof -
  note ex = exact_round [OF assms(1)]
  obtain k l t c where base: "aw_base ctl = \<lparr>sw_kv = Fin k, sw_load = Fin l, sw_topology = Fin t, sw_cost = Fin c\<rparr>"
      "0 \<le> k" "0 \<le> l" "0 \<le> t" "0 \<le> c" "0 < k + l + t + c" using assms(3) by (auto simp: base_ok_def)
  let ?max = "f64_max (ac_max_adjustment (aw_cfg ctl)) (Fin 0)"
  have max: "ac_max_adjustment (aw_cfg ctl) \<noteq> PInf" "ac_min_weight (aw_cfg ctl) \<noteq> NaN" using assms(2) by (simp_all add: config_ok_def)
  let ?kv = "case aw_kv_hit_ema ctl of None \<Rightarrow> Fin 0
            | Some r \<Rightarrow> f64_mul F (f64_clamp (Fin 0) (Fin 1) (f64_mul F (f64_sub F r (Fin (1 / 2))) (Fin 2))) ?max"
  obtain bk where bk: "f64_add F (Fin 1) ?kv = Fin bk" "1 \<le> bk"
  proof (cases "aw_kv_hit_ema ctl")
    case None
    then show ?thesis using that by (simp add: ex)
  next
    case (Some r)
    then have "f64_mul F (f64_sub F r (Fin (1 / 2))) (Fin 2) \<noteq> NaN"
      using assms(4) by (auto simp: emas_ok_def in_unit_def f64_sub_def ex)
    from boost_factor [OF assms(1) clamp_unit [OF this] max(1)] show ?thesis using that Some by auto
  qed
  let ?pressure = "f64_max (failure_pressure F ctl) (load_spread F meta)"
  have "?pressure \<noteq> NaN" using failure_pressure_unit [OF assms(1,4)] by (auto simp: f64_max_def in_unit_def)
  from boost_factor [OF assms(1) clamp_unit [OF this] max(1)]
  obtain bl where bl: "f64_add F (Fin 1) (f64_mul F (f64_clamp (Fin 0) (Fin 1) ?pressure) ?max) = Fin bl" "1 \<le> bl" by blast
  let ?s = "k * bk + l * bl + t + c"
  have "k \<le> k * bk" "l \<le> l * bl" using base bk(2) bl(2) by (simp_all add: mult_le_cancel_left1)
  then have s: "0 < ?s" using base by linarith
  obtain q where q: "weight_floor (aw_cfg ctl) = Fin q" "0 \<le> q" "q \<le> 1 / 4" using weight_floor_cases [OF max(2)] by blast
  let ?ws = "[k * bk / ?s, l * bl / ?s, t / ?s, c / ?s]"
  have "\<forall>x \<in> set ?ws. 0 \<le> x" using base bk(2) bl(2) s by simp
  then obtain ys where ys: "normalize_with_floor F (map Fin ?ws) (Fin q) = map Fin ys" "length ys = 4" "sum_list ys = 1" "\<forall>y \<in> set ys. q \<le> y"
    using normalize_exact [OF assms(1) q(2), of ?ws] q(3) by auto
  obtain y1 y2 y3 y4 where y: "ys = [y1, y2, y3, y4]"
    using ys(2) by (auto simp: numeral_eq_Suc length_Suc_conv)
  have "adaptive_compute F meta ctl = \<lparr>sw_kv = Fin y1, sw_load = Fin y2, sw_topology = Fin y3, sw_cost = Fin y4\<rparr>"
    unfolding adaptive_compute_def Let_def bk(1) bl(1) weight_floor_def [symmetric] q(1) base(1)
    using ys(1) s by (simp add: ex y f64_le_def)
  then show ?thesis using ys(3,4) by (simp add: shares_def y q(1) add.assoc)
qed

text \<open>A request for weights comes too early for a computation, or makes one.\<close>

fun early :: "adaptive_config \<Rightarrow> nat \<Rightarrow> feedback \<Rightarrow> bool" where
  "early cfg start (Weigh inst meta) \<longleftrightarrow> inst - start < unat (ac_adjust_interval_secs cfg) * 10 ^ 9"
| "early cfg start ev \<longleftrightarrow> True"

definition in_effect :: "adaptive_config \<Rightarrow> nat \<Rightarrow> strategy_weights \<Rightarrow> feedback list \<Rightarrow> adaptive_controller \<Rightarrow> bool" where
  "in_effect cfg start base events ctl \<longleftrightarrow> aw_cfg ctl = cfg \<and> aw_base ctl = base \<and> emas_ok ctl \<and>
     (if list_all (early cfg start) events then aw_current ctl = base \<and> aw_last_adjust ctl = start
      else shares (weight_floor cfg) (aw_current ctl))"

lemma fed_in_effect:
  assumes "rounds F id" "config_ok cfg" "base_ok base"
  shows "in_effect cfg start base events (fold (feed F) events (adaptive_new start base cfg))"
proof (induction events rule: rev_induct)
  case Nil
  then show ?case by (simp add: in_effect_def adaptive_new_def emas_ok_def)
next
  case (snoc ev events)
  let ?c = "fold (feed F) events (adaptive_new start base cfg)"
  have c: "aw_cfg ?c = cfg" "aw_base ?c = base" "emas_ok ?c" using snoc by (simp_all add: in_effect_def)
  have "ac_ema_alpha (aw_cfg ?c) \<noteq> NaN" using assms(2) c(1) by (simp add: config_ok_def)
  then have frame: "emas_ok (feed F ev ?c)" "aw_cfg (feed F ev ?c) = cfg" "aw_base (feed F ev ?c) = base"
    using feed_emas [OF assms(1) _ c(3)] c by (simp_all add: feed_frame)
  have computed: "shares (weight_floor cfg) (adaptive_compute F m ?c)" for m
    using compute_shares [OF assms(1), of ?c m] c assms(2,3) by simp
  have "if list_all (early cfg start) (events @ [ev]) then aw_current (feed F ev ?c) = base \<and> aw_last_adjust (feed F ev ?c) = start
      else shares (weight_floor cfg) (aw_current (feed F ev ?c))"
  proof (cases ev)
    case (Weigh inst meta)
    then show ?thesis
      using snoc computed c(1) by (cases "list_all (early cfg start) events") (auto simp: in_effect_def effective_weights_def Let_def)
  qed (use snoc in \<open>auto simp: in_effect_def record_success_def record_failure_def record_kv_overlap_def Let_def\<close>)
  then show ?case using frame by (simp add: in_effect_def)
qed

text \<open>C31. 
  The adaptive weights over any history of feedback. Before the first computation, that is as long as every call has come
  within the interval from the start, a call within the interval gets the configured weights. Later a call
  before the interval has elapsed since the last computation gets the weights of that computation, and one after it
  computes them anew and keeps them with its time. Computed weights sum
  to one, and none is below the configured floor, which is taken as at most 1/4. In exact arithmetic, for configured weights that are
  not negative and not all zero and a maximal adjustment that is not infinite, whatever spread the load data show.
\<close>

theorem adaptive_weights:
  assumes "rounds F id" "config_ok cfg" "base_ok base"
    and "ctl = fold (feed F) events (adaptive_new start base cfg)" "interval = unat (ac_adjust_interval_secs cfg) * 10 ^ 9"
  shows "(list_all (early cfg start) events \<and> inst - start < interval \<longrightarrow> effective_weights F inst meta ctl = (base, ctl)) \<and>
    (\<not> (list_all (early cfg start) events \<and> inst - start < interval) \<longrightarrow>
      shares (weight_floor cfg) (fst (effective_weights F inst meta ctl))) \<and>
    (inst - aw_last_adjust ctl < interval \<longrightarrow> effective_weights F inst meta ctl = (aw_current ctl, ctl)) \<and>
    (interval \<le> inst - aw_last_adjust ctl \<longrightarrow>
      (\<exists>w. effective_weights F inst meta ctl = (w, ctl\<lparr>aw_last_adjust := inst, aw_current := w\<rparr>) \<and> shares (weight_floor cfg) w))"
proof -
  have eff: "in_effect cfg start base events ctl" unfolding assms(4) by (rule fed_in_effect [OF assms(1-3)])
  then have "aw_cfg ctl = cfg" "aw_base ctl = base" "emas_ok ctl" by (simp_all add: in_effect_def)
  then have "shares (weight_floor cfg) (adaptive_compute F meta ctl)" "aw_cfg ctl = cfg"
    using compute_shares [OF assms(1), of ctl meta] assms(2,3) by simp_all
  then show ?thesis using eff by (auto simp: in_effect_def effective_weights_def Let_def assms(5) split: if_splits)
qed

theorem adaptive_weights_witness:
  "let base = \<lparr>sw_kv = Fin (35 / 100), sw_load = Fin (30 / 100), sw_topology = Fin (20 / 100), sw_cost = Fin 0\<rparr>;
       ctl = fold (feed exact_fpu) [ForwardFailed (eu_backend ''a''), Served 3 4] (adaptive_new 0 base (adaptive_default exact_fpu))
   in shares (Fin (1 / 20)) (fst (effective_weights exact_fpu (20 * 10 ^ 9) store_new ctl)) \<and>
      effective_weights exact_fpu (5 * 10 ^ 9) store_new ctl = (base, ctl)"
proof -
  let ?base = "\<lparr>sw_kv = Fin (35 / 100), sw_load = Fin (30 / 100), sw_topology = Fin (20 / 100), sw_cost = Fin 0\<rparr>"
    and ?events = "[ForwardFailed (eu_backend ''a''), Served 3 4]"
  have c: "config_ok (adaptive_default exact_fpu)" "weight_floor (adaptive_default exact_fpu) = Fin (1 / 20)"
    by (simp_all add: config_ok_def adaptive_default_def exact_fpu_def weight_floor_def f64_clamp_def)
  have b: "base_ok ?base" by (rule base_okI) simp_all
  have secs: "ac_adjust_interval_secs (adaptive_default exact_fpu) = 10" by (simp add: adaptive_default_def)
  note aw = adaptive_weights [OF rounds_exact c(1) b refl refl, where events = ?events and start = 0 and meta = store_new, unfolded c(2) secs]
  show ?thesis
    unfolding Let_def using aw [of "20 * 10 ^ 9"] aw [of "5 * 10 ^ 9"] by (simp del: fold.simps fold_simps)
qed

end
