(* ===== verification/Hybrid.thy ===== *)
theory Hybrid
  imports Strategies Adaptive
begin

text \<open>
  The hybrid strategy, \<open>crates/hier-kv-gateway-routing/src/hybrid.rs\<close>: the model filter, the dynamic weights, the
  sub-strategies and plugins as trait objects, and the weighted sum of their normalised costs. Strategies
  and the controller that the code shares by \<open>Arc\<close> belong to the record here.
\<close>

section \<open>State\<close>

record hybrid_strategy =
  hy_kv :: strategy
  hy_model :: strategy
  hy_load :: strategy
  hy_topology :: strategy
  hy_weights :: strategy_weights
  hy_temperature :: f64
  hy_adaptive :: "adaptive_controller option"
  hy_plugins :: "routing_plugin list"

definition hybrid_new :: "strategy \<Rightarrow> strategy \<Rightarrow> strategy \<Rightarrow> strategy \<Rightarrow> strategy_weights \<Rightarrow> f64 \<Rightarrow> hybrid_strategy" where
  "hybrid_new kv model load_st topology weights temperature =
     \<lparr>hy_kv = kv, hy_model = model, hy_load = load_st, hy_topology = topology, hy_weights = weights,
      hy_temperature = temperature, hy_adaptive = None, hy_plugins = []\<rparr>"

definition with_adaptive :: "adaptive_controller \<Rightarrow> hybrid_strategy \<Rightarrow> hybrid_strategy" where
  "with_adaptive ctl hy = hy\<lparr>hy_adaptive := Some ctl\<rparr>"

definition with_plugin :: "routing_plugin \<Rightarrow> hybrid_strategy \<Rightarrow> hybrid_strategy" where
  "with_plugin p hy = hy\<lparr>hy_plugins := hy_plugins hy @ [p]\<rparr>"

definition weight_snapshot :: "hybrid_strategy \<Rightarrow> strategy_weights" where
  "weight_snapshot hy = (case hy_adaptive hy of Some ctl \<Rightarrow> aw_current ctl | None \<Rightarrow> hy_weights hy)"

definition effective_base_weights :: "fpu \<Rightarrow> nat \<Rightarrow> metadata_store \<Rightarrow> hybrid_strategy \<Rightarrow> strategy_weights \<times> hybrid_strategy" where
  "effective_base_weights F inst meta hy =
     (case hy_adaptive hy of
        Some ctl \<Rightarrow> (let (w, ctl') = effective_weights F inst meta ctl in (w, hy\<lparr>hy_adaptive := Some ctl'\<rparr>))
      | None \<Rightarrow> (hy_weights hy, hy))"

section \<open>Normalised costs\<close>

definition finite_costs :: "scored_backend list \<Rightarrow> f64 list" where
  "finite_costs scores = filter f64_is_finite (map sb_raw_cost scores)"

definition min_cost :: "scored_backend list \<Rightarrow> f64" where
  "min_cost scores = foldl (\<lambda>m c. if f64_less c m then c else m) PInf (finite_costs scores)"

definition max_cost :: "scored_backend list \<Rightarrow> f64" where
  "max_cost scores = foldl (\<lambda>m c. if f64_less m c then c else m) NInf (finite_costs scores)"

definition normalized_score :: "fpu \<Rightarrow> f64 \<Rightarrow> f64 \<Rightarrow> f64 \<Rightarrow> f64" where
  "normalized_score F lo width c =
     (if \<not> f64_is_finite c then Fin 0
      else f64_sub F (Fin 1) (if f64_less (Fin 0) width then f64_div F (f64_sub F c lo) width else Fin 0))"

text \<open>The hash map from backends to normalised scores; a later entry replaces an earlier one.\<close>

definition normalize_costs :: "fpu \<Rightarrow> scored_backend list \<Rightarrow> backend_id \<rightharpoonup> f64" where
  "normalize_costs F scores =
     (let lo = min_cost scores; width = f64_sub F (max_cost scores) lo
      in fold (\<lambda>s out. out(sb_backend_id s \<mapsto> normalized_score F lo width (sb_raw_cost s))) scores Map.empty)"

section \<open>Weights\<close>

record hybrid_weights =
  hw_kv :: f64
  hw_load :: f64
  hw_topology :: f64
  hw_plugins :: "f64 list"

definition STALE_LOAD_THRESHOLD_SECS :: u64 where
  "STALE_LOAD_THRESHOLD_SECS = 10"

definition load_is_stale :: "u64 \<Rightarrow> backend_id list \<Rightarrow> metadata_store \<Rightarrow> bool" where
  "load_is_stale now passing meta =
     list_ex (\<lambda>b. case load_freshness now b (ms_load meta) of Some d \<Rightarrow> STALE_LOAD_THRESHOLD_SECS < d | None \<Rightarrow> False) passing"

definition plugin_weight :: "u64 \<Rightarrow> metadata_store \<Rightarrow> routing_plugin \<Rightarrow> f64" where
  "plugin_weight now meta p = (if st_is_available (rp_strategy p) now meta then st_weight (rp_strategy p) else Fin 0)"

definition dynamic_weights :: "fpu \<Rightarrow> u64 \<Rightarrow> strategy_weights \<Rightarrow> backend_id list \<Rightarrow> metadata_store \<Rightarrow> hybrid_strategy \<Rightarrow> hybrid_weights" where
  "dynamic_weights F now base passing meta hy =
     (let w_kv = (if st_is_available (hy_kv hy) now meta then sw_kv base else Fin 0);
          w_load = (if load_is_stale now passing meta then f64_mul F (sw_load base) (fp_round F (3 / 10)) else sw_load base);
          w_topo = sw_topology base;
          w_plugins = map (plugin_weight now meta) (hy_plugins hy);
          total = f64_add F (f64_add F (f64_add F w_kv w_load) w_topo) (f64_sum F w_plugins);
          third = f64_div F (Fin 1) (Fin 3)
      in if f64_less (Fin 0) total
         then \<lparr>hw_kv = f64_div F w_kv total, hw_load = f64_div F w_load total, hw_topology = f64_div F w_topo total,
               hw_plugins = map (\<lambda>w. f64_div F w total) w_plugins\<rparr>
         else \<lparr>hw_kv = third, hw_load = third, hw_topology = third, hw_plugins = map (\<lambda>_. Fin 0) w_plugins\<rparr>)"

section \<open>Evaluation\<close>

definition score_sub :: "f64 \<Rightarrow> nat \<Rightarrow> u64 \<Rightarrow> routing_context \<Rightarrow> backend_id list \<Rightarrow> metadata_store \<Rightarrow> strategy \<Rightarrow> scoring \<times> strategy" where
  "score_sub w inst now ctx passing meta st =
     (if f64_less (Fin 0) w then st_evaluate st inst now ctx passing meta else (Inr [], st))"

text \<open>The plugins in registration order; an error ends the loop.\<close>

fun score_plugins :: "fpu \<Rightarrow> nat \<Rightarrow> u64 \<Rightarrow> routing_context \<Rightarrow> backend_id list \<Rightarrow> metadata_store \<Rightarrow> (routing_plugin \<times> f64) list
    \<Rightarrow> (failure + (backend_id \<rightharpoonup> f64) list) \<times> routing_plugin list" where
  "score_plugins F inst now ctx passing meta [] = (Inr [], [])"
| "score_plugins F inst now ctx passing meta ((p, w) # rest) =
     (if f64_le w (Fin 0)
      then let (r, ps) = score_plugins F inst now ctx passing meta rest in (map_sum id ((#) Map.empty) r, p # ps)
      else case st_evaluate (rp_strategy p) inst now ctx passing meta of
             (Inl e, st) \<Rightarrow> (Inl e, p\<lparr>rp_strategy := st\<rparr> # map fst rest)
           | (Inr scores, st) \<Rightarrow>
               (let (r, ps) = score_plugins F inst now ctx passing meta rest
                in (map_sum id ((#) (normalize_costs F scores)) r, p\<lparr>rp_strategy := st\<rparr> # ps)))"

definition score_of_map :: "(backend_id \<rightharpoonup> f64) \<Rightarrow> backend_id \<Rightarrow> f64" where
  "score_of_map m b = (case m b of Some x \<Rightarrow> x | None \<Rightarrow> Fin 0)"

definition hybrid_score :: "fpu \<Rightarrow> hybrid_weights \<Rightarrow> (backend_id \<rightharpoonup> f64) \<Rightarrow> (backend_id \<rightharpoonup> f64) \<Rightarrow> (backend_id \<rightharpoonup> f64) \<Rightarrow> (backend_id \<rightharpoonup> f64) list
    \<Rightarrow> backend_id \<Rightarrow> f64" where
  "hybrid_score F w kv_norm load_norm topo_norm plugin_norms b =
     foldl (\<lambda>acc (pw, norm). f64_add F acc (f64_mul F pw (score_of_map norm b)))
       (f64_add F (f64_add F (f64_mul F (hw_kv w) (score_of_map kv_norm b)) (f64_mul F (hw_load w) (score_of_map load_norm b)))
          (f64_mul F (hw_topology w) (score_of_map topo_norm b)))
       (zip (hw_plugins w) plugin_norms)"

text \<open>
  The descending sort is stable. The comparison calls not-a-number equal to everything; the order that the
  library's sort then gives is not specified, and the insertion below is one of its orders.
\<close>

fun insert_descending :: "scored_backend \<Rightarrow> scored_backend list \<Rightarrow> scored_backend list" where
  "insert_descending x [] = [x]"
| "insert_descending x (y # ys) = (if f64_less (sb_score x) (sb_score y) then y # insert_descending x ys else x # y # ys)"

definition sort_descending :: "scored_backend list \<Rightarrow> scored_backend list" where
  "sort_descending xs = foldr insert_descending xs []"

definition combine_scores :: "fpu \<Rightarrow> hybrid_weights \<Rightarrow> backend_id list \<Rightarrow> scored_backend list \<Rightarrow> scored_backend list \<Rightarrow> scored_backend list
    \<Rightarrow> (backend_id \<rightharpoonup> f64) list \<Rightarrow> scored_backend list" where
  "combine_scores F w passing kv_scores load_scores topo_scores plugin_norms =
     (let score = hybrid_score F w (normalize_costs F kv_scores) (normalize_costs F load_scores) (normalize_costs F topo_scores) plugin_norms
      in sort_descending (map (\<lambda>b. score_entry b (score b) (f64_neg (score b))) passing))"

text \<open>Scoring of the filtered candidates: the sub-strategies, then the plugins, each error returned at once.\<close>

definition score_filtered :: "fpu \<Rightarrow> nat \<Rightarrow> u64 \<Rightarrow> routing_context \<Rightarrow> backend_id list \<Rightarrow> metadata_store \<Rightarrow> hybrid_weights \<Rightarrow> hybrid_strategy
    \<Rightarrow> scoring \<times> hybrid_strategy" where
  "score_filtered F inst now ctx passing meta w hy =
     (case score_sub (hw_kv w) inst now ctx passing meta (hy_kv hy) of
        (Inl e, st) \<Rightarrow> (Inl e, hy\<lparr>hy_kv := st\<rparr>)
      | (Inr kv_scores, st) \<Rightarrow>
          (let hy1 = hy\<lparr>hy_kv := st\<rparr>
           in case score_sub (hw_load w) inst now ctx passing meta (hy_load hy1) of
                (Inl e, st) \<Rightarrow> (Inl e, hy1\<lparr>hy_load := st\<rparr>)
              | (Inr load_scores, st) \<Rightarrow>
                  (let hy2 = hy1\<lparr>hy_load := st\<rparr>
                   in case score_sub (hw_topology w) inst now ctx passing meta (hy_topology hy2) of
                        (Inl e, st) \<Rightarrow> (Inl e, hy2\<lparr>hy_topology := st\<rparr>)
                      | (Inr topo_scores, st) \<Rightarrow>
                          (let hy3 = hy2\<lparr>hy_topology := st\<rparr>;
                               (r, ps) = score_plugins F inst now ctx passing meta (zip (hy_plugins hy3) (hw_plugins w));
                               hy4 = hy3\<lparr>hy_plugins := ps\<rparr>
                           in (map_sum id (combine_scores F w passing kv_scores load_scores topo_scores) r, hy4)))))"

definition hybrid_evaluate :: "fpu \<Rightarrow> nat \<Rightarrow> u64 \<Rightarrow> routing_context \<Rightarrow> backend_id list \<Rightarrow> metadata_store \<Rightarrow> hybrid_strategy \<Rightarrow> scoring \<times> hybrid_strategy" where
  "hybrid_evaluate F inst now ctx candidates meta hy =
     (if candidates = [] then (Inr [], hy)
      else case st_evaluate (hy_model hy) inst now ctx candidates meta of
        (Inl e, st) \<Rightarrow> (Inl e, hy\<lparr>hy_model := st\<rparr>)
      | (Inr model_scores, st) \<Rightarrow>
          (let hy1 = hy\<lparr>hy_model := st\<rparr>;
               passing = map sb_backend_id (filter (\<lambda>s. f64_less (Fin 0) (sb_score s)) model_scores)
           in if passing = [] then (Inl (Err (RoutingFailed ''No candidate backend passed the model-aware filter'')), hy1)
              else let (base, hy2) = effective_base_weights F inst meta hy1
                   in score_filtered F inst now ctx passing meta (dynamic_weights F now base passing meta hy2) hy2))"

primcorec hybrid :: "fpu \<Rightarrow> hybrid_strategy \<Rightarrow> strategy" where
  "st_name (hybrid F hy) = ''hybrid''"
| "st_weight (hybrid F hy) = Fin 1"
| "st_is_available (hybrid F hy) = st_is_available (hy_model hy)"
| "st_evaluate (hybrid F hy) = (\<lambda>inst now ctx candidates meta. map_prod id (hybrid F) (hybrid_evaluate F inst now ctx candidates meta hy))"

section \<open>Ranking\<close>

lemma mset_insert_descending [simp]: "mset (insert_descending x ys) = add_mset x (mset ys)"
  by (induction ys) auto

lemma mset_sort_descending [simp]: "mset (sort_descending xs) = mset xs"
  by (induction xs) (simp_all add: sort_descending_def)

definition descending :: "scored_backend list \<Rightarrow> bool" where
  "descending xs \<longleftrightarrow> sorted_wrt (\<lambda>x y. \<not> f64_less (sb_score x) (sb_score y)) xs"

lemma f64_less_linear:
  "x \<noteq> NaN \<Longrightarrow> y \<noteq> NaN \<Longrightarrow> z \<noteq> NaN \<Longrightarrow> \<not> f64_less x y \<Longrightarrow> \<not> f64_less y z \<Longrightarrow> \<not> f64_less x z"
  "f64_less x y \<Longrightarrow> \<not> f64_less y x"
  by (cases x; cases y; cases z; simp)+

lemma insert_descending_sorted:
  assumes "descending ys" "sb_score x \<noteq> NaN" "\<forall>y \<in> set ys. sb_score y \<noteq> NaN"
  shows "descending (insert_descending x ys)"
  using assms
proof (induction ys)
  case (Cons y ys)
  have set_ins: "set (insert_descending x ys) = insert x (set ys)" by (metis mset_insert_descending set_mset_add_mset_insert set_mset_mset)
  show ?case
  proof (cases "f64_less (sb_score x) (sb_score y)")
    case True
    then show ?thesis using Cons f64_less_linear(2) set_ins by (auto simp: descending_def)
  next
    case False
    then show ?thesis using Cons.prems f64_less_linear(1) [of "sb_score x" "sb_score y"] by (auto simp: descending_def)
  qed
qed (simp add: descending_def)

lemma sort_descending_sorted: "\<forall>x \<in> set xs. sb_score x \<noteq> NaN \<Longrightarrow> descending (sort_descending xs)"
proof (induction xs)
  case (Cons x xs)
  have "set (sort_descending xs) = set xs" by (metis mset_sort_descending set_mset_mset)
  then show ?case using Cons by (simp add: sort_descending_def insert_descending_sorted)
qed (simp add: sort_descending_def descending_def)

lemma combine_ids: "mset (map sb_backend_id (combine_scores F w passing ks ls ts ps)) = mset passing"
  by (simp add: combine_scores_def Let_def multiset.map_comp comp_def)

lemma score_filtered_Inr:
  assumes "score_filtered F inst now ctx passing meta w hy = (Inr out, hy')"
  obtains ks ls ts ps where "fst (score_sub (hw_kv w) inst now ctx passing meta (hy_kv hy)) = Inr ks"
    "fst (score_sub (hw_load w) inst now ctx passing meta (hy_load hy)) = Inr ls"
    "fst (score_sub (hw_topology w) inst now ctx passing meta (hy_topology hy)) = Inr ts"
    "fst (score_plugins F inst now ctx passing meta (zip (hy_plugins hy) (hw_plugins w))) = Inr ps"
    "out = combine_scores F w passing ks ls ts ps"
proof -
  note unf = assms [unfolded score_filtered_def Let_def]
  obtain rk sk where k: "score_sub (hw_kv w) inst now ctx passing meta (hy_kv hy) = (rk, sk)" by fastforce
  obtain rl sl where l: "score_sub (hw_load w) inst now ctx passing meta (hy_load hy) = (rl, sl)" by fastforce
  obtain rt st where t: "score_sub (hw_topology w) inst now ctx passing meta (hy_topology hy) = (rt, st)" by fastforce
  obtain rp sp where p: "score_plugins F inst now ctx passing meta (zip (hy_plugins hy) (hw_plugins w)) = (rp, sp)" by fastforce
  from unf obtain ks where ks: "rk = Inr ks" by (cases rk) (simp_all add: k)
  from unf ks obtain ls where ls: "rl = Inr ls" by (cases rl) (simp_all add: k l)
  from unf ks ls obtain ts where ts: "rt = Inr ts" by (cases rt) (simp_all add: k l t)
  from unf ks ls ts obtain ps where ps: "rp = Inr ps" by (cases rp) (simp_all add: k l t p)
  from unf have "out = combine_scores F w passing ks ls ts ps" by (simp add: k l t p ks ls ts ps)
  then show ?thesis using that k l t p ks ls ts ps by simp
qed

text \<open>The model strategy of the record after an evaluation is the one its own evaluation returned.\<close>

lemma score_filtered_model: "hy_model (snd (score_filtered F inst now ctx passing meta w hy)) = hy_model hy"
  by (simp add: score_filtered_def Let_def split: prod.split sum.split)

lemma effective_base_frame:
  "hy_model (snd (effective_base_weights F inst meta hy)) = hy_model hy" "hy_kv (snd (effective_base_weights F inst meta hy)) = hy_kv hy"
  "hy_load (snd (effective_base_weights F inst meta hy)) = hy_load hy" "hy_topology (snd (effective_base_weights F inst meta hy)) = hy_topology hy"
  "hy_plugins (snd (effective_base_weights F inst meta hy)) = hy_plugins hy" "hy_temperature (snd (effective_base_weights F inst meta hy)) = hy_temperature hy"
  by (simp_all add: effective_base_weights_def split: option.split prod.split)

lemma hybrid_evaluate_model:
  "hy_model (snd (hybrid_evaluate F inst now ctx cs meta hy)) =
     (if cs = [] then hy_model hy else snd (st_evaluate (hy_model hy) inst now ctx cs meta))"
proof -
  obtain r st where ev: "st_evaluate (hy_model hy) inst now ctx cs meta = (r, st)" by fastforce
  obtain base hy2 where eff: "effective_base_weights F inst meta (hy\<lparr>hy_model := st\<rparr>) = (base, hy2)" by fastforce
  then have "hy_model hy2 = st" using effective_base_frame(1) [of F inst meta "hy\<lparr>hy_model := st\<rparr>"] by simp
  then show ?thesis
    by (cases r) (simp_all add: hybrid_evaluate_def ev eff Let_def score_filtered_model)
qed

lemma hybrid_Inr:
  assumes "hybrid_evaluate F inst now ctx cs meta hy = (Inr out, hy')" "cs \<noteq> []"
  obtains ms passing base hy2 w ks ls ts ps where "fst (st_evaluate (hy_model hy) inst now ctx cs meta) = Inr ms"
    "passing = map sb_backend_id (filter (\<lambda>s. f64_less (Fin 0) (sb_score s)) ms)" "passing \<noteq> []"
    "(base, hy2) = effective_base_weights F inst meta (hy\<lparr>hy_model := snd (st_evaluate (hy_model hy) inst now ctx cs meta)\<rparr>)"
    "w = dynamic_weights F now base passing meta hy2"
    "fst (score_sub (hw_kv w) inst now ctx passing meta (hy_kv hy)) = Inr ks"
    "fst (score_sub (hw_load w) inst now ctx passing meta (hy_load hy)) = Inr ls"
    "fst (score_sub (hw_topology w) inst now ctx passing meta (hy_topology hy)) = Inr ts"
    "fst (score_plugins F inst now ctx passing meta (zip (hy_plugins hy) (hw_plugins w))) = Inr ps"
    "out = combine_scores F w passing ks ls ts ps"
proof -
  obtain r st where ev: "st_evaluate (hy_model hy) inst now ctx cs meta = (r, st)" by fastforce
  obtain base hy2 where eff: "effective_base_weights F inst meta (hy\<lparr>hy_model := st\<rparr>) = (base, hy2)" by fastforce
  obtain ms where r: "r = Inr ms" using assms ev by (cases r) (simp_all add: hybrid_evaluate_def)
  let ?passing = "map sb_backend_id (filter (\<lambda>s. f64_less (Fin 0) (sb_score s)) ms)"
  have passing: "?passing \<noteq> []" using assms ev r by (auto simp: hybrid_evaluate_def Let_def split: if_splits)
  then have sf: "score_filtered F inst now ctx ?passing meta (dynamic_weights F now base ?passing meta hy2) hy2 = (Inr out, hy')"
    using assms ev r eff by (simp add: hybrid_evaluate_def Let_def)
  have same: "hy_kv hy2 = hy_kv hy" "hy_load hy2 = hy_load hy" "hy_topology hy2 = hy_topology hy" "hy_plugins hy2 = hy_plugins hy"
    using effective_base_frame [of F inst meta "hy\<lparr>hy_model := st\<rparr>"] eff by simp_all
  show ?thesis
    using sf
  proof (rule score_filtered_Inr)
    fix ks ls ts ps
    assume "fst (score_sub (hw_kv (dynamic_weights F now base ?passing meta hy2)) inst now ctx ?passing meta (hy_kv hy2)) = Inr ks"
      "fst (score_sub (hw_load (dynamic_weights F now base ?passing meta hy2)) inst now ctx ?passing meta (hy_load hy2)) = Inr ls"
      "fst (score_sub (hw_topology (dynamic_weights F now base ?passing meta hy2)) inst now ctx ?passing meta (hy_topology hy2)) = Inr ts"
      "fst (score_plugins F inst now ctx ?passing meta (zip (hy_plugins hy2) (hw_plugins (dynamic_weights F now base ?passing meta hy2)))) = Inr ps"
      "out = combine_scores F (dynamic_weights F now base ?passing meta hy2) ?passing ks ls ts ps"
    then show ?thesis unfolding same
      by (intro that [of ms ?passing base hy2 "dynamic_weights F now base ?passing meta hy2" ks ls ts ps])
        (use ev r eff passing in auto)
  qed
qed

text \<open>The hybrid strategy meets the contract of the engine as soon as its model strategy does.\<close>

lemma hybrid_sound: "sound_strategy (hy_model hy) \<Longrightarrow> sound_strategy (hybrid F hy)"
proof (coinduction arbitrary: hy)
  case sound_strategy
  then have model: "sound_strategy (hy_model hy)" .
  have scores: "scores_candidates cs out" if dist: "distinct cs" and inr: "fst (hybrid_evaluate F inst now ctx cs meta hy) = Inr out" for inst now ctx cs meta out
  proof (cases "cs = []")
    case True
    then show ?thesis using inr by (simp add: hybrid_evaluate_def scores_candidates_def)
  next
    case False
    obtain hy' where ev: "hybrid_evaluate F inst now ctx cs meta hy = (Inr out, hy')" using inr by (metis prod.collapse)
    show ?thesis
      using ev False
    proof (rule hybrid_Inr)
      fix ms passing base hy2 w ks ls ts ps
      assume ms: "fst (st_evaluate (hy_model hy) inst now ctx cs meta) = Inr ms"
        and p: "passing = map sb_backend_id (filter (\<lambda>s. f64_less (Fin 0) (sb_score s)) ms)" and out: "out = combine_scores F w passing ks ls ts ps"
      have "scores_candidates cs ms" using model dist ms by (auto elim!: sound_strategyE)
      then have "distinct passing" "set passing \<subseteq> set cs" by (auto simp: p scores_candidates_def distinct_map_filter)
      moreover have "mset (map sb_backend_id out) = mset passing" unfolding out by (rule combine_ids)
      ultimately show ?thesis unfolding scores_candidates_def by (metis list.set_map mset_eq_imp_distinct_iff mset_eq_setD)
    qed
  qed
  have next_model: "sound_strategy (hy_model (snd (hybrid_evaluate F inst now ctx cs meta hy)))" for inst now ctx cs meta
    using model by (auto simp: hybrid_evaluate_model elim!: sound_strategyE)
  show ?case
  proof (intro exI [of _ "hybrid F hy"] conjI allI impI)
    fix inst now ctx cs meta out
    assume "distinct cs" "fst (st_evaluate (hybrid F hy) inst now ctx cs meta) = Inr out"
    then show "scores_candidates cs out" using scores by simp
  next
    fix inst now ctx cs meta
    have "snd (st_evaluate (hybrid F hy) inst now ctx cs meta) = hybrid F (snd (hybrid_evaluate F inst now ctx cs meta hy))" by simp
    then show "(\<exists>hy'. snd (st_evaluate (hybrid F hy) inst now ctx cs meta) = hybrid F hy' \<and> sound_strategy (hy_model hy')) \<or>
        sound_strategy (snd (st_evaluate (hybrid F hy) inst now ctx cs meta))" using next_model by blast
  qed (rule refl)
qed

section \<open>Cheaper candidates score higher\<close>

text \<open>The extreme finite costs.\<close>

lemma finite_costs_rats: "\<exists>rs. finite_costs xs = map Fin rs"
proof -
  have "\<exists>r. c = Fin r" if "c \<in> set (finite_costs xs)" for c
  proof -
    have "f64_is_finite c" using that by (auto simp: finite_costs_def)
    then show ?thesis by (cases rule: f64.exhaust [of c]) simp_all
  qed
  then show ?thesis by (metis ex_map_conv)
qed

lemma extreme_costs:
  assumes "finite_costs xs = map Fin rs" "rs \<noteq> []"
  shows "min_cost xs = Fin (Min (set rs))" "max_cost xs = Fin (Max (set rs))"
proof -
  obtain r rs' where rs: "rs = r # rs'" using assms(2) by (cases rs) auto
  have "foldl (\<lambda>m c. if f64_less c m then c else m) (Fin a) (map Fin ys) = Fin (fold min ys a)" for a ys
    by (induction ys arbitrary: a) (auto simp: min_def)
  moreover have "foldl (\<lambda>m c. if f64_less m c then c else m) (Fin a) (map Fin ys) = Fin (fold max ys a)" for a ys
    by (induction ys arbitrary: a) (auto simp: max_def)
  ultimately show "min_cost xs = Fin (Min (set rs))" "max_cost xs = Fin (Max (set rs))"
    unfolding min_cost_def max_cost_def assms(1) rs by (simp_all add: Min.set_eq_fold Max.set_eq_fold del: list.set)
qed

definition cost_in :: "scored_backend list \<Rightarrow> backend_id \<Rightarrow> f64 option" where
  "cost_in scores b = map_of (rev (map (\<lambda>s. (sb_backend_id s, sb_raw_cost s)) scores)) b"

lemma normalize_costs_eq:
  "normalize_costs F scores b =
     map_option (normalized_score F (min_cost scores) (f64_sub F (max_cost scores) (min_cost scores))) (cost_in scores b)"
proof -
  let ?f = "normalized_score F (min_cost scores) (f64_sub F (max_cost scores) (min_cost scores))"
  have "fold (\<lambda>s out. out(sb_backend_id s \<mapsto> ?f (sb_raw_cost s))) xs m b =
      (case map_of (rev (map (\<lambda>s. (sb_backend_id s, sb_raw_cost s)) xs)) b of Some c \<Rightarrow> Some (?f c) | None \<Rightarrow> m b)" for xs m
    by (induction xs arbitrary: m) (auto simp: map_add_def split: option.splits)
  from this [of scores Map.empty] show ?thesis
    unfolding normalize_costs_def cost_in_def Let_def by (simp split: option.split)
qed

lemma cost_in_finite: "cost_in scores b = Some (Fin c) \<Longrightarrow> Fin c \<in> set (finite_costs scores)"
  by (force simp: cost_in_def finite_costs_def dest: map_of_SomeD)

text \<open>In every rounding a normalised score is in \<open>[0, 1]\<close> and does not grow with the cost.\<close>

lemma normalized_mono:
  assumes "rounds F rnd" "cost_in scores a = Some (Fin ca)"
  shows "\<exists>x. normalize_costs F scores a = Some (Fin x) \<and> 0 \<le> x \<and> x \<le> 1 \<and>
    (\<forall>cb. cost_in scores b = Some (Fin cb) \<and> ca \<le> cb \<longrightarrow> (\<exists>y. normalize_costs F scores b = Some (Fin y) \<and> y \<le> x))"
proof -
  obtain rs where rs: "finite_costs scores = map Fin rs" using finite_costs_rats by blast
  have mem: "c \<in> set rs" if "cost_in scores d = Some (Fin c)" for c d
    using cost_in_finite [OF that] by (auto simp: rs)
  have ne: "rs \<noteq> []" using mem [OF assms(2)] by auto
  define lo where "lo = Min (set rs)"
  define width where "width = rnd (Max (set rs) - lo)"
  have mono: "u \<le> v \<Longrightarrow> rnd u \<le> rnd v" for u v by (rule rounds_mono [OF assms(1)])
  define g where "g c = rnd (1 - (if 0 < width then rnd (rnd (c - lo) / width) else 0))" for c
  have val: "normalize_costs F scores d = Some (Fin (g c))" if "cost_in scores d = Some (Fin c)" for c d
  proof -
    have "fp_round F = (\<lambda>x. Fin (rnd x))" using assms(1) by (simp add: rounds_def)
    then show ?thesis
      using that by (simp add: normalize_costs_eq extreme_costs [OF rs ne] normalized_score_def f64_sub_def g_def lo_def width_def)
  qed
  have range: "0 \<le> (if 0 < width then rnd (rnd (c - lo) / width) else 0)" "(if 0 < width then rnd (rnd (c - lo) / width) else 0) \<le> 1" if "c \<in> set rs" for c
  proof -
    have "0 \<le> rnd (c - lo)" "rnd (c - lo) \<le> width"
      using that mono [of "c - lo" "Max (set rs) - lo"] rounds_nonneg [OF assms(1), of "c - lo"] by (simp_all add: lo_def width_def)
    then show "0 \<le> (if 0 < width then rnd (rnd (c - lo) / width) else 0)" "(if 0 < width then rnd (rnd (c - lo) / width) else 0) \<le> 1"
      using rounds_nonneg [OF assms(1)] rounds_le_one [OF assms(1)] by simp_all
  qed
  have "0 \<le> g ca" "g ca \<le> 1"
    unfolding g_def using range [OF mem [OF assms(2)]] rounds_nonneg [OF assms(1)] rounds_le_one [OF assms(1)] by (metis diff_ge_0_iff_ge, metis diff_le_eq le_add_same_cancel1)
  moreover have "g cb \<le> g ca" if "ca \<le> cb" for cb
    using that unfolding g_def by (auto intro!: mono divide_right_mono)
  ultimately show ?thesis using val assms(2) by blast
qed

text \<open>In a list of scores \<open>a\<close> costs no more than \<open>b\<close>: its cost is finite and that of \<open>b\<close> is at least as high, or not
  finite. A sub-strategy of weight zero is not asked, its list is empty.\<close>

definition no_dearer :: "backend_id \<Rightarrow> backend_id \<Rightarrow> scored_backend list \<Rightarrow> bool" where
  "no_dearer a b scores \<longleftrightarrow>
     scores = [] \<or> (\<exists>ca cb. cost_in scores a = Some (Fin ca) \<and> cost_in scores b = Some cb \<and> (\<forall>r. cb = Fin r \<longrightarrow> ca \<le> r))"

text \<open>Two doubles are finite, not negative, and the second is at most the first.\<close>

definition above :: "f64 \<Rightarrow> f64 \<Rightarrow> bool" where
  "above x y \<longleftrightarrow> (\<exists>p q. x = Fin p \<and> y = Fin q \<and> 0 \<le> q \<and> q \<le> p)"

lemma above_ops:
  assumes "rounds F rnd" "above x y"
  shows "above u v \<Longrightarrow> above (f64_add F u x) (f64_add F v y)" "0 \<le> k \<Longrightarrow> above (f64_mul F (Fin k) x) (f64_mul F (Fin k) y)"
  using assms rounds_nonneg [OF assms(1)] rounds_mono [OF assms(1)]
  by (auto simp: above_def rounds_fp [OF assms(1)] add_mono mult_left_mono)

lemma no_dearer_above:
  assumes "rounds F rnd" "no_dearer a b scores"
  shows "above (score_of_map (normalize_costs F scores) a) (score_of_map (normalize_costs F scores) b)"
proof (cases "scores = []")
  case True
  then show ?thesis by (simp add: normalize_costs_def score_of_map_def above_def)
next
  case False
  then obtain ca cb where c: "cost_in scores a = Some (Fin ca)" "cost_in scores b = Some cb" "\<And>r. cb = Fin r \<Longrightarrow> ca \<le> r"
    using assms(2) by (auto simp: no_dearer_def)
  show ?thesis
  proof (cases "f64_is_finite cb")
    case True
    then obtain r where r: "cb = Fin r" by (cases cb) auto
    obtain x y where "normalize_costs F scores a = Some (Fin x)" "normalize_costs F scores b = Some (Fin y)" "y \<le> x"
      using normalized_mono [OF assms(1) c(1), of b] c(2,3) r by auto
    moreover have "0 \<le> y" using normalized_mono [OF assms(1), of scores b r] c(2) r calculation(2) by auto
    ultimately show ?thesis by (simp add: score_of_map_def above_def)
  next
    case False
    then have "normalize_costs F scores b = Some (Fin 0)" using c(2) by (simp add: normalize_costs_eq normalized_score_def)
    moreover obtain x where "normalize_costs F scores a = Some (Fin x)" "0 \<le> x" using normalized_mono [OF assms(1) c(1)] by blast
    ultimately show ?thesis by (simp add: score_of_map_def above_def)
  qed
qed

definition weights_nonneg :: "hybrid_weights \<Rightarrow> bool" where
  "weights_nonneg w \<longleftrightarrow> (\<forall>x \<in> {hw_kv w, hw_load w, hw_topology w} \<union> set (hw_plugins w). \<exists>k \<ge> 0. x = Fin k)"

lemma hybrid_score_above:
  assumes "rounds F rnd" "weights_nonneg w" "no_dearer a b ks" "no_dearer a b ls" "no_dearer a b ts"
    and "\<forall>n \<in> set ns. above (score_of_map n a) (score_of_map n b)"
  shows "above (hybrid_score F w (normalize_costs F ks) (normalize_costs F ls) (normalize_costs F ts) ns a)
    (hybrid_score F w (normalize_costs F ks) (normalize_costs F ls) (normalize_costs F ts) ns b)"
proof -
  have plugins: "above u v \<Longrightarrow> (\<forall>x \<in> set ws. \<exists>k \<ge> 0. x = Fin k) \<Longrightarrow> \<forall>n \<in> set ns. above (score_of_map n a) (score_of_map n b) \<Longrightarrow>
    above (foldl (\<lambda>acc (pw, norm). f64_add F acc (f64_mul F pw (score_of_map norm a))) u (zip ws ns))
      (foldl (\<lambda>acc (pw, norm). f64_add F acc (f64_mul F pw (score_of_map norm b))) v (zip ws ns))" for u v ws ns
  proof (induction ns arbitrary: u v ws)
    case (Cons n ns)
    show ?case
    proof (cases ws)
      case (Cons x xs)
      obtain k where "0 \<le> k" "x = Fin k" using Cons.prems(2) Cons by auto
      then have "above (f64_add F u (f64_mul F x (score_of_map n a))) (f64_add F v (f64_mul F x (score_of_map n b)))"
        using Cons.prems by (simp add: above_ops [OF assms(1)])
      then show ?thesis using Cons.IH Cons.prems Cons by simp
    qed (use Cons.prems in simp)
  qed simp
  obtain k l t where w: "hw_kv w = Fin k" "0 \<le> k" "hw_load w = Fin l" "0 \<le> l" "hw_topology w = Fin t" "0 \<le> t"
    using assms(2) by (auto simp: weights_nonneg_def)
  show ?thesis
    unfolding hybrid_score_def w
    by (rule plugins) (use assms w in \<open>simp_all add: above_ops [OF assms(1)] no_dearer_above [OF assms(1)] weights_nonneg_def\<close>)
qed

lemma score_plugins_norms:
  assumes "fst (score_plugins F inst now ctx cs meta pws) = Inr ns" "n \<in> set ns"
  shows "n = Map.empty \<or> (\<exists>p \<in> fst ` set pws. \<exists>scores. fst (st_evaluate (rp_strategy p) inst now ctx cs meta) = Inr scores \<and> n = normalize_costs F scores)"
  using assms
proof (induction pws arbitrary: ns)
  case (Cons pw pws)
  obtain p w where pw: "pw = (p, w)" by fastforce
  obtain r ps where rest: "score_plugins F inst now ctx cs meta pws = (r, ps)" by fastforce
  obtain e st where ev: "st_evaluate (rp_strategy p) inst now ctx cs meta = (e, st)" by fastforce
  show ?case
  proof (cases "f64_le w (Fin 0)")
    case True
    then obtain ns' where "r = Inr ns'" "ns = Map.empty # ns'" using Cons.prems(1) by (cases r) (auto simp: pw rest)
    then show ?thesis using Cons.IH Cons.prems(2) rest by auto
  next
    case False
    then obtain scores where e: "e = Inr scores" using Cons.prems(1) by (cases e) (auto simp: pw ev)
    then obtain ns' where "r = Inr ns'" "ns = normalize_costs F scores # ns'" using Cons.prems(1) False by (cases r) (auto simp: pw rest ev)
    then show ?thesis using Cons.IH Cons.prems(2) rest ev e by (auto simp: pw)
  qed
qed simp

text \<open>The dynamic weights of non-negative configured weights are not negative.\<close>

definition finite_nonneg :: "f64 \<Rightarrow> bool" where
  "finite_nonneg x \<longleftrightarrow> (\<exists>k. x = Fin k \<and> 0 \<le> k)"

lemma finite_nonneg_Fin [simp]: "finite_nonneg (Fin q) \<longleftrightarrow> 0 \<le> q"
  by (simp add: finite_nonneg_def)

lemma finite_nonneg_ops:
  assumes "rounds F rnd" "finite_nonneg x" "finite_nonneg y"
  shows "finite_nonneg (f64_add F x y)" "finite_nonneg (f64_mul F x y)" "f64_less (Fin 0) y \<Longrightarrow> finite_nonneg (f64_div F x y)"
  using assms rounds_nonneg [OF assms(1)] by (auto simp: finite_nonneg_def rounds_fp [OF assms(1)])

lemma finite_nonneg_sum: "rounds F rnd \<Longrightarrow> \<forall>x \<in> set xs. finite_nonneg x \<Longrightarrow> finite_nonneg (f64_sum F xs)"
proof -
  assume F: "rounds F rnd"
  have "finite_nonneg a \<Longrightarrow> \<forall>x \<in> set xs. finite_nonneg x \<Longrightarrow> finite_nonneg (foldl (f64_add F) a xs)" for a xs
    by (induction xs arbitrary: a) (simp_all add: finite_nonneg_ops [OF F])
  then show "\<forall>x \<in> set xs. finite_nonneg x \<Longrightarrow> finite_nonneg (f64_sum F xs)" by (simp add: f64_sum_def finite_nonneg_def)
qed

lemma dynamic_weights_nonneg:
  assumes "rounds F rnd" "finite_nonneg (sw_kv base)" "finite_nonneg (sw_load base)" "finite_nonneg (sw_topology base)"
    and "\<forall>p \<in> set (hy_plugins hy). finite_nonneg (st_weight (rp_strategy p))"
  shows "weights_nonneg (dynamic_weights F now base passing meta hy)"
proof -
  note ops = finite_nonneg_ops [OF assms(1)]
  have zero: "finite_nonneg (Fin 0)" "finite_nonneg (fp_round F (3 / 10))" "finite_nonneg (Fin 1)" "finite_nonneg (Fin 3)"
    using assms(1) rounds_nonneg [OF assms(1)] by (simp_all add: finite_nonneg_def rounds_def)
  let ?plugins = "map (plugin_weight now meta) (hy_plugins hy)"
  have plugins: "\<forall>x \<in> set ?plugins. finite_nonneg x" using assms(5) zero by (auto simp: plugin_weight_def)
  let ?kv = "if st_is_available (hy_kv hy) now meta then sw_kv base else Fin 0"
  let ?load = "if load_is_stale now passing meta then f64_mul F (sw_load base) (fp_round F (3 / 10)) else sw_load base"
  have kl: "finite_nonneg ?kv" "finite_nonneg ?load" using assms(2,3) zero ops(2) by simp_all
  let ?total = "f64_add F (f64_add F (f64_add F ?kv ?load) (sw_topology base)) (f64_sum F ?plugins)"
  have total: "finite_nonneg ?total" by (intro ops(1) kl assms(4) finite_nonneg_sum [OF assms(1) plugins])
  have "finite_nonneg (f64_div F (Fin 1) (Fin 3))" by (rule ops(3) [OF zero(3,4)]) simp
  then have "\<forall>x \<in> {hw_kv (dynamic_weights F now base passing meta hy), hw_load (dynamic_weights F now base passing meta hy),
      hw_topology (dynamic_weights F now base passing meta hy)} \<union> set (hw_plugins (dynamic_weights F now base passing meta hy)). finite_nonneg x"
    using ops(3) [OF _ total] kl assms(4) plugins zero(1) unfolding dynamic_weights_def Let_def by auto
  then show ?thesis by (auto simp: weights_nonneg_def finite_nonneg_def)
qed

lemma score_of_map_unit:
  assumes "rounds F rnd"
  shows "finite_nonneg (score_of_map (normalize_costs F scores) b)"
proof (cases "cost_in scores b")
  case None
  then show ?thesis by (simp add: normalize_costs_eq score_of_map_def finite_nonneg_def)
next
  case (Some c)
  show ?thesis
  proof (cases "f64_is_finite c")
    case True
    then obtain r where "c = Fin r" by (cases c) auto
    then obtain x where "normalize_costs F scores b = Some (Fin x)" "0 \<le> x" using normalized_mono [OF assms(1), of scores b r] Some by auto
    then show ?thesis by (simp add: score_of_map_def finite_nonneg_def)
  next
    case False
    then show ?thesis using Some by (simp add: normalize_costs_eq normalized_score_def score_of_map_def finite_nonneg_def)
  qed
qed

lemma hybrid_score_finite:
  assumes "rounds F rnd" "weights_nonneg w" "\<forall>n \<in> set ns. finite_nonneg (score_of_map n b)"
  shows "finite_nonneg (hybrid_score F w (normalize_costs F ks) (normalize_costs F ls) (normalize_costs F ts) ns b)"
proof -
  note ops = finite_nonneg_ops [OF assms(1)]
  have plugins: "finite_nonneg u \<Longrightarrow> \<forall>x \<in> set ws. finite_nonneg x \<Longrightarrow> \<forall>n \<in> set ns. finite_nonneg (score_of_map n b) \<Longrightarrow>
    finite_nonneg (foldl (\<lambda>acc (pw, norm). f64_add F acc (f64_mul F pw (score_of_map norm b))) u (zip ws ns))" for u ws ns
  proof (induction ns arbitrary: u ws)
    case (Cons n ns)
    then show ?case by (cases ws) (simp_all add: ops)
  qed simp
  have w: "finite_nonneg (hw_kv w)" "finite_nonneg (hw_load w)" "finite_nonneg (hw_topology w)" "\<forall>x \<in> set (hw_plugins w). finite_nonneg x"
    using assms(2) by (auto simp: weights_nonneg_def finite_nonneg_def)
  show ?thesis unfolding hybrid_score_def
    by (rule plugins [OF _ w(4) assms(3)]) (intro ops(1,2) w score_of_map_unit [OF assms(1)])
qed

lemma effective_base_weights_model: "fst (effective_base_weights F inst meta (hy\<lparr>hy_model := st\<rparr>)) = fst (effective_base_weights F inst meta hy)"
  by (simp add: effective_base_weights_def split: option.split prod.split)

definition weights_usable :: "strategy_weights \<Rightarrow> hybrid_strategy \<Rightarrow> bool" where
  "weights_usable base hy \<longleftrightarrow> finite_nonneg (sw_kv base) \<and> finite_nonneg (sw_load base) \<and> finite_nonneg (sw_topology base) \<and>
     (\<forall>p \<in> set (hy_plugins hy). finite_nonneg (st_weight (rp_strategy p)))"

definition sub_strategies :: "hybrid_strategy \<Rightarrow> strategy set" where
  "sub_strategies hy = {hy_kv hy, hy_load hy, hy_topology hy} \<union> rp_strategy ` set (hy_plugins hy)"

text \<open>C7. 
  The ranking of the hybrid strategy: a successful evaluation ranks the candidates that passed the model filter,
  each as often as the filter scored it, in descending order of finite scores that are not negative;
  and a candidate that no sub-strategy and no plugin finds dearer than another one scores at least as
  high. For every rounding without overflow, and weights that are finite and not negative.
\<close>

theorem hybrid_ranking:
  assumes "rounds F rnd" "weights_usable (fst (effective_base_weights F inst meta hy)) hy"
    and "hybrid_evaluate F inst now ctx cs meta hy = (Inr out, hy')" "cs \<noteq> []"
  shows "(\<exists>ms. fst (st_evaluate (hy_model hy) inst now ctx cs meta) = Inr ms \<and>
      mset (map sb_backend_id out) = mset (map sb_backend_id (filter (\<lambda>s. f64_less (Fin 0) (sb_score s)) ms))) \<and>
    descending out \<and> (\<forall>s \<in> set out. finite_nonneg (sb_score s)) \<and>
    (\<forall>x \<in> set out. \<forall>y \<in> set out.
      (\<forall>st \<in> sub_strategies hy. \<forall>passing scores. {sb_backend_id x, sb_backend_id y} \<subseteq> set passing \<and>
         fst (st_evaluate st inst now ctx passing meta) = Inr scores \<longrightarrow> no_dearer (sb_backend_id x) (sb_backend_id y) scores) \<longrightarrow>
      \<not> f64_less (sb_score x) (sb_score y))"
  using assms(3,4)
proof (rule hybrid_Inr)
  fix ms passing base hy2 w ks ls ts ps
  assume ms: "fst (st_evaluate (hy_model hy) inst now ctx cs meta) = Inr ms"
    and passing: "passing = map sb_backend_id (filter (\<lambda>s. f64_less (Fin 0) (sb_score s)) ms)"
    and base: "(base, hy2) = effective_base_weights F inst meta (hy\<lparr>hy_model := snd (st_evaluate (hy_model hy) inst now ctx cs meta)\<rparr>)"
    and w: "w = dynamic_weights F now base passing meta hy2"
    and k: "fst (score_sub (hw_kv w) inst now ctx passing meta (hy_kv hy)) = Inr ks"
    and l: "fst (score_sub (hw_load w) inst now ctx passing meta (hy_load hy)) = Inr ls"
    and t: "fst (score_sub (hw_topology w) inst now ctx passing meta (hy_topology hy)) = Inr ts"
    and p: "fst (score_plugins F inst now ctx passing meta (zip (hy_plugins hy) (hw_plugins w))) = Inr ps"
    and out: "out = combine_scores F w passing ks ls ts ps"
  let ?score = "hybrid_score F w (normalize_costs F ks) (normalize_costs F ls) (normalize_costs F ts) ps"
  have "fst (effective_base_weights F inst meta hy) = base" "hy_plugins hy2 = hy_plugins hy"
    using base effective_base_weights_model effective_base_frame(5) by (metis fst_conv, metis hybrid_strategy.select_convs(8) hybrid_strategy.surjective hybrid_strategy.update_convs(2) snd_conv)
  then have nonneg: "weights_nonneg w"
    using assms(2) unfolding w weights_usable_def by (intro dynamic_weights_nonneg [OF assms(1)]) simp_all
  have norms: "n = Map.empty \<or> (\<exists>st \<in> sub_strategies hy. \<exists>scores. fst (st_evaluate st inst now ctx passing meta) = Inr scores \<and> n = normalize_costs F scores)"
    if "n \<in> set ps" for n
  proof -
    have "fst ` set (zip (hy_plugins hy) (hw_plugins w)) \<subseteq> set (hy_plugins hy)" by (auto dest: set_zip_leftD)
    then show ?thesis using score_plugins_norms [OF p that] unfolding sub_strategies_def by blast
  qed
  have ids: "mset (map sb_backend_id out) = mset passing" unfolding out by (rule combine_ids)
  have score_entry: "set out = (\<lambda>b. score_entry b (?score b) (f64_neg (?score b))) ` set passing"
    unfolding out combine_scores_def Let_def by (metis (no_types, lifting) list.set_map mset_sort_descending set_mset_mset)
  have empty: "score_of_map Map.empty b = Fin 0" for b by (simp add: score_of_map_def)
  have finite: "finite_nonneg (?score b)" for b
  proof (rule hybrid_score_finite [OF assms(1) nonneg], rule ballI)
    fix n assume "n \<in> set ps"
    then show "finite_nonneg (score_of_map n b)" using norms score_of_map_unit [OF assms(1)] by (fastforce simp: empty finite_nonneg_def)
  qed
  have "?score b \<noteq> NaN" for b using finite [of b] by (auto simp: finite_nonneg_def)
  then have "descending out" unfolding out combine_scores_def Let_def by (intro sort_descending_sorted) auto
  moreover have "\<not> f64_less (sb_score x) (sb_score y)"
    if x: "x \<in> set out" and y: "y \<in> set out" and cheap: "\<forall>st \<in> sub_strategies hy. \<forall>passing scores. {sb_backend_id x, sb_backend_id y} \<subseteq> set passing \<and>
         fst (st_evaluate st inst now ctx passing meta) = Inr scores \<longrightarrow> no_dearer (sb_backend_id x) (sb_backend_id y) scores" for x y
  proof -
    have mem: "{sb_backend_id x, sb_backend_id y} \<subseteq> set passing" and xy: "sb_score x = ?score (sb_backend_id x)" "sb_score y = ?score (sb_backend_id y)"
      using x y score_entry by auto
    have sub: "no_dearer (sb_backend_id x) (sb_backend_id y) scores"
      if "fst (score_sub v inst now ctx passing meta st) = Inr scores" "st \<in> sub_strategies hy" for v st scores
      using that cheap mem by (auto simp: score_sub_def no_dearer_def split: if_splits)
    have "above (?score (sb_backend_id x)) (?score (sb_backend_id y))"
    proof (rule hybrid_score_above [OF assms(1) nonneg sub [OF k] sub [OF l] sub [OF t]], simp_all add: sub_strategies_def, rule ballI)
      fix n assume "n \<in> set ps"
      then show "above (score_of_map n (sb_backend_id x)) (score_of_map n (sb_backend_id y))"
        using norms cheap mem no_dearer_above [OF assms(1)] by (fastforce simp: empty above_def)
    qed
    then show ?thesis using xy by (auto simp: above_def)
  qed
  ultimately show ?thesis using ms passing ids finite score_entry by auto
qed

text \<open>A strategy that answers from a table of scores and costs, for concrete instances.\<close>

primcorec table_strategy :: "string \<Rightarrow> (backend_id \<Rightarrow> rat \<times> rat) \<Rightarrow> strategy" where
  "st_name (table_strategy name tab) = name"
| "st_weight (table_strategy name tab) = Fin 1"
| "st_is_available (table_strategy name tab) = (\<lambda>now meta. True)"
| "st_evaluate (table_strategy name tab) = (\<lambda>inst now ctx candidates meta.
     (Inr (map (\<lambda>b. score_entry b (Fin (fst (tab b))) (Fin (snd (tab b)))) candidates), table_strategy name tab))"

definition thirds :: strategy_weights where
  "thirds = \<lparr>sw_kv = Fin (1 / 2), sw_load = Fin (1 / 4), sw_topology = Fin (1 / 4), sw_cost = Fin 0\<rparr>"

definition table_hybrid :: hybrid_strategy where
  "table_hybrid =
     (let by_name = table_strategy ''sub'' (\<lambda>b. (1, if b = eu_backend ''a'' then 3 else 5))
      in hybrid_new by_name (table_strategy ''model'' (\<lambda>b. if b = eu_backend ''c'' then (0, 9) else (1, 0))) by_name by_name thirds (Fin 0))"

lemma table_hybrid_out:
  "fst (hybrid_evaluate exact_fpu 0 9 tool_request [eu_backend ''b'', eu_backend ''c'', eu_backend ''a''] store_new table_hybrid) =
     Inr [score_entry (eu_backend ''a'') (Fin 1) (Fin (- 1)), score_entry (eu_backend ''b'') (Fin 0) (Fin 0)]"
  by (simp add: hybrid_evaluate_def table_hybrid_def hybrid_new_def thirds_def Let_def effective_base_weights_def score_filtered_def
      score_sub_def dynamic_weights_def load_is_stale_def load_freshness_def load_get_def store_new_def load_new_def f64_sum_def exact_fpu_def
      combine_scores_def sort_descending_def hybrid_score_def score_of_map_def normalize_costs_eq cost_in_def min_cost_def max_cost_def
      finite_costs_def normalized_score_def f64_sub_def eu_backend_def)

theorem hybrid_ranking_witness:
  "fst (hybrid_evaluate exact_fpu 0 9 tool_request [eu_backend ''b'', eu_backend ''c'', eu_backend ''a''] store_new table_hybrid) =
     Inr [score_entry (eu_backend ''a'') (Fin 1) (Fin (- 1)), score_entry (eu_backend ''b'') (Fin 0) (Fin 0)] \<and>
   descending [score_entry (eu_backend ''a'') (Fin 1) (Fin (- 1)), score_entry (eu_backend ''b'') (Fin 0) (Fin 0)]"
proof -
  obtain hy' where "hybrid_evaluate exact_fpu 0 9 tool_request [eu_backend ''b'', eu_backend ''c'', eu_backend ''a''] store_new table_hybrid =
      (Inr [score_entry (eu_backend ''a'') (Fin 1) (Fin (- 1)), score_entry (eu_backend ''b'') (Fin 0) (Fin 0)], hy')"
    using table_hybrid_out by (metis prod.collapse)
  moreover have "weights_usable (fst (effective_base_weights exact_fpu 0 store_new table_hybrid)) table_hybrid"
    by (simp add: weights_usable_def effective_base_weights_def table_hybrid_def hybrid_new_def thirds_def Let_def)
  ultimately show ?thesis using hybrid_ranking [OF rounds_exact] table_hybrid_out by blast
qed

section \<open>Excluded candidates\<close>

text \<open>
  A sub-strategy marks an excluded candidate by the largest double, which is finite. One such candidate
  stretches the range of the costs so far that all others, whatever their cost up to \<open>2 ^ 900\<close>, get the same
  normalised score one: the sub-strategy no longer tells them apart. The rounding here is one that rounds
  to nearest at one, as doubles do: what is less than \<open>2 ^ -54\<close> below one becomes one.
\<close>

theorem excluded_cost_flattens:
  assumes "rounds F rnd" "\<forall>x. 0 \<le> x \<and> x < 1 / 2 ^ 54 \<longrightarrow> rnd (1 - x) = 1"
    and "excluded d \<in> set scores" "\<forall>s \<in> set scores. sb_raw_cost s = Fin F64_MAX \<or> (\<exists>c. sb_raw_cost s = Fin c \<and> 0 \<le> c \<and> c \<le> 2 ^ 900)"
    and "cost_in scores a = Some (Fin ca)" "ca \<noteq> F64_MAX" "cost_in scores b = Some (Fin cb)" "cb \<noteq> F64_MAX"
  shows "normalize_costs F scores a = Some (Fin 1) \<and> normalize_costs F scores b = Some (Fin 1)"
proof -
  have max: "(2::rat) ^ 1023 + 2 ^ 900 \<le> F64_MAX" "(2::rat) ^ 900 < F64_MAX" by (simp_all add: F64_MAX_def)
  obtain rs where rs: "finite_costs scores = map Fin rs" using finite_costs_rats by blast
  have "Fin F64_MAX \<in> set (finite_costs scores)" using assms(3) by (force simp: finite_costs_def)
  then have top: "F64_MAX \<in> set rs" by (auto simp: rs)
  have small: "c = F64_MAX \<or> 0 \<le> c \<and> c \<le> 2 ^ 900" if "c \<in> set rs" for c
  proof -
    have "Fin c \<in> set (finite_costs scores)" using that by (simp add: rs)
    then show ?thesis using assms(4) by (fastforce simp: finite_costs_def)
  qed
  have "c \<le> F64_MAX" if "c \<in> set rs" for c using small [OF that] max(2) by auto
  then have Max: "Max (set rs) = F64_MAX" using top by (intro Max_eqI) auto
  have val: "normalize_costs F scores x = Some (Fin 1)" if cost: "cost_in scores x = Some (Fin c)" and c: "c \<noteq> F64_MAX" for x c
  proof -
    have mem: "c \<in> set rs" using cost_in_finite [OF cost] by (auto simp: rs)
    define lo where "lo = Min (set rs)"
    have lo: "lo \<in> set rs" "lo \<le> c" using mem by (auto intro: Min_in simp: lo_def)
    then have "0 \<le> lo" "lo \<le> 2 ^ 900" "c \<le> 2 ^ 900" using small [OF lo(1)] small [OF mem] c max by auto
    then have w: "(2::rat) ^ 1023 \<le> F64_MAX - lo" "0 \<le> c - lo" "c - lo \<le> 2 ^ 900" using max lo by simp_all
    have pow: "rnd (2 ^ k) = 2 ^ k" "rnd (1 / 2 ^ k) = 1 / 2 ^ k" for k using assms(1) unfolding rounds_def by blast+
    have width: "2 ^ 1023 \<le> rnd (F64_MAX - lo)" using rounds_mono [OF assms(1) w(1)] pow(1) by metis
    have num: "0 \<le> rnd (c - lo)" "rnd (c - lo) \<le> 2 ^ 900"
      using rounds_nonneg [OF assms(1) w(2)] rounds_mono [OF assms(1) w(3)] pow(1) by metis+
    have pos: "0 < rnd (F64_MAX - lo)" using width by (meson less_le_trans zero_less_numeral zero_less_power)
    have "rnd (c - lo) / rnd (F64_MAX - lo) \<le> 2 ^ 900 / 2 ^ 1023" using num width by (intro frac_le) simp_all
    also have "(2::rat) ^ 900 / 2 ^ 1023 = 1 / 2 ^ 123" by simp
    finally have "rnd (rnd (c - lo) / rnd (F64_MAX - lo)) \<le> 1 / 2 ^ 123" using rounds_mono [OF assms(1)] pow(2) by metis
    then have "rnd (rnd (c - lo) / rnd (F64_MAX - lo)) < 1 / 2 ^ 54" by (rule le_less_trans) simp
    moreover have "0 \<le> rnd (rnd (c - lo) / rnd (F64_MAX - lo))" using num(1) pos by (intro rounds_nonneg [OF assms(1)]) simp
    ultimately have one: "rnd (1 - rnd (rnd (c - lo) / rnd (F64_MAX - lo))) = 1" using assms(2) by blast
    have "rs \<noteq> []" using mem by auto
    then show ?thesis
      unfolding normalize_costs_eq cost extreme_costs [OF rs \<open>rs \<noteq> []\<close>] Max lo_def [symmetric]
      using pos one by (simp add: normalized_score_def f64_sub_def rounds_fp [OF assms(1)])
  qed
  then show ?thesis using assms(5-8) by blast
qed

definition near_round :: "rat \<Rightarrow> rat" where
  "near_round x = (if 1 - 1 / 2 ^ 54 < x \<and> x \<le> 1 then 1 else x)"

definition near_fpu :: fpu where
  "near_fpu = \<lparr>fp_round = (\<lambda>x. Fin (near_round x)), fp_exp = id, fp_sqrt = id\<rparr>"

lemma near_rounds: "rounds near_fpu near_round"
proof -
  have "near_round (1 / 2 ^ k) = 1 / 2 ^ k" for k
  proof (cases k)
    case (Suc n)
    have "(1::rat) \<le> 2 ^ n" by (rule one_le_power) simp
    then have "(1::rat) / 2 ^ k \<le> 1 / 2" by (simp add: Suc field_simps)
    moreover have "(1::rat) / 2 < 1 - 1 / 2 ^ 54" by simp
    ultimately have "\<not> 1 - 1 / 2 ^ 54 < (1::rat) / 2 ^ k" by linarith
    then show ?thesis by (simp only: near_round_def simp_thms if_False)
  qed (simp add: near_round_def)
  moreover have "near_round (2 ^ k) = 2 ^ k" for k
  proof -
    have "(2::rat) ^ k \<le> 1 \<Longrightarrow> 2 ^ k = (1::rat)" by (rule antisym) simp_all
    then show ?thesis by (auto simp: near_round_def)
  qed
  moreover have "mono near_round" by (rule monoI) (auto simp: near_round_def)
  moreover have "near_round 0 = 0" by (simp add: near_round_def)
  ultimately show ?thesis by (simp add: rounds_def near_fpu_def)
qed

definition busy_metrics :: "u64 \<Rightarrow> backend_metrics" where
  "busy_metrics n = \<lparr>active_requests = n, queue_depth = 0, active_decode_blocks = 0, active_prefill_tokens = 0, kv_used_blocks = 0,
     kv_total_blocks = 10, gpu_utilization = Fin 0, gpu_memory_used_mb = 0, gpu_memory_total_mb = 0,
     bm_latency = \<lparr>p50_ms = Fin 0, p99_ms = Fin 0, p999_ms = Fin 0, sample_count = 0\<rparr>, bm_timestamp = 100\<rparr>"

definition requests_only :: load_aware_strategy where
  "requests_only = \<lparr>la_req = Fin 1, la_queue = Fin 0, la_lat = Fin 0, la_gpu = Fin 0, la_kv = Fin 0, la_decode = Fin 0, la_prefill = Fin 0\<rparr>"

text \<open>A backend with one running request, one with five hundred, one without metrics: the first two get the same score.\<close>

definition uneven_scores :: "scored_backend list" where
  "uneven_scores = map (load_aware_score near_fpu requests_only tool_request
     \<lparr>ls_latest = [(eu_backend ''a'', busy_metrics 1), (eu_backend ''b'', busy_metrics 500)], ls_history = []\<rparr>)
     [eu_backend ''a'', eu_backend ''b'', eu_backend ''c'']"

lemma uneven_costs: "map sb_raw_cost uneven_scores = [Fin 1, Fin 500, Fin F64_MAX]" "map sb_backend_id uneven_scores = map eu_backend [''a'', ''b'', ''c'']"
    "uneven_scores ! 2 = excluded (eu_backend ''c'')" "length uneven_scores = 3"
  by (simp_all add: uneven_scores_def load_aware_score_def load_get_def eu_backend_def busy_metrics_def requests_only_def available_capacity_def
      load_cost_def kv_cache_usage_def of_usize_def near_fpu_def near_round_def Let_def)

theorem excluded_cost_flattens_witness:
  "cost_in uneven_scores (eu_backend ''a'') = Some (Fin 1) \<and> cost_in uneven_scores (eu_backend ''b'') = Some (Fin 500) \<and>
   normalize_costs near_fpu uneven_scores (eu_backend ''a'') = Some (Fin 1) \<and> normalize_costs near_fpu uneven_scores (eu_backend ''b'') = Some (Fin 1)"
proof -
  obtain x y z where xyz: "uneven_scores = [x, y, z]" using uneven_costs(4) by (auto simp: numeral_eq_Suc length_Suc_conv)
  have "z = excluded (eu_backend ''c'')" using uneven_costs(3) unfolding xyz by (simp add: numeral_2_eq_2)
  then have scores: "uneven_scores = [x, y, excluded (eu_backend ''c'')]" using xyz by blast
  have x: "sb_backend_id x = eu_backend ''a''" "sb_raw_cost x = Fin 1" and y: "sb_backend_id y = eu_backend ''b''" "sb_raw_cost y = Fin 500"
    using uneven_costs(1,2) unfolding scores by simp_all
  have costs: "cost_in uneven_scores (eu_backend ''a'') = Some (Fin 1)" "cost_in uneven_scores (eu_backend ''b'') = Some (Fin 500)"
    by (simp_all add: scores cost_in_def x y) (simp_all add: eu_backend_def)
  have "\<forall>x. 0 \<le> x \<and> x < 1 / 2 ^ 54 \<longrightarrow> near_round (1 - x) = 1" by (auto simp: near_round_def)
  moreover have "excluded (eu_backend ''c'') \<in> set uneven_scores" by (simp add: scores)
  moreover have "\<forall>s \<in> set uneven_scores. sb_raw_cost s = Fin F64_MAX \<or> (\<exists>c. sb_raw_cost s = Fin c \<and> 0 \<le> c \<and> c \<le> 2 ^ 900)"
    by (simp add: scores x y)
  moreover have "(1::rat) \<noteq> F64_MAX" "(500::rat) \<noteq> F64_MAX" by (simp_all add: F64_MAX_def)
  ultimately show ?thesis using excluded_cost_flattens [OF near_rounds] costs by blast
qed

end
