(* ===== verification/RoundRobin.thy ===== *)
theory RoundRobin
  imports Request "HOL-Library.Multiset"
begin

text \<open>
  The round-robin strategy, \<open>crates/hier-kv-gateway-routing/src/round_robin.rs\<close>. The cursor is a \<open>usize\<close>
  (64 bits) that \<open>fetch_add\<close> wraps around. Scores are whole numbers converted to \<open>f64\<close>, exact up to
  \<open>2 ^ 53\<close>. The request context and the metadata store are
  ignored by the strategy and are not arguments.
\<close>

type_synonym round_robin_strategy = u64

definition round_robin_new :: round_robin_strategy where
  "round_robin_new = 0"

definition rr_evaluate :: "fpu \<Rightarrow> backend_id list \<Rightarrow> round_robin_strategy \<Rightarrow> scored_backend list \<times> round_robin_strategy" where
  "rr_evaluate F candidates cursor =
     (let n = length candidates in
      if n = 0 then ([], cursor)
      else let start = unat cursor mod n in
        (map (\<lambda>offset. let idx = (start + offset) mod n; score = of_usize F (n - offset) in
            \<lparr>sb_backend_id = candidates ! idx, sb_score = score, sb_raw_cost = f64_neg score, sb_meta_version = 0\<rparr>) [0..<n],
         cursor + 1))"

text \<open>A sequence of calls, each with its own candidates; concurrent calls take distinct cursor values in
  the order of their \<open>fetch_add\<close>.\<close>

fun rr_calls :: "fpu \<Rightarrow> backend_id list list \<Rightarrow> round_robin_strategy \<Rightarrow> scored_backend list list \<times> round_robin_strategy" where
  "rr_calls F [] cursor = ([], cursor)"
| "rr_calls F (cs # css) cursor =
     (let (out, cursor') = rr_evaluate F cs cursor; (outs, cursor'') = rr_calls F css cursor' in (out # outs, cursor''))"

lemma rr_evaluate_ids: "map sb_backend_id (fst (rr_evaluate F cs cursor)) = rotate (unat cursor) cs"
  by (rule nth_equalityI) (auto simp: rr_evaluate_def Let_def nth_rotate mod_add_left_eq)

lemma rr_evaluate_scores: "map sb_score (fst (rr_evaluate F cs cursor)) = map (of_usize F) (rev [1..<Suc (length cs)])"
proof (cases "cs = []")
  case False
  then show ?thesis
    by (intro nth_equalityI) (auto simp: rr_evaluate_def Let_def rev_nth nth_upt Suc_diff_Suc simp del: upt_Suc)
qed (simp add: rr_evaluate_def)

lemma mset_rotate_id: "mset (rotate i xs) = mset xs"
  by (metis append_take_drop_id mset_append rotate_drop_take union_commute)

lemma rr_cursor: "cs \<noteq> [] \<Longrightarrow> snd (rr_evaluate F cs cursor) = cursor + 1"
  by (simp add: rr_evaluate_def Let_def)

lemma rr_calls_picks:
  "cs \<noteq> [] \<Longrightarrow> i + k \<le> 2 ^ 64 \<Longrightarrow>
    map (\<lambda>out. sb_backend_id (hd out)) (fst (rr_calls F (replicate k cs) (word_of_nat i))) =
    map (\<lambda>j. cs ! (j mod length cs)) [i..<i + k]"
proof (induction k arbitrary: i)
  case (Suc k)
  obtain out c where ev: "rr_evaluate F cs (word_of_nat i) = (out, c)" by fastforce
  have c: "c = word_of_nat (Suc i)" using rr_cursor [OF Suc.prems(1), of F "word_of_nat i"] ev by simp
  have "unat (word_of_nat i :: u64) = i" using Suc.prems(2) by (simp add: unat_of_nat)
  then have ids: "map sb_backend_id out = rotate i cs" using rr_evaluate_ids [of F cs "word_of_nat i"] ev by simp
  then have "out \<noteq> []" using Suc.prems(1) by (metis list.map_disc_iff rotate_is_Nil_conv)
  then have "sb_backend_id (hd out) = cs ! (i mod length cs)"
    using ids hd_rotate_conv_nth [OF Suc.prems(1)] by (metis list.map_sel(1))
  moreover have "[i..<i + Suc k] = i # [Suc i..<Suc i + k]" by (simp add: upt_conv_Cons)
  ultimately show ?case using Suc.IH [OF Suc.prems(1), of "Suc i"] Suc.prems(2) ev c by (simp add: case_prod_beta)
qed simp

lemma cycle_upt: "cs \<noteq> [] \<Longrightarrow> map (\<lambda>j. cs ! (j mod length cs)) [0..<m * length cs] = concat (replicate m cs)"
proof (induction m)
  case (Suc m)
  have "[0..<Suc m * length cs] = [0..<m * length cs] @ map (\<lambda>j. j + m * length cs) [0..<length cs]"
    using upt_add_eq_append [of 0 "m * length cs" "length cs"] map_add_upt [of "m * length cs" "length cs"]
    by (simp add: add.commute)
  moreover have "map (\<lambda>j. cs ! ((j + m * length cs) mod length cs)) [0..<length cs] = cs"
    by (rule nth_equalityI) simp_all
  ultimately have "map (\<lambda>j. cs ! (j mod length cs)) [0..<Suc m * length cs] = concat (replicate m cs) @ cs"
    using Suc.IH [OF Suc.prems] by (simp only: map_append map_map comp_def)
  also have "\<dots> = concat (replicate m cs @ [cs])" by simp
  finally show ?case by (simp only: replicate_append_same replicate_Suc)
qed simp

text \<open>Round robin is fair and its ranking is a failover order. Every call ranks all candidates, each
  exactly once, in rotation order with the scores \<open>n, n - 1, \<dots>, 1\<close> as floating-point numbers. From a fresh strategy, \<open>m\<close> rounds of calls
  on the same \<open>n\<close> candidates pick \<open>candidates[0], \<dots>, candidates[n - 1]\<close> in order, \<open>m\<close> times over, so every
  candidate is picked first exactly \<open>m\<close> times, as long as the 64-bit cursor has not wrapped around.\<close>

theorem round_robin_fair:
  assumes "cs \<noteq> []" "m * length cs \<le> 2 ^ 64"
  shows "map sb_backend_id (fst (rr_evaluate F cs cursor)) = rotate (unat cursor) cs \<and>
    mset (map sb_backend_id (fst (rr_evaluate F cs cursor))) = mset cs \<and>
    map sb_score (fst (rr_evaluate F cs cursor)) = map (of_usize F) (rev [1..<Suc (length cs)]) \<and>
    map (\<lambda>out. sb_backend_id (hd out)) (fst (rr_calls F (replicate (m * length cs) cs) round_robin_new)) = concat (replicate m cs)"
  using rr_calls_picks [OF assms(1), of 0 "m * length cs"] assms(2) cycle_upt [OF assms(1), of m]
  by (simp add: rr_evaluate_ids rr_evaluate_scores round_robin_new_def mset_rotate_id)

theorem round_robin_fair_witness:
  "map (\<lambda>out. sb_backend_id (hd out)) (fst (rr_calls exact_fpu (replicate 6 [BackendId (RegionId ''eu'') (BackendInstanceId ''a''),
       BackendId (RegionId ''eu'') (BackendInstanceId ''b'')]) round_robin_new)) =
   concat (replicate 3 [BackendId (RegionId ''eu'') (BackendInstanceId ''a''), BackendId (RegionId ''eu'') (BackendInstanceId ''b'')])"
  using round_robin_fair [of "[BackendId (RegionId ''eu'') (BackendInstanceId ''a''), BackendId (RegionId ''eu'') (BackendInstanceId ''b'')]" 3 exact_fpu,
      THEN conjunct2, THEN conjunct2, THEN conjunct2]
  by simp

end
