(* ===== verification/Engine.thy ===== *)
theory Engine
  imports Hybrid RoundRobin StoreProof
begin

text \<open>
  The routing engine, \<open>crates/hier-kv-gateway-routing/src/engine.rs\<close>: session affinity, candidates, scoring with
  the fallback to degraded routing, selection, and the write-back to the prefix history and the session
  table. The scoring strategies are parameters behind the interface of \<open>strategy.rs\<close>, as they are in the code
  (\<open>Box<dyn RoutingStrategy>\<close>); the round-robin strategy is one of them. The three sub-strategies read for
  tracing keep no state. A call runs without interleaving; the clock is the argument \<open>now\<close>.
\<close>

section \<open>State\<close>

record route_decision =
  rd_backend :: backend_id
  rd_strategy :: string
  rd_kv_overlap :: u32
  rd_scores :: "(string \<times> f64) list"

record routing_engine =
  re_hybrid :: hybrid_strategy
  re_primary :: "strategy option"
  re_session_affinity_ttl :: u64
  re_max_retries :: u32
  re_self_region :: region_id
  re_prefix_history :: prefix_reuse_history
  re_temperature :: f64
  re_trace_sub_scores :: bool

definition routing_engine_new :: "hybrid_strategy \<Rightarrow> u64 \<Rightarrow> u32 \<Rightarrow> region_id \<Rightarrow> routing_engine" where
  "routing_engine_new hy ttl retries region =
     \<lparr>re_hybrid = hy, re_primary = None, re_session_affinity_ttl = ttl, re_max_retries = retries,
      re_self_region = region, re_prefix_history = prefix_history_new DEFAULT_MAX_ENTRIES,
      re_temperature = hy_temperature hy, re_trace_sub_scores = False\<rparr>"

definition with_primary_strategy :: "strategy \<Rightarrow> routing_engine \<Rightarrow> routing_engine" where
  "with_primary_strategy st eng = eng\<lparr>re_primary := Some st\<rparr>"

definition with_trace_sub_scores :: "bool \<Rightarrow> routing_engine \<Rightarrow> routing_engine" where
  "with_trace_sub_scores b eng = eng\<lparr>re_trace_sub_scores := b\<rparr>"

primcorec round_robin :: "fpu \<Rightarrow> round_robin_strategy \<Rightarrow> strategy" where
  "st_name (round_robin F cursor) = ''round_robin''"
| "st_weight (round_robin F cursor) = Fin 1"
| "st_is_available (round_robin F cursor) = (\<lambda>now meta. True)"
| "st_evaluate (round_robin F cursor) =
     (\<lambda>inst now ctx candidates meta. map_prod Inr (round_robin F) (rr_evaluate F candidates cursor))"

section \<open>Routing\<close>

text \<open>\<open>self.primary.as_deref().unwrap_or(&self.hybrid)\<close>, and its evaluation with the engine afterwards.\<close>

definition scoring_strategy :: "fpu \<Rightarrow> routing_engine \<Rightarrow> strategy" where
  "scoring_strategy F eng = (case re_primary eng of Some st \<Rightarrow> st | None \<Rightarrow> hybrid F (re_hybrid eng))"

definition evaluate_primary :: "fpu \<Rightarrow> nat \<Rightarrow> u64 \<Rightarrow> routing_context \<Rightarrow> backend_id list \<Rightarrow> metadata_store \<Rightarrow> routing_engine
    \<Rightarrow> scoring \<times> routing_engine" where
  "evaluate_primary F inst now ctx candidates meta eng =
     (case re_primary eng of
        Some st \<Rightarrow> (let (r, st') = st_evaluate st inst now ctx candidates meta in (r, eng\<lparr>re_primary := Some st'\<rparr>))
      | None \<Rightarrow> (let (r, hy) = hybrid_evaluate F inst now ctx candidates meta (re_hybrid eng) in (r, eng\<lparr>re_hybrid := hy\<rparr>)))"

definition record_in_history :: "xxh3 \<Rightarrow> u64 \<Rightarrow> routing_context \<Rightarrow> backend_id \<Rightarrow> routing_engine \<Rightarrow> routing_engine" where
  "record_in_history xxh now ctx b eng =
     eng\<lparr>re_prefix_history := record_dispatch xxh now (rc_block_hashes ctx) b (re_prefix_history eng)\<rparr>"

definition affinity_head :: "xxh3 \<Rightarrow> u64 \<Rightarrow> routing_context \<Rightarrow> routing_engine \<Rightarrow> metadata_store
    \<Rightarrow> route_decision option \<times> routing_engine \<times> metadata_store" where
  "affinity_head xxh now ctx eng meta =
     (case rc_session_id ctx of
        None \<Rightarrow> (None, eng, meta)
      | Some sess \<Rightarrow>
          (case session_get sess meta of
             None \<Rightarrow> (None, eng, meta)
           | Some affinity \<Rightarrow>
               (case backend_get (sa_backend affinity) meta of
                  None \<Rightarrow> (None, eng, meta)
                | Some _ \<Rightarrow>
                    (let overlap = kv_find_local_overlap xxh (rc_block_hashes ctx) (sa_backend affinity) (ms_kv meta)
                     in (Some \<lparr>rd_backend = sa_backend affinity, rd_strategy = ''session_affinity'', rd_kv_overlap = overlap, rd_scores = []\<rparr>,
                         record_in_history xxh now ctx (sa_backend affinity) eng,
                         session_set now sess (sa_backend affinity) overlap meta)))))"

definition collect_ids :: "backend_id option \<Rightarrow> backend_id list \<Rightarrow> backend_id list" where
  "collect_ids head_backend ids = sort (filter (\<lambda>b. Some b \<noteq> head_backend) ids)"

definition route_pool :: "backend_id option \<Rightarrow> routing_context \<Rightarrow> metadata_store \<Rightarrow> backend_id list" where
  "route_pool head_backend ctx meta =
     (let all = map bi_id (backends_all meta)
      in case rc_model_name ctx of
           Some name \<Rightarrow>
             if name \<noteq> [] then
               (let by_model = model_find_backends name (ms_models meta)
                in if by_model = [] then collect_ids head_backend all else collect_ids head_backend by_model)
             else collect_ids head_backend all
         | None \<Rightarrow> collect_ids head_backend all)"

definition score_or_degrade :: "fpu \<Rightarrow> xxh3 \<Rightarrow> u64 \<Rightarrow> routing_context \<Rightarrow> backend_id list \<Rightarrow> metadata_store \<Rightarrow> prefix_reuse_history
    \<Rightarrow> string \<Rightarrow> scoring \<Rightarrow> failure + scored_backend list \<times> string" where
  "score_or_degrade F xxh now ctx candidates meta history name result =
     (let available = degradation_is_available now meta;
          deg = degradation_evaluate F xxh ctx candidates history
      in case result of
           Inr s \<Rightarrow>
             if s \<noteq> [] then Inr (s, name)
             else if available then
               if deg = [] then Inl (Err (RoutingFailed ''Both the primary strategy and the degradation strategy produced no candidate scores''))
               else Inr (deg, ''degradation'')
             else Inl (Err (RoutingFailed ''The primary strategy produced no candidate scores''))
         | Inl Panicked \<Rightarrow> Inl Panicked
         | Inl e \<Rightarrow>
             if available then (if deg = [] then Inl e else Inr (deg, ''degradation''))
             else Inl e)"

definition trace_score :: "strategy \<Rightarrow> scored_backend list \<Rightarrow> backend_id \<Rightarrow> (string \<times> f64) list" where
  "trace_score st scores b =
     (case List.find (\<lambda>s. sb_backend_id s = b) scores of None \<Rightarrow> [] | Some s \<Rightarrow> [(st_name st, sb_score s)])"

definition head_trace :: "nat \<Rightarrow> u64 \<Rightarrow> hybrid_strategy \<Rightarrow> routing_context \<Rightarrow> backend_id list \<Rightarrow> metadata_store \<Rightarrow> backend_id
    \<Rightarrow> (failure + (string \<times> f64) list) \<times> hybrid_strategy" where
  "head_trace inst now hy ctx candidates meta b =
     (case st_evaluate (hy_kv hy) inst now ctx candidates meta of
        (Inl e, st) \<Rightarrow> (Inl e, hy\<lparr>hy_kv := st\<rparr>)
      | (Inr kv_scores, st) \<Rightarrow>
          (let hy1 = hy\<lparr>hy_kv := st\<rparr>
           in case st_evaluate (hy_load hy1) inst now ctx candidates meta of
                (Inl e, st) \<Rightarrow> (Inl e, hy1\<lparr>hy_load := st\<rparr>)
              | (Inr load_scores, st) \<Rightarrow>
                  (let hy2 = hy1\<lparr>hy_load := st\<rparr>
                   in case st_evaluate (hy_topology hy2) inst now ctx candidates meta of
                        (Inl e, st) \<Rightarrow> (Inl e, hy2\<lparr>hy_topology := st\<rparr>)
                      | (Inr topo_scores, st) \<Rightarrow>
                          (let hy3 = hy2\<lparr>hy_topology := st\<rparr>
                           in (Inr (trace_score (hy_kv hy3) kv_scores b @ trace_score (hy_load hy3) load_scores b @
                                    trace_score (hy_topology hy3) topo_scores b), hy3)))))"

definition decision_of :: "xxh3 \<Rightarrow> routing_context \<Rightarrow> metadata_store \<Rightarrow> string \<Rightarrow> (string \<times> f64) list \<Rightarrow> nat \<times> scored_backend \<Rightarrow> route_decision" where
  "decision_of xxh ctx meta used head_scores pick =
     \<lparr>rd_backend = sb_backend_id (snd pick), rd_strategy = used,
      rd_kv_overlap = kv_find_local_overlap xxh (rc_block_hashes ctx) (sb_backend_id (snd pick)) (ms_kv meta),
      rd_scores = (if fst pick = 0 \<and> head_scores \<noteq> [] then head_scores else []) @ [(used, sb_score (snd pick))]\<rparr>"

definition write_back :: "xxh3 \<Rightarrow> u64 \<Rightarrow> routing_context \<Rightarrow> backend_id \<Rightarrow> routing_engine \<Rightarrow> metadata_store \<Rightarrow> routing_engine \<times> metadata_store" where
  "write_back xxh now ctx b eng meta =
     (record_in_history xxh now ctx b eng,
      case rc_session_id ctx of
        None \<Rightarrow> meta
      | Some sess \<Rightarrow> session_set now sess b (kv_find_local_overlap xxh (rc_block_hashes ctx) b (ms_kv meta)) meta)"

abbreviation head_list :: "route_decision option \<Rightarrow> route_decision list" where
  "head_list head \<equiv> (case head of None \<Rightarrow> [] | Some h \<Rightarrow> [h])"

text \<open>Selection, write-back and decisions: the steps after scoring.\<close>

definition finish_route :: "fpu \<Rightarrow> xxh3 \<Rightarrow> (nat \<Rightarrow> f64 list \<Rightarrow> nat option) \<Rightarrow> nat \<Rightarrow> u64 \<Rightarrow> routing_context \<Rightarrow> nat \<Rightarrow> route_decision option
    \<Rightarrow> backend_id list \<Rightarrow> string \<Rightarrow> scored_backend list \<Rightarrow> string \<Rightarrow> routing_engine \<Rightarrow> metadata_store
    \<Rightarrow> (failure + route_decision list) \<times> routing_engine \<times> metadata_store" where
  "finish_route F xxh draw inst now ctx limit head candidates hybrid_name scored used eng meta =
     (let slots = limit - length (head_list head);
          ranked = select_ranked F draw scored (re_temperature eng) slots
      in if ranked = [] then
           ((if head = None then Inl (Err (RoutingFailed ''Unable to select a backend from the scores'')) else Inr (head_list head)), eng, meta)
         else let b = sb_backend_id (ranked ! 0);
                  (eng', meta') = (if head = None then write_back xxh now ctx b eng meta else (eng, meta))
              in case (if re_trace_sub_scores eng' \<and> used = hybrid_name
                       then head_trace inst now (re_hybrid eng') ctx candidates meta' b else (Inr [], re_hybrid eng')) of
                   (Inl e, hy) \<Rightarrow> (Inl e, eng'\<lparr>re_hybrid := hy\<rparr>, meta')
                 | (Inr head_scores, hy) \<Rightarrow>
                     (Inr (head_list head @ map (decision_of xxh ctx meta' used head_scores) (enumerate 0 ranked)),
                      eng'\<lparr>re_hybrid := hy\<rparr>, meta'))"

definition route_candidates :: "fpu \<Rightarrow> xxh3 \<Rightarrow> (nat \<Rightarrow> f64 list \<Rightarrow> nat option) \<Rightarrow> nat \<Rightarrow> u64 \<Rightarrow> routing_context \<Rightarrow> nat \<Rightarrow> routing_engine \<Rightarrow> metadata_store
    \<Rightarrow> (failure + route_decision list) \<times> routing_engine \<times> metadata_store" where
  "route_candidates F xxh draw inst now ctx limit eng meta =
     (if limit = 0 then (Inr [], eng, meta)
      else let (head, eng1, meta1) = affinity_head xxh now ctx eng meta
      in if head \<noteq> None \<and> limit = 1 then (Inr (head_list head), eng1, meta1)
      else let candidates = route_pool (map_option rd_backend head) ctx meta1
      in if candidates = [] then ((if head = None then Inl (Err BackendUnavailable) else Inr (head_list head)), eng1, meta1)
      else let (result, eng2) = evaluate_primary F inst now ctx candidates meta1 eng1
      in case score_or_degrade F xxh now ctx candidates meta1 (re_prefix_history eng2) (st_name (scoring_strategy F eng1)) result of
           Inl e \<Rightarrow> (Inl e, eng2, meta1)
         | Inr (scored, used) \<Rightarrow>
             finish_route F xxh draw inst now ctx limit head candidates ''hybrid'' scored used eng2 meta1)"

definition engine_route :: "fpu \<Rightarrow> xxh3 \<Rightarrow> (nat \<Rightarrow> f64 list \<Rightarrow> nat option) \<Rightarrow> nat \<Rightarrow> u64 \<Rightarrow> routing_context \<Rightarrow> routing_engine \<Rightarrow> metadata_store
    \<Rightarrow> (failure + route_decision) \<times> routing_engine \<times> metadata_store" where
  "engine_route F xxh draw inst now ctx eng meta =
     (case route_candidates F xxh draw inst now ctx 1 eng meta of
        (Inl e, s) \<Rightarrow> (Inl e, s)
      | (Inr ranked, s) \<Rightarrow>
          ((if ranked = [] then Inl (Err (RoutingFailed ''Unable to select a backend from the scores'')) else Inr (last ranked)), s))"

section \<open>Sound scores\<close>

lemma rr_scores_candidates: "distinct cs \<Longrightarrow> scores_candidates cs (fst (rr_evaluate F cs cursor))"
  unfolding scores_candidates_def by (metis distinct_rotate list.set_map order_refl rr_evaluate_ids set_rotate)

text \<open>The round-robin strategy meets the contract of the engine, call after call.\<close>

lemma round_robin_sound: "sound_strategy (round_robin F cursor)"
proof (coinduction arbitrary: cursor)
  case sound_strategy
  show ?case by (auto simp: rr_scores_candidates)
qed

lemma evaluate_sound:
  assumes "sound_strategy st" "distinct cs" "fst (st_evaluate st inst now ctx cs meta) = Inr out"
  shows "scores_candidates cs out"
  using assms by (metis sound_strategyE)

lemma score_or_degrade_sound:
  assumes "distinct cs" "\<And>out. result = Inr out \<Longrightarrow> scores_candidates cs out"
    and "score_or_degrade F xxh now ctx cs meta h name result = Inr (scored, used)"
  shows "scores_candidates cs scored" "scored \<noteq> []"
  using assms degradation_sound [OF assms(1)]
  by (auto simp: score_or_degrade_def Let_def split: sum.splits failure.splits if_splits)

section \<open>Candidates\<close>

text \<open>What the engine needs of the store: backends filed under their identifiers, and models of registered backends only. It does
  not need the region and domain indexes, so it holds after repeated registrations too.\<close>

definition routable :: "metadata_store \<Rightarrow> bool" where
  "routable meta \<longleftrightarrow> keys_distinct (ms_backends meta) \<and> (\<forall>b info. map_of (ms_backends meta) b = Some info \<longrightarrow> bi_id info = b) \<and>
     keys_distinct (ms_models meta) \<and> fst ` set (ms_models meta) \<subseteq> fst ` set (ms_backends meta)"

lemma all_ids: "routable meta \<Longrightarrow> map bi_id (backends_all meta) = map fst (ms_backends meta)"
  by (auto simp: backends_all_def routable_def intro!: map_cong)

lemma model_ids: "set (model_find_backends name r) \<subseteq> fst ` set r" "keys_distinct r \<Longrightarrow> distinct (model_find_backends name r)"
  by (auto simp: model_find_backends_def distinct_map_filter)

lemma collect_ids_set: "set (collect_ids hb ids) = {b \<in> set ids. Some b \<noteq> hb}" "distinct ids \<Longrightarrow> distinct (collect_ids hb ids)"
  by (auto simp: collect_ids_def)

lemma route_pool_cases:
  obtains "route_pool hb ctx meta = collect_ids hb (map bi_id (backends_all meta))"
    | name where "route_pool hb ctx meta = collect_ids hb (model_find_backends name (ms_models meta))" "model_find_backends name (ms_models meta) \<noteq> []"
proof (cases "rc_model_name ctx")
  case None
  then show ?thesis using that(1) by (simp add: route_pool_def)
next
  case (Some name)
  then show ?thesis
    using that by (cases "name = [] \<or> model_find_backends name (ms_models meta) = []") (auto simp: route_pool_def Let_def)
qed

lemma route_pool_ok:
  assumes "routable meta"
  shows "distinct (route_pool hb ctx meta)" "b \<in> set (route_pool hb ctx meta) \<Longrightarrow> Some b \<noteq> hb \<and> backend_get b meta \<noteq> None"
proof -
  have all: "map bi_id (backends_all meta) = map fst (ms_backends meta)" "keys_distinct (ms_backends meta)"
    using assms all_ids [OF assms] by (simp_all add: routable_def)
  have models: "keys_distinct (ms_models meta)" "fst ` set (ms_models meta) \<subseteq> fst ` set (ms_backends meta)"
    using assms by (simp_all add: routable_def)
  have reg: "backend_get b meta \<noteq> None" if "b \<in> fst ` set (ms_backends meta)"
    using that by (simp only: backend_get_def map_of_eq_None_iff not_not)
  show "distinct (route_pool hb ctx meta)"
    by (cases rule: route_pool_cases [of hb ctx meta]) (simp_all add: all models(1) model_ids(2) collect_ids_set(2))
  show "Some b \<noteq> hb \<and> backend_get b meta \<noteq> None" if "b \<in> set (route_pool hb ctx meta)"
  proof (cases rule: route_pool_cases [of hb ctx meta])
    case 1
    then have "b \<in> fst ` set (ms_backends meta)" "Some b \<noteq> hb"
      using that by (auto simp: all(1) collect_ids_set(1))
    then show ?thesis using reg by blast
  next
    case (2 name)
    then have "b \<in> set (model_find_backends name (ms_models meta))" "Some b \<noteq> hb"
      using that by (auto simp: collect_ids_set(1))
    then show ?thesis using model_ids(1) models(2) reg by blast
  qed
qed

lemma collect_ids_None: "collect_ids None ids = [] \<longleftrightarrow> ids = []"
proof -
  have "set (collect_ids None ids) = set ids" by (simp add: collect_ids_set)
  then show ?thesis by (metis set_empty)
qed

lemma route_pool_nonempty: "backends_all meta \<noteq> [] \<Longrightarrow> route_pool None ctx meta \<noteq> []"
  by (cases rule: route_pool_cases [of None ctx meta]) (simp_all add: collect_ids_None)

section \<open>The head\<close>

lemma affinity_head_cases:
  assumes "affinity_head xxh now ctx eng meta = (head, eng1, meta1)"
  obtains "head = None" "eng1 = eng" "meta1 = meta"
    | h sess where "head = Some h" "rc_session_id ctx = Some sess" "backend_get (rd_backend h) meta \<noteq> None"
      "rd_strategy h = ''session_affinity''" "map_option sa_backend (session_get sess meta) = Some (rd_backend h)"
      "eng1 = record_in_history xxh now ctx (rd_backend h) eng" "meta1 = session_set now sess (rd_backend h) (rd_kv_overlap h) meta"
      "rd_kv_overlap h = kv_find_local_overlap xxh (rc_block_hashes ctx) (rd_backend h) (ms_kv meta)"
proof (cases "rc_session_id ctx")
  case (Some sess)
  show ?thesis
  proof (cases "session_get sess meta")
    case (Some aff)
    show ?thesis
    proof (cases "backend_get (sa_backend aff) meta")
      case (Some info)
      then show ?thesis using that(2) assms \<open>rc_session_id ctx = Some sess\<close> \<open>session_get sess meta = Some aff\<close>
        by (simp add: affinity_head_def Let_def) auto
    qed (use that(1) assms \<open>rc_session_id ctx = Some sess\<close> Some in \<open>simp add: affinity_head_def\<close>)
  qed (use that(1) assms \<open>rc_session_id ctx = Some sess\<close> in \<open>simp add: affinity_head_def\<close>)
qed (use that(1) assms in \<open>simp add: affinity_head_def\<close>)

lemma history_frame:
  "routable (meta\<lparr>ms_history := x\<rparr>) = routable meta" "backend_get b (meta\<lparr>ms_history := x\<rparr>) = backend_get b meta"
  "backends_all (meta\<lparr>ms_history := x\<rparr>) = backends_all meta" "route_pool hb ctx (meta\<lparr>ms_history := x\<rparr>) = route_pool hb ctx meta"
  "degradation_is_available t (meta\<lparr>ms_history := x\<rparr>) = degradation_is_available t meta"
  by (simp_all add: routable_def backend_get_def backends_all_def route_pool_def Let_def degradation_available_iff split: option.split)

lemma session_set_get: "session_get sess (session_set now sess b n meta) = Some \<lparr>sa_backend = b, sa_last_used_unix = now, sa_kv_overlap_at_route = n\<rparr>"
  by (simp add: session_get_def session_set_def history_get_def history_set_def)

lemma affinity_head_meta:
  assumes "affinity_head xxh now ctx eng meta = (head, eng1, meta1)"
  obtains x where "meta1 = meta\<lparr>ms_history := x\<rparr>"
proof (rule affinity_head_cases [OF assms])
  assume "meta1 = meta"
  then have "meta1 = meta\<lparr>ms_history := ms_history meta\<rparr>" by simp
  then show thesis by (rule that)
qed (use that in \<open>simp add: session_set_def\<close>)

lemma affinity_head_same:
  assumes "affinity_head xxh now ctx eng meta = (head, eng1, meta1)"
  shows "routable meta1 = routable meta" "backend_get b meta1 = backend_get b meta" "backends_all meta1 = backends_all meta"
    "route_pool hb ctx' meta1 = route_pool hb ctx' meta" "degradation_is_available t meta1 = degradation_is_available t meta"
    "ms_kv meta1 = ms_kv meta"
  by (rule affinity_head_meta [OF assms]; simp add: history_frame)+

lemma evaluate_primary_frame:
  assumes "evaluate_primary F inst now ctx cs meta eng = (r, eng2)"
  shows "re_prefix_history eng2 = re_prefix_history eng" "re_temperature eng2 = re_temperature eng"
    "re_trace_sub_scores eng2 = re_trace_sub_scores eng"
  using assms by (auto simp: evaluate_primary_def split: option.splits prod.splits)

lemma evaluate_primary_fst:
  "fst (evaluate_primary F inst now ctx cs meta eng) = fst (st_evaluate (scoring_strategy F eng) inst now ctx cs meta)"
  by (simp add: evaluate_primary_def scoring_strategy_def split: option.split prod.split)

lemma finish_route_Inr:
  assumes "finish_route F xxh draw inst now ctx limit head cs name scored used eng meta = (Inr ds, eng', meta')"
    and "ranked = select_ranked F draw scored (re_temperature eng) (limit - length (head_list head))"
  obtains h where "head = Some h" "ds = [h]" "meta' = meta" "eng' = eng"
    | hs eng0 hy where "ranked \<noteq> []" "ds = head_list head @ map (decision_of xxh ctx meta' used hs) (enumerate 0 ranked)"
      "(eng0, meta') = (if head = None then write_back xxh now ctx (sb_backend_id (hd ranked)) eng meta else (eng, meta))"
      "eng' = eng0\<lparr>re_hybrid := hy\<rparr>"
proof (cases "ranked = []")
  case True
  then show ?thesis using assms that(1) by (cases head) (simp_all add: finish_route_def Let_def)
next
  case False
  then have b: "ranked ! 0 = hd ranked" by (simp add: hd_conv_nth)
  obtain eng3 meta3 where w: "(if head = None then write_back xxh now ctx (sb_backend_id (hd ranked)) eng meta else (eng, meta)) = (eng3, meta3)"
    by fastforce
  obtain tr hy where trace: "(if re_trace_sub_scores eng3 \<and> used = name then head_trace inst now (re_hybrid eng3) ctx cs meta3 (sb_backend_id (hd ranked))
      else (Inr [], re_hybrid eng3)) = (tr, hy)" by fastforce
  have eq: "finish_route F xxh draw inst now ctx limit head cs name scored used eng meta =
      (case tr of Inl e \<Rightarrow> (Inl e, eng3\<lparr>re_hybrid := hy\<rparr>, meta3)
       | Inr hs \<Rightarrow> (Inr (head_list head @ map (decision_of xxh ctx meta3 used hs) (enumerate 0 ranked)), eng3\<lparr>re_hybrid := hy\<rparr>, meta3))"
    unfolding finish_route_def Let_def assms(2) [symmetric] if_not_P [OF False] b w prod.case trace ..
  show ?thesis
  proof (cases tr)
    case (Inl e)
    then show ?thesis using assms(1) eq by simp
  next
    case (Inr hs)
    from assms(1) have "ds = head_list head @ map (decision_of xxh ctx meta3 used hs) (enumerate 0 ranked)" "eng' = eng3\<lparr>re_hybrid := hy\<rparr>" "meta' = meta3"
      unfolding eq Inr sum.case by auto
    then show ?thesis using that(2) [OF False, of hs eng3 hy] w by simp
  qed
qed

lemma route_scored:
  assumes "affinity_head xxh now ctx eng meta = (head, eng1, meta1)" and limit: "limit \<noteq> 0" and alone: "\<not> (head \<noteq> None \<and> limit = 1)"
    and pool: "route_pool (map_option rd_backend head) ctx meta1 \<noteq> []"
    and "evaluate_primary F inst now ctx (route_pool (map_option rd_backend head) ctx meta1) meta1 eng1 = (result, eng2)"
  shows "route_candidates F xxh draw inst now ctx limit eng meta =
    (case score_or_degrade F xxh now ctx (route_pool (map_option rd_backend head) ctx meta1) meta1 (re_prefix_history eng1)
        (st_name (scoring_strategy F eng1)) result of
       Inl e \<Rightarrow> (Inl e, eng2, meta1)
     | Inr (scored, used) \<Rightarrow> finish_route F xxh draw inst now ctx limit head (route_pool (map_option rd_backend head) ctx meta1)
         ''hybrid'' scored used eng2 meta1)"
  unfolding route_candidates_def if_not_P [OF limit] assms(1) Let_def prod.case if_not_P [OF alone] if_not_P [OF pool] assms(5) evaluate_primary_frame(1) [OF assms(5)] ..

lemma route_alone:
  assumes "affinity_head xxh now ctx eng meta = (head, eng1, meta1)" "limit \<noteq> 0"
    and "(head \<noteq> None \<and> limit = 1) \<or> route_pool (map_option rd_backend head) ctx meta1 = []"
  shows "route_candidates F xxh draw inst now ctx limit eng meta =
    ((case head of None \<Rightarrow> Inl (Err BackendUnavailable) | Some h \<Rightarrow> Inr [h]), eng1, meta1)"
  using assms by (cases head) (auto simp: route_candidates_def)

text \<open>The two ways to succeed: the affinity backend alone, or a selection behind it.\<close>

lemma route_Inr:
  assumes "route_candidates F xxh draw inst now ctx limit eng meta = (Inr ds, eng', meta')" "0 < limit"
    and "affinity_head xxh now ctx eng meta = (head, eng1, meta1)"
  obtains h where "head = Some h" "ds = [h]" "meta' = meta1" "re_prefix_history eng' = re_prefix_history eng1"
    | scored used hs eng2 result where
      "evaluate_primary F inst now ctx (route_pool (map_option rd_backend head) ctx meta1) meta1 eng1 = (result, eng2)"
      "score_or_degrade F xxh now ctx (route_pool (map_option rd_backend head) ctx meta1) meta1 (re_prefix_history eng1)
         (st_name (scoring_strategy F eng1)) result = Inr (scored, used)"
      "select_ranked F draw scored (re_temperature eng1) (limit - length (head_list head)) \<noteq> []"
      "ds = head_list head @ map (decision_of xxh ctx meta' used hs)
         (enumerate 0 (select_ranked F draw scored (re_temperature eng1) (limit - length (head_list head))))"
      "head = None \<Longrightarrow> meta' = snd (write_back xxh now ctx (rd_backend (hd ds)) eng1 meta1) \<and>
         re_prefix_history eng' = record_dispatch xxh now (rc_block_hashes ctx) (rd_backend (hd ds)) (re_prefix_history eng1)"
      "head \<noteq> None \<Longrightarrow> meta' = meta1 \<and> re_prefix_history eng' = re_prefix_history eng1"
proof -
  let ?pool = "route_pool (map_option rd_backend head) ctx meta1" let ?primary = "scoring_strategy F eng1"
  obtain result eng2 where ev: "evaluate_primary F inst now ctx ?pool meta1 eng1 = (result, eng2)" by fastforce
  note alone = that(1) and selected = that(2)
  show ?thesis
  proof (cases "(head \<noteq> None \<and> limit = 1) \<or> ?pool = []")
    case True
    then obtain h where "head = Some h" "ds = [h]" "meta' = meta1" "eng' = eng1"
      using assms(1,2) route_alone [OF assms(3) _ True, of F draw] by (cases head) auto
    then show ?thesis using alone by blast
  next
    case False
    note eq = route_scored [OF assms(3) _ _ _ ev, where limit = limit and draw = draw]
    obtain scored used where sd: "score_or_degrade F xxh now ctx ?pool meta1 (re_prefix_history eng1) (st_name ?primary) result = Inr (scored, used)"
      using assms(1,2) False eq by (auto split: sum.splits)
    let ?ranked = "select_ranked F draw scored (re_temperature eng1) (limit - length (head_list head))"
    have fin: "finish_route F xxh draw inst now ctx limit head ?pool ''hybrid'' scored used eng2 meta1 =
        (Inr ds, eng', meta')"
      using assms(1,2) False sd eq by auto
    note frame = evaluate_primary_frame [OF ev]
    show ?thesis
      using fin
    proof (rule finish_route_Inr [where ranked = ?ranked])
      show "?ranked = select_ranked F draw scored (re_temperature eng2) (limit - length (head_list head))" by (simp add: frame)
      show ?thesis if "head = Some h" "ds = [h]" "meta' = meta1" "eng' = eng2" for h
        using alone that frame by simp
      fix hs eng0 hy assume fin: "?ranked \<noteq> []" "ds = head_list head @ map (decision_of xxh ctx meta' used hs) (enumerate 0 ?ranked)"
        "(eng0, meta') = (if head = None then write_back xxh now ctx (sb_backend_id (hd ?ranked)) eng2 meta1 else (eng2, meta1))"
        "eng' = eng0\<lparr>re_hybrid := hy\<rparr>"
      have "head = None \<Longrightarrow> rd_backend (hd ds) = sb_backend_id (hd ?ranked)"
        using fin(1,2) by (cases ?ranked) (simp_all add: decision_of_def)
      then show ?thesis using selected [OF ev sd fin(1,2)] fin(3,4) frame by (auto simp: write_back_def record_in_history_def split: if_splits)
    qed
  qed
qed

section \<open>Results\<close>

lemma decision_backends: "map rd_backend (map (decision_of xxh ctx meta used hs) (enumerate n ranked)) = map sb_backend_id ranked"
  by (rule nth_equalityI) (simp_all add: decision_of_def nth_enumerate_eq)

lemma distinct_sub:
  assumes "mset ys \<subseteq># mset xs" "distinct xs"
  shows "distinct ys"
proof -
  obtain zs where "mset xs = mset (ys @ zs)" using assms(1) by (metis ex_mset mset_append mset_subset_eq_exists_conv)
  then show ?thesis using assms(2) by (metis distinct_append mset_eq_imp_distinct_iff)
qed

lemma ranked_backends:
  assumes "scores_candidates cs scored"
  shows "distinct (map sb_backend_id (select_ranked F draw scored temperature n))"
    "sb_backend_id ` set (select_ranked F draw scored temperature n) \<subseteq> set cs" "length (select_ranked F draw scored temperature n) \<le> n"
proof -
  obtain rest where rest: "select_ranked F draw scored temperature n = rest" "mset rest \<subseteq># mset scored" "length rest \<le> n"
    using select_loop_subset [of F draw temperature n scored "[]"] by (auto simp: select_ranked_def)
  have "mset (map sb_backend_id rest) \<subseteq># mset (map sb_backend_id scored)" using rest(2) by (simp add: image_mset_subseteq_mono)
  then have "distinct (map sb_backend_id rest)"
    using assms distinct_sub unfolding scores_candidates_def by blast
  moreover have "set rest \<subseteq> set scored" using rest(2) by (metis set_mset_mono set_mset_mset)
  ultimately show "distinct (map sb_backend_id (select_ranked F draw scored temperature n))"
    "sb_backend_id ` set (select_ranked F draw scored temperature n) \<subseteq> set cs" "length (select_ranked F draw scored temperature n) \<le> n"
    using assms rest by (auto simp: scores_candidates_def)
qed

lemma head_facts:
  assumes "affinity_head xxh now ctx eng meta = (Some h, eng1, meta1)"
  shows "backend_get (rd_backend h) meta \<noteq> None" "rd_strategy h = ''session_affinity''"
    "rd_kv_overlap h = kv_find_local_overlap xxh (rc_block_hashes ctx) (rd_backend h) (ms_kv meta)"
    "re_prefix_history eng1 = record_dispatch xxh now (rc_block_hashes ctx) (rd_backend h) (re_prefix_history eng)"
    "scoring_strategy F eng1 = scoring_strategy F eng" "\<exists>sess. rc_session_id ctx = Some sess \<and> meta1 = session_set now sess (rd_backend h) (rd_kv_overlap h) meta"
proof -
  obtain sess where f: "rc_session_id ctx = Some sess" "backend_get (rd_backend h) meta \<noteq> None" "rd_strategy h = ''session_affinity''"
      "eng1 = record_in_history xxh now ctx (rd_backend h) eng" "meta1 = session_set now sess (rd_backend h) (rd_kv_overlap h) meta"
      "rd_kv_overlap h = kv_find_local_overlap xxh (rc_block_hashes ctx) (rd_backend h) (ms_kv meta)"
    by (rule affinity_head_cases [OF assms]) auto
  show "backend_get (rd_backend h) meta \<noteq> None" "rd_strategy h = ''session_affinity''"
    "rd_kv_overlap h = kv_find_local_overlap xxh (rc_block_hashes ctx) (rd_backend h) (ms_kv meta)"
    "\<exists>sess. rc_session_id ctx = Some sess \<and> meta1 = session_set now sess (rd_backend h) (rd_kv_overlap h) meta"
    by (fact f(2,3,6) | intro exI conjI, fact f(1), fact f(5))+
  show "re_prefix_history eng1 = record_dispatch xxh now (rc_block_hashes ctx) (rd_backend h) (re_prefix_history eng)"
    "scoring_strategy F eng1 = scoring_strategy F eng" by (simp_all add: f(4) record_in_history_def scoring_strategy_def split: option.split)
qed

lemma no_head_facts:
  assumes "affinity_head xxh now ctx eng meta = (None, eng1, meta1)"
  shows "eng1 = eng" "meta1 = meta"
  by (rule affinity_head_cases [OF assms]; simp)+

text \<open>What the write-back leaves in the store.\<close>

definition bound_to :: "u64 \<Rightarrow> routing_context \<Rightarrow> backend_id \<Rightarrow> metadata_store \<Rightarrow> metadata_store \<Rightarrow> bool" where
  "bound_to now ctx b meta meta' \<longleftrightarrow> meta' = meta\<lparr>ms_history := ms_history meta'\<rparr> \<and>
     (\<forall>sess. rc_session_id ctx = Some sess \<longrightarrow> (\<exists>aff. session_get sess meta' = Some aff \<and> sa_backend aff = b \<and> sa_last_used_unix aff = now))"

lemma bound_kv:
  assumes "bound_to now ctx b meta meta'"
  shows "ms_kv meta' = ms_kv meta"
proof -
  have "ms_kv meta' = ms_kv (meta\<lparr>ms_history := ms_history meta'\<rparr>)" using assms unfolding bound_to_def by (intro arg_cong [where f = ms_kv]) blast
  then show ?thesis by simp
qed

lemma bound_write_back: "bound_to now ctx b meta (snd (write_back xxh now ctx b eng meta))"
  by (cases "rc_session_id ctx") (simp_all add: bound_to_def write_back_def session_set_get, simp add: session_set_def)

lemma bound_head:
  assumes "affinity_head xxh now ctx eng meta = (Some h, eng1, meta1)"
  shows "bound_to now ctx (rd_backend h) meta meta1"
proof -
  obtain sess where "rc_session_id ctx = Some sess" "meta1 = session_set now sess (rd_backend h) (rd_kv_overlap h) meta"
    using head_facts(6) [OF assms] by blast
  then show ?thesis by (simp add: bound_to_def session_set_get) (simp add: session_set_def)
qed

definition decisions_ok :: "xxh3 \<Rightarrow> routing_context \<Rightarrow> metadata_store \<Rightarrow> route_decision list \<Rightarrow> bool" where
  "decisions_ok xxh ctx meta ds \<longleftrightarrow> distinct (map rd_backend ds) \<and>
     (\<forall>d \<in> set ds. backend_get (rd_backend d) meta \<noteq> None \<and>
        rd_kv_overlap d = kv_find_local_overlap xxh (rc_block_hashes ctx) (rd_backend d) (ms_kv meta))"

lemma selected_ok:
  assumes "routable meta" "scores_candidates (route_pool hb ctx meta) scored" "ms_kv meta' = ms_kv meta"
    and "ds = map (decision_of xxh ctx meta' used hs) (enumerate 0 (select_ranked F draw scored temperature n))"
  shows "decisions_ok xxh ctx meta ds" "\<forall>d \<in> set ds. Some (rd_backend d) \<noteq> hb" "length ds \<le> n"
proof -
  let ?ranked = "select_ranked F draw scored temperature n"
  note ranked = ranked_backends [OF assms(2), of F draw temperature n]
  have ids: "map rd_backend ds = map sb_backend_id ?ranked" unfolding assms(4) by (rule decision_backends)
  have pool: "Some (rd_backend d) \<noteq> hb \<and> backend_get (rd_backend d) meta \<noteq> None" if "d \<in> set ds" for d
  proof -
    have "rd_backend d \<in> set (map rd_backend ds)" using that by simp
    then have "rd_backend d \<in> set (route_pool hb ctx meta)" unfolding ids using ranked(2) by auto
    then show ?thesis by (rule route_pool_ok(2) [OF assms(1)])
  qed
  have "rd_kv_overlap d = kv_find_local_overlap xxh (rc_block_hashes ctx) (rd_backend d) (ms_kv meta)" if "d \<in> set ds" for d
    using that by (auto simp: assms(3,4) decision_of_def)
  then show "decisions_ok xxh ctx meta ds" "\<forall>d \<in> set ds. Some (rd_backend d) \<noteq> hb" "length ds \<le> n"
    using ranked(1,3) pool ids by (auto simp: decisions_ok_def assms(4))
qed

lemma route_sound:
  assumes "routable meta" "sound_strategy (scoring_strategy F eng)" "0 < limit"
    and route: "route_candidates F xxh draw inst now ctx limit eng meta = (Inr ds, eng', meta')"
  shows "ds \<noteq> []" "length ds \<le> limit" "decisions_ok xxh ctx meta ds" "bound_to now ctx (rd_backend (hd ds)) meta meta'"
    "re_prefix_history eng' = record_dispatch xxh now (rc_block_hashes ctx) (rd_backend (hd ds)) (re_prefix_history eng)"
proof -
  obtain head eng1 meta1 where head: "affinity_head xxh now ctx eng meta = (head, eng1, meta1)" by (metis prod_cases3)
  have strategy: "scoring_strategy F eng1 = scoring_strategy F eng"
    using head head_facts(5) no_head_facts(1) by (cases head) metis+
  let ?hb = "map_option rd_backend head"
  have pool: "distinct (route_pool ?hb ctx meta1)" "route_pool ?hb ctx meta1 = route_pool ?hb ctx meta"
    using route_pool_ok(1) assms(1) affinity_head_same [OF head] by simp_all
  have alone: "decisions_ok xxh ctx meta [h]" if "head = Some h" for h
    using head_facts [OF head [unfolded that]] by (simp add: decisions_ok_def)
  have "ds \<noteq> [] \<and> length ds \<le> limit \<and> decisions_ok xxh ctx meta ds \<and> bound_to now ctx (rd_backend (hd ds)) meta meta' \<and>
      re_prefix_history eng' = record_dispatch xxh now (rc_block_hashes ctx) (rd_backend (hd ds)) (re_prefix_history eng)"
  proof (rule route_Inr [OF route assms(3) head])
    fix h assume h: "head = Some h" "ds = [h]" "meta' = meta1" "re_prefix_history eng' = re_prefix_history eng1"
    then show ?thesis using alone [OF h(1)] bound_head head_facts(4) head assms(3) by simp
  next
    fix scored used hs eng2 result
    let ?ranked = "select_ranked F draw scored (re_temperature eng1) (limit - length (head_list head))"
    assume ev: "evaluate_primary F inst now ctx (route_pool ?hb ctx meta1) meta1 eng1 = (result, eng2)"
      and sd: "score_or_degrade F xxh now ctx (route_pool ?hb ctx meta1) meta1 (re_prefix_history eng1) (st_name (scoring_strategy F eng1)) result = Inr (scored, used)"
      and ne: "?ranked \<noteq> []" and ds: "ds = head_list head @ map (decision_of xxh ctx meta' used hs) (enumerate 0 ?ranked)"
      and none: "head = None \<Longrightarrow> meta' = snd (write_back xxh now ctx (rd_backend (hd ds)) eng1 meta1) \<and>
         re_prefix_history eng' = record_dispatch xxh now (rc_block_hashes ctx) (rd_backend (hd ds)) (re_prefix_history eng1)"
      and some: "head \<noteq> None \<Longrightarrow> meta' = meta1 \<and> re_prefix_history eng' = re_prefix_history eng1"
    have "scores_candidates (route_pool ?hb ctx meta) scored"
      using score_or_degrade_sound(1) [OF pool(1) _ sd] evaluate_sound [OF assms(2) pool(1)] evaluate_primary_fst [of F inst now ctx _ meta1 eng1] ev strategy pool(2)
      by (metis fst_conv)
    note sel = selected_ok [OF assms(1) this _ refl, of meta' xxh used hs F draw "re_temperature eng1" "limit - length (head_list head)"]
    show ?thesis
    proof (cases head)
      case None
      then have b: "bound_to now ctx (rd_backend (hd ds)) meta meta'" using none bound_write_back no_head_facts head by metis
      let ?ds = "map (decision_of xxh ctx meta' used hs) (enumerate 0 ?ranked)"
      have eq: "ds = ?ds" "eng1 = eng" using ds no_head_facts(1) [OF head [unfolded None]] by (simp_all add: None)
      then have "ds \<noteq> []" using ne by (metis length_0_conv length_enumerate list.map_disc_iff)
      moreover have "length ds \<le> limit" using sel(3) [OF bound_kv [OF b]] eq(1) by (simp add: None)
      moreover have "decisions_ok xxh ctx meta ds" using sel(1) [OF bound_kv [OF b]] eq(1) by simp
      ultimately show ?thesis using b none [OF None] eq(2) by blast
    next
      case (Some h)
      have kv: "ms_kv meta' = ms_kv meta" using some Some affinity_head_same(6) [OF head] by simp
      have "decisions_ok xxh ctx meta ds" using sel(1,2) [OF kv] alone [OF Some] by (auto simp: ds Some decisions_ok_def)
      then show ?thesis using sel(3) [OF kv] some Some bound_head head head_facts(4) assms(3) by (simp add: ds)
    qed
  qed
  then show "ds \<noteq> []" "length ds \<le> limit" "decisions_ok xxh ctx meta ds" "bound_to now ctx (rd_backend (hd ds)) meta meta'"
    "re_prefix_history eng' = record_dispatch xxh now (rc_block_hashes ctx) (rd_backend (hd ds)) (re_prefix_history eng)" by blast+
qed


section \<open>Degraded routing and affinity\<close>

lemma select_nonempty:
  assumes "f64_le temperature (Fin 0)" "scored \<noteq> []" "0 < n"
  shows "select_ranked F draw scored temperature n \<noteq> []"
proof -
  obtain p where p: "max_by_score scored = Some p" "p \<in> set scored" using assms(2) max_by_mem by (metis max_by_None not_None_eq)
  obtain i where i: "position (\<lambda>s. sb_backend_id s = sb_backend_id p) scored = Some i"
    using position_mem [OF p(2), of "\<lambda>s. sb_backend_id s = sb_backend_id p"] by auto
  have "select_ranked F draw scored temperature n = select_loop F draw temperature n (take i scored @ drop (Suc i) scored) [scored ! i]"
    using assms p(1) i greedy_pick [OF assms(2,1)] unfolding select_ranked_def by (subst select_loop.simps) simp
  then show ?thesis using select_loop_subset [of F draw temperature n "take i scored @ drop (Suc i) scored" "[scored ! i]"] by auto
qed

lemma degraded_scores:
  assumes "degradation_is_available now meta" "cs \<noteq> []" "result \<noteq> Inl Panicked"
  obtains scored used where "score_or_degrade F xxh now ctx cs meta h name result = Inr (scored, used)" "scored \<noteq> []"
proof -
  have "degradation_evaluate F xxh ctx cs h \<noteq> []" using assms(2) by (simp add: degradation_evaluate_def)
  then have "\<exists>scored used. score_or_degrade F xxh now ctx cs meta h name result = Inr (scored, used) \<and> scored \<noteq> []"
    using assms(1,3) by (cases result) (auto simp: score_or_degrade_def Let_def split: failure.split)
  then show ?thesis using that by blast
qed

lemma finish_untraced:
  assumes "\<not> re_trace_sub_scores eng" "select_ranked F draw scored (re_temperature eng) (limit - length (head_list head)) \<noteq> []"
  shows "\<exists>ds eng' meta'. finish_route F xxh draw inst now ctx limit head cs name scored used eng meta = (Inr ds, eng', meta')"
  using assms by (auto simp: finish_route_def Let_def write_back_def record_in_history_def)

text \<open>Scoring does not panic, whatever the store holds beside the KV index.\<close>

definition never_panics :: "fpu \<Rightarrow> nat \<Rightarrow> u64 \<Rightarrow> routing_context \<Rightarrow> routing_engine \<Rightarrow> kv_index \<Rightarrow> bool" where
  "never_panics F inst now ctx eng kv \<longleftrightarrow>
     (\<forall>cs meta. ms_kv meta = kv \<longrightarrow> fst (st_evaluate (scoring_strategy F eng) inst now ctx cs meta) \<noteq> Inl Panicked)"

lemma degraded_routes_ok:
  assumes panics: "never_panics F inst now ctx eng (ms_kv meta)" and "degradation_is_available now meta" "backends_all meta \<noteq> []" "\<not> re_trace_sub_scores eng" "f64_le (re_temperature eng) (Fin 0)" "0 < limit"
  shows "\<exists>ds eng' meta'. route_candidates F xxh draw inst now ctx limit eng meta = (Inr ds, eng', meta')"
proof -
  obtain head eng1 meta1 where head: "affinity_head xxh now ctx eng meta = (head, eng1, meta1)" by (metis prod_cases3)
  let ?pool = "route_pool (map_option rd_backend head) ctx meta1"
  have eng1: "re_trace_sub_scores eng1 = re_trace_sub_scores eng" "re_temperature eng1 = re_temperature eng"
    by (rule affinity_head_cases [OF head]; simp add: record_in_history_def)+
  show ?thesis
  proof (cases "(head \<noteq> None \<and> limit = 1) \<or> ?pool = []")
    case True
    moreover have "?pool \<noteq> []" if "head = None"
      using route_pool_nonempty [OF assms(3), of ctx] no_head_facts(2) [OF head [unfolded that]] that by simp
    ultimately obtain h where "head = Some h" by (cases head) auto
    then show ?thesis using route_alone [OF head _ True, of F draw] assms(6) by simp
  next
    case False
    obtain result eng2 where ev: "evaluate_primary F inst now ctx ?pool meta1 eng1 = (result, eng2)" by fastforce
    have avail: "degradation_is_available now meta1" using assms(2) affinity_head_same(5) [OF head] by simp
    have "scoring_strategy F eng1 = scoring_strategy F eng"
      by (rule affinity_head_cases [OF head]; simp add: record_in_history_def scoring_strategy_def split: option.split)
    then have np: "result \<noteq> Inl Panicked"
      using panics evaluate_primary_fst [of F inst now ctx ?pool meta1 eng1] ev affinity_head_same(6) [OF head]
      unfolding never_panics_def by (metis fst_conv)
    obtain scored used where sd: "score_or_degrade F xxh now ctx ?pool meta1 (re_prefix_history eng1) (st_name (scoring_strategy F eng1)) result = Inr (scored, used)"
        "scored \<noteq> []"
      using degraded_scores [OF avail _ np] False by metis
    have slots: "0 < limit - length (head_list head)" using False assms(6) by (cases head) auto
    have "select_ranked F draw scored (re_temperature eng2) (limit - length (head_list head)) \<noteq> []"
      by (rule select_nonempty [OF _ sd(2) slots]) (use assms(5) eng1 evaluate_primary_frame [OF ev] in simp)
    from finish_untraced [OF _ this] show ?thesis
      using route_scored [OF head _ _ _ ev, where limit = limit and draw = draw] False assms(4,6) sd(1) eng1 evaluate_primary_frame [OF ev] by simp
  qed
qed

text \<open>Stores reached from the empty one by registrations are routable.\<close>

lemma routable_new: "routable store_new"
  by (simp add: routable_def store_new_def)

lemma routable_register: "routable meta \<Longrightarrow> routable (register_backend info meta)"
  by (auto simp: routable_def register_backend_def models_register_def dom_update dom_map_of_conv_image_fst [symmetric] update_conv'
      simp del: map_of_eq_Some_iff split: if_splits)

definition demo_store :: metadata_store where
  "demo_store = register_backend (sample_backend (eu_backend ''b'') (RegionId ''eu'')) (register_backend (sample_backend (eu_backend ''a'') (RegionId ''eu'')) store_new)"

lemma demo_store_routable: "routable demo_store"
  unfolding demo_store_def
  by (intro routable_register routable_new)

lemma demo_store_simps:
  "backends_all demo_store = [sample_backend (eu_backend ''a'') (RegionId ''eu''), sample_backend (eu_backend ''b'') (RegionId ''eu'')]"
  "load_freshness now b (ms_load demo_store) = None"
  by (simp_all add: demo_store_def backends_all_def register_backend_def store_new_def sample_backend_def eu_backend_def
      load_freshness_def load_get_def load_new_def)

definition demo_hybrid :: "strategy \<Rightarrow> hybrid_strategy" where
  "demo_hybrid model = hybrid_new (load_aware exact_fpu requests_only) model (load_aware exact_fpu requests_only) (load_aware exact_fpu requests_only) thirds (Fin 0)"

definition demo_engine :: routing_engine where
  "demo_engine = with_primary_strategy (round_robin exact_fpu round_robin_new)
     (routing_engine_new (demo_hybrid (round_robin exact_fpu 0)) 600 2 (RegionId ''eu''))"

definition demo_request :: routing_context where
  "demo_request = long_request\<lparr>rc_session_id := Some (SessionId ''s'')\<rparr>"

lemma demo_no_panic: "fst (st_evaluate (scoring_strategy exact_fpu demo_engine) inst now ctx cs m) \<noteq> Inl Panicked"
  by (simp add: scoring_strategy_def demo_engine_def with_primary_strategy_def)

lemma demo_routes:
  "\<exists>ds eng' meta'. route_candidates exact_fpu (\<lambda>_ s. s) (\<lambda>_ _. None) 0 9 demo_request 2 demo_engine demo_store = (Inr ds, eng', meta')"
  by (rule degraded_routes_ok, simp add: never_panics_def demo_no_panic)
    (simp_all add: degradation_available_iff demo_store_simps demo_engine_def with_primary_strategy_def routing_engine_new_def
      demo_hybrid_def hybrid_new_def f64_le_def)

lemma demo_sound: "sound_strategy (scoring_strategy exact_fpu demo_engine)"
  by (simp add: scoring_strategy_def demo_engine_def with_primary_strategy_def round_robin_sound)


text \<open>A degraded gateway keeps routing: when the load data of every registered backend is missing or older
  than thirty seconds, and there is a backend, then whatever the scoring strategy answers short of a panic, an
  error, no scores or some, greedy routing without tracing succeeds. Without any backend it reports
  \<open>BackendUnavailable\<close>.\<close>

theorem degraded_routing_succeeds:
  assumes panics: "\<forall>cs m. fst (st_evaluate (scoring_strategy F eng) inst now ctx cs m) \<noteq> Inl Panicked"
    and "0 < limit" "f64_le (re_temperature eng) (Fin 0)" "\<not> re_trace_sub_scores eng"
    and "\<forall>b \<in> set (backends_all meta). case load_freshness now (bi_id b) (ms_load meta) of Some d \<Rightarrow> 30 < d | None \<Rightarrow> True"
  shows "(backends_all meta \<noteq> [] \<longrightarrow> (\<exists>ds eng' meta'. route_candidates F xxh draw inst now ctx limit eng meta = (Inr ds, eng', meta'))) \<and>
    (backends_all meta = [] \<and> routable meta \<longrightarrow> fst (route_candidates F xxh draw inst now ctx limit eng meta) = Inl (Err BackendUnavailable))"
proof (intro conjI impI)
  show "\<exists>ds eng' meta'. route_candidates F xxh draw inst now ctx limit eng meta = (Inr ds, eng', meta')" if "backends_all meta \<noteq> []"
  proof -
    have "degradation_is_available now meta" using assms(5) by (simp only: degradation_available_iff LOAD_STALE_THRESHOLD_SECS_def)
    then show ?thesis using panics by (intro degraded_routes_ok [OF _ _ that assms(4,3,2)]) (simp_all add: never_panics_def)
  qed
  assume empty: "backends_all meta = [] \<and> routable meta"
  then have none: "backend_get b meta = None" for b by (simp add: backends_all_def backend_get_def)
  obtain head eng1 meta1 where head: "affinity_head xxh now ctx eng meta = (head, eng1, meta1)" by (metis prod_cases3)
  have "head = None" using head_facts(1) [of xxh now ctx eng meta _ eng1 meta1] head none by (cases head) auto
  moreover have "b \<notin> set (route_pool None ctx meta)" for b using route_pool_ok(2) [of meta b None ctx] empty none [of b] by auto
  then have "route_pool None ctx meta = []" by (metis ex_in_conv set_empty)
  ultimately show "fst (route_candidates F xxh draw inst now ctx limit eng meta) = Inl (Err BackendUnavailable)"
    using route_alone [OF head, of limit F draw] no_head_facts(2) [of xxh now ctx eng meta eng1 meta1] head assms(2) by simp
qed

theorem degraded_routing_succeeds_witness:
  "\<exists>ds eng' meta'. route_candidates exact_fpu (\<lambda>_ s. s) (\<lambda>_ _. None) 0 9 demo_request 2 demo_engine demo_store = (Inr ds, eng', meta')"
proof -
  have "f64_le (re_temperature demo_engine) (Fin 0)" "\<not> re_trace_sub_scores demo_engine"
    by (simp_all add: demo_engine_def with_primary_strategy_def routing_engine_new_def demo_hybrid_def hybrid_new_def f64_le_def)
  then show ?thesis
    using degraded_routing_succeeds [where meta = demo_store and eng = demo_engine and limit = 2 and now = 9 and F = exact_fpu
      and xxh = "\<lambda>_ s. s" and draw = "\<lambda>_ _. None" and ctx = demo_request and inst = 0] demo_no_panic
    by (simp add: demo_store_simps)
qed

lemma affinity_hit:
  assumes "rc_session_id ctx = Some sess" "session_get sess meta = Some aff" "backend_get (sa_backend aff) meta \<noteq> None"
  obtains h eng1 meta1 where "affinity_head xxh now ctx eng meta = (Some h, eng1, meta1)" "rd_backend h = sa_backend aff" "rd_strategy h = ''session_affinity''"
proof -
  obtain info where "backend_get (sa_backend aff) meta = Some info" using assms(3) by auto
  then show ?thesis using that assms(1,2) by (auto simp: affinity_head_def Let_def)
qed

lemma route_head:
  assumes "route_candidates F xxh draw inst now ctx limit eng meta = (Inr ds, eng', meta')" "0 < limit"
    and "affinity_head xxh now ctx eng meta = (Some h, eng1, meta1)"
  shows "hd ds = h"
  by (rule route_Inr [OF assms]) simp_all

text \<open>C29. Sessions are sticky: after a successful routing of a session, any later request of that session, on any
  engine that sees the affinity, finds the same backend as long as it is registered: at any later time, and whatever the load,
  the overlap and the scores of the backend. A single-backend \<open>route\<close> returns it with the strategy
  \<open>session_affinity\<close>; a ranked routing that succeeds puts it first. The documents give conditions on the health, the
  overlap and the age of an affinity; the code has none of them.\<close>

theorem session_sticky:
  assumes "routable meta" "sound_strategy (scoring_strategy F eng)" "0 < limit" "rc_session_id ctx = Some sess"
    and "route_candidates F xxh draw inst now ctx limit eng meta = (Inr ds, eng', meta')"
    and "rc_session_id ctx2 = Some sess" "session_get sess meta2 = session_get sess meta'"
    and "backend_get (rd_backend (hd ds)) meta2 \<noteq> None"
  shows "(\<exists>d s. engine_route F2 xxh2 draw2 inst2 now2 ctx2 eng2 meta2 = (Inr d, s) \<and>
      rd_backend d = rd_backend (hd ds) \<and> rd_strategy d = ''session_affinity'') \<and>
    (\<forall>limit2 ds2 s. 0 < limit2 \<and> route_candidates F2 xxh2 draw2 inst2 now2 ctx2 limit2 eng2 meta2 = (Inr ds2, s) \<longrightarrow>
      rd_backend (hd ds2) = rd_backend (hd ds) \<and> rd_strategy (hd ds2) = ''session_affinity'')"
proof -
  obtain aff where aff: "session_get sess meta2 = Some aff" "sa_backend aff = rd_backend (hd ds)"
    using route_sound(4) [OF assms(1-3,5)] assms(4,7) by (auto simp: bound_to_def)
  obtain h e m where h: "affinity_head xxh2 now2 ctx2 eng2 meta2 = (Some h, e, m)" "rd_backend h = rd_backend (hd ds)" "rd_strategy h = ''session_affinity''"
    using affinity_hit [OF assms(6) aff(1)] assms(8) aff(2) by metis
  have "engine_route F2 xxh2 draw2 inst2 now2 ctx2 eng2 meta2 = (Inr h, e, m)"
    using route_alone [OF h(1), of 1 F2 draw2] by (simp add: engine_route_def)
  then show ?thesis using h(2,3) route_head [OF _ _ h(1)] by (metis surj_pair)
qed

theorem session_sticky_witness:
  "\<exists>ds eng' meta' d s. route_candidates exact_fpu (\<lambda>_ s. s) (\<lambda>_ _. None) 0 9 demo_request 2 demo_engine demo_store = (Inr ds, eng', meta') \<and>
     engine_route exact_fpu (\<lambda>_ s. s) (\<lambda>_ _. None) 0 20 demo_request eng' meta' = (Inr d, s) \<and> rd_backend d = rd_backend (hd ds)"
proof -
  obtain ds eng' meta' where r: "route_candidates exact_fpu (\<lambda>_ s. s) (\<lambda>_ _. None) 0 9 demo_request 2 demo_engine demo_store = (Inr ds, eng', meta')"
    using demo_routes by blast
  note sound = route_sound [OF demo_store_routable demo_sound _ r]
  have "hd ds \<in> set ds" using sound(1) by simp
  then have "backend_get (rd_backend (hd ds)) demo_store \<noteq> None" using sound(3) by (simp add: decisions_ok_def)
  moreover have "backend_get (rd_backend (hd ds)) meta' = backend_get (rd_backend (hd ds)) demo_store"
    using sound(4) unfolding bound_to_def by (metis history_frame(2) zero_less_numeral)
  ultimately show ?thesis
    using session_sticky [OF demo_store_routable demo_sound _ _ r, of "SessionId ''s''" demo_request meta', THEN conjunct1] r
    by (fastforce simp: demo_request_def)
qed

text \<open>A pinned session can be refused: with an affinity hit and more than one decision requested, an error
  of the strategy that ranks the other candidates becomes the answer of the whole call when degraded
  routing is not available, although the affinity backend is known and registered.\<close>

theorem affinity_lost_on_error:
  assumes "rc_session_id ctx = Some sess" "session_get sess meta = Some aff" "backend_get (sa_backend aff) meta \<noteq> None"
    and "1 < limit" "\<not> degradation_is_available now meta"
    and "route_pool (Some (sa_backend aff)) ctx meta \<noteq> []"
    and "\<And>meta'. fst (st_evaluate (scoring_strategy F eng) inst now ctx (route_pool (Some (sa_backend aff)) ctx meta) meta') = Inl e"
  shows "fst (route_candidates F xxh draw inst now ctx limit eng meta) = Inl e"
proof -
  obtain h eng1 meta1 where h: "affinity_head xxh now ctx eng meta = (Some h, eng1, meta1)" "rd_backend h = sa_backend aff"
    using affinity_hit [OF assms(1-3)] by metis
  note same = affinity_head_same [OF h(1)]
  obtain eng2 where ev: "evaluate_primary F inst now ctx (route_pool (map_option rd_backend (Some h)) ctx meta1) meta1 eng1 = (Inl e, eng2)"
    using assms(7) [of meta1] h(2) same(4) head_facts(5) [OF h(1), of F]
      evaluate_primary_fst [of F inst now ctx "route_pool (map_option rd_backend (Some h)) ctx meta1" meta1 eng1]
    by (metis option.simps(9) prod.collapse)
  have "\<not> degradation_is_available now meta1" using assms(5) same(5) by simp
  then show ?thesis
    using route_scored [OF h(1) _ _ _ ev, where limit = limit and draw = draw] assms(4,6) h(2) same(4) by (cases e) (simp_all add: score_or_degrade_def Let_def)
qed

primcorec failing_strategy :: strategy where
  "st_name failing_strategy = ''failing''"
| "st_weight failing_strategy = Fin 1"
| "st_is_available failing_strategy = (\<lambda>now meta. True)"
| "st_evaluate failing_strategy = (\<lambda>inst now ctx candidates meta. (Inl (Err (MetricsError ''stale'')), failing_strategy))"

definition fresh_metrics :: backend_metrics where
  "fresh_metrics = \<lparr>active_requests = 0, queue_depth = 0, active_decode_blocks = 0, active_prefill_tokens = 0, kv_used_blocks = 0,
     kv_total_blocks = 0, gpu_utilization = Fin 0, gpu_memory_used_mb = 0, gpu_memory_total_mb = 0,
     bm_latency = \<lparr>p50_ms = Fin 0, p99_ms = Fin 0, p999_ms = Fin 0, sample_count = 0\<rparr>, bm_timestamp = 100\<rparr>"

definition pinned_store :: metadata_store where
  "pinned_store = session_set 100 (SessionId ''s'') (eu_backend ''a'') 0
     (demo_store\<lparr>ms_load := \<lparr>ls_latest = [(eu_backend ''a'', fresh_metrics)], ls_history = []\<rparr>\<rparr>)"

lemma failing_model:
  "cs \<noteq> [] \<Longrightarrow> fst (st_evaluate (scoring_strategy F (routing_engine_new (demo_hybrid failing_strategy) ttl retries region)) inst now ctx cs m) =
     Inl (Err (MetricsError ''stale''))"
  by (simp add: scoring_strategy_def routing_engine_new_def hybrid_evaluate_def demo_hybrid_def hybrid_new_def)

theorem affinity_lost_on_error_witness:
  "fst (route_candidates exact_fpu (\<lambda>_ s. s) (\<lambda>_ _. None) 0 110 demo_request 2
     (routing_engine_new (demo_hybrid failing_strategy) 600 2 (RegionId ''eu'')) pinned_store) = Inl (Err (MetricsError ''stale''))"
proof (rule affinity_lost_on_error [where sess = "SessionId ''s''" and aff = "\<lparr>sa_backend = eu_backend ''a'', sa_last_used_unix = 100, sa_kv_overlap_at_route = 0\<rparr>"])
  have all: "backends_all pinned_store = backends_all demo_store" by (simp add: pinned_store_def session_set_def backends_all_def)
  have "load_freshness 110 (eu_backend ''a'') (ms_load pinned_store) = Some 10"
    by (simp add: pinned_store_def session_set_def load_freshness_def load_get_def metrics_timestamp_def fresh_metrics_def sat_sub_def)
  then show "\<not> degradation_is_available 110 pinned_store"
    unfolding degradation_available_iff all demo_store_simps by (simp add: sample_backend_def LOAD_STALE_THRESHOLD_SECS_def)
  show pool: "route_pool (Some (sa_backend \<lparr>sa_backend = eu_backend ''a'', sa_last_used_unix = 100, sa_kv_overlap_at_route = 0\<rparr>)) demo_request pinned_store \<noteq> []"
    by (simp add: route_pool_def demo_request_def long_request_def all demo_store_simps sample_backend_def collect_ids_def eu_backend_def)
  show "session_get (SessionId ''s'') pinned_store = Some \<lparr>sa_backend = eu_backend ''a'', sa_last_used_unix = 100, sa_kv_overlap_at_route = 0\<rparr>"
    unfolding pinned_store_def by (rule session_set_get)
  show "fst (st_evaluate (scoring_strategy exact_fpu (routing_engine_new (demo_hybrid failing_strategy) 600 2 (RegionId ''eu''))) 0 110 demo_request
      (route_pool (Some (sa_backend \<lparr>sa_backend = eu_backend ''a'', sa_last_used_unix = 100, sa_kv_overlap_at_route = 0\<rparr>)) demo_request pinned_store) m) =
      Inl (Err (MetricsError ''stale''))" for m
    by (rule failing_model [OF pool])
qed (simp_all add: demo_request_def pinned_store_def session_set_def backend_get_def demo_store_def register_backend_def store_new_def sample_backend_def
    eu_backend_def)

text \<open>The engine as the gateway assembles it, with the model-aware filter in the hybrid strategy or round robin in
  front of it, meets the hypothesis of the theorems above.\<close>

lemma assembled_sound:
  "re_primary eng = None \<Longrightarrow> hy_model (re_hybrid eng) = model_aware F \<Longrightarrow> sound_strategy (scoring_strategy F eng)"
  "sound_strategy (scoring_strategy F (with_primary_strategy (round_robin F cursor) eng))"
  by (simp_all add: scoring_strategy_def hybrid_sound sub_strategies_sound with_primary_strategy_def round_robin_sound)

end
