(* ===== verification/Transport.thy ===== *)
theory Transport
  imports Members
begin

unbundle bit_operations_syntax

text \<open>
  The TCP transport, \<open>crates/hier-kv-gateway-cluster/src/tcp_transport.rs\<close>: frames of a four-byte big-endian
  length and a JSON payload, and the life cycle of the transport. A connection is the list of the bytes
  still to be read; serialisation (\<open>serde_json\<close>) and the outcome of \<open>bind\<close> are parameters. Errors of the sockets
  themselves are not modelled: a send that fails is a connection that delivers nothing.
\<close>

section \<open>Frames\<close>

definition MAX_FRAME_SIZE :: nat where
  "MAX_FRAME_SIZE = 4 * 1024 * 1024"

datatype frame_error = SerializeFailed | FrameTooLarge | ReadLengthFailed | InvalidLength | ReadPayloadFailed | DeserializeFailed

definition to_be_bytes :: "u32 \<Rightarrow> u8 list" where
  "to_be_bytes x = [ucast (drop_bit 24 x), ucast (drop_bit 16 x), ucast (drop_bit 8 x), ucast x]"

definition from_be_bytes :: "u8 list \<Rightarrow> u32" where
  "from_be_bytes bs = fold (\<lambda>b acc. push_bit 8 acc OR ucast b) bs 0"

definition write_frame :: "('m \<Rightarrow> u8 list option) \<Rightarrow> 'm \<Rightarrow> frame_error + u8 list" where
  "write_frame to_vec msg =
     (case to_vec msg of
        None \<Rightarrow> Inl SerializeFailed
      | Some payload \<Rightarrow>
          (let len = word_of_nat (length payload) in
           if MAX_FRAME_SIZE < length payload then Inl FrameTooLarge
           else Inr (to_be_bytes len @ payload)))"

text \<open>\<open>read_exact\<close>: the next \<open>n\<close> bytes, or an error at the end of the stream.\<close>

definition read_exact :: "nat \<Rightarrow> u8 list \<Rightarrow> (u8 list \<times> u8 list) option" where
  "read_exact n stream = (if n \<le> length stream then Some (take n stream, drop n stream) else None)"

definition read_frame :: "(u8 list \<Rightarrow> 'm option) \<Rightarrow> u8 list \<Rightarrow> frame_error + 'm \<times> u8 list" where
  "read_frame from_slice stream =
     (case read_exact 4 stream of
        None \<Rightarrow> Inl ReadLengthFailed
      | Some (len_buf, stream1) \<Rightarrow>
          (let len = unat (from_be_bytes len_buf) in
           if len = 0 \<or> MAX_FRAME_SIZE < len then Inl InvalidLength
           else case read_exact len stream1 of
                  None \<Rightarrow> Inl ReadPayloadFailed
                | Some (payload, stream2) \<Rightarrow>
                    (case from_slice payload of None \<Rightarrow> Inl DeserializeFailed | Some msg \<Rightarrow> Inr (msg, stream2))))"

section \<open>The transport\<close>

text \<open>\<open>tt_inbound_tx\<close> and \<open>tt_inbound_rx\<close> tell whether the sender is there and the receiver not handed out yet,
  \<open>tt_listener\<close> whether a listener task runs.\<close>

record tcp_transport =
  tt_members :: member_list
  tt_inbound_tx :: bool
  tt_inbound_rx :: bool
  tt_running :: bool
  tt_self_id :: "instance_id option"
  tt_listener :: bool

definition transport_new :: "member_list \<Rightarrow> tcp_transport" where
  "transport_new ms = \<lparr>tt_members = ms, tt_inbound_tx = False, tt_inbound_rx = False, tt_running = False,
     tt_self_id = None, tt_listener = False\<rparr>"

definition transport_start :: "bool \<Rightarrow> instance_id \<Rightarrow> tcp_transport \<Rightarrow> bool \<times> tcp_transport" where
  "transport_start bound self_id t =
     (if tt_running t then (True, t)
      else let t1 = t\<lparr>tt_running := True, tt_self_id := Some self_id\<rparr>
           in if bound then (True, t1\<lparr>tt_inbound_tx := True, tt_inbound_rx := True, tt_listener := True\<rparr>)
              else (False, t1))"

definition transport_stop :: "tcp_transport \<Rightarrow> tcp_transport" where
  "transport_stop t = (if tt_running t then t\<lparr>tt_running := False, tt_inbound_tx := False, tt_listener := False\<rparr> else t)"

definition broadcast_targets :: "tcp_transport \<Rightarrow> string list" where
  "broadcast_targets t =
     map cm_addr (filter (\<lambda>m. case tt_self_id t of Some self_id \<Rightarrow> cm_id m \<noteq> self_id | None \<Rightarrow> True) (alive_members (tt_members t)))"

text \<open>\<open>messages\<close> hands out the receiver once; later calls get a closed channel.\<close>

definition transport_messages :: "tcp_transport \<Rightarrow> bool \<times> tcp_transport" where
  "transport_messages t = (tt_inbound_rx t, t\<lparr>tt_inbound_rx := False\<rparr>)"

text \<open>A connection carries one message: what \<open>handle_inbound\<close> forwards to the channel.\<close>

definition handle_inbound :: "(u8 list \<Rightarrow> cluster_message option) \<Rightarrow> u8 list \<Rightarrow> cluster_message option" where
  "handle_inbound from_slice stream = (case read_frame from_slice stream of Inl _ \<Rightarrow> None | Inr (msg, _) \<Rightarrow> Some msg)"

text \<open>The connections of a broadcast: the bytes written to each target.\<close>

definition transport_broadcast :: "(cluster_message \<Rightarrow> u8 list option) \<Rightarrow> cluster_message \<Rightarrow> tcp_transport \<Rightarrow> (string \<times> u8 list) list" where
  "transport_broadcast to_vec msg t =
     (case write_frame to_vec msg of Inl _ \<Rightarrow> [] | Inr bytes \<Rightarrow> map (\<lambda>addr. (addr, bytes)) (broadcast_targets t))"

section \<open>Results\<close>

lemma be_bytes_roundtrip: "from_be_bytes (to_be_bytes x) = x"
proof (rule bit_word_eqI)
  fix n assume "n < LENGTH(32)"
  then consider "n < 8" | "8 \<le> n" "n < 16" | "16 \<le> n" "n < 24" | "24 \<le> n" "n < 32" by fastforce
  then show "bit (from_be_bytes (to_be_bytes x)) n = bit x n"
    by cases (auto simp: from_be_bytes_def to_be_bytes_def bit_simps)
qed

lemma length_be_bytes [simp]: "length (to_be_bytes x) = 4"
  by (simp add: to_be_bytes_def)

definition json_law :: "('m \<Rightarrow> u8 list option) \<Rightarrow> (u8 list \<Rightarrow> 'm option) \<Rightarrow> bool" where
  "json_law to_vec from_slice \<longleftrightarrow> (\<forall>m p. to_vec m = Some p \<longrightarrow> p \<noteq> [] \<and> from_slice p = Some m)"

lemma frame_length:
  assumes "length p \<le> MAX_FRAME_SIZE"
  shows "unat (from_be_bytes (to_be_bytes (word_of_nat (length p)))) = length p"
  using assms by (simp add: be_bytes_roundtrip unat_of_nat MAX_FRAME_SIZE_def)

lemma read_frame_write:
  assumes "json_law to_vec from_slice" "to_vec m = Some p" "length p \<le> MAX_FRAME_SIZE"
  shows "read_frame from_slice ((to_be_bytes (word_of_nat (length p)) @ p) @ rest) = Inr (m, rest)"
  using assms frame_length [OF assms(3)] by (auto simp: read_frame_def read_exact_def json_law_def Let_def)

lemma read_frame_short:
  assumes "length p \<le> MAX_FRAME_SIZE" "n < 4 + length p"
  shows "\<exists>e. read_frame from_slice (take n (to_be_bytes (word_of_nat (length p)) @ p)) = Inl e"
proof (cases "n < 4")
  case False
  then show ?thesis using assms(2) frame_length [OF assms(1)] by (auto simp: read_frame_def read_exact_def Let_def)
qed (simp add: read_frame_def read_exact_def)

lemma read_frame_Inr:
  assumes "read_frame from_slice stream = Inr (m, rest)"
  shows "\<exists>p. 0 < length p \<and> length p \<le> MAX_FRAME_SIZE \<and> unat (from_be_bytes (take 4 stream)) = length p \<and> stream = take 4 stream @ p @ rest \<and> from_slice p = Some m"
proof -
  let ?len = "unat (from_be_bytes (take 4 stream))"
  have "4 \<le> length stream" "0 < ?len" "?len \<le> MAX_FRAME_SIZE" "?len \<le> length (drop 4 stream)"
    "from_slice (take ?len (drop 4 stream)) = Some m" "rest = drop ?len (drop 4 stream)"
    using assms by (auto simp: read_frame_def read_exact_def Let_def split: option.splits if_splits)
  then show ?thesis by (intro exI [of _ "take ?len (drop 4 stream)"]) (simp add: append_assoc [symmetric] take_add [symmetric] add.commute [of 4])
qed

text \<open>Frames carry messages faithfully. With a JSON codec that decodes what it encoded, a message whose encoding
  fits in four megabytes is written as a frame that reads back as that message and leaves the rest of
  the stream untouched, and no strict prefix of the frame is accepted; a larger one is refused. Whatever
  bytes arrive, a frame that is accepted carries between one byte and four megabytes, as its header
  says.\<close>

theorem frame_roundtrip:
  assumes "json_law to_vec from_slice" "to_vec m = Some p"
  shows "(length p \<le> MAX_FRAME_SIZE \<longrightarrow> (\<exists>f. write_frame to_vec m = Inr f \<and> read_frame from_slice (f @ rest) = Inr (m, rest) \<and>
      (\<forall>n < length f. \<exists>e. read_frame from_slice (take n f) = Inl e))) \<and>
    (MAX_FRAME_SIZE < length p \<longrightarrow> write_frame to_vec m = Inl FrameTooLarge) \<and>
    (\<forall>stream m' rest'. read_frame from_slice stream = Inr (m', rest') \<longrightarrow>
      (\<exists>q. 0 < length q \<and> length q \<le> MAX_FRAME_SIZE \<and> unat (from_be_bytes (take 4 stream)) = length q \<and>
        stream = take 4 stream @ q @ rest' \<and> from_slice q = Some m'))"
proof -
  have small: "\<exists>f. write_frame to_vec m = Inr f \<and> read_frame from_slice (f @ rest) = Inr (m, rest) \<and> (\<forall>n < length f. \<exists>e. read_frame from_slice (take n f) = Inl e)"
    if fits: "length p \<le> MAX_FRAME_SIZE"
  proof -
    let ?f = "to_be_bytes (word_of_nat (length p)) @ p"
    have "write_frame to_vec m = Inr ?f" using assms(2) fits by (simp add: write_frame_def)
    moreover have "read_frame from_slice (?f @ rest) = Inr (m, rest)" by (rule read_frame_write [OF assms fits])
    moreover have "\<exists>e. read_frame from_slice (take n ?f) = Inl e" if "n < length ?f" for n
      using read_frame_short [OF fits] that by simp
    ultimately show ?thesis by blast
  qed
  have large: "write_frame to_vec m = Inl FrameTooLarge" if "MAX_FRAME_SIZE < length p"
    using assms(2) that by (simp add: write_frame_def)
  show ?thesis by (intro conjI impI allI; erule small large read_frame_Inr)
qed

theorem frame_roundtrip_witness:
  "\<exists>f. write_frame (\<lambda>b. Some [b]) (7 :: u8) = Inr f \<and> read_frame (\<lambda>p. case p of [b] \<Rightarrow> Some b | _ \<Rightarrow> None) (f @ [1, 2]) = Inr (7, [1, 2])"
proof -
  have law: "json_law (\<lambda>b. Some [b]) (\<lambda>p. case p of [b :: u8] \<Rightarrow> Some b | _ \<Rightarrow> None)" by (simp add: json_law_def)
  have "length [7 :: u8] \<le> MAX_FRAME_SIZE" by (simp add: MAX_FRAME_SIZE_def)
  then show ?thesis using frame_roundtrip [OF law, of 7 "[7]" "[1, 2]"] by blast
qed

text \<open>A broadcast reaches the live peers: every live member other than the instance itself gets one
  connection, and what its side reads from it is the message.\<close>

theorem broadcast_delivers:
  assumes "json_law to_vec from_slice" "to_vec msg = Some p" "length p \<le> MAX_FRAME_SIZE" "tt_self_id t = Some self_id"
  shows "map fst (transport_broadcast to_vec msg t) = map cm_addr (filter (\<lambda>m. cm_id m \<noteq> self_id) (alive_members (tt_members t))) \<and>
    (\<forall>c \<in> set (transport_broadcast to_vec msg t). handle_inbound from_slice (snd c) = Some msg)"
  using assms read_frame_write [OF assms(1-3), of "[]"]
  by (auto simp: transport_broadcast_def broadcast_targets_def write_frame_def handle_inbound_def comp_def)

text \<open>A failed bind is sticky: the running flag is set before the port is bound and stays set when binding
  fails, so the next \<open>start\<close> reports success without binding, and no connection is ever accepted until \<open>stop\<close>.\<close>

theorem bind_failure_sticks:
  assumes "\<not> tt_running t" "\<not> tt_listener t"
  shows "fst (transport_start False i t) = False \<and>
    fst (transport_start bound i' (snd (transport_start False i t))) = True \<and>
    \<not> tt_listener (snd (transport_start bound i' (snd (transport_start False i t))))"
  using assms by (simp add: transport_start_def Let_def)

theorem bind_failure_sticks_witness:
  "fst (transport_start True (InstanceId ''a'') (snd (transport_start False (InstanceId ''a'') (transport_new [])))) = True \<and>
    \<not> tt_listener (snd (transport_start True (InstanceId ''a'') (snd (transport_start False (InstanceId ''a'') (transport_new [])))))"
  using bind_failure_sticks [of "transport_new []" "InstanceId ''a''" True "InstanceId ''a''"] by (simp add: transport_new_def)

end
