(* ===== verification/Text.thy ===== *)
theory Text
  imports Ids
begin

text \<open>
  Text of the standard library that the connectors and the HTTP layer use. A Rust \<open>String\<close> is its UTF-8 bytes,
  here characters of eight bits; a \<open>char\<close> is one well-formed sequence of bytes.
\<close>

section \<open>UTF-8\<close>

definition byte :: "char \<Rightarrow> nat" where
  "byte c = of_char c"

definition byte_in :: "nat \<Rightarrow> nat \<Rightarrow> nat \<Rightarrow> string \<Rightarrow> bool" where
  "byte_in lo hi i s \<longleftrightarrow> i < length s \<and> lo \<le> byte (s ! i) \<and> byte (s ! i) \<le> hi"

text \<open>The width a first byte announces, and the range of the byte after it.\<close>

definition utf8_lead :: "nat \<Rightarrow> nat \<times> nat \<times> nat" where
  "utf8_lead b =
     (if b < 128 then (1, 0, 0)
      else if 194 \<le> b \<and> b \<le> 223 then (2, 128, 191)
      else if b = 224 then (3, 160, 191)
      else if b = 237 then (3, 128, 159)
      else if 225 \<le> b \<and> b \<le> 239 then (3, 128, 191)
      else if b = 240 then (4, 144, 191)
      else if 241 \<le> b \<and> b \<le> 243 then (4, 128, 191)
      else if b = 244 then (4, 128, 143)
      else (0, 0, 0))"

text \<open>The first sequence of a nonempty text: is it a character, and how many bytes are taken as one unit.\<close>

definition utf8_step :: "string \<Rightarrow> bool \<times> nat" where
  "utf8_step s =
     (let (n, lo, hi) = utf8_lead (byte (hd s))
      in if n = 0 then (False, 1)
         else if n = 1 then (True, 1)
         else if \<not> byte_in lo hi 1 s then (False, 1)
         else if n = 2 then (True, 2)
         else if \<not> byte_in 128 191 2 s then (False, 2)
         else if n = 3 then (True, 3)
         else if \<not> byte_in 128 191 3 s then (False, 3)
         else (True, 4))"

lemma utf8_step_bounds: "s \<noteq> [] \<Longrightarrow> 0 < snd (utf8_step s) \<and> snd (utf8_step s) \<le> length s"
  by (auto simp: utf8_step_def utf8_lead_def byte_in_def Suc_le_eq split: prod.split)

lemma utf8_step_append:
  assumes "s \<noteq> []" "fst (utf8_step s)"
  shows "utf8_step (s @ t) = utf8_step s"
proof -
  have "byte_in lo hi i (s @ t)" if "byte_in lo hi i s" for lo hi i using that by (auto simp: byte_in_def nth_append)
  moreover have "hd (s @ t) = hd s" using assms(1) by simp
  ultimately show ?thesis using assms(2) by (auto simp: utf8_step_def Let_def split: prod.splits if_splits)
qed

text \<open>A byte sequence falls into characters and ill-formed units.\<close>

function utf8_units :: "string \<Rightarrow> (bool \<times> string) list" where
  "utf8_units [] = []"
| "utf8_units (c # s) =
     (let (ok, n) = utf8_step (c # s) in (ok, take n (c # s)) # utf8_units (drop n (c # s)))"
  by pat_completeness auto
termination
proof (relation "measure length")
  fix c s p ok n
  assume "p = utf8_step (c # s)" "(ok, n) = p"
  then have "0 < n" using utf8_step_bounds [of "c # s"] by (metis list.distinct(1) snd_conv)
  then show "(drop n (c # s), c # s) \<in> measure length" by simp
qed simp

lemma utf8_units_cons:
  "s \<noteq> [] \<Longrightarrow> utf8_units s = (fst (utf8_step s), take (snd (utf8_step s)) s) # utf8_units (drop (snd (utf8_step s)) s)"
  by (cases s) (simp_all add: case_prod_beta)

declare utf8_units.simps(2) [simp del]

text \<open>A \<open>String\<close> has characters only. \<open>String::from_utf8_lossy\<close> replaces every ill-formed unit by U+FFFD.\<close>

definition utf8_ok :: "string \<Rightarrow> bool" where
  "utf8_ok s \<longleftrightarrow> list_all fst (utf8_units s)"

definition REPLACEMENT :: string where
  "REPLACEMENT = map char_of [239 :: nat, 191, 189]"

definition from_utf8_lossy :: "string \<Rightarrow> string" where
  "from_utf8_lossy s = concat (map (\<lambda>(ok, u). if ok then u else REPLACEMENT) (utf8_units s))"

definition scalar :: "string \<Rightarrow> nat" where
  "scalar u =
     (let b = byte (hd u); n = length u
      in foldl (\<lambda>v c. v * 64 + byte c mod 64) (if n = 1 then b else b mod 2 ^ (7 - n)) (tl u))"

definition chars :: "string \<Rightarrow> nat list" where
  "chars s = map (\<lambda>(ok, u). scalar u) (utf8_units s)"

lemma utf8_units_append: "utf8_ok s \<Longrightarrow> utf8_units (s @ t) = utf8_units s @ utf8_units t"
proof (induction s rule: utf8_units.induct)
  case (2 c s)
  let ?n = "snd (utf8_step (c # s))"
  have units: "utf8_units (c # s) = (fst (utf8_step (c # s)), take ?n (c # s)) # utf8_units (drop ?n (c # s))"
    by (simp add: utf8_units_cons)
  with "2.prems" have ok: "fst (utf8_step (c # s))" "utf8_ok (drop ?n (c # s))" by (simp_all add: utf8_ok_def)
  have step: "utf8_step (c # s @ t) = utf8_step (c # s)" using utf8_step_append [of "c # s" t] ok by simp
  have le: "?n \<le> length (c # s)" using utf8_step_bounds [of "c # s"] by simp
  then have "take ?n (c # s @ t) = take ?n (c # s)" "drop ?n (c # s @ t) = drop ?n (c # s) @ t"
    using take_append [of ?n "c # s" t] drop_append [of ?n "c # s" t] by simp_all
  then show ?case
    using "2.IH" [OF refl prod.collapse ok(2)] utf8_units_cons [of "c # s @ t"] by (simp add: step units)
qed simp

lemma concat_units: "concat (map snd (utf8_units s)) = s"
proof (induction s rule: utf8_units.induct)
  case (2 c s)
  show ?case using "2.IH" [OF refl prod.collapse] by (simp add: utf8_units_cons)
qed simp

lemma utf8_ok_append: "utf8_ok s \<Longrightarrow> utf8_ok t \<Longrightarrow> utf8_ok (s @ t)"
  by (simp add: utf8_ok_def [of "s @ t"] utf8_units_append) (simp add: utf8_ok_def)

lemma lossy_append: "utf8_ok s \<Longrightarrow> from_utf8_lossy (s @ t) = from_utf8_lossy s @ from_utf8_lossy t"
  by (simp add: from_utf8_lossy_def utf8_units_append)

lemma lossy_ok: "utf8_ok s \<Longrightarrow> from_utf8_lossy s = s"
proof -
  assume "utf8_ok s"
  then have "map (\<lambda>(ok, u). if ok then u else REPLACEMENT) (utf8_units s) = map snd (utf8_units s)"
    by (auto simp: utf8_ok_def list_all_iff)
  then show ?thesis by (simp only: from_utf8_lossy_def concat_units)
qed

lemma utf8_ok_concat: "list_all utf8_ok ss \<Longrightarrow> utf8_ok (concat ss)"
  by (induction ss) (simp add: utf8_ok_def, simp add: utf8_ok_append)

text \<open>A character cut in two: one replacement for the bytes before the cut, one for each byte after it.\<close>

definition is_char :: "string \<Rightarrow> bool" where
  "is_char u \<longleftrightarrow> u \<noteq> [] \<and> utf8_step u = (True, length u)"

lemma is_char_bytes:
  assumes "is_char u" "0 < i" "i < length u"
  shows "byte_in 128 191 i u"
proof -
  obtain n lo hi where lead: "utf8_lead (byte (hd u)) = (n, lo, hi)" by (metis prod_cases3)
  then have "n \<in> {2, 3, 4} \<Longrightarrow> 128 \<le> lo \<and> hi \<le> 191" by (auto simp: utf8_lead_def split: if_splits)
  moreover have "n \<le> 4" using lead by (auto simp: utf8_lead_def split: if_splits)
  moreover have "length u \<le> 4" "n = length u" using assms(1) lead \<open>n \<le> 4\<close> by (auto simp: is_char_def utf8_step_def split: if_splits)
  then have "i = 1 \<or> i = 2 \<or> i = 3" "n \<in> {2, 3, 4}" "n = length u" using assms(2,3) by auto
  ultimately show ?thesis
    using assms lead by (elim disjE; auto simp: is_char_def utf8_step_def byte_in_def split: if_splits)
qed

lemma cut_char_step:
  assumes "is_char u" "0 < j" "j < length u"
  shows "utf8_step (take j u) = (False, j)"
proof -
  have cut: "byte_in lo hi i (take j u) \<longleftrightarrow> i < j \<and> byte_in lo hi i u" for lo hi i
    using assms(3) by (auto simp: byte_in_def)
  have "hd (take j u) = hd u" using assms(2) by simp
  moreover have "length u \<le> 4" using assms(1) by (auto simp: is_char_def utf8_step_def Let_def split: prod.splits if_splits)
  then have "j = 1 \<or> j = 2 \<or> j = 3" using assms(2,3) by auto
  ultimately show ?thesis
    using assms(1,3) by (auto simp: is_char_def utf8_step_def Let_def cut split: prod.splits if_splits)
qed

lemma stray_bytes:
  "(\<forall>i < length v. byte_in 128 191 i v) \<Longrightarrow> from_utf8_lossy (v @ s) = concat (replicate (length v) REPLACEMENT) @ from_utf8_lossy s"
proof (induction v)
  case (Cons c v)
  have c: "128 \<le> byte c" "byte c \<le> 191" using Cons.prems by (auto simp: byte_in_def)
  then have "utf8_step (c # v @ s) = (False, 1)" by (simp add: utf8_step_def utf8_lead_def)
  then have "from_utf8_lossy (c # v @ s) = REPLACEMENT @ from_utf8_lossy (v @ s)" by (simp add: from_utf8_lossy_def utf8_units_cons)
  moreover have "\<forall>i < length v. byte_in 128 191 i v" using Cons.prems by (auto simp: byte_in_def)
  ultimately show ?case using Cons.IH by simp
qed simp

lemma cut_char_lossy:
  assumes "is_char u" "0 < j" "j < length u"
  shows "from_utf8_lossy (take j u) @ from_utf8_lossy (drop j u @ s) = concat (replicate (Suc (length u - j)) REPLACEMENT) @ from_utf8_lossy s"
proof -
  have "take j u \<noteq> []" using assms by auto
  then have "from_utf8_lossy (take j u) = REPLACEMENT"
    using cut_char_step [OF assms] by (simp add: from_utf8_lossy_def utf8_units_cons)
  moreover have "byte_in 128 191 i (drop j u)" if "i < length (drop j u)" for i
    using is_char_bytes [OF assms(1), of "j + i"] that assms(2) by (auto simp: byte_in_def)
  ultimately show ?thesis using stray_bytes [of "drop j u" s] by simp
qed

lemma replacements_ok: "utf8_ok (concat (replicate n REPLACEMENT))"
proof (rule utf8_ok_concat)
  have "utf8_ok REPLACEMENT" by code_simp
  then show "list_all utf8_ok (replicate n REPLACEMENT)" by (simp add: list_all_iff)
qed

section \<open>Text operations\<close>

text \<open>\<open>str::trim\<close> strips the Unicode white space from both ends.\<close>

definition white_space :: "nat \<Rightarrow> bool" where
  "white_space v \<longleftrightarrow> 9 \<le> v \<and> v \<le> 13 \<or> v \<in> {32, 133, 160, 5760, 8232, 8233, 8239, 8287, 12288} \<or> 8192 \<le> v \<and> v \<le> 8202"

definition trim :: "string \<Rightarrow> string" where
  "trim s =
     (let blank = (\<lambda>u. white_space (scalar u))
      in concat (rev (dropWhile blank (rev (dropWhile blank (map snd (utf8_units s)))))))"

definition NEWLINE :: char where
  "NEWLINE = CHR 0x0A"

text \<open>ASCII text, for concrete instances.\<close>

definition ascii :: "string \<Rightarrow> bool" where
  "ascii s \<longleftrightarrow> list_all (\<lambda>c. byte c < 128) s"

lemma ascii_units: "ascii s \<Longrightarrow> utf8_units s = map (\<lambda>c. (True, [c])) s"
proof (induction s)
  case (Cons c s)
  then have "utf8_step (c # s) = (True, 1)" by (simp add: ascii_def utf8_step_def utf8_lead_def)
  then show ?case using Cons by (simp add: utf8_units_cons ascii_def)
qed simp

lemma ascii_ok: "ascii s \<Longrightarrow> utf8_ok s"
  by (simp add: utf8_ok_def ascii_units list_all_iff)

definition ascii_trim :: "string \<Rightarrow> string" where
  "ascii_trim s = (let blank = (\<lambda>c. white_space (byte c)) in rev (dropWhile blank (rev (dropWhile blank s))))"

lemma ascii_trim: "ascii s \<Longrightarrow> trim s = ascii_trim s"
  by (simp add: trim_def ascii_trim_def ascii_units dropWhile_map rev_map comp_def scalar_def Let_def)

definition trim_end_cr :: "string \<Rightarrow> string" where
  "trim_end_cr s = rev (dropWhile (\<lambda>c. c = CHR 0x0D) (rev s))"

lemma trim_end_cr_id: "CHR 0x0D \<notin> set s \<Longrightarrow> trim_end_cr s = s"
  by (cases s rule: rev_cases) (auto simp: trim_end_cr_def)

definition strip_prefix :: "string \<Rightarrow> string \<Rightarrow> string option" where
  "strip_prefix p s = (if take (length p) s = p then Some (drop (length p) s) else None)"

text \<open>\<open>s.replace(p, "")\<close>: the occurrences of a nonempty \<open>p\<close> from left to right, without overlap.\<close>

fun str_remove :: "nat \<Rightarrow> string \<Rightarrow> string \<Rightarrow> string" where
  "str_remove (Suc n) p (c # s) = str_remove n p s"
| "str_remove 0 p (c # s) = (if take (length p) (c # s) = p then str_remove (length p - 1) p s else c # str_remove 0 p s)"
| "str_remove n p [] = []"

lemma find_char_less: "find_char c s = Some n \<Longrightarrow> n < length s"
proof -
  assume "find_char c s = Some n"
  then have "s = take n s @ c # drop (n + 1) s" by (rule find_char_split)
  then have "length s = length (take n s @ c # drop (n + 1) s)" by (rule arg_cong)
  then show "n < length s" by simp
qed

text \<open>\<open>str::lines\<close>: the pieces between newlines, each without one carriage return at its end; no empty last line.\<close>

fun split_lines :: "string \<Rightarrow> string \<Rightarrow> string list" where
  "split_lines acc [] = (if acc = [] then [] else [acc])"
| "split_lines acc (c # s) =
     (if c = NEWLINE then (if acc \<noteq> [] \<and> last acc = CHR 0x0D then butlast acc else acc) # split_lines [] s
      else split_lines (acc @ [c]) s)"

definition lines :: "string \<Rightarrow> string list" where
  "lines s = split_lines [] s"

text \<open>Decimal digits of a number, as \<open>Display\<close> prints it.\<close>

fun show_nat :: "nat \<Rightarrow> string" where
  "show_nat n = (if n < 10 then [char_of (48 + n)] else show_nat (n div 10) @ [char_of (48 + n mod 10)])"

declare show_nat.simps [simp del]

end
