(* ===== verification/Inference.thy ===== *)
theory Inference
  imports Request Text
begin

text \<open>
  Inference requests and response chunks of \<open>crates/hier-kv-gateway-core/src/request.rs\<close>, and the streams of chunks that a
  connector returns (\<open>BoxStream\<close>). A stream is the sequence of the items its polls yield; it may go on for ever, so it is a
  codatatype; it may also panic. Waiting takes time and yields no item.
\<close>

section \<open>Requests and chunks\<close>

record chat_message =
  msg_role :: string
  msg_content :: string

record tool_definition =
  td_name :: string
  td_description :: string
  td_parameters_schema :: string

record inference_request =
  ir_request_id :: request_id
  ir_model :: string
  ir_messages :: "chat_message list"
  ir_token_ids :: "u32 list"
  ir_max_tokens :: u32
  ir_temperature :: f64
  ir_stream :: bool
  ir_tools :: "tool_definition list"
  ir_lora_name :: "string option"

datatype inference_chunk =
    Delta string "string option"
  | ToolCall string string string
  | Done backend_id u64
  | ChunkError u16 string

text \<open>\<open>serde_json::Value\<close>, with the accessors the code uses.\<close>

datatype json_number = PosInt u64 | NegInt i64 | Float f64

datatype json = JNull | JBool bool | JNumber json_number | JString string | JArray "json list" | JObject "(string \<times> json) list"

fun json_get :: "string \<Rightarrow> json \<Rightarrow> json option" where
  "json_get k (JObject entries) = map_of entries k"
| "json_get k _ = None"

fun json_as_array :: "json \<Rightarrow> json list option" where
  "json_as_array (JArray xs) = Some xs"
| "json_as_array _ = None"

fun json_as_f64 :: "fpu \<Rightarrow> json \<Rightarrow> f64 option" where
  "json_as_f64 F (JNumber (PosInt n)) = Some (of_usize F (unat n))"
| "json_as_f64 F (JNumber (NegInt n)) = Some (fp_round F (of_int (sint n)))"
| "json_as_f64 F (JNumber (Float x)) = Some x"
| "json_as_f64 F _ = None"

section \<open>Streams\<close>

codatatype 'a source = Ended | Crashed | Next 'a "'a source"

primcorec source_map :: "('a \<Rightarrow> 'b) \<Rightarrow> 'a source \<Rightarrow> 'b source" where
  "source_map f s = (case s of Ended \<Rightarrow> Ended | Crashed \<Rightarrow> Crashed | Next x r \<Rightarrow> Next (f x) (source_map f r))"

text \<open>\<open>chain\<close>: the second stream after the end of the first.\<close>

primcorec chain :: "'a source \<Rightarrow> 'a source \<Rightarrow> 'a source" where
  "chain s t = (case s of Ended \<Rightarrow> t | Crashed \<Rightarrow> Crashed | Next x r \<Rightarrow> Next x (chain r t))"

fun source_of :: "'a list \<Rightarrow> 'a source" where
  "source_of [] = Ended"
| "source_of (x # xs) = Next x (source_of xs)"

abbreviation once :: "'a \<Rightarrow> 'a source" where
  "once x \<equiv> source_of [x]"

text \<open>The item of the \<open>n\<close>-th poll.\<close>

fun item :: "nat \<Rightarrow> 'a source \<Rightarrow> 'a option" where
  "item n s = (case s of Ended \<Rightarrow> None | Crashed \<Rightarrow> None | Next x r \<Rightarrow> (case n of 0 \<Rightarrow> Some x | Suc m \<Rightarrow> item m r))"

declare item.simps [simp del]

lemma item_simps [simp]: "item n Ended = None" "item n Crashed = None" "item 0 (Next x r) = Some x" "item (Suc m) (Next x r) = item m r"
  by (subst item.simps, simp)+

lemma source_map_simps [simp]: "source_map f Ended = Ended" "source_map f Crashed = Crashed" "source_map f (Next x r) = Next (f x) (source_map f r)"
  by (subst source_map.code, simp)+

lemma chain_simps [simp]: "chain Ended t = t" "chain Crashed t = Crashed" "chain (Next x r) t = Next x (chain r t)"
  by (subst chain.code, simp)+

lemma item_map: "item n (source_map f s) = map_option f (item n s)"
  by (induction n arbitrary: s; case_tac s) simp_all

lemma item_source_of: "item n (source_of xs) = (if n < length xs then Some (xs ! n) else None)"
proof (induction xs arbitrary: n)
  case (Cons x xs)
  then show ?case by (cases n) simp_all
qed simp

lemma map_source_of: "source_map f (source_of xs) = source_of (map f xs)"
  by (induction xs) simp_all

lemma chain_source_of: "chain (source_of xs) (source_of ys) = source_of (xs @ ys)"
  by (induction xs) simp_all

text \<open>A stream that never ends keeps whatever is chained to it out.\<close>

definition endless :: "'a source \<Rightarrow> bool" where
  "endless s \<longleftrightarrow> (\<forall>n. item n s \<noteq> None)"

lemma endless_Next: "endless (Next x r) \<longleftrightarrow> endless r"
proof
  assume "endless (Next x r)"
  then have "item (Suc n) (Next x r) \<noteq> None" for n unfolding endless_def by blast
  then show "endless r" by (simp add: endless_def)
next
  assume "endless r"
  then have "item n (Next x r) \<noteq> None" for n by (cases n) (simp_all add: endless_def)
  then show "endless (Next x r)" by (simp add: endless_def)
qed

lemma endless_map: "endless (source_map f s) \<longleftrightarrow> endless s"
  by (simp add: endless_def item_map)

lemma endless_chain: "endless s \<Longrightarrow> chain s t = s"
proof (coinduction arbitrary: s)
  case Eq_source
  then show ?case by (cases s) (auto simp: endless_Next, simp_all add: endless_def)
qed

section \<open>Helpers of the standard library\<close>

definition find_map :: "('a \<Rightarrow> 'b option) \<Rightarrow> 'a list \<Rightarrow> 'b option" where
  "find_map f xs = (case List.map_filter f xs of [] \<Rightarrow> None | y # ys \<Rightarrow> Some y)"

text \<open>\<open>x as u64\<close> of a double: truncated, and clamped to the type; not-a-number gives zero.\<close>

fun f64_to_u64 :: "f64 \<Rightarrow> u64" where
  "f64_to_u64 (Fin x) = (if x \<le> 0 then 0 else if 2 ^ 64 \<le> x then - 1 else of_int \<lfloor>x\<rfloor>)"
| "f64_to_u64 PInf = - 1"
| "f64_to_u64 NInf = 0"
| "f64_to_u64 NaN = 0"

fun f64_ceil :: "f64 \<Rightarrow> f64" where
  "f64_ceil (Fin x) = Fin (of_int \<lceil>x\<rceil>)"
| "f64_ceil x = x"

text \<open>\<open>str::parse::<f64>\<close>: a decimal with an optional exponent, an infinity or a not-a-number, correctly rounded.\<close>

definition is_digit :: "char \<Rightarrow> bool" where
  "is_digit c \<longleftrightarrow> 48 \<le> byte c \<and> byte c \<le> 57"

definition digits_value :: "string \<Rightarrow> nat" where
  "digits_value s = foldl (\<lambda>v c. v * 10 + (byte c - 48)) 0 s"

definition parse_sign :: "string \<Rightarrow> bool \<times> string" where
  "parse_sign s = (case s of [] \<Rightarrow> (False, []) | c # r \<Rightarrow> if c = CHR ''-'' then (True, r) else if c = CHR ''+'' then (False, r) else (False, s))"

definition parse_exponent :: "string \<Rightarrow> int option" where
  "parse_exponent s =
     (let (neg, t) = parse_sign s
      in if t = [] \<or> \<not> list_all is_digit t then None else Some (if neg then - int (digits_value t) else int (digits_value t)))"

definition scale10 :: "rat \<Rightarrow> int \<Rightarrow> rat" where
  "scale10 x e = (if 0 \<le> e then x * 10 ^ nat e else x / 10 ^ nat (- e))"

definition lower_case :: "string \<Rightarrow> string" where
  "lower_case s = map (\<lambda>c. if 65 \<le> byte c \<and> byte c \<le> 90 then char_of (byte c + 32) else c) s"

definition parse_unsigned :: "string \<Rightarrow> f64 option" where
  "parse_unsigned t =
     (let whole = takeWhile is_digit t; r1 = dropWhile is_digit t;
          (frac, r2) = (case r1 of c # r \<Rightarrow> if c = CHR ''.'' then (takeWhile is_digit r, dropWhile is_digit r) else ([], r1) | [] \<Rightarrow> ([], []));
          mantissa = of_nat (digits_value (whole @ frac)) / 10 ^ length frac
      in if whole = [] \<and> frac = [] then
           (if lower_case t = ''inf'' \<or> lower_case t = ''infinity'' then Some PInf
            else if lower_case t = ''nan'' then Some NaN else None)
         else (case r2 of
                 [] \<Rightarrow> Some (Fin mantissa)
               | c # r \<Rightarrow> if c = CHR ''e'' \<or> c = CHR ''E'' then map_option (\<lambda>e. Fin (scale10 mantissa e)) (parse_exponent r) else None))"

definition parse_f64 :: "fpu \<Rightarrow> string \<Rightarrow> f64 option" where
  "parse_f64 F s =
     (let (neg, t) = parse_sign s
      in map_option (\<lambda>v. case (if neg then f64_neg v else v) of Fin x \<Rightarrow> fp_round F x | y \<Rightarrow> y) (parse_unsigned t))"

lemma parse_f64_samples:
  "parse_f64 exact_fpu ''-12.5e2'' = Some (Fin (- 1250))" "parse_f64 exact_fpu ''.'' = None" "parse_f64 exact_fpu ''NaN'' = Some NaN"
  by code_simp+

end
