(* ===== verification/OpenAiCompat.thy ===== *)
theory OpenAiCompat
  imports Inference
begin

text \<open>
  The OpenAI-compatible connector, \<open>crates/hier-kv-gateway-connector/src/openai_compat.rs\<close>: the request it sends, the parser of
  the server-sent events that come back, and the metrics and models it reads.

  The HTTP client is a parameter: a call returns the text of an error, or a status and the pieces of the body,
  each a read error or bytes; the pieces are finitely many, because the client is built with a timeout of 300 seconds for
  the whole exchange, whose expiry is a read error. \<open>serde_json\<close> is a parameter where text is parsed. The milliseconds since the start of the
  call are the argument \<open>lat\<close>, one per poll.
\<close>

section \<open>HTTP\<close>

type_synonym body = "(string + string) list"

record http_response =
  hr_status :: nat
  hr_body :: body

type_synonym http_result = "string + http_response"

definition is_success :: "http_response \<Rightarrow> bool" where
  "is_success r \<longleftrightarrow> 200 \<le> hr_status r \<and> hr_status r < 300"

text \<open>\<open>resp.text().await.unwrap_or_default()\<close>.\<close>

definition body_text :: "http_response \<Rightarrow> string" where
  "body_text r = (if list_ex isl (hr_body r) then [] else from_utf8_lossy (concat (map projr (hr_body r))))"

section \<open>Requests\<close>

record open_ai_connector =
  oc_base_url :: string
  oc_backend_type :: backend_type
  oc_region :: region_id
  oc_instance_id :: backend_instance_id
  oc_models :: "string list"
  oc_kv_block_size :: u32
  oc_emit_token_ids :: bool

definition open_ai_new :: "string \<Rightarrow> backend_type \<Rightarrow> region_id \<Rightarrow> string \<Rightarrow> string list \<Rightarrow> u32 \<Rightarrow> open_ai_connector" where
  "open_ai_new url ty region inst models block =
     \<lparr>oc_base_url = url, oc_backend_type = ty, oc_region = region, oc_instance_id = BackendInstanceId inst, oc_models = models,
      oc_kv_block_size = block, oc_emit_token_ids = False\<rparr>"

definition with_emit_token_ids :: "bool \<Rightarrow> open_ai_connector \<Rightarrow> open_ai_connector" where
  "with_emit_token_ids emit c = c\<lparr>oc_emit_token_ids := emit\<rparr>"

definition instance_of_url :: "string \<Rightarrow> string" where
  "instance_of_url url = str_remove 0 ''https://'' (str_remove 0 ''http://'' url)"

definition open_ai_from_endpoint :: "endpoint \<Rightarrow> backend_type \<Rightarrow> region_id \<Rightarrow> string list \<Rightarrow> u32 \<Rightarrow> open_ai_connector" where
  "open_ai_from_endpoint ep ty region models block = open_ai_new (ep_url ep) ty region (instance_of_url (ep_url ep)) models block"

definition open_ai_backend_id :: "open_ai_connector \<Rightarrow> backend_id" where
  "open_ai_backend_id c = BackendId (oc_region c) (oc_instance_id c)"

record token_id_request =
  tr_model :: string
  tr_prompt_token_ids :: "u32 list"
  tr_max_tokens :: u32
  tr_temperature :: f64
  tr_stream :: bool

record tool_serde =
  ts_type :: string
  ts_name :: string
  ts_description :: string
  ts_parameters :: json

record chat_completion_request =
  ccr_model :: string
  ccr_messages :: "(string \<times> string) list"
  ccr_max_tokens :: u32
  ccr_temperature :: f64
  ccr_stream :: bool
  ccr_tools :: "tool_serde list option"

datatype request_body = ChatBody chat_completion_request | TokenBody token_id_request

definition token_id_body :: "inference_request \<Rightarrow> token_id_request" where
  "token_id_body req = \<lparr>tr_model = ir_model req, tr_prompt_token_ids = ir_token_ids req, tr_max_tokens = ir_max_tokens req,
     tr_temperature = ir_temperature req, tr_stream = True\<rparr>"

definition chat_body :: "(string \<Rightarrow> json option) \<Rightarrow> inference_request \<Rightarrow> chat_completion_request" where
  "chat_body json_parse req = \<lparr>ccr_model = ir_model req, ccr_messages = map (\<lambda>m. (msg_role m, msg_content m)) (ir_messages req),
     ccr_max_tokens = ir_max_tokens req, ccr_temperature = ir_temperature req, ccr_stream = True,
     ccr_tools = (if ir_tools req = [] then None
       else Some (map (\<lambda>t. \<lparr>ts_type = ''function'', ts_name = td_name t, ts_description = td_description t,
         ts_parameters = (case json_parse (td_parameters_schema t) of Some v \<Rightarrow> v | None \<Rightarrow> JObject [])\<rparr>) (ir_tools req)))\<rparr>"

text \<open>Turning these structures into JSON values cannot fail, so the error branch of the source is not taken.\<close>

definition build_request_body :: "(string \<Rightarrow> json option) \<Rightarrow> inference_request \<Rightarrow> bool \<Rightarrow> request_body" where
  "build_request_body json_parse req emit_token_ids =
     (if emit_token_ids \<and> ir_token_ids req \<noteq> [] then TokenBody (token_id_body req) else ChatBody (chat_body json_parse req))"

section \<open>Server-sent events\<close>

record tool_call_function =
  tcf_name :: "string option"
  tcf_arguments :: "string option"

record tool_call_delta =
  tcd_id :: "string option"
  tcd_function :: "tool_call_function option"

record choice_delta =
  cd_content :: "string option"
  cd_tool_calls :: "tool_call_delta list"

record choice =
  ch_delta :: choice_delta
  ch_finish_reason :: "string option"

record completion_chunk =
  ck_choices :: "choice list"

definition unwrap_or_default :: "string option \<Rightarrow> string" where
  "unwrap_or_default x = (case x of Some s \<Rightarrow> s | None \<Rightarrow> [])"

definition tool_call_chunk :: "tool_call_delta \<Rightarrow> inference_chunk option" where
  "tool_call_chunk tc =
     (case (tcd_id tc, tcd_function tc) of
        (Some i, Some f) \<Rightarrow> Some (ToolCall i (unwrap_or_default (tcf_name f)) (unwrap_or_default (tcf_arguments f)))
      | _ \<Rightarrow> None)"

definition choice_chunk :: "choice \<Rightarrow> inference_chunk option" where
  "choice_chunk ch =
     (case find_map tool_call_chunk (cd_tool_calls (ch_delta ch)) of
        Some c \<Rightarrow> Some c
      | None \<Rightarrow>
          (case cd_content (ch_delta ch) of
             Some content \<Rightarrow> if content \<noteq> [] then Some (Delta content (ch_finish_reason ch)) else None
           | None \<Rightarrow> map_option (\<lambda>reason. Delta [] (Some reason)) (ch_finish_reason ch)))"

text \<open>What the parser makes of one line, without its newline.\<close>

definition line_chunk :: "(string \<Rightarrow> completion_chunk option) \<Rightarrow> backend_id \<Rightarrow> u64 \<Rightarrow> string \<Rightarrow> inference_chunk option" where
  "line_chunk parse b lat raw =
     (let line = trim_end_cr raw
      in if line = [] then None
         else case strip_prefix ''data: '' line of
                None \<Rightarrow> None
              | Some data \<Rightarrow>
                  if trim data = ''[DONE]'' then Some (Done b lat)
                  else (case parse data of None \<Rightarrow> None | Some chunk \<Rightarrow> find_map choice_chunk (ck_choices chunk)))"

function try_parse :: "(string \<Rightarrow> completion_chunk option) \<Rightarrow> backend_id \<Rightarrow> u64 \<Rightarrow> string \<Rightarrow> inference_chunk option \<times> string" where
  "try_parse parse b lat buffer =
     (case find_char NEWLINE buffer of
        None \<Rightarrow> (None, buffer)
      | Some n \<Rightarrow> (case line_chunk parse b lat (take n buffer) of
                    Some c \<Rightarrow> (Some c, drop (n + 1) buffer)
                  | None \<Rightarrow> try_parse parse b lat (drop (n + 1) buffer)))"
  by pat_completeness auto
termination
  by (relation "measure (\<lambda>(parse, b, lat, buffer). length buffer)") (auto dest: find_char_less)

declare try_parse.simps [simp del]

record sse_parser =
  sp_inner :: body
  sp_buffer :: string
  sp_backend_id :: backend_id

definition sse_new :: "body \<Rightarrow> backend_id \<Rightarrow> sse_parser" where
  "sse_new inner b = \<lparr>sp_inner = inner, sp_buffer = [], sp_backend_id = b\<rparr>"

function sse_poll_next :: "(string \<Rightarrow> completion_chunk option) \<Rightarrow> u64 \<Rightarrow> sse_parser \<Rightarrow> inference_chunk option \<times> sse_parser" where
  "sse_poll_next parse lat p =
     (case try_parse parse (sp_backend_id p) lat (sp_buffer p) of
        (Some c, buf) \<Rightarrow> (Some c, p\<lparr>sp_buffer := buf\<rparr>)
      | (None, buf) \<Rightarrow>
          (case sp_inner p of
             Inr bytes # rest \<Rightarrow> sse_poll_next parse lat (p\<lparr>sp_inner := rest, sp_buffer := buf @ from_utf8_lossy bytes\<rparr>)
           | Inl e # rest \<Rightarrow> (Some (ChunkError 502 (''stream read error: '' @ e)), p\<lparr>sp_inner := rest, sp_buffer := buf\<rparr>)
           | [] \<Rightarrow>
               if buf = [] then (Some (Done (sp_backend_id p) lat), p\<lparr>sp_buffer := buf\<rparr>)
               else (case try_parse parse (sp_backend_id p) lat buf of
                       (Some c, buf') \<Rightarrow> (Some c, p\<lparr>sp_buffer := buf'\<rparr>)
                     | (None, buf') \<Rightarrow> (Some (Done (sp_backend_id p) lat), p\<lparr>sp_buffer := buf'\<rparr>))))"
  by pat_completeness auto
termination
  by (relation "measure (\<lambda>(parse, lat, p). length (sp_inner p))") auto

declare sse_poll_next.simps [simp del]

text \<open>The parser as a stream: the items of its polls, from poll number \<open>k\<close> on.\<close>

primcorec sse_stream :: "(string \<Rightarrow> completion_chunk option) \<Rightarrow> (nat \<Rightarrow> u64) \<Rightarrow> nat \<Rightarrow> sse_parser \<Rightarrow> inference_chunk source" where
  "sse_stream parse lat k p =
     (case sse_poll_next parse (lat k) p of
        (c, p') \<Rightarrow> (case c of None \<Rightarrow> Ended | Some x \<Rightarrow> Next x (sse_stream parse lat (Suc k) p')))"

section \<open>The connector\<close>

definition open_ai_forward :: "(string \<Rightarrow> json option) \<Rightarrow> (string \<Rightarrow> completion_chunk option) \<Rightarrow> (string \<Rightarrow> request_body \<Rightarrow> http_result) \<Rightarrow> (nat \<Rightarrow> u64)
    \<Rightarrow> backend_id \<Rightarrow> inference_request \<Rightarrow> open_ai_connector \<Rightarrow> gateway_error + inference_chunk source" where
  "open_ai_forward json_parse parse post lat b req c =
     (case post (oc_base_url c @ ''/v1/chat/completions'') (build_request_body json_parse req (oc_emit_token_ids c)) of
        Inl e \<Rightarrow> Inl (ConnectorError (''request forwarding failed: '' @ e))
      | Inr resp \<Rightarrow>
          if \<not> is_success resp then
            Inl (ConnectorError (''backend returned HTTP '' @ show_nat (hr_status resp) @ '': '' @ body_text resp))
          else Inr (sse_stream parse lat 0 (sse_new (hr_body resp) b)))"

section \<open>The lines of the body\<close>

function complete_lines :: "string \<Rightarrow> string list" where
  "complete_lines s = (case find_char NEWLINE s of None \<Rightarrow> [] | Some n \<Rightarrow> take n s # complete_lines (drop (n + 1) s))"
  by pat_completeness auto
termination
  by (relation "measure length") (auto dest: find_char_less)

declare complete_lines.simps [simp del]

abbreviation silent :: "(string \<Rightarrow> completion_chunk option) \<Rightarrow> string \<Rightarrow> bool" where
  "silent parse l \<equiv> line_chunk parse (BackendId (RegionId []) (BackendInstanceId [])) 0 l = None"

text \<open>The lines that yield a chunk; which ones does not depend on the backend or the clock.\<close>

definition speaking :: "(string \<Rightarrow> completion_chunk option) \<Rightarrow> string \<Rightarrow> string list" where
  "speaking parse s = filter (\<lambda>l. \<not> silent parse l) (complete_lines s)"

lemma line_chunk_silent: "line_chunk parse b lat l = None \<longleftrightarrow> silent parse l"
  by (auto simp: line_chunk_def Let_def split: option.split)

lemma find_char_append_Some: "find_char c s = Some n \<Longrightarrow> find_char c (s @ t) = Some n"
  by (auto simp: find_char_def split: if_splits)

lemma complete_lines_step:
  assumes "find_char NEWLINE s = Some n"
  shows "complete_lines (s @ t) = take n s # complete_lines (drop (n + 1) s @ t)"
proof -
  have "n < length s" using assms by (rule find_char_less)
  then show ?thesis
    using find_char_append_Some [OF assms, of t] by (subst complete_lines.simps) simp
qed

text \<open>A call of the parser drops the silent lines, and takes one that speaks if there is one.\<close>

lemma try_parse_spec:
  assumes "try_parse parse b lat s = (r, s')"
  shows "case r of
      None \<Rightarrow> speaking parse s = [] \<and> find_char NEWLINE s' = None \<and> (\<forall>t. speaking parse (s @ t) = speaking parse (s' @ t))
    | Some c \<Rightarrow> length s' < length s \<and>
        (\<exists>l. line_chunk parse b lat l = Some c \<and> (\<forall>t. speaking parse (s @ t) = l # speaking parse (s' @ t)))"
  using assms
proof (induction parse b lat s arbitrary: r s' rule: try_parse.induct)
  case (1 parse b lat s)
  show ?case
  proof (cases "find_char NEWLINE s")
    case None
    then have "complete_lines s = []" by (subst complete_lines.simps) simp
    then show ?thesis using "1.prems" None by (auto simp: try_parse.simps speaking_def)
  next
    case (Some n)
    let ?l = "take n s" and ?rest = "drop (n + 1) s"
    have n: "n < length s" using Some by (rule find_char_less)
    have lines: "speaking parse (s @ t) = (if silent parse ?l then [] else [?l]) @ speaking parse (?rest @ t)" for t
      using complete_lines_step [OF Some, of t] by (simp add: speaking_def)
    show ?thesis
    proof (cases "line_chunk parse b lat ?l")
      case None
      then have "try_parse parse b lat ?rest = (r, s')" using "1.prems" Some by (simp add: try_parse.simps [of parse b lat s])
      from "1.IH" [OF Some None this] have "case r of
          None \<Rightarrow> speaking parse ?rest = [] \<and> find_char NEWLINE s' = None \<and> (\<forall>t. speaking parse (?rest @ t) = speaking parse (s' @ t))
        | Some c \<Rightarrow> length s' < length ?rest \<and>
            (\<exists>l. line_chunk parse b lat l = Some c \<and> (\<forall>t. speaking parse (?rest @ t) = l # speaking parse (s' @ t)))" .
      moreover have "silent parse ?l" using None line_chunk_silent by blast
      ultimately show ?thesis using lines lines [of "[]"] n by (auto split: option.splits)
    next
      case (Some c)
      then have "r = Some c" "s' = ?rest" using "1.prems" \<open>find_char NEWLINE s = Some n\<close> by (simp_all add: try_parse.simps [of parse b lat s])
      moreover have "\<not> silent parse ?l" using Some line_chunk_silent by (metis option.distinct(1))
      ultimately show ?thesis using lines n Some by auto
    qed
  qed
qed

section \<open>The stream\<close>

definition unread :: "sse_parser \<Rightarrow> string" where
  "unread p = sp_buffer p @ concat (map (\<lambda>piece. from_utf8_lossy (projr piece)) (sp_inner p))"

lemma sse_poll_spec:
  assumes "\<not> list_ex isl (sp_inner p)" "sse_poll_next parse lat p = (r, p')"
  shows "\<not> list_ex isl (sp_inner p') \<and> sp_backend_id p' = sp_backend_id p \<and> speaking parse (unread p') = tl (speaking parse (unread p)) \<and>
    r = Some (case speaking parse (unread p) of [] \<Rightarrow> Done (sp_backend_id p) lat | l # ls \<Rightarrow> the (line_chunk parse (sp_backend_id p) lat l))"
  using assms
proof (induction parse lat p arbitrary: r p' rule: sse_poll_next.induct)
  case (1 parse lat p)
  obtain q buf where parsed: "try_parse parse (sp_backend_id p) lat (sp_buffer p) = (q, buf)" by fastforce
  note spec = try_parse_spec [OF parsed]
  show ?case
  proof (cases q)
    case (Some c)
    then have "r = Some c" "p' = p\<lparr>sp_buffer := buf\<rparr>" using "1.prems"(2) parsed by (simp_all add: sse_poll_next.simps [of parse lat p])
    then show ?thesis using spec Some "1.prems"(1) by (auto simp: unread_def)
  next
    case None
    with spec have quiet: "speaking parse (sp_buffer p) = []" "find_char NEWLINE buf = None"
      "\<And>t. speaking parse (sp_buffer p @ t) = speaking parse (buf @ t)" by simp_all
    show ?thesis
    proof (cases "sp_inner p")
      case Nil
      have "try_parse parse (sp_backend_id p) lat buf = (None, buf)" using quiet(2) by (simp add: try_parse.simps)
      then have "r = Some (Done (sp_backend_id p) lat)" "p' = p\<lparr>sp_buffer := buf\<rparr>"
        using "1.prems"(2) parsed None Nil by (auto simp: sse_poll_next.simps [of parse lat p] split: if_splits)
      then show ?thesis using Nil quiet(1) quiet(3) [of "[]"] by (simp add: unread_def)
    next
      case (Cons piece rest)
      then obtain bytes where piece: "piece = Inr bytes" using "1.prems"(1) by (cases piece) simp_all
      let ?p = "p\<lparr>sp_inner := rest, sp_buffer := buf @ from_utf8_lossy bytes\<rparr>"
      have "sse_poll_next parse lat ?p = (r, p')"
        using "1.prems"(2) parsed None Cons piece by (simp add: sse_poll_next.simps [of parse lat p])
      moreover have "\<not> list_ex isl (sp_inner ?p)" using "1.prems"(1) Cons by simp
      moreover have "speaking parse (unread ?p) = speaking parse (unread p)"
        using quiet(3) by (simp add: unread_def Cons piece)
      ultimately show ?thesis using "1.IH" [OF parsed [symmetric] None Cons piece] by (simp cong: list.case_cong)
    qed
  qed
qed

text \<open>Every poll yields an item, whatever the body: the stream does not end.\<close>

lemma sse_poll_some: "fst (sse_poll_next parse lat p) \<noteq> None"
proof (induction parse lat p rule: sse_poll_next.induct)
  case (1 parse lat p)
  then show ?case
    by (subst sse_poll_next.simps) (auto split: prod.split option.split list.split sum.split)
qed

lemma sse_stream_Next:
  "sse_poll_next parse (lat k) p = (Some c, p') \<Longrightarrow> sse_stream parse lat k p = Next c (sse_stream parse lat (Suc k) p')"
  by (subst sse_stream.code) simp

lemma sse_stream_endless: "endless (sse_stream parse lat k p)"
  unfolding endless_def
proof
  fix n
  show "item n (sse_stream parse lat k p) \<noteq> None"
  proof (induction n arbitrary: k p)
    case 0
    obtain c p' where "sse_poll_next parse (lat k) p = (Some c, p')" using sse_poll_some [of parse "lat k" p] by (metis fst_conv not_None_eq surj_pair)
    then show ?case by (simp add: sse_stream_Next)
  next
    case (Suc n)
    obtain c p' where "sse_poll_next parse (lat k) p = (Some c, p')" using sse_poll_some [of parse "lat k" p] by (metis fst_conv not_None_eq surj_pair)
    then show ?case using Suc by (simp add: sse_stream_Next)
  qed
qed

lemma sse_stream_item:
  assumes "\<not> list_ex isl (sp_inner p)"
  shows "item n (sse_stream parse lat k p) =
    Some (let ls = speaking parse (unread p)
          in if n < length ls then the (line_chunk parse (sp_backend_id p) (lat (k + n)) (ls ! n)) else Done (sp_backend_id p) (lat (k + n)))"
  using assms
proof (induction n arbitrary: k p)
  case 0
  obtain r p' where poll: "sse_poll_next parse (lat k) p = (r, p')" by fastforce
  from sse_poll_spec [OF 0 poll] obtain c where "r = Some c"
    "c = (case speaking parse (unread p) of [] \<Rightarrow> Done (sp_backend_id p) (lat k) | l # ls \<Rightarrow> the (line_chunk parse (sp_backend_id p) (lat k) l))"
    by blast
  then show ?case using sse_stream_Next [of parse lat k p, OF poll [unfolded \<open>r = Some c\<close>]] by (simp add: Let_def split: list.split)
next
  case (Suc n)
  obtain r p' where poll: "sse_poll_next parse (lat k) p = (r, p')" by fastforce
  note spec = sse_poll_spec [OF Suc.prems poll]
  then obtain c where r: "r = Some c" by blast
  have "\<not> list_ex isl (sp_inner p')" "sp_backend_id p' = sp_backend_id p" "speaking parse (unread p') = tl (speaking parse (unread p))"
    using spec by blast+
  then show ?case
    using Suc.IH [of p' "Suc k"] sse_stream_Next [of parse lat k p, OF poll [unfolded r]] by (cases "speaking parse (unread p)") (simp_all add: Let_def)
qed

text \<open>However the network cuts a body of whole characters into pieces, poll number n of the parser of server-sent events yields the
  chunk of the n-th line that has one, and a Done after the last such line; every later poll yields Done again.\<close>

theorem sse_body_chunks:
  assumes "list_all utf8_ok pieces"
  shows "item n (sse_stream parse lat 0 (sse_new (map Inr pieces) b)) =
    Some (let ls = speaking parse (concat pieces)
          in if n < length ls then the (line_chunk parse b (lat n) (ls ! n)) else Done b (lat n))"
proof -
  have "\<not> list_ex isl (map Inr pieces :: body)" by (induction pieces) simp_all
  moreover have "map from_utf8_lossy pieces = pieces" using assms by (auto simp: list_all_iff lossy_ok intro: map_idI)
  ultimately show ?thesis
    using sse_stream_item [of "sse_new (map Inr pieces) b" n parse lat 0] by (simp add: sse_new_def unread_def comp_def Let_def)
qed

theorem sse_body_chunks_witness:
  "item 1 (sse_stream (\<lambda>d. Some \<lparr>ck_choices = [\<lparr>ch_delta = \<lparr>cd_content = Some d, cd_tool_calls = []\<rparr>, ch_finish_reason = None\<rparr>]\<rparr>) (\<lambda>k. 7) 0
     (sse_new (map Inr [''data: a'', NEWLINE # ''data: [DONE]'', [NEWLINE]]) (BackendId (RegionId ''eu'') (BackendInstanceId ''a'')))) =
   Some (Done (BackendId (RegionId ''eu'') (BackendInstanceId ''a'')) 7)"
proof -
  let ?parse = "\<lambda>d. Some \<lparr>ck_choices = [\<lparr>ch_delta = \<lparr>cd_content = Some d, cd_tool_calls = []\<rparr>, ch_finish_reason = None\<rparr>]\<rparr>"
    and ?pieces = "[''data: a'', NEWLINE # ''data: [DONE]'', [NEWLINE]]" and ?b = "BackendId (RegionId ''eu'') (BackendInstanceId ''a'')"
  have "ascii ''data: a''" "ascii (NEWLINE # ''data: [DONE]'')" "ascii [NEWLINE]" "ascii ''a''" "ascii ''[DONE]''"
    by (simp_all add: ascii_def byte_def NEWLINE_def)
  note eval = this ascii_trim ascii_trim_def white_space_def byte_def trim_end_cr_def strip_prefix_def line_chunk_def find_map_def List.map_filter_def choice_chunk_def
  have ok: "list_all utf8_ok ?pieces" by (simp add: ascii_ok eval)
  have "complete_lines (concat ?pieces) = [''data: a'', ''data: [DONE]'']" by (simp add: complete_lines.simps find_char_def NEWLINE_def)
  then have "speaking ?parse (concat ?pieces) = [''data: a'', ''data: [DONE]'']" by (simp add: speaking_def eval)
  moreover have "line_chunk ?parse ?b 7 ''data: [DONE]'' = Some (Done ?b 7)" by (simp add: eval)
  ultimately show ?thesis using sse_body_chunks [OF ok, of 1 ?parse "\<lambda>k. 7" ?b] by simp
qed

text \<open>When the network cuts one character into two pieces, the parser yields what it would for a body in which replacement
  characters stand in the place of that character: one for each byte of its second piece, and one for the first.\<close>

theorem sse_cut_character:
  assumes "utf8_ok x" "utf8_ok y" "is_char u" "0 < j" "j < length u"
  shows "item n (sse_stream parse lat 0 (sse_new [Inr (x @ take j u), Inr (drop j u @ y)] b)) =
    item n (sse_stream parse lat 0 (sse_new [Inr (x @ concat (replicate (Suc (length u - j)) REPLACEMENT) @ y)] b))"
proof -
  let ?r = "concat (replicate (Suc (length u - j)) REPLACEMENT)"
  have "utf8_ok (x @ ?r @ y)" by (intro utf8_ok_append replacements_ok assms(1,2))
  then have "from_utf8_lossy (x @ ?r @ y) = x @ from_utf8_lossy (take j u) @ from_utf8_lossy (drop j u @ y)"
    unfolding cut_char_lossy [OF assms(3-5)] using assms(2) by (simp only: lossy_ok)
  then show ?thesis using assms(1) by (simp add: sse_stream_item sse_new_def unread_def lossy_append lossy_ok Let_def)
qed

theorem sse_cut_character_witness:
  "item 0 (sse_stream (\<lambda>d. None) (\<lambda>k. 7) 0 (sse_new [Inr (''data: '' @ take 1 (map char_of [195 :: nat, 169])),
      Inr (drop 1 (map char_of [195 :: nat, 169]) @ [NEWLINE])] (BackendId (RegionId ''eu'') (BackendInstanceId ''a'')))) =
   item 0 (sse_stream (\<lambda>d. None) (\<lambda>k. 7) 0 (sse_new [Inr (''data: '' @ concat (replicate 2 REPLACEMENT) @ [NEWLINE])]
      (BackendId (RegionId ''eu'') (BackendInstanceId ''a''))))"
proof -
  let ?u = "map char_of [195 :: nat, 169]"
  have "utf8_ok ''data: ''" "utf8_ok [NEWLINE]" "is_char ?u" by code_simp+
  then show ?thesis
    using sse_cut_character [of "''data: ''" "[NEWLINE]" ?u 1 0 "\<lambda>d. None" "\<lambda>k. 7" "BackendId (RegionId ''eu'') (BackendInstanceId ''a'')"]
    by (simp add: numeral_2_eq_2)
qed

section \<open>Discovery, health, metrics\<close>

record health_status =
  hs_status :: backend_status
  hs_healthy_since_unix :: u64
  hs_error_count :: u32

definition health_healthy :: "u64 \<Rightarrow> health_status" where
  "health_healthy since = \<lparr>hs_status = Healthy, hs_healthy_since_unix = since, hs_error_count = 0\<rparr>"

definition health_unhealthy :: "u64 \<Rightarrow> u32 \<Rightarrow> health_status" where
  "health_unhealthy since n = \<lparr>hs_status = Unhealthy, hs_healthy_since_unix = since, hs_error_count = n\<rparr>"

definition health_default :: health_status where
  "health_default = \<lparr>hs_status = UnknownStatus, hs_healthy_since_unix = 0, hs_error_count = 0\<rparr>"

definition open_ai_health_check :: "(string \<Rightarrow> http_result) \<Rightarrow> u64 \<Rightarrow> open_ai_connector \<Rightarrow> health_status" where
  "open_ai_health_check get now c =
     (case get (oc_base_url c @ ''/health'') of
        Inr r \<Rightarrow> if is_success r then health_healthy now
                 else \<lparr>hs_status = Unhealthy, hs_healthy_since_unix = now, hs_error_count = 1\<rparr>
      | Inl e \<Rightarrow> health_unhealthy now 1)"

definition plain_model :: "string \<Rightarrow> model_instance" where
  "plain_model name = \<lparr>model_name = name, model_architecture = ''unknown'', mi_quantization = Fp16, max_context_len = 32768,
     supports_tool_calling = False, supports_streaming = True\<rparr>"

text \<open>\<open>read_models\<close>: the body of the answer read as JSON, the ids of its models or the text of the error.\<close>

definition fetch_models :: "(string \<Rightarrow> http_result) \<Rightarrow> (body \<Rightarrow> string + string list) \<Rightarrow> open_ai_connector \<Rightarrow> gateway_error + model_instance list" where
  "fetch_models get read_models c =
     (case get (oc_base_url c @ ''/v1/models'') of
        Inl e \<Rightarrow> Inl (ConnectorError (''failed to fetch model list: '' @ e))
      | Inr r \<Rightarrow>
          if \<not> is_success r then Inr []
          else (case read_models (hr_body r) of
                  Inl e \<Rightarrow> Inl (ConnectorError (''failed to parse model list: '' @ e))
                | Inr ids \<Rightarrow> Inr (map plain_model ids)))"

definition open_ai_discover :: "(string \<Rightarrow> http_result) \<Rightarrow> (body \<Rightarrow> string + string list) \<Rightarrow> open_ai_connector \<Rightarrow> backend_info list" where
  "open_ai_discover get read_models c =
     (let models = (case fetch_models get read_models c of Inr ms \<Rightarrow> ms | Inl e \<Rightarrow> [])
      in [\<lparr>bi_id = open_ai_backend_id c, bi_type = oc_backend_type c, bi_endpoint = \<lparr>ep_url = oc_base_url c, ep_protocol = Http\<rparr>,
           bi_models = (if models = [] then map plain_model (oc_models c) else models), bi_region = oc_region c,
           bi_domain = IndexerDomainId 0,
           bi_capabilities = \<lparr>supports_kv_events = False, supports_batching = True, max_batch_size = 0, gpu_count = 0, gpu_memory_gb = 0\<rparr>,
           bi_kv_config = \<lparr>kc_block_size = oc_kv_block_size c, kc_cache_namespace = [], max_kv_blocks = 0\<rparr>,
           bi_status = Healthy\<rparr>])"

definition metrics_at :: "i64 \<Rightarrow> backend_metrics" where
  "metrics_at now = \<lparr>active_requests = 0, queue_depth = 0, active_decode_blocks = 0, active_prefill_tokens = 0, kv_used_blocks = 0,
     kv_total_blocks = 0, gpu_utilization = Fin 0, gpu_memory_used_mb = 0, gpu_memory_total_mb = 0,
     bm_latency = \<lparr>p50_ms = Fin 0, p99_ms = Fin 0, p999_ms = Fin 0, sample_count = 0\<rparr>, bm_timestamp = now\<rparr>"

definition rfind_char :: "char \<Rightarrow> string \<Rightarrow> nat option" where
  "rfind_char c s = map_option (\<lambda>n. length s - 1 - n) (find_char c (rev s))"

definition parse_prom_line :: "fpu \<Rightarrow> string \<Rightarrow> (string \<times> f64) option" where
  "parse_prom_line F line =
     (case rfind_char (CHR '' '') line of
        None \<Rightarrow> None
      | Some space \<Rightarrow>
          (let name_part = take space line
           in case parse_f64 F (drop (space + 1) line) of
                None \<Rightarrow> None
              | Some v \<Rightarrow> Some ((case find_char (CHR ''{'') name_part of Some brace \<Rightarrow> take brace name_part | None \<Rightarrow> name_part), v)))"

definition apply_prom_sample :: "fpu \<Rightarrow> string \<times> f64 \<Rightarrow> backend_metrics \<Rightarrow> backend_metrics" where
  "apply_prom_sample F sample m =
     (let (name, v) = sample
      in if name = ''vllm:num_requests_running'' \<or> name = ''hier_kv_gateway:active_requests'' then m\<lparr>active_requests := f64_to_u64 v\<rparr>
         else if name = ''vllm:num_requests_waiting'' \<or> name = ''hier_kv_gateway:queue_depth'' then m\<lparr>queue_depth := f64_to_u64 v\<rparr>
         else if name = ''vllm:gpu_cache_usage_perc'' \<or> name = ''hier_kv_gateway:kv_cache_usage'' then
           m\<lparr>kv_used_blocks := f64_to_u64 (f64_mul F v (Fin 1000)),
             kv_total_blocks := if kv_total_blocks m = 0 then 1000 else kv_total_blocks m\<rparr>
         else if name = ''vllm:gpu_utilization'' \<or> name = ''hier_kv_gateway:gpu_utilization'' then m\<lparr>gpu_utilization := v\<rparr>
         else m)"

definition parse_prometheus_metrics :: "fpu \<Rightarrow> string \<Rightarrow> backend_metrics \<Rightarrow> backend_metrics" where
  "parse_prometheus_metrics F text metrics =
     foldl (\<lambda>m raw. let line = trim raw
                     in if line = [] \<or> hd line = CHR 0x23 then m
                        else (case parse_prom_line F line of Some sample \<Rightarrow> apply_prom_sample F sample m | None \<Rightarrow> m))
       metrics (lines text)"

definition open_ai_collect_metrics :: "fpu \<Rightarrow> (string \<Rightarrow> http_result) \<Rightarrow> i64 \<Rightarrow> open_ai_connector \<Rightarrow> backend_metrics" where
  "open_ai_collect_metrics F get now c =
     (case get (oc_base_url c @ ''/metrics'') of
        Inr r \<Rightarrow> if is_success r then parse_prometheus_metrics F (body_text r) (metrics_at now) else metrics_at now
      | Inl e \<Rightarrow> metrics_at now)"

text \<open>
  A sample may end with a timestamp. With labels, the name before the brace is found and the timestamp is taken for the value;
  without labels the sample is not recognised.
\<close>

lemma prom_timestamp_as_value:
  "parse_prom_line exact_fpu (''n{m='' @ [CHR 0x22, CHR ''a'', CHR 0x22] @ ''} 3 1700'') = Some (''n'', Fin 1700)"
  "parse_prom_line exact_fpu ''n 3 1700'' = Some (''n 3'', Fin 1700)"
  "parse_prom_line exact_fpu ''n 3'' = Some (''n'', Fin 3)"
  by (simp_all add: parse_prom_line_def rfind_char_def find_char_def parse_f64_def parse_unsigned_def parse_sign_def is_digit_def byte_def
      digits_value_def exact_fpu_def)

text \<open>A final event with an empty text loses its finish reason.\<close>

lemma empty_content_loses_reason:
  "choice_chunk \<lparr>ch_delta = \<lparr>cd_content = Some [], cd_tool_calls = []\<rparr>, ch_finish_reason = Some reason\<rparr> = None"
  "choice_chunk \<lparr>ch_delta = \<lparr>cd_content = None, cd_tool_calls = []\<rparr>, ch_finish_reason = Some reason\<rparr> = Some (Delta [] (Some reason))"
  by (simp_all add: choice_chunk_def find_map_def List.map_filter_def)

end
