(* ===== verification/Sglang.thy ===== *)
theory Sglang
  imports OpenAiCompat
begin

text \<open>
  The SGLang connector, \<open>crates/hier-kv-gateway-connector/src/sglang.rs\<close>: the native \<open>/generate\<close> request, the parser of its stream,
  which turns accumulated text back into increments, and the metrics of \<open>/get_server_info\<close>. HTTP, JSON and the clock are
  parameters as in the OpenAI-compatible connector. Slicing a \<open>String\<close> inside a character panics.
\<close>

section \<open>Requests\<close>

record sglang_connector =
  sg_inner_connector :: open_ai_connector
  sg_base_url :: string
  sg_kv_block_size :: u32
  sg_emit_token_ids :: bool

definition sglang_new :: "string \<Rightarrow> region_id \<Rightarrow> string \<Rightarrow> string list \<Rightarrow> u32 \<Rightarrow> sglang_connector" where
  "sglang_new url region inst models block =
     \<lparr>sg_inner_connector = open_ai_new url SglangEngine region inst models block, sg_base_url = url, sg_kv_block_size = block,
      sg_emit_token_ids = False\<rparr>"

definition sglang_with_emit_token_ids :: "bool \<Rightarrow> sglang_connector \<Rightarrow> sglang_connector" where
  "sglang_with_emit_token_ids emit c = c\<lparr>sg_emit_token_ids := emit\<rparr>"

definition sglang_from_endpoint :: "endpoint \<Rightarrow> region_id \<Rightarrow> string list \<Rightarrow> u32 \<Rightarrow> sglang_connector" where
  "sglang_from_endpoint ep region models block = sglang_new (ep_url ep) region (instance_of_url (ep_url ep)) models block"

record generate_request =
  gr_input_ids :: "u32 list"
  gr_max_new_tokens :: u32
  gr_temperature :: f64
  gr_stream :: bool

definition generate_body :: "inference_request \<Rightarrow> generate_request" where
  "generate_body req = \<lparr>gr_input_ids = ir_token_ids req, gr_max_new_tokens = ir_max_tokens req, gr_temperature = ir_temperature req,
     gr_stream = True\<rparr>"

section \<open>The parser\<close>

record generate_stream_chunk =
  gsc_text :: string
  gsc_meta_info :: "string option option"

record generate_parser =
  gp_inner :: body
  gp_buffer :: string
  gp_backend_id :: backend_id
  gp_emitted_len :: nat
  gp_finished :: bool
  gp_done_emitted :: bool

definition generate_new :: "body \<Rightarrow> backend_id \<Rightarrow> generate_parser" where
  "generate_new inner b = \<lparr>gp_inner = inner, gp_buffer = [], gp_backend_id = b, gp_emitted_len = 0, gp_finished = False, gp_done_emitted = False\<rparr>"

definition is_char_boundary :: "nat \<Rightarrow> string \<Rightarrow> bool" where
  "is_char_boundary n s \<longleftrightarrow> n = 0 \<or> n = length s \<or> (n < length s \<and> \<not> byte_in 128 191 n s)"

text \<open>The increment and the new length, unless the slice panics.\<close>

definition delta_text :: "string \<Rightarrow> nat \<Rightarrow> (string \<times> nat) option" where
  "delta_text text emitted =
     (if emitted \<le> length text then
        (if is_char_boundary emitted text then Some (drop emitted text, length text) else None)
      else Some (text, emitted + length text))"

text \<open>What one line makes the parser do: nothing, yield a chunk, or panic.\<close>

datatype outcome = is_skip: Skip | is_emit: Emit (emitted_chunk: inference_chunk) | is_crash: Crash

definition generate_line :: "(string \<Rightarrow> generate_stream_chunk option) \<Rightarrow> u64 \<Rightarrow> string \<Rightarrow> generate_parser \<Rightarrow> outcome \<times> generate_parser" where
  "generate_line parse lat raw p =
     (let line = trim_end_cr raw
      in if line = [] then (Skip, p)
         else case strip_prefix ''data: '' line of
                None \<Rightarrow> (Skip, p)
              | Some data \<Rightarrow>
                  if trim data = ''[DONE]'' then
                    (Emit (Done (gp_backend_id p) lat), p\<lparr>gp_finished := True, gp_done_emitted := True\<rparr>)
                  else (case parse data of
                          None \<Rightarrow> (Skip, p)
                        | Some chunk \<Rightarrow>
                            (case delta_text (gsc_text chunk) (gp_emitted_len p) of
                               None \<Rightarrow> (Crash, p)
                             | Some (delta, emitted) \<Rightarrow>
                                 (let finish_reason = (case gsc_meta_info chunk of Some r \<Rightarrow> r | None \<Rightarrow> None);
                                      q = p\<lparr>gp_emitted_len := emitted, gp_finished := gp_finished p \<or> finish_reason \<noteq> None\<rparr>
                                  in if delta = [] \<and> finish_reason = None then (Skip, q) else (Emit (Delta delta finish_reason), q)))))"

function generate_try_parse :: "(string \<Rightarrow> generate_stream_chunk option) \<Rightarrow> u64 \<Rightarrow> generate_parser \<Rightarrow> outcome \<times> generate_parser" where
  "generate_try_parse parse lat p =
     (case find_char NEWLINE (gp_buffer p) of
        None \<Rightarrow> (Skip, p)
      | Some n \<Rightarrow>
          (case generate_line parse lat (take n (gp_buffer p)) p of
             (Skip, q) \<Rightarrow> generate_try_parse parse lat (q\<lparr>gp_buffer := drop (n + 1) (gp_buffer p)\<rparr>)
           | (r, q) \<Rightarrow> (r, q\<lparr>gp_buffer := drop (n + 1) (gp_buffer p)\<rparr>)))"
  by pat_completeness auto
termination
  by (relation "measure (\<lambda>(parse, lat, p). length (gp_buffer p))") (auto dest: find_char_less)

declare generate_try_parse.simps [simp del]

definition generate_finish :: "u64 \<Rightarrow> generate_parser \<Rightarrow> outcome \<times> generate_parser" where
  "generate_finish lat p = (Emit (Done (gp_backend_id p) lat), p\<lparr>gp_finished := True, gp_done_emitted := True\<rparr>)"

text \<open>The loop of \<open>poll_next\<close>.\<close>

function generate_loop :: "(string \<Rightarrow> generate_stream_chunk option) \<Rightarrow> u64 \<Rightarrow> generate_parser \<Rightarrow> outcome \<times> generate_parser" where
  "generate_loop parse lat p =
     (case generate_try_parse parse lat p of
        (Skip, q) \<Rightarrow>
          (case gp_inner p of
             Inr bytes # rest \<Rightarrow> generate_loop parse lat (q\<lparr>gp_inner := rest, gp_buffer := gp_buffer q @ from_utf8_lossy bytes\<rparr>)
           | Inl e # rest \<Rightarrow> (Emit (ChunkError 502 (''sglang stream read error: '' @ e)), q\<lparr>gp_inner := rest\<rparr>)
           | [] \<Rightarrow>
               if gp_buffer q \<noteq> [] then
                 (case generate_try_parse parse lat (q\<lparr>gp_buffer := gp_buffer q @ [NEWLINE]\<rparr>) of
                    (Skip, q') \<Rightarrow> generate_finish lat q'
                  | r \<Rightarrow> r)
               else generate_finish lat q)
      | r \<Rightarrow> r)"
  by pat_completeness auto
termination
  by (relation "measure (\<lambda>(parse, lat, p). length (gp_inner p))") auto

declare generate_loop.simps [simp del]

definition generate_poll_next :: "(string \<Rightarrow> generate_stream_chunk option) \<Rightarrow> u64 \<Rightarrow> generate_parser \<Rightarrow> outcome option \<times> generate_parser" where
  "generate_poll_next parse lat p =
     (if gp_finished p then
        (if gp_done_emitted p then (None, p)
         else (Some (Emit (Done (gp_backend_id p) lat)), p\<lparr>gp_done_emitted := True\<rparr>))
      else map_prod Some id (generate_loop parse lat p))"

primcorec generate_stream :: "(string \<Rightarrow> generate_stream_chunk option) \<Rightarrow> (nat \<Rightarrow> u64) \<Rightarrow> nat \<Rightarrow> generate_parser \<Rightarrow> inference_chunk source" where
  "generate_stream parse lat k p =
     (case generate_poll_next parse (lat k) p of
        (r, p') \<Rightarrow> (case r of
            None \<Rightarrow> Ended
          | Some out \<Rightarrow> (case out of Emit c \<Rightarrow> Next c (generate_stream parse lat (Suc k) p') | Skip \<Rightarrow> Ended | Crash \<Rightarrow> Crashed)))"

section \<open>The connector\<close>

definition forward_generate :: "(string \<Rightarrow> generate_stream_chunk option) \<Rightarrow> (string \<Rightarrow> generate_request \<Rightarrow> http_result) \<Rightarrow> (nat \<Rightarrow> u64)
    \<Rightarrow> backend_id \<Rightarrow> inference_request \<Rightarrow> sglang_connector \<Rightarrow> gateway_error + inference_chunk source" where
  "forward_generate gparse gpost lat b req c =
     (case gpost (sg_base_url c @ ''/generate'') (generate_body req) of
        Inl e \<Rightarrow> Inl (ConnectorError (''sglang /generate failed: '' @ e))
      | Inr resp \<Rightarrow>
          if \<not> is_success resp then
            Inl (ConnectorError (''sglang /generate returned HTTP '' @ show_nat (hr_status resp) @ '': '' @ body_text resp))
          else Inr (generate_stream gparse lat 0 (generate_new (hr_body resp) b)))"

definition sglang_forward :: "(string \<Rightarrow> json option) \<Rightarrow> (string \<Rightarrow> completion_chunk option) \<Rightarrow> (string \<Rightarrow> generate_stream_chunk option)
    \<Rightarrow> (string \<Rightarrow> request_body \<Rightarrow> http_result) \<Rightarrow> (string \<Rightarrow> generate_request \<Rightarrow> http_result) \<Rightarrow> (nat \<Rightarrow> u64)
    \<Rightarrow> backend_id \<Rightarrow> inference_request \<Rightarrow> sglang_connector \<Rightarrow> gateway_error + inference_chunk source" where
  "sglang_forward json_parse parse gparse post gpost lat b req c =
     (if sg_emit_token_ids c \<and> ir_token_ids req \<noteq> [] then forward_generate gparse gpost lat b req c
      else open_ai_forward json_parse parse post lat b req (sg_inner_connector c))"

text \<open>\<open>v.max(0.0) as u64\<close>, and the first of the keys that holds a number.\<close>

definition state_u64 :: "fpu \<Rightarrow> json \<Rightarrow> string list \<Rightarrow> u64 option" where
  "state_u64 F st keys =
     map_option (\<lambda>v. f64_to_u64 (f64_max v (Fin 0))) (find_map (\<lambda>k. Option.bind (json_get k st) (json_as_f64 F)) keys)"

definition map_server_info_metrics :: "fpu \<Rightarrow> json \<Rightarrow> u32 \<Rightarrow> i64 \<Rightarrow> backend_metrics" where
  "map_server_info_metrics F v kv_block_size now =
     (let st = (case json_get ''internal_states'' v of
                  None \<Rightarrow> v
                | Some s \<Rightarrow> (case json_as_array s of Some xs \<Rightarrow> (case xs of x # _ \<Rightarrow> x | [] \<Rightarrow> v) | None \<Rightarrow> s));
          block = unat (max kv_block_size 1);
          m1 = (metrics_at now)\<lparr>
            active_requests := (case state_u64 F st [''num_running_reqs'', ''running_reqs''] of Some n \<Rightarrow> n | None \<Rightarrow> 0),
            queue_depth := (case state_u64 F st [''num_queue_reqs'', ''num_waiting_reqs''] of Some n \<Rightarrow> n | None \<Rightarrow> 0)\<rparr>;
          m2 = (case state_u64 F st [''num_used_tokens''] of Some used \<Rightarrow> m1\<lparr>kv_used_blocks := of_nat (unat used div block)\<rparr> | None \<Rightarrow> m1);
          total = (case state_u64 F st [''max_total_num_tokens''] of Some n \<Rightarrow> Some n | None \<Rightarrow> state_u64 F v [''max_total_num_tokens''])
      in case total of Some n \<Rightarrow> m2\<lparr>kv_total_blocks := of_nat (unat n div block)\<rparr> | None \<Rightarrow> m2)"

text \<open>\<open>read_json\<close>: the body of the answer read as JSON.\<close>

definition fetch_server_info_metrics :: "fpu \<Rightarrow> (string \<Rightarrow> http_result) \<Rightarrow> (body \<Rightarrow> json option) \<Rightarrow> i64 \<Rightarrow> sglang_connector \<Rightarrow> backend_metrics option" where
  "fetch_server_info_metrics F get read_json now c =
     (case get (sg_base_url c @ ''/get_server_info'') of
        Inl e \<Rightarrow> None
      | Inr r \<Rightarrow> if \<not> is_success r then None
                 else map_option (\<lambda>v. map_server_info_metrics F v (sg_kv_block_size c) now) (read_json (hr_body r)))"

definition sglang_collect_metrics :: "fpu \<Rightarrow> (string \<Rightarrow> http_result) \<Rightarrow> (body \<Rightarrow> json option) \<Rightarrow> i64 \<Rightarrow> sglang_connector \<Rightarrow> backend_metrics" where
  "sglang_collect_metrics F get read_json now c =
     (case fetch_server_info_metrics F get read_json now c of
        Some m \<Rightarrow> m
      | None \<Rightarrow> open_ai_collect_metrics F get now (sg_inner_connector c))"

section \<open>The stream ends\<close>

fun is_done :: "inference_chunk \<Rightarrow> bool" where
  "is_done (Done b l) = True"
| "is_done c = False"

definition open_parser :: "generate_parser \<Rightarrow> bool" where
  "open_parser p \<longleftrightarrow> \<not> gp_finished p \<and> \<not> gp_done_emitted p"

text \<open>What a step that yields a chunk makes sure of: the end has come, or the parser has moved on.\<close>

definition progress :: "(generate_parser \<Rightarrow> bool) \<Rightarrow> inference_chunk \<Rightarrow> generate_parser \<Rightarrow> bool" where
  "progress smaller c q \<longleftrightarrow>
     (if is_done c then (\<exists>l. c = Done (gp_backend_id q) l) \<and> gp_finished q \<and> gp_done_emitted q
      else \<not> gp_done_emitted q \<and> (gp_finished q \<or> smaller q))"

lemma generate_line_frame:
  assumes "generate_line parse lat raw p = (r, q)"
  shows "gp_inner q = gp_inner p" "gp_buffer q = gp_buffer p" "gp_backend_id q = gp_backend_id p"
  using assms by (auto simp: generate_line_def Let_def split: if_splits option.splits prod.splits)

lemma generate_line_step:
  assumes "generate_line parse lat raw p = (r, q)" "open_parser p"
  shows "r = Skip \<Longrightarrow> open_parser q"
    and "r = Emit c \<Longrightarrow> if is_done c then c = Done (gp_backend_id p) lat \<and> gp_finished q \<and> gp_done_emitted q else \<not> gp_done_emitted q"
  using assms by (auto simp: generate_line_def Let_def open_parser_def split: if_splits option.splits prod.splits)

lemma generate_try_parse_step:
  assumes "generate_try_parse parse lat p = (r, q)" "open_parser p"
  shows "gp_inner q = gp_inner p \<and> gp_backend_id q = gp_backend_id p \<and>
    (case r of Skip \<Rightarrow> open_parser q \<and> find_char NEWLINE (gp_buffer q) = None \<and> length (gp_buffer q) \<le> length (gp_buffer p)
     | Emit c \<Rightarrow> progress (\<lambda>q. length (gp_buffer q) < length (gp_buffer p)) c q | Crash \<Rightarrow> True)"
  using assms
proof (induction parse lat p arbitrary: r q rule: generate_try_parse.induct)
  case (1 parse lat p)
  show ?case
  proof (cases "find_char NEWLINE (gp_buffer p)")
    case None
    then show ?thesis using "1.prems" by (auto simp: generate_try_parse.simps)
  next
    case (Some n)
    have n: "n < length (gp_buffer p)" using Some by (rule find_char_less)
    obtain r' q' where line: "generate_line parse lat (take n (gp_buffer p)) p = (r', q')" by fastforce
    note frame = generate_line_frame [OF line] and step = generate_line_step [OF line "1.prems"(2)]
    show ?thesis
    proof (cases r')
      case Skip
      let ?p = "q'\<lparr>gp_buffer := drop (n + 1) (gp_buffer p)\<rparr>"
      have rec: "generate_try_parse parse lat ?p = (r, q)"
        using "1.prems"(1) Some line Skip by (simp add: generate_try_parse.simps [of parse lat p])
      have "open_parser ?p" using step(1) Skip by (simp add: open_parser_def)
      from "1.IH" [OF Some line [symmetric] Skip rec this] frame n show ?thesis
        by (auto simp: progress_def split: outcome.splits if_splits)
    qed (use "1.prems"(1) Some line frame step n in
      \<open>auto simp: generate_try_parse.simps [of parse lat p] progress_def\<close>)
  qed
qed

text \<open>A panic needs a text with a character of several bytes: the slice falls inside it.\<close>

definition splits_character :: "(string \<Rightarrow> generate_stream_chunk option) \<Rightarrow> bool" where
  "splits_character parse \<longleftrightarrow> (\<exists>d c n. parse d = Some c \<and> n < length (gsc_text c) \<and> byte_in 128 191 n (gsc_text c))"

lemma line_crash: "generate_line parse lat raw p = (Crash, q) \<Longrightarrow> splits_character parse"
  by (auto simp: generate_line_def Let_def delta_text_def is_char_boundary_def splits_character_def split: if_splits option.splits)
    (metis le_neq_implies_less)

lemma try_parse_crash: "generate_try_parse parse lat p = (Crash, q) \<Longrightarrow> splits_character parse"
proof (induction parse lat p arbitrary: q rule: generate_try_parse.induct)
  case (1 parse lat p)
  show ?case
  proof (cases "find_char NEWLINE (gp_buffer p)")
    case (Some n)
    obtain r' q' where line: "generate_line parse lat (take n (gp_buffer p)) p = (r', q')" by fastforce
    then show ?thesis
      using 1 Some line_crash by (cases r') (auto simp: generate_try_parse.simps [of parse lat p])
  qed (use "1.prems" in \<open>auto simp: generate_try_parse.simps\<close>)
qed

lemma loop_crash: "generate_loop parse lat p = (Crash, q) \<Longrightarrow> splits_character parse"
proof (induction parse lat p arbitrary: q rule: generate_loop.induct)
  case (1 parse lat p)
  obtain r1 p1 where tried: "generate_try_parse parse lat p = (r1, p1)" by fastforce
  show ?case
  proof (cases r1)
    case Skip
    then show ?thesis
      using "1.prems" "1.IH" [OF tried [symmetric] Skip] tried try_parse_crash
      by (subst (asm) generate_loop.simps) (fastforce simp: generate_finish_def split: list.splits sum.splits if_splits prod.splits outcome.splits)
  next
    case (Emit c)
    then show ?thesis using "1.prems" tried by (simp add: generate_loop.simps [of parse lat p])
  next
    case Crash
    then show ?thesis using tried try_parse_crash by blast
  qed
qed

definition before :: "generate_parser \<Rightarrow> generate_parser \<Rightarrow> bool" where
  "before q p \<longleftrightarrow> ((length (gp_inner q), length (gp_buffer q)), (length (gp_inner p), length (gp_buffer p))) \<in> less_than <*lex*> less_than"

lemma generate_loop_step:
  assumes "generate_loop parse lat p = (r, q)" "open_parser p"
  shows "r = Crash \<or> (\<exists>c. r = Emit c \<and> gp_backend_id q = gp_backend_id p \<and> progress (\<lambda>q. before q p) c q)"
  using assms
proof (induction parse lat p arbitrary: r q rule: generate_loop.induct)
  case (1 parse lat p)
  obtain r1 p1 where tried: "generate_try_parse parse lat p = (r1, p1)" by fastforce
  note step = generate_try_parse_step [OF tried "1.prems"(2)]
  show ?case
  proof (cases r1)
    case Skip
    with step have p1: "gp_inner p1 = gp_inner p" "gp_backend_id p1 = gp_backend_id p" "open_parser p1"
      "find_char NEWLINE (gp_buffer p1) = None" "length (gp_buffer p1) \<le> length (gp_buffer p)" by simp_all
    show ?thesis
    proof (cases "gp_inner p")
      case Nil
      show ?thesis
      proof (cases "gp_buffer p1 = []")
        case True
        then have "(r, q) = generate_finish lat p1"
          using "1.prems"(1) tried Skip Nil by (simp add: generate_loop.simps [of parse lat p])
        then show ?thesis by (simp add: generate_finish_def progress_def p1(2))
      next
        case False
        let ?p = "p1\<lparr>gp_buffer := gp_buffer p1 @ [NEWLINE]\<rparr>"
        obtain r2 p2 where again: "generate_try_parse parse lat ?p = (r2, p2)" by fastforce
        have "open_parser ?p" using p1(3) by (simp add: open_parser_def)
        note last = generate_try_parse_step [OF again this]
        have eq: "(r, q) = (case r2 of Skip \<Rightarrow> generate_finish lat p2 | _ \<Rightarrow> (r2, p2))"
          using "1.prems"(1) tried Skip Nil False again by (cases r2) (auto simp: generate_loop.simps [of parse lat p])
        show ?thesis
        proof (cases r2)
          case (Emit c)
          have "length (gp_buffer p2) = 0"
          proof -
            have "find_char NEWLINE (gp_buffer p1 @ [NEWLINE]) = Some (length (gp_buffer p1))"
              using p1(4) find_char_append [of NEWLINE "gp_buffer p1" "[]"] by (auto simp: find_char_def split: if_splits)
            then show ?thesis
              using again Emit find_char_def [of NEWLINE "[]"]
              by (subst (asm) generate_try_parse.simps) (auto simp: generate_try_parse.simps split: prod.splits outcome.splits)
          qed
          then show ?thesis
            using last eq Emit p1 False by (auto simp: progress_def before_def Nil split: if_splits)
        qed (use last eq p1 in \<open>simp_all add: generate_finish_def progress_def\<close>)
      qed
    next
      case (Cons piece rest)
      show ?thesis
      proof (cases piece)
        case (Inl e)
        then have "r = Emit (ChunkError 502 (''sglang stream read error: '' @ e))" "q = p1\<lparr>gp_inner := rest\<rparr>"
          using "1.prems"(1) tried Skip Cons by (simp_all add: generate_loop.simps [of parse lat p])
        then show ?thesis using p1 by (simp add: progress_def before_def Cons open_parser_def)
      next
        case (Inr bytes)
        let ?p = "p1\<lparr>gp_inner := rest, gp_buffer := gp_buffer p1 @ from_utf8_lossy bytes\<rparr>"
        have "generate_loop parse lat ?p = (r, q)"
          using "1.prems"(1) tried Skip Cons Inr by (simp add: generate_loop.simps [of parse lat p])
        moreover have "open_parser ?p" using p1(3) by (simp add: open_parser_def)
        ultimately show ?thesis
          using "1.IH" [OF tried [symmetric] Skip Cons Inr] p1 Cons by (fastforce simp: progress_def before_def split: if_splits)
      qed
    qed
  next
    case (Emit c)
    then have "r = Emit c" "q = p1" using "1.prems"(1) tried by (simp_all add: generate_loop.simps [of parse lat p])
    then show ?thesis using step Emit by (auto simp: progress_def before_def split: if_splits)
  next
    case Crash
    then show ?thesis using "1.prems"(1) tried by (simp add: generate_loop.simps [of parse lat p])
  qed
qed

lemma generate_stream_Next:
  "generate_poll_next parse (lat k) p = (Some (Emit c), p') \<Longrightarrow> generate_stream parse lat k p = Next c (generate_stream parse lat (Suc k) p')"
  "generate_poll_next parse (lat k) p = (Some Crash, p') \<Longrightarrow> generate_stream parse lat k p = Crashed"
  "generate_poll_next parse (lat k) p = (None, p') \<Longrightarrow> generate_stream parse lat k p = Ended"
  by (subst generate_stream.code, simp)+

lemma generate_stream_finished:
  assumes "gp_finished p"
  shows "generate_stream parse lat k p = (if gp_done_emitted p then Ended else once (Done (gp_backend_id p) (lat k)))"
proof (cases "gp_done_emitted p")
  case True
  then have "generate_poll_next parse (lat k) p = (None, p)" using assms by (simp add: generate_poll_next_def)
  then show ?thesis using True by (simp add: generate_stream_Next(3))
next
  case False
  let ?q = "p\<lparr>gp_done_emitted := True\<rparr>"
  have "generate_poll_next parse (lat k) p = (Some (Emit (Done (gp_backend_id p) (lat k))), ?q)"
    "generate_poll_next parse (lat (Suc k)) ?q = (None, ?q)"
    using assms False by (simp_all add: generate_poll_next_def)
  then show ?thesis using False by (simp add: generate_stream_Next [of parse lat k] generate_stream_Next(3) [of parse lat "Suc k"])
qed

lemma open_stream_ends:
  assumes "\<not> gp_finished p" "\<not> gp_done_emitted p"
  shows "\<exists>cs. list_all (\<lambda>c. \<not> is_done c) cs \<and>
    ((\<exists>l. generate_stream parse lat k p = source_of (cs @ [Done (gp_backend_id p) l])) \<or>
     generate_stream parse lat k p = chain (source_of cs) Crashed \<and> splits_character parse)"
proof -
  have "wf {(q, p). before q p}" unfolding before_def
    by (rule wf_inv_image [of _ "\<lambda>p. (length (gp_inner p), length (gp_buffer p))", unfolded inv_image_def]) (rule wf_lex_prod [OF wf_less_than wf_less_than])
  then show ?thesis using assms
  proof (induction p arbitrary: k rule: wf_induct_rule)
    case (less p)
    obtain r q where loop: "generate_loop parse (lat k) p = (r, q)" by fastforce
    then have poll: "generate_poll_next parse (lat k) p = (Some r, q)" using less.prems by (simp add: generate_poll_next_def)
    from generate_loop_step [OF loop] less.prems consider "r = Crash"
      | c where "r = Emit c" "gp_backend_id q = gp_backend_id p" "progress (\<lambda>q. before q p) c q"
      by (auto simp: open_parser_def)
    then show ?case
    proof cases
      case 1
      then show ?thesis
        using generate_stream_Next(2) [of parse lat k p] poll loop_crash [of parse "lat k" p q] loop by (intro exI [of _ "[]"]) simp
    next
      case (2 c)
      have first: "generate_stream parse lat k p = Next c (generate_stream parse lat (Suc k) q)"
        using generate_stream_Next(1) [of parse lat k p] poll 2(1) by simp
      show ?thesis
      proof (cases "gp_finished q")
        case True
        show ?thesis
        proof (cases "is_done c")
          case True
          then have "generate_stream parse lat k p = source_of ([] @ [Done (gp_backend_id p) (lat k)]) \<or>
              (\<exists>l. generate_stream parse lat k p = source_of ([] @ [Done (gp_backend_id p) l]))"
            using 2 first generate_stream_finished [OF \<open>gp_finished q\<close>] by (auto simp: progress_def)
          then show ?thesis by (intro exI [of _ "[]"]) auto
        next
          case False
          then show ?thesis
            using 2 first generate_stream_finished [OF \<open>gp_finished q\<close>] by (intro exI [of _ "[c]"]) (auto simp: progress_def)
        qed
      next
        case False
        then have "\<not> is_done c" "before q p" "\<not> gp_done_emitted q" using 2(3) by (auto simp: progress_def split: if_splits)
        with less.IH [of q "Suc k"] False obtain cs where "list_all (\<lambda>c. \<not> is_done c) cs"
          "(\<exists>l. generate_stream parse lat (Suc k) q = source_of (cs @ [Done (gp_backend_id q) l])) \<or>
           generate_stream parse lat (Suc k) q = chain (source_of cs) Crashed \<and> splits_character parse" by auto
        then show ?thesis using first 2(2) \<open>\<not> is_done c\<close> by (intro exI [of _ "c # cs"]) auto
      qed
    qed
  qed
qed

text \<open>Whatever the server sends, the stream of the SGLang parser is finite: it holds exactly one Done, as its last item, or it ends
  in the panic of a slice inside a character of a text.\<close>

theorem generate_stream_ends:
  "\<exists>cs. list_all (\<lambda>c. \<not> is_done c) cs \<and>
    ((\<exists>l. generate_stream parse lat 0 (generate_new body b) = source_of (cs @ [Done b l])) \<or>
     generate_stream parse lat 0 (generate_new body b) = chain (source_of cs) Crashed \<and> splits_character parse)"
  using open_stream_ends [of "generate_new body b" parse lat 0] by (simp add: generate_new_def)

section \<open>Increments\<close>

text \<open>The parser without its input, and the lines it still has to read: those that are not empty.\<close>

definition bare :: "generate_parser \<Rightarrow> generate_parser" where
  "bare p = p\<lparr>gp_inner := [], gp_buffer := []\<rparr>"

definition nonempty_lines :: "string \<Rightarrow> string list" where
  "nonempty_lines s = filter (\<lambda>l. trim_end_cr l \<noteq> []) (complete_lines s)"

fun consume :: "(string \<Rightarrow> generate_stream_chunk option) \<Rightarrow> u64 \<Rightarrow> string list \<Rightarrow> generate_parser \<Rightarrow> outcome \<times> generate_parser \<times> string list" where
  "consume parse lat [] p = (Skip, p, [])"
| "consume parse lat (l # ls) p =
     (case generate_line parse lat l p of (Skip, q) \<Rightarrow> consume parse lat ls q | (r, q) \<Rightarrow> (r, q, ls))"

lemma bare_simps [simp]:
  "gp_emitted_len (bare p) = gp_emitted_len p" "gp_finished (bare p) = gp_finished p" "gp_done_emitted (bare p) = gp_done_emitted p"
  "gp_backend_id (bare p) = gp_backend_id p" "bare (p\<lparr>gp_buffer := x\<rparr>) = bare p" "bare (p\<lparr>gp_inner := y\<rparr>) = bare p"
  by (simp_all add: bare_def)

lemma generate_line_bare: "generate_line parse lat l p = (r, q) \<Longrightarrow> generate_line parse lat l (bare p) = (r, bare q)"
  by (auto simp: generate_line_def Let_def bare_def split: if_splits option.splits prod.splits)

lemma nonempty_lines_step:
  assumes "find_char NEWLINE s = Some n"
  shows "nonempty_lines (s @ t) = (if trim_end_cr (take n s) = [] then [] else [take n s]) @ nonempty_lines (drop (n + 1) s @ t)"
  using complete_lines_step [OF assms, of t] by (simp add: nonempty_lines_def)

lemma consume_filtered:
  "consume parse lat ((if trim_end_cr l = [] then [] else [l]) @ ls) p =
    (case generate_line parse lat l p of (Skip, q) \<Rightarrow> consume parse lat ls q | (r, q) \<Rightarrow> (r, q, ls))"
  by (simp add: generate_line_def Let_def)

lemma generate_try_parse_consume:
  assumes "generate_try_parse parse lat p = (r, q)"
  shows "gp_inner q = gp_inner p \<and> (r = Skip \<longrightarrow> find_char NEWLINE (gp_buffer q) = None) \<and> (if r = Skip
    then consume parse lat (nonempty_lines (gp_buffer p @ t)) (bare p) = consume parse lat (nonempty_lines (gp_buffer q @ t)) (bare q)
    else consume parse lat (nonempty_lines (gp_buffer p @ t)) (bare p) = (r, bare q, nonempty_lines (gp_buffer q @ t)))"
  using assms
proof (induction parse lat p arbitrary: r q rule: generate_try_parse.induct)
  case (1 parse lat p)
  show ?case
  proof (cases "find_char NEWLINE (gp_buffer p)")
    case None
    then show ?thesis using "1.prems" by (auto simp: generate_try_parse.simps)
  next
    case (Some n)
    obtain r' q' where line: "generate_line parse lat (take n (gp_buffer p)) p = (r', q')" by fastforce
    let ?p = "q'\<lparr>gp_buffer := drop (n + 1) (gp_buffer p)\<rparr>"
    have eq: "consume parse lat (nonempty_lines (gp_buffer p @ t)) (bare p) =
        (case r' of Skip \<Rightarrow> consume parse lat (nonempty_lines (drop (n + 1) (gp_buffer p) @ t)) (bare q')
         | _ \<Rightarrow> (r', bare q', nonempty_lines (drop (n + 1) (gp_buffer p) @ t)))"
      unfolding nonempty_lines_step [OF Some] consume_filtered generate_line_bare [OF line] by (cases r') simp_all
    note frame = generate_line_frame [OF line]
    show ?thesis
    proof (cases r')
      case Skip
      then have "generate_try_parse parse lat ?p = (r, q)"
        using "1.prems" Some line by (simp add: generate_try_parse.simps [of parse lat p])
      then show ?thesis using "1.IH" [OF Some line [symmetric] Skip] eq Skip frame by (auto split: if_splits)
    qed (use "1.prems" Some line eq frame in \<open>auto simp: generate_try_parse.simps [of parse lat p]\<close>)
  qed
qed

text \<open>A line completed by the end of the body is the last.\<close>

lemma last_line_consumed:
  assumes "find_char NEWLINE (gp_buffer p) = None"
    and "generate_try_parse parse lat (p\<lparr>gp_buffer := gp_buffer p @ [NEWLINE]\<rparr>) = (r, q)"
  shows "gp_buffer q = []"
proof -
  have nl: "find_char NEWLINE (gp_buffer p @ [NEWLINE]) = Some (length (gp_buffer p))"
    using assms(1) find_char_append [of NEWLINE "gp_buffer p" "[]"] by (auto simp: find_char_def split: if_splits)
  have empty: "generate_try_parse parse lat (x\<lparr>gp_buffer := []\<rparr>) = (Skip, x\<lparr>gp_buffer := []\<rparr>)" for x
    by (simp add: generate_try_parse.simps find_char_def)
  show ?thesis using assms(2) by (subst (asm) generate_try_parse.simps) (auto simp: nl empty split: prod.splits outcome.splits)
qed

definition gp_unread :: "generate_parser \<Rightarrow> string" where
  "gp_unread p = gp_buffer p @ concat (map (\<lambda>piece. from_utf8_lossy (projr piece)) (gp_inner p))"

lemma generate_loop_consume:
  assumes "generate_loop parse lat p = (r, q)" "\<not> list_ex isl (gp_inner p)"
  shows "\<not> list_ex isl (gp_inner q) \<and>
    (case consume parse lat (nonempty_lines (gp_unread p @ [NEWLINE])) (bare p) of
       (Skip, b, ls) \<Rightarrow> r = Emit (Done (gp_backend_id b) lat) \<and> bare q = b\<lparr>gp_finished := True, gp_done_emitted := True\<rparr>
     | (r', b, ls) \<Rightarrow> r = r' \<and> bare q = b \<and> nonempty_lines (gp_unread q @ [NEWLINE]) = ls)"
  using assms
proof (induction parse lat p arbitrary: r q rule: generate_loop.induct)
  case (1 parse lat p)
  have blank: "nonempty_lines [] = []" "nonempty_lines [NEWLINE] = []"
    by (simp_all add: nonempty_lines_def complete_lines.simps find_char_def trim_end_cr_def)
  obtain r1 p1 where tried: "generate_try_parse parse lat p = (r1, p1)" by fastforce
  have parsed: "gp_inner p1 = gp_inner p" "r1 = Skip \<Longrightarrow> find_char NEWLINE (gp_buffer p1) = None"
    and lines: "consume parse lat (nonempty_lines (gp_buffer p @ t)) (bare p) =
      (if r1 = Skip then consume parse lat (nonempty_lines (gp_buffer p1 @ t)) (bare p1) else (r1, bare p1, nonempty_lines (gp_buffer p1 @ t)))" for t
    using generate_try_parse_consume [OF tried, of t] by (auto split: if_splits)
  show ?case
  proof (cases r1)
    case Skip
    show ?thesis
    proof (cases "gp_inner p")
      case Nil
      show ?thesis
      proof (cases "gp_buffer p1 = []")
        case True
        then have "(r, q) = generate_finish lat p1"
          using "1.prems"(1) tried Skip Nil by (simp add: generate_loop.simps [of parse lat p])
        moreover have "consume parse lat (nonempty_lines (gp_unread p @ [NEWLINE])) (bare p) = (Skip, bare p1, [])"
          using lines [of "[NEWLINE]"] Skip True Nil by (simp add: gp_unread_def blank)
        ultimately show ?thesis using Nil parsed(1) by (simp add: generate_finish_def) (simp add: bare_def)
      next
        case False
        let ?p = "p1\<lparr>gp_buffer := gp_buffer p1 @ [NEWLINE]\<rparr>"
        obtain r2 p2 where again: "generate_try_parse parse lat ?p = (r2, p2)" by fastforce
        have last: "gp_buffer p2 = []" by (rule last_line_consumed [OF parsed(2) [OF Skip] again])
        have "gp_inner p2 = []" "consume parse lat (nonempty_lines (gp_buffer p1 @ [NEWLINE])) (bare p1) =
            (if r2 = Skip then consume parse lat [] (bare p2) else (r2, bare p2, []))"
          using generate_try_parse_consume [OF again, of "[]"] parsed(1) Nil last blank by (auto split: if_splits)
        then show ?thesis
          using "1.prems"(1) tried Skip Nil False again lines [of "[NEWLINE]"] blank last
          by (cases r2) (auto simp: generate_loop.simps [of parse lat p] gp_unread_def generate_finish_def bare_def)
      qed
    next
      case (Cons piece rest)
      then obtain bytes where piece: "piece = Inr bytes" using "1.prems"(2) by (cases piece) simp_all
      let ?p = "p1\<lparr>gp_inner := rest, gp_buffer := gp_buffer p1 @ from_utf8_lossy bytes\<rparr>"
      have rec: "generate_loop parse lat ?p = (r, q)"
        using "1.prems"(1) tried Skip Cons piece by (simp add: generate_loop.simps [of parse lat p])
      have ok: "\<not> list_ex isl (gp_inner ?p)" using "1.prems"(2) Cons by simp
      have "consume parse lat (nonempty_lines (gp_unread p @ [NEWLINE])) (bare p) = consume parse lat (nonempty_lines (gp_unread ?p @ [NEWLINE])) (bare ?p)"
        using lines [of "concat (map (\<lambda>piece. from_utf8_lossy (projr piece)) (gp_inner p)) @ [NEWLINE]"] Skip
        by (simp add: gp_unread_def Cons piece)
      then show ?thesis using "1.IH" [OF tried [symmetric] Skip Cons piece rec ok] by (simp only: simp_thms not_False_eq_True)
    qed
  qed (use "1.prems" tried parsed(1) lines in \<open>auto simp: generate_loop.simps [of parse lat p] gp_unread_def\<close>)
qed

text \<open>The lines of the events as the server sends them, and what they carry.\<close>

definition event_line :: "string \<Rightarrow> string" where
  "event_line d = ''data: '' @ d"

text \<open>
  How events make up a body: each is a line with its data, and blank lines may come before, between and after them, as the one
  that ends every event of the protocol. The last line may lack its end. A line \<open>[DONE]\<close> ends the events, whatever follows.
\<close>

inductive framed :: "string list \<Rightarrow> string \<Rightarrow> bool" where
  framed_end: "framed [] []"
| framed_blank: "framed ds s \<Longrightarrow> framed ds (NEWLINE # s)"
| framed_event: "framed ds s \<Longrightarrow> framed (d # ds) (event_line d @ NEWLINE # s)"
| framed_last: "framed [d] (event_line d)"
| framed_done: "framed [] (event_line ''[DONE]'' @ NEWLINE # s)"

text \<open>What is left of the lines after the events.\<close>

definition ends_stream :: "string list \<Rightarrow> bool" where
  "ends_stream ls \<longleftrightarrow> ls = [] \<or> hd ls = event_line ''[DONE]''"

definition plain_data :: "string \<Rightarrow> bool" where
  "plain_data d \<longleftrightarrow> NEWLINE \<notin> set d \<and> CHR 0x0D \<notin> set d \<and> trim d \<noteq> ''[DONE]''"

fun is_delta :: "inference_chunk \<Rightarrow> bool" where
  "is_delta (Delta t r) = True"
| "is_delta c = False"

fun chunk_text :: "inference_chunk \<Rightarrow> string" where
  "chunk_text (Delta t r) = t"
| "chunk_text c = []"

lemma event_line_step:
  assumes "NEWLINE \<notin> set d"
  shows "nonempty_lines (event_line d @ NEWLINE # s) = event_line d # nonempty_lines s"
proof -
  let ?l = "event_line d"
  have "NEWLINE \<notin> set ?l" using assms by (simp add: NEWLINE_def event_line_def)
  then have "find_char NEWLINE (?l @ NEWLINE # []) = Some (length ?l)" by (rule find_char_append)
  from nonempty_lines_step [OF this, of s] have "nonempty_lines (?l @ NEWLINE # s) = (if trim_end_cr ?l = [] then [] else [?l]) @ nonempty_lines s"
    by simp
  moreover have "trim_end_cr ?l \<noteq> []" by (auto simp: trim_end_cr_def dropWhile_eq_Nil_conv event_line_def)
  ultimately show ?thesis by simp
qed

lemma framed_lines:
  assumes "framed ds s" "list_all plain_data ds"
  shows "\<exists>tail. nonempty_lines (s @ [NEWLINE]) = map event_line ds @ tail \<and> ends_stream tail"
  using assms
proof (induction rule: framed.induct)
  case framed_end
  then show ?case by (intro exI [of _ "[]"]) (simp add: ends_stream_def nonempty_lines_def complete_lines.simps find_char_def trim_end_cr_def)
next
  case (framed_blank ds s)
  have "find_char NEWLINE [NEWLINE] = Some 0" using find_char_append [of NEWLINE "[]" "[]"] by simp
  from nonempty_lines_step [OF this, of "s @ [NEWLINE]"]
  have "nonempty_lines ((NEWLINE # s) @ [NEWLINE]) = nonempty_lines (s @ [NEWLINE])" by (simp add: trim_end_cr_def)
  then show ?case using framed_blank by simp
next
  case (framed_event ds s d)
  then have "NEWLINE \<notin> set d" by (simp add: plain_data_def)
  then show ?case using framed_event event_line_step [of d "s @ [NEWLINE]"] by auto
next
  case (framed_last d)
  then have "NEWLINE \<notin> set d" by (simp add: plain_data_def)
  moreover have "nonempty_lines [] = []" by (simp add: nonempty_lines_def complete_lines.simps find_char_def)
  ultimately show ?case using event_line_step [of d "[]"] by (intro exI [of _ "[]"]) (simp add: ends_stream_def)
next
  case (framed_done s)
  have "NEWLINE \<notin> set ''[DONE]''" by (simp add: NEWLINE_def)
  from event_line_step [OF this, of "s @ [NEWLINE]"] show ?case by (simp add: ends_stream_def)
qed

lemma plain_data_step:
  assumes "plain_data d" "parse d = Some chunk"
  shows "generate_line parse lat (event_line d) p =
    (case delta_text (gsc_text chunk) (gp_emitted_len p) of
       None \<Rightarrow> (Crash, p)
     | Some (delta, emitted) \<Rightarrow>
         (let finish_reason = (case gsc_meta_info chunk of Some r \<Rightarrow> r | None \<Rightarrow> None);
              q = p\<lparr>gp_emitted_len := emitted, gp_finished := gp_finished p \<or> finish_reason \<noteq> None\<rparr>
          in if delta = [] \<and> finish_reason = None then (Skip, q) else (Emit (Delta delta finish_reason), q)))"
proof -
  have "trim_end_cr (event_line d) = event_line d" by (rule trim_end_cr_id) (use assms(1) in \<open>auto simp: plain_data_def event_line_def\<close>)
  then show ?thesis using assms by (simp add: generate_line_def plain_data_def strip_prefix_def event_line_def)
qed

text \<open>A text that extends another goes on at a character boundary.\<close>

lemma boundary_of_prefix:
  assumes "utf8_ok s" "utf8_ok (s @ r)"
  shows "is_char_boundary (length s) (s @ r)"
proof (cases r)
  case (Cons c r')
  have "list_all fst (utf8_units r)" using assms by (simp add: utf8_ok_def utf8_units_append)
  then have "fst (utf8_step r)" by (simp add: Cons utf8_units_cons)
  then have "\<not> (128 \<le> byte c \<and> byte c \<le> 191)" by (auto simp: utf8_step_def utf8_lead_def Cons split: if_splits)
  then show ?thesis by (auto simp: is_char_boundary_def byte_in_def Cons)
qed (simp add: is_char_boundary_def)

text \<open>A server that follows its protocol: each text extends the one before, and only the last event may carry a finish reason.\<close>

abbreviation finish_reason_of :: "generate_stream_chunk \<Rightarrow> string option" where
  "finish_reason_of c \<equiv> (case gsc_meta_info c of Some r \<Rightarrow> r | None \<Rightarrow> None)"

fun growing :: "(string \<Rightarrow> generate_stream_chunk option) \<Rightarrow> string \<Rightarrow> string list \<Rightarrow> bool" where
  "growing parse t [] = True"
| "growing parse t (d # ds) =
     (plain_data d \<and>
      (case parse d of
         None \<Rightarrow> False
       | Some c \<Rightarrow> take (length t) (gsc_text c) = t \<and> utf8_ok (gsc_text c) \<and> (ds = [] \<or> finish_reason_of c = None) \<and>
           growing parse (gsc_text c) ds))"

fun final_text :: "(string \<Rightarrow> generate_stream_chunk option) \<Rightarrow> string \<Rightarrow> string list \<Rightarrow> string" where
  "final_text parse t [] = t"
| "final_text parse t (d # ds) = final_text parse (gsc_text (the (parse d))) ds"

lemma growing_plain: "growing parse t ds \<Longrightarrow> list_all plain_data ds"
  by (induction parse t ds rule: growing.induct) (auto split: option.splits)

lemma growing_final: "growing parse t ds \<Longrightarrow> take (length t) (final_text parse t ds) = t"
proof (induction parse t ds rule: growing.induct)
  case (2 parse t d ds)
  then obtain c where c: "parse d = Some c" "take (length t) (gsc_text c) = t" "growing parse (gsc_text c) ds"
    by (auto split: option.splits)
  then have "take (length (gsc_text c)) (final_text parse (gsc_text c) ds) = gsc_text c" using "2.IH" [OF c(1)] by simp
  moreover have "length t \<le> length (gsc_text c)" using c(2) by (metis length_take min.cobounded1)
  ultimately show ?case using c by simp (metis min.absorb1 take_take)
qed simp

lemma delta_text_extends:
  assumes "utf8_ok t" "utf8_ok s" "take (length t) s = t"
  shows "delta_text s (length t) = Some (drop (length t) s, length s)"
proof -
  have s: "s = t @ drop (length t) s" by (metis append_take_drop_id assms(3))
  then have "length t \<le> length s" by (metis assms(3) length_take min.cobounded1)
  then show ?thesis using boundary_of_prefix [of t "drop (length t) s"] assms(1,2) s by (simp add: delta_text_def)
qed

lemma consume_growing:
  assumes "growing parse t ds" "utf8_ok t" "open_parser p" "gp_emitted_len p = length t"
  obtains "consume parse lat (map event_line ds @ tail) p = consume parse lat tail p" "final_text parse t ds = t"
    | s r q rest where "consume parse lat (map event_line ds @ tail) p = (Emit (Delta (drop (length t) s) r), q, map event_line rest @ tail)"
      "utf8_ok s" "take (length t) s = t" "growing parse s rest" "final_text parse t ds = final_text parse s rest" "length rest < length ds"
      "gp_emitted_len q = length s" "gp_backend_id q = gp_backend_id p" "\<not> gp_done_emitted q" "gp_finished q \<longleftrightarrow> r \<noteq> None" "r \<noteq> None \<longrightarrow> rest = []"
  using assms
proof (induction ds arbitrary: t p thesis)
  case Nil
  then show ?case by simp
next
  case (Cons d ds)
  then obtain c where c: "plain_data d" "parse d = Some c" "take (length t) (gsc_text c) = t" "utf8_ok (gsc_text c)"
    "ds = [] \<or> finish_reason_of c = None" "growing parse (gsc_text c) ds"
    by (auto split: option.splits)
  let ?q = "p\<lparr>gp_emitted_len := length (gsc_text c), gp_finished := finish_reason_of c \<noteq> None\<rparr>"
  have step: "generate_line parse lat (event_line d) p =
      (if drop (length t) (gsc_text c) = [] \<and> finish_reason_of c = None then (Skip, ?q)
       else (Emit (Delta (drop (length t) (gsc_text c)) (finish_reason_of c)), ?q))"
    using plain_data_step [of d parse c lat p, OF c(1,2)] delta_text_extends [OF Cons.prems(4) c(4,3)] Cons.prems(5,6)
    by (simp add: open_parser_def Let_def)
  show ?case
  proof (cases "drop (length t) (gsc_text c) = [] \<and> finish_reason_of c = None")
    case True
    then have same: "gsc_text c = t" using c(3) by simp
    have "?q = p" using True same Cons.prems(5,6) by (simp add: open_parser_def)
    then have eq: "consume parse lat (map event_line (d # ds) @ tail) p = consume parse lat (map event_line ds @ tail) p"
      "final_text parse t (d # ds) = final_text parse t ds" using step True c(2) same by simp_all
    have grow: "growing parse t ds" using c(6) same by simp
    show ?thesis
    proof (rule Cons.IH [OF _ _ grow Cons.prems(4-6)], goal_cases)
      case 1
      then show ?case by (intro Cons.prems(1)) (simp_all only: eq)
    next
      case (2 s r q rest)
      show ?case by (rule Cons.prems(2) [of s r q rest]) (use 2 in \<open>simp_all only: eq, simp_all\<close>)
    qed
  next
    case False
    have "consume parse lat (map event_line (d # ds) @ tail) p =
        (Emit (Delta (drop (length t) (gsc_text c)) (finish_reason_of c)), ?q, map event_line ds @ tail)"
      using step [unfolded if_not_P [OF False]] by simp
    then show ?thesis
      by (rule Cons.prems(2)) (use c Cons.prems(5) in \<open>auto simp: open_parser_def\<close>)
  qed
qed

lemma consume_end:
  assumes "ends_stream tail"
  shows "consume parse lat tail p = (Skip, p, []) \<or>
    (\<exists>ls. consume parse lat tail p = (Emit (Done (gp_backend_id p) lat), p\<lparr>gp_finished := True, gp_done_emitted := True\<rparr>, ls))"
proof (cases tail)
  case (Cons l ls)
  have "ascii ''[DONE]''" by (simp add: ascii_def byte_def)
  then have "trim ''[DONE]'' = ''[DONE]''" by (simp add: ascii_trim ascii_trim_def white_space_def byte_def)
  moreover have "trim_end_cr (event_line ''[DONE]'') = event_line ''[DONE]''" by (rule trim_end_cr_id) (simp add: event_line_def)
  ultimately have "generate_line parse lat (event_line ''[DONE]'') p =
      (Emit (Done (gp_backend_id p) lat), p\<lparr>gp_finished := True, gp_done_emitted := True\<rparr>)"
    by (simp add: generate_line_def strip_prefix_def event_line_def)
  then show ?thesis using assms Cons by (simp add: ends_stream_def)
qed simp

lemma increments_stream:
  assumes "\<not> list_ex isl (gp_inner p)" "nonempty_lines (gp_unread p @ [NEWLINE]) = map event_line ds @ tail" "ends_stream tail"
    and "growing parse t ds" "utf8_ok t" "open_parser p" "gp_emitted_len p = length t"
  shows "\<exists>cs l. generate_stream parse lat k p = source_of (cs @ [Done (gp_backend_id p) l]) \<and> list_all is_delta cs \<and>
    t @ concat (map chunk_text cs) = final_text parse t ds"
  using assms
proof (induction "length ds" arbitrary: ds k p t rule: less_induct)
  case less
  obtain r q where loop: "generate_loop parse (lat k) p = (r, q)" by fastforce
  then have poll: "generate_poll_next parse (lat k) p = (Some r, q)"
    using less.prems(6) by (simp add: generate_poll_next_def open_parser_def)
  note consumed = generate_loop_consume [OF loop less.prems(1), unfolded less.prems(2)]
  have bare: "open_parser (bare p)" "gp_emitted_len (bare p) = length t" using less.prems(6,7) by (simp_all add: open_parser_def)
  have fields: "gp_finished x = gp_finished (bare x)" "gp_done_emitted x = gp_done_emitted (bare x)" "gp_emitted_len x = gp_emitted_len (bare x)"
    "gp_backend_id x = gp_backend_id (bare x)" for x by simp_all
  show ?case
  proof (rule consume_growing [OF less.prems(4,5) bare, of "lat k" tail])
    assume eq: "consume parse (lat k) (map event_line ds @ tail) (bare p) = consume parse (lat k) tail (bare p)" and last: "final_text parse t ds = t"
    have "r = Emit (Done (gp_backend_id p) (lat k)) \<and> bare q = (bare p)\<lparr>gp_finished := True, gp_done_emitted := True\<rparr>"
      using consume_end [OF less.prems(3), of parse "lat k" "bare p"]
    proof (elim disjE exE)
      assume "consume parse (lat k) tail (bare p) = (Skip, bare p, [])"
      from consumed [unfolded eq this] show ?thesis by simp
    next
      fix ls
      assume "consume parse (lat k) tail (bare p) =
        (Emit (Done (gp_backend_id (bare p)) (lat k)), (bare p)\<lparr>gp_finished := True, gp_done_emitted := True\<rparr>, ls)"
      from consumed [unfolded eq this] show ?thesis by simp
    qed
    then have r: "r = Emit (Done (gp_backend_id p) (lat k))" "bare q = (bare p)\<lparr>gp_finished := True, gp_done_emitted := True\<rparr>"
      by blast+
    then have "gp_finished q" "gp_done_emitted q" by (simp_all add: fields(1,2) [of q])
    then have "generate_stream parse lat k p = source_of ([] @ [Done (gp_backend_id p) (lat k)])"
      using generate_stream_Next(1) [of parse lat k p] poll r(1) by (simp add: generate_stream_finished)
    then show ?thesis using last by (intro exI [of _ "[]"]) auto
  next
    fix s re b rest
    assume "consume parse (lat k) (map event_line ds @ tail) (bare p) = (Emit (Delta (drop (length t) s) re), b, map event_line rest @ tail)"
      and s: "utf8_ok s" "take (length t) s = t" "growing parse s rest" and final: "final_text parse t ds = final_text parse s rest"
      and shorter: "length rest < length ds"
      and b: "gp_emitted_len b = length s" "gp_backend_id b = gp_backend_id (bare p)" "\<not> gp_done_emitted b" "gp_finished b \<longleftrightarrow> re \<noteq> None"
      and re: "re \<noteq> None \<longrightarrow> rest = []"
    then have r: "r = Emit (Delta (drop (length t) s) re)" "bare q = b" "\<not> list_ex isl (gp_inner q)"
      "nonempty_lines (gp_unread q @ [NEWLINE]) = map event_line rest @ tail"
      using consumed by simp_all
    have q: "gp_emitted_len q = length s" "gp_backend_id q = gp_backend_id p" "\<not> gp_done_emitted q" "gp_finished q \<longleftrightarrow> re \<noteq> None"
      using b by (simp_all add: fields [of q] r(2))
    have first: "generate_stream parse lat k p = Next (Delta (drop (length t) s) re) (generate_stream parse lat (Suc k) q)"
      using generate_stream_Next(1) [of parse lat k p] poll r(1) by simp
    have whole: "t @ drop (length t) s = s" by (metis append_take_drop_id s(2))
    show ?thesis
    proof (cases "re = None")
      case True
      then have "open_parser q" using q by (simp add: open_parser_def)
      from less.hyps [OF shorter r(3,4) less.prems(3) s(3,1) this q(1), of "Suc k"] obtain cs l where
        "generate_stream parse lat (Suc k) q = source_of (cs @ [Done (gp_backend_id q) l])" "list_all is_delta cs"
        "s @ concat (map chunk_text cs) = final_text parse s rest" by blast
      then show ?thesis
        using first q(2) final whole by (intro exI [of _ "Delta (drop (length t) s) re # cs"] exI [of _ l]) (simp flip: append_assoc)
    next
      case False
      then have "generate_stream parse lat (Suc k) q = once (Done (gp_backend_id p) (lat (Suc k)))"
        using q by (simp add: generate_stream_finished)
      then show ?thesis
        using first final whole re False by (intro exI [of _ "[Delta (drop (length t) s) re]"] exI [of _ "lat (Suc k)"]) simp
    qed
  qed
qed

text \<open>From the first poll to the end.\<close>

lemma generate_increments:
  assumes "list_all utf8_ok pieces" "framed ds (concat pieces)" "growing parse [] ds"
  shows "\<exists>cs l. generate_stream parse lat 0 (generate_new (map Inr pieces) b) = source_of (cs @ [Done b l]) \<and>
    list_all is_delta cs \<and> concat (map chunk_text cs) = final_text parse [] ds"
proof -
  let ?p = "generate_new (map Inr pieces) b"
  have "\<not> list_ex isl (gp_inner ?p)" by (induction pieces) (simp_all add: generate_new_def)
  moreover have "map from_utf8_lossy pieces = pieces" using assms(1) by (auto simp: list_all_iff lossy_ok intro: map_idI)
  then have "gp_unread ?p = concat pieces" by (simp add: gp_unread_def generate_new_def comp_def)
  then obtain tail where "nonempty_lines (gp_unread ?p @ [NEWLINE]) = map event_line ds @ tail" "ends_stream tail"
    using framed_lines [OF assms(2) growing_plain [OF assms(3)]] by auto
  ultimately show ?thesis
    using increments_stream [of ?p ds tail parse "[]" lat 0] assms(3) by (simp add: generate_new_def open_parser_def utf8_ok_def)
qed

text \<open>A server that sends increments itself is read wrongly as soon as one is as long as the text before it.\<close>

lemma increments_misread:
  "delta_text ''ab'' 0 = Some (''ab'', 2)" "delta_text ''cde'' 2 = Some (''e'', 3)"
  by (simp_all add: delta_text_def is_char_boundary_def byte_in_def byte_def)

text \<open>A text that is not an extension can make the parser panic: two bytes were sent, and the next character has three.\<close>

lemma generate_line_panics:
  assumes "plain_data d" "parse d = Some chunk" "is_char (gsc_text chunk)" "gp_emitted_len p < length (gsc_text chunk)" "0 < gp_emitted_len p"
  shows "generate_line parse lat (event_line d) p = (Crash, p)"
  using plain_data_step [of d parse chunk lat p] assms is_char_bytes [of "gsc_text chunk" "gp_emitted_len p"]
  by (simp add: delta_text_def is_char_boundary_def)

end
