(* ===== verification/Connectors.thy ===== *)
theory Connectors
  imports Sglang StoreProof
begin

text \<open>
  The trait \<open>BackendConnector\<close> (\<open>connector.rs\<close>), the Dynamo connector (\<open>dynamo.rs\<close>) and the registry of connectors (\<open>registry.rs\<close>) of
  \<open>crates/hier-kv-gateway-connector/src\<close>. A connector is a trait object: what its methods answer. The world it talks to is
  the parameter \<open>outside\<close> of a call, which says what every HTTP request of that call returns, and how the answers parse.
\<close>

section \<open>Trait objects\<close>

record outside =
  ow_get :: "string \<Rightarrow> http_result"
  ow_post :: "string \<Rightarrow> request_body \<Rightarrow> http_result"
  ow_generate :: "string \<Rightarrow> generate_request \<Rightarrow> http_result"
  ow_elapsed :: "nat \<Rightarrow> u64"
  ow_json :: "string \<Rightarrow> json option"
  ow_chunk :: "string \<Rightarrow> completion_chunk option"
  ow_generate_chunk :: "string \<Rightarrow> generate_stream_chunk option"
  ow_models :: "body \<Rightarrow> string + string list"
  ow_server_info :: "body \<Rightarrow> json option"

record connector =
  cn_backend_type :: backend_type
  cn_backend_id :: backend_id
  cn_supports_kv_events :: bool
  cn_discover :: "outside \<Rightarrow> gateway_error + backend_info list"
  cn_health_check :: "outside \<Rightarrow> u64 \<Rightarrow> backend_id \<Rightarrow> gateway_error + health_status"
  cn_forward :: "outside \<Rightarrow> backend_id \<Rightarrow> inference_request \<Rightarrow> gateway_error + inference_chunk source"
  cn_collect_metrics :: "fpu \<Rightarrow> outside \<Rightarrow> i64 \<Rightarrow> backend_id \<Rightarrow> gateway_error + backend_metrics"

definition open_ai_object :: "open_ai_connector \<Rightarrow> connector" where
  "open_ai_object c =
     \<lparr>cn_backend_type = oc_backend_type c, cn_backend_id = open_ai_backend_id c, cn_supports_kv_events = False,
      cn_discover = (\<lambda>w. Inr (open_ai_discover (ow_get w) (ow_models w) c)),
      cn_health_check = (\<lambda>w now b. Inr (open_ai_health_check (ow_get w) now c)),
      cn_forward = (\<lambda>w b req. open_ai_forward (ow_json w) (ow_chunk w) (ow_post w) (ow_elapsed w) b req c),
      cn_collect_metrics = (\<lambda>F w now b. Inr (open_ai_collect_metrics F (ow_get w) now c))\<rparr>"

definition sglang_object :: "sglang_connector \<Rightarrow> connector" where
  "sglang_object c =
     (let inner = open_ai_object (sg_inner_connector c)
      in \<lparr>cn_backend_type = SglangEngine, cn_backend_id = cn_backend_id inner, cn_supports_kv_events = False,
          cn_discover = cn_discover inner, cn_health_check = cn_health_check inner,
          cn_forward = (\<lambda>w b req. sglang_forward (ow_json w) (ow_chunk w) (ow_generate_chunk w) (ow_post w) (ow_generate w) (ow_elapsed w) b req c),
          cn_collect_metrics = (\<lambda>F w now b. Inr (sglang_collect_metrics F (ow_get w) (ow_server_info w) now c))\<rparr>)"

section \<open>Dynamo\<close>

record dynamo_config =
  dc_nats_url :: string
  dc_subject_prefix :: string
  dc_region :: region_id
  dc_instance_id :: backend_instance_id
  dc_models :: "string list"
  dc_kv_block_size :: u32
  dc_request_timeout :: "nat option"

definition dynamo_from_endpoint :: "endpoint \<Rightarrow> region_id \<Rightarrow> string \<Rightarrow> string list \<Rightarrow> u32 \<Rightarrow> dynamo_config" where
  "dynamo_from_endpoint ep region inst models block =
     \<lparr>dc_nats_url = ep_url ep, dc_subject_prefix = ''dyn'', dc_region = region, dc_instance_id = BackendInstanceId inst,
      dc_models = models, dc_kv_block_size = block, dc_request_timeout = None\<rparr>"

definition dynamo_subject :: "string \<Rightarrow> dynamo_config \<Rightarrow> string" where
  "dynamo_subject kind c = dc_subject_prefix c @ ''.'' @ kind @ ''.'' @ instance_str (dc_instance_id c)"

definition health_subject :: "dynamo_config \<Rightarrow> string" where
  "health_subject c = dynamo_subject ''health'' c"

definition generate_subject :: "dynamo_config \<Rightarrow> string" where
  "generate_subject c = dynamo_subject ''generate'' c"

definition kv_events_subject :: "dynamo_config \<Rightarrow> string" where
  "kv_events_subject c = dynamo_subject ''kv_events'' c"

definition metrics_subject :: "dynamo_config \<Rightarrow> string" where
  "metrics_subject c = dynamo_subject ''metrics'' c"

text \<open>The connector that is built without the \<open>dynamo\<close> feature: HTTP on the address of the message bus.\<close>

definition dynamo_fallback :: "dynamo_config \<Rightarrow> open_ai_connector" where
  "dynamo_fallback c = open_ai_new (dc_nats_url c) DynamoEngine (dc_region c) (instance_str (dc_instance_id c)) (dc_models c) (dc_kv_block_size c)"

definition dynamo_object :: "dynamo_config \<Rightarrow> connector" where
  "dynamo_object c =
     (let http = open_ai_object (dynamo_fallback c)
      in http\<lparr>cn_backend_type := DynamoEngine,
              cn_discover := (\<lambda>w. map_sum id (map (\<lambda>info. info\<lparr>bi_type := DynamoEngine,
                bi_endpoint := (bi_endpoint info)\<lparr>ep_protocol := Nats\<rparr>,
                bi_capabilities := (bi_capabilities info)\<lparr>supports_kv_events := True\<rparr>\<rparr>)) (cn_discover http w))\<rparr>)"

text \<open>With the feature, the reply of a worker is a list of JSON lines; a missing terminal chunk is added.\<close>

definition dynamo_reply_chunks :: "(string \<Rightarrow> inference_chunk option) \<Rightarrow> backend_id \<Rightarrow> u64 \<Rightarrow> string \<Rightarrow> inference_chunk list" where
  "dynamo_reply_chunks parse b lat reply =
     (let chunks = List.map_filter parse (filter (\<lambda>l. l \<noteq> []) (map trim (lines (from_utf8_lossy reply))));
          terminal = (chunks \<noteq> [] \<and> (case last chunks of Done _ _ \<Rightarrow> True | ChunkError _ _ \<Rightarrow> True | _ \<Rightarrow> False))
      in if terminal then chunks else chunks @ [Done b lat])"

lemma dynamo_reply_terminates:
  "\<exists>cs c. dynamo_reply_chunks parse b lat reply = cs @ [c] \<and> (case c of Done _ _ \<Rightarrow> True | ChunkError _ _ \<Rightarrow> True | _ \<Rightarrow> False)"
proof -
  let ?r = "dynamo_reply_chunks parse b lat reply"
  have "?r \<noteq> []" "case last ?r of Done _ _ \<Rightarrow> True | ChunkError _ _ \<Rightarrow> True | _ \<Rightarrow> False"
    by (simp_all add: dynamo_reply_chunks_def Let_def)
  then show ?thesis by (metis append_butlast_last_id)
qed

section \<open>Registry\<close>

record backend_config =
  bc_backend_type :: backend_type
  bc_endpoint :: endpoint
  bc_models :: "string list"
  bc_region :: region_id
  bc_kv_block_size :: u32
  bc_quantization :: "quantization option"

record forwarding_config =
  fc_emit_token_ids :: bool

type_synonym connector_registry = "(backend_id \<times> connector) list"

definition connectors_new :: connector_registry where
  "connectors_new = []"

definition connector_register :: "connector \<Rightarrow> connector_registry \<Rightarrow> connector_registry" where
  "connector_register c r = AList.update (cn_backend_id c) c r"

definition register_alias :: "backend_id \<Rightarrow> connector \<Rightarrow> connector_registry \<Rightarrow> connector_registry" where
  "register_alias b c r = (case map_of r b of Some _ \<Rightarrow> r | None \<Rightarrow> AList.update b c r)"

definition connector_get :: "backend_id \<Rightarrow> connector_registry \<Rightarrow> connector option" where
  "connector_get b r = map_of r b"

definition connectors_all :: "connector_registry \<Rightarrow> connector list" where
  "connectors_all r = map snd r"

definition configured_connector :: "forwarding_config \<Rightarrow> backend_config \<Rightarrow> connector" where
  "configured_connector fwd cfg =
     (case bc_backend_type cfg of
        SglangEngine \<Rightarrow> sglang_object (sglang_with_emit_token_ids (fc_emit_token_ids fwd)
          (sglang_from_endpoint (bc_endpoint cfg) (bc_region cfg) (bc_models cfg) (bc_kv_block_size cfg)))
      | DynamoEngine \<Rightarrow> dynamo_object (dynamo_from_endpoint (bc_endpoint cfg) (bc_region cfg)
          (str_remove 0 ''https://'' (str_remove 0 ''http://'' (str_remove 0 ''nats://'' (ep_url (bc_endpoint cfg)))))
          (bc_models cfg) (bc_kv_block_size cfg))
      | ty \<Rightarrow> open_ai_object (with_emit_token_ids (fc_emit_token_ids fwd)
          (open_ai_from_endpoint (bc_endpoint cfg) ty (bc_region cfg) (bc_models cfg) (bc_kv_block_size cfg))))"

definition connectors_from_configs :: "backend_config list \<Rightarrow> forwarding_config \<Rightarrow> connector_registry" where
  "connectors_from_configs configs fwd = foldl (\<lambda>r cfg. connector_register (configured_connector fwd cfg) r) connectors_new configs"

text \<open>
  \<open>discover_and_register_backends\<close> of \<open>main.rs\<close>: the inventory of every connector goes into the store, and what a connector
  reports is forwarded through it unless another connector is anchored there.
\<close>

definition register_discovered :: "connector \<Rightarrow> backend_info \<Rightarrow> connector_registry \<times> metadata_store \<Rightarrow> connector_registry \<times> metadata_store" where
  "register_discovered c info s = (register_alias (bi_id info) c (fst s), register_backend info (snd s))"

definition discover_and_register :: "(connector \<Rightarrow> outside) \<Rightarrow> connector_registry \<Rightarrow> metadata_store \<Rightarrow> connector_registry \<times> metadata_store" where
  "discover_and_register world r meta =
     foldl (\<lambda>s c. case cn_discover c (world c) of
               Inr infos \<Rightarrow> foldl (\<lambda>s info. register_discovered c info s) s infos
             | Inl e \<Rightarrow> s)
       (r, meta) (connectors_all r)"

section \<open>Every backend in the store can be forwarded to\<close>

lemma connector_get_register: "connector_get b (connector_register c r) = (if b = cn_backend_id c then Some c else connector_get b r)"
  by (simp add: connector_get_def connector_register_def update_conv)

lemma connector_get_alias:
  "connector_get b (register_alias b' c r) = (case connector_get b r of Some x \<Rightarrow> Some x | None \<Rightarrow> if b = b' then Some c else None)"
  by (auto simp: connector_get_def register_alias_def update_conv split: option.split)

lemma connector_from_configs:
  "connector_get b (connectors_from_configs configs fwd) =
    map_option (configured_connector fwd) (List.find (\<lambda>cfg. cn_backend_id (configured_connector fwd cfg) = b) (rev configs))"
  by (induction configs rule: rev_induct)
    (simp_all add: connectors_from_configs_def connector_get_register, simp add: connectors_new_def connector_get_def)

definition reports :: "(connector \<Rightarrow> outside) \<Rightarrow> connector list \<Rightarrow> (connector \<times> backend_info) list" where
  "reports world cs = concat (map (\<lambda>c. case cn_discover c (world c) of Inr infos \<Rightarrow> map (Pair c) infos | Inl e \<Rightarrow> []) cs)"

lemma discover_reports:
  "discover_and_register world r meta = foldl (\<lambda>s x. register_discovered (fst x) (snd x) s) (r, meta) (reports world (connectors_all r))"
proof -
  have "foldl (\<lambda>s c. case cn_discover c (world c) of Inr infos \<Rightarrow> foldl (\<lambda>s info. register_discovered c info s) s infos | Inl e \<Rightarrow> s) s cs =
      foldl (\<lambda>s x. register_discovered (fst x) (snd x) s) s (reports world cs)" for s cs
    by (induction cs arbitrary: s) (auto simp: reports_def foldl_map split: sum.split)
  then show ?thesis by (simp add: discover_and_register_def)
qed

lemma register_backend_get: "backend_get b (register_backend info meta) = (if b = bi_id info then Some info else backend_get b meta)"
  by (simp add: backend_get_def register_backend_def update_conv)

lemma registered_reports:
  assumes "foldl (\<lambda>s x. register_discovered (fst x) (snd x) s) (r, meta) xs = (r', meta')"
  shows "backend_get b meta' \<noteq> None \<longleftrightarrow> backend_get b meta \<noteq> None \<or> b \<in> bi_id ` snd ` set xs"
    and "connector_get b r' = (case connector_get b r of Some c \<Rightarrow> Some c | None \<Rightarrow> map_option fst (List.find (\<lambda>x. bi_id (snd x) = b) xs))"
  using assms
proof (induction xs arbitrary: r' meta' rule: rev_induct)
  case (snoc x xs)
  obtain r1 meta1 where f: "foldl (\<lambda>s x. register_discovered (fst x) (snd x) s) (r, meta) xs = (r1, meta1)" by fastforce
  have last: "List.find P (xs @ [x]) = (case List.find P xs of Some y \<Rightarrow> Some y | None \<Rightarrow> if P x then Some x else None)" for P
    by (induction xs) simp_all
  {
    case 1
    then show ?case using f snoc(1) [OF f] by (auto simp: register_discovered_def register_backend_get)
  next
    case 2
    then show ?case using f snoc(2) [OF f]
      by (auto simp: register_discovered_def connector_get_alias last split: option.splits)
  }
qed (auto split: option.split)

lemma find_Some_sat: "List.find P xs = Some x \<Longrightarrow> x \<in> set xs \<and> P x"
  by (induction xs) (auto split: if_splits)

text \<open>C24. After the discovery at start-up, a backend that was not known before is in the store exactly when some registered connector reports it,
  and then a connector is found for it. Discovery never replaces the connector of an anchor, and a new anchor leads to a connector that
  reported the backend itself.\<close>

theorem discovered_backends:
  assumes "discover_and_register world r meta = (r', meta')" "backend_get b meta = None"
  shows "(backend_get b meta' \<noteq> None \<longleftrightarrow> (\<exists>c \<in> set (connectors_all r). \<exists>infos. cn_discover c (world c) = Inr infos \<and> b \<in> bi_id ` set infos)) \<and>
    (backend_get b meta' \<noteq> None \<longrightarrow> connector_get b r' \<noteq> None) \<and>
    (connector_get b r \<noteq> None \<longrightarrow> connector_get b r' = connector_get b r) \<and>
    (connector_get b r = None \<longrightarrow> (\<forall>c. connector_get b r' = Some c \<longrightarrow>
       (\<exists>infos. cn_discover c (world c) = Inr infos \<and> b \<in> bi_id ` set infos)))"
proof -
  let ?xs = "reports world (connectors_all r)"
  note reg = registered_reports [OF assms(1) [unfolded discover_reports]]
  have mem: "(c, info) \<in> set ?xs \<longleftrightarrow> c \<in> set (connectors_all r) \<and> (\<exists>infos. cn_discover c (world c) = Inr infos \<and> info \<in> set infos)" for c info
    by (cases "cn_discover c (world c)") (force simp: reports_def split: sum.splits)+
  then have known: "b \<in> bi_id ` snd ` set ?xs \<longleftrightarrow> (\<exists>c \<in> set (connectors_all r). \<exists>infos. cn_discover c (world c) = Inr infos \<and> b \<in> bi_id ` set infos)"
    by (force simp: image_iff)
  have found: "List.find (\<lambda>x. bi_id (snd x) = b) ?xs \<noteq> None \<longleftrightarrow> b \<in> bi_id ` snd ` set ?xs"
    by (force simp: find_None_iff image_iff)
  have "\<exists>infos. cn_discover c (world c) = Inr infos \<and> b \<in> bi_id ` set infos"
    if "List.find (\<lambda>x. bi_id (snd x) = b) ?xs = Some (c, info)" for c info
  proof -
    have "(c, info) \<in> set ?xs \<and> bi_id info = b" using find_Some_sat [OF that] by simp
    then show ?thesis using mem [of c info] by blast
  qed
  then show ?thesis
    using reg assms(2) known found by (auto split: option.splits)
qed

definition demo_connector :: connector where
  "demo_connector = open_ai_object (open_ai_new ''http://a'' VllmEngine (RegionId ''eu'') ''a'' [''m''] 16)"

definition demo_outside :: outside where
  "demo_outside = \<lparr>ow_get = (\<lambda>url. Inl ''refused''), ow_post = (\<lambda>url body. Inl ''refused''), ow_generate = (\<lambda>url body. Inl ''refused''),
     ow_elapsed = (\<lambda>k. 0), ow_json = (\<lambda>s. None), ow_chunk = (\<lambda>s. None), ow_generate_chunk = (\<lambda>s. None), ow_models = (\<lambda>b. Inl []),
     ow_server_info = (\<lambda>b. None)\<rparr>"

theorem discovered_backends_witness:
  "backend_get (cn_backend_id demo_connector) (snd (discover_and_register (\<lambda>c. demo_outside) (connector_register demo_connector connectors_new) store_new)) \<noteq> None \<and>
   connector_get (cn_backend_id demo_connector) (fst (discover_and_register (\<lambda>c. demo_outside) (connector_register demo_connector connectors_new) store_new)) \<noteq> None"
proof -
  let ?r = "connector_register demo_connector connectors_new"
  have "connectors_all ?r = [demo_connector]" by (simp add: connectors_all_def connector_register_def connectors_new_def)
  moreover obtain info where "cn_discover demo_connector demo_outside = Inr [info]" "bi_id info = cn_backend_id demo_connector"
    by (simp add: demo_connector_def demo_outside_def open_ai_object_def open_ai_discover_def fetch_models_def Let_def)
  moreover have "backend_get b store_new = None" for b by (simp add: backend_get_def store_new_def)
  ultimately show ?thesis
    using discovered_backends [of "\<lambda>c. demo_outside" ?r store_new _ _ "cn_backend_id demo_connector", OF surjective_pairing] by simp
qed

end
