(* ===== verification/Chat.thy ===== *)
theory Chat
  imports Connectors
begin

text \<open>
  The JSON types of the chat endpoint, \<open>crates/hier-kv-gateway-api/src/openai_types.rs\<close>, and the part of \<open>handlers.rs\<close> that turns the
  chunk stream of a backend into a response: \<open>aggregate_chunk_stream\<close> and \<open>build_sse_response\<close>. Serialisation, the wall clock and
  the generator of request identifiers are parameters.
\<close>

section \<open>Requests\<close>

record open_ai_message =
  om_role :: string
  om_content :: string

record open_ai_tool =
  ot_type :: string
  ot_name :: string
  ot_description :: string
  ot_parameters :: json

record open_ai_chat_request =
  oq_model :: string
  oq_messages :: "open_ai_message list"
  oq_max_tokens :: u32
  oq_temperature :: f64
  oq_stream :: bool
  oq_tools :: "open_ai_tool list"
  oq_lora_name :: "string option"
  oq_session :: "string option"
  oq_token_ids :: "u32 list"

definition default_temperature :: f64 where
  "default_temperature = Fin 1"

definition default_max_tokens :: u32 where
  "default_max_tokens = 1024"

definition to_inference_request :: "(json \<Rightarrow> string option) \<Rightarrow> string \<Rightarrow> open_ai_chat_request \<Rightarrow> inference_request" where
  "to_inference_request json_print uuid q =
     \<lparr>ir_request_id = RequestId uuid, ir_model = oq_model q,
      ir_messages = map (\<lambda>m. \<lparr>msg_role = om_role m, msg_content = om_content m\<rparr>) (oq_messages q),
      ir_token_ids = oq_token_ids q, ir_max_tokens = oq_max_tokens q, ir_temperature = oq_temperature q, ir_stream = oq_stream q,
      ir_tools = map (\<lambda>t. \<lparr>td_name = ot_name t, td_description = ot_description t,
        td_parameters_schema = (case json_print (ot_parameters t) of Some s \<Rightarrow> s | None \<Rightarrow> ''{}'')\<rparr>) (oq_tools q),
      ir_lora_name = oq_lora_name q\<rparr>"

text \<open>The key under which the coalescer files a request: the hash of its JSON.\<close>

definition request_key :: "(open_ai_chat_request \<Rightarrow> string option) \<Rightarrow> (string \<Rightarrow> u64) \<Rightarrow> open_ai_chat_request \<Rightarrow> u64" where
  "request_key to_json hash q = hash (case to_json q of Some bytes \<Rightarrow> bytes | None \<Rightarrow> [])"

section \<open>Responses\<close>

record open_ai_usage =
  us_prompt_tokens :: u64
  us_completion_tokens :: u64
  us_total_tokens :: u64

record open_ai_choice =
  och_index :: u32
  och_role :: string
  och_content :: string
  och_finish_reason :: "string option"

record open_ai_chat_response =
  or_id :: string
  or_object :: string
  or_created :: i64
  or_model :: string
  or_choices :: "open_ai_choice list"
  or_usage :: open_ai_usage

definition response_from_text :: "i64 \<Rightarrow> string \<Rightarrow> string \<Rightarrow> string \<Rightarrow> string option \<Rightarrow> u64 \<Rightarrow> u64 \<Rightarrow> open_ai_chat_response" where
  "response_from_text now rid model content finish prompt completion =
     \<lparr>or_id = rid, or_object = ''chat.completion'', or_created = now, or_model = model,
      or_choices = [\<lparr>och_index = 0, och_role = ''assistant'', och_content = content, och_finish_reason = finish\<rparr>],
      or_usage = \<lparr>us_prompt_tokens = prompt, us_completion_tokens = completion, us_total_tokens = prompt + completion\<rparr>\<rparr>"

record open_ai_delta =
  od_role :: "string option"
  od_content :: "string option"

record open_ai_chunk_choice =
  occ_index :: u32
  occ_delta :: open_ai_delta
  occ_finish_reason :: "string option"

record open_ai_chat_chunk =
  ok_id :: string
  ok_object :: string
  ok_created :: i64
  ok_model :: string
  ok_choices :: "open_ai_chunk_choice list"

definition one_choice :: "i64 \<Rightarrow> string \<Rightarrow> string \<Rightarrow> string option \<Rightarrow> string option \<Rightarrow> string option \<Rightarrow> open_ai_chat_chunk" where
  "one_choice now rid model role content finish =
     \<lparr>ok_id = rid, ok_object = ''chat.completion.chunk'', ok_created = now, ok_model = model,
      ok_choices = [\<lparr>occ_index = 0, occ_delta = \<lparr>od_role = role, od_content = content\<rparr>, occ_finish_reason = finish\<rparr>]\<rparr>"

definition role_chunk :: "i64 \<Rightarrow> string \<Rightarrow> string \<Rightarrow> open_ai_chat_chunk" where
  "role_chunk now rid model = one_choice now rid model (Some ''assistant'') None None"

definition delta_chunk :: "i64 \<Rightarrow> string \<Rightarrow> string \<Rightarrow> string \<Rightarrow> open_ai_chat_chunk" where
  "delta_chunk now rid model content = one_choice now rid model None (Some content) None"

definition finish_chunk :: "i64 \<Rightarrow> string \<Rightarrow> string \<Rightarrow> string \<Rightarrow> open_ai_chat_chunk" where
  "finish_chunk now rid model reason = one_choice now rid model None None (Some reason)"

record open_ai_model =
  oa_id :: string
  oa_object :: string
  oa_created :: i64
  oa_owned_by :: "string option"

definition from_model_ids :: "i64 \<Rightarrow> (string \<times> string option) list \<Rightarrow> open_ai_model list" where
  "from_model_ids now ids = map (\<lambda>(i, owner). \<lparr>oa_id = i, oa_object = ''model'', oa_created = now, oa_owned_by = owner\<rparr>) ids"

text \<open>\<open>list_models\<close>: every model name once, with the first backend that serves it.\<close>

definition list_models :: "i64 \<Rightarrow> metadata_store \<Rightarrow> open_ai_model list" where
  "list_models now meta =
     from_model_ids now (rev (snd
       (foldl (\<lambda>(seen, out) (b, m). if m \<in> set seen then (seen, out) else (m # seen, (m, Some (backend_display (bi_id b))) # out)) ([], [])
         (concat (map (\<lambda>b. map (\<lambda>m. (b, model_name m)) (bi_models b)) (backends_all meta))))))"

section \<open>Chunks to responses\<close>

definition approx_token_count :: "fpu \<Rightarrow> string \<Rightarrow> u64" where
  "approx_token_count F text =
     (let cjk = length (filter (\<lambda>v. 0x4E00 \<le> v \<and> v \<le> 0x9FFF) (chars text)); other = length (chars text) - cjk
      in of_nat cjk + f64_to_u64 (f64_ceil (f64_div F (of_usize F other) (Fin 4))))"

definition chunk_to_openai :: "i64 \<Rightarrow> string \<Rightarrow> string \<Rightarrow> inference_chunk \<Rightarrow> open_ai_chat_chunk" where
  "chunk_to_openai now rid model chunk =
     (case chunk of
        Delta text finish_reason \<Rightarrow>
          (case finish_reason of
             Some reason \<Rightarrow> finish_chunk now rid model reason
           | None \<Rightarrow> if text \<noteq> [] then delta_chunk now rid model text else delta_chunk now rid model [])
      | ToolCall i function args \<Rightarrow> delta_chunk now rid model []
      | Done b latency \<Rightarrow> finish_chunk now rid model ''stop''
      | ChunkError code message \<Rightarrow> finish_chunk now rid model ''error'')"

text \<open>The events of a streaming response; an event is its data. All of them are stamped with the same second here.\<close>

definition sse_event :: "(open_ai_chat_chunk \<Rightarrow> string option) \<Rightarrow> open_ai_chat_chunk \<Rightarrow> string" where
  "sse_event to_json c = (case to_json c of Some s \<Rightarrow> s | None \<Rightarrow> ''{}'')"

definition build_sse_response :: "(open_ai_chat_chunk \<Rightarrow> string option) \<Rightarrow> i64 \<Rightarrow> string \<Rightarrow> string \<Rightarrow> inference_chunk source \<Rightarrow> string source" where
  "build_sse_response to_json now rid model stream =
     chain (source_map (sse_event to_json)
              (chain (chain (once (role_chunk now rid model)) (source_map (chunk_to_openai now rid model) stream))
                 (once (finish_chunk now rid model ''stop''))))
           (once ''[DONE]'')"

text \<open>
  The loop of \<open>aggregate_chunk_stream\<close>: it may not return on an endless stream. The result is the code and message of an error
  chunk, or what was collected; a stream that panics takes the call with it.
\<close>

record aggregate =
  ag_content :: string
  ag_finish_reason :: "string option"
  ag_completion_tokens :: u64

datatype aggregate_result = Aggregated aggregate | ErrorChunk u16 string | AggregatePanic

partial_function (option) aggregate_loop :: "fpu \<Rightarrow> inference_chunk source \<Rightarrow> aggregate \<Rightarrow> aggregate_result option" where
  "aggregate_loop F stream acc =
     (case stream of
        Ended \<Rightarrow> Some (Aggregated acc)
      | Crashed \<Rightarrow> Some AggregatePanic
      | Next chunk rest \<Rightarrow>
          (case chunk of
             Delta text fr \<Rightarrow>
               aggregate_loop F rest
                 (let acc1 = (if text \<noteq> [] then acc\<lparr>ag_content := ag_content acc @ text,
                        ag_completion_tokens := ag_completion_tokens acc + approx_token_count F text\<rparr> else acc)
                  in case fr of Some reason \<Rightarrow> acc1\<lparr>ag_finish_reason := Some reason\<rparr> | None \<Rightarrow> acc1)
           | ToolCall i function args \<Rightarrow> aggregate_loop F rest acc
           | Done b latency \<Rightarrow>
               Some (Aggregated (if ag_finish_reason acc = None then acc\<lparr>ag_finish_reason := Some ''stop''\<rparr> else acc))
           | ChunkError code message \<Rightarrow> Some (ErrorChunk code message)))"

definition aggregate_start :: aggregate where
  "aggregate_start = \<lparr>ag_content = [], ag_finish_reason = None, ag_completion_tokens = 0\<rparr>"

definition prompt_tokens :: "fpu \<Rightarrow> inference_request \<Rightarrow> u64" where
  "prompt_tokens F req =
     f64_to_u64 (f64_ceil (f64_div F (of_usize F (sum_list (map (\<lambda>m. length (chars (msg_content m))) (ir_messages req)))) (Fin 4)))"

datatype chat_result = ChatResponse open_ai_chat_response | ChatErrorChunk u16 string | ChatPanic

definition aggregate_chunk_stream :: "fpu \<Rightarrow> i64 \<Rightarrow> inference_chunk source \<Rightarrow> string \<Rightarrow> string \<Rightarrow> inference_request \<Rightarrow> chat_result option" where
  "aggregate_chunk_stream F now stream rid model req =
     map_option (\<lambda>r. case r of
         Aggregated acc \<Rightarrow> ChatResponse (response_from_text now rid model (ag_content acc) (ag_finish_reason acc) (prompt_tokens F req) (ag_completion_tokens acc))
       | ErrorChunk code message \<Rightarrow> ChatErrorChunk code message
       | AggregatePanic \<Rightarrow> ChatPanic)
       (aggregate_loop F stream aggregate_start)"

section \<open>The non-streaming response returns\<close>

lemma aggregate_loop_simps [simp]:
  "aggregate_loop F Ended acc = Some (Aggregated acc)" "aggregate_loop F Crashed acc = Some AggregatePanic"
  "aggregate_loop F (Next (Delta text fr) rest) acc =
     aggregate_loop F rest
       (let acc1 = (if text \<noteq> [] then acc\<lparr>ag_content := ag_content acc @ text,
              ag_completion_tokens := ag_completion_tokens acc + approx_token_count F text\<rparr> else acc)
        in case fr of Some reason \<Rightarrow> acc1\<lparr>ag_finish_reason := Some reason\<rparr> | None \<Rightarrow> acc1)"
  "aggregate_loop F (Next (ToolCall i function args) rest) acc = aggregate_loop F rest acc"
  "aggregate_loop F (Next (Done b l) rest) acc =
     Some (Aggregated (if ag_finish_reason acc = None then acc\<lparr>ag_finish_reason := Some ''stop''\<rparr> else acc))"
  "aggregate_loop F (Next (ChunkError code message) rest) acc = Some (ErrorChunk code message)"
  by (subst aggregate_loop.simps, simp)+

fun is_terminal :: "inference_chunk \<Rightarrow> bool" where
  "is_terminal (Done b l) = True"
| "is_terminal (ChunkError code message) = True"
| "is_terminal c = False"

lemma aggregate_returns_item:
  "item n s = Some c \<Longrightarrow> is_terminal c \<Longrightarrow> \<exists>r. aggregate_loop F s acc = Some r \<and> r \<noteq> AggregatePanic"
proof (induction n arbitrary: s acc)
  case 0
  then show ?case by (cases s; cases c) auto
next
  case (Suc n)
  then obtain x rest where s: "s = Next x rest" by (cases s) auto
  then have "\<exists>r. aggregate_loop F rest acc' = Some r \<and> r \<noteq> AggregatePanic" for acc' using Suc by simp
  then show ?case by (cases x) (simp_all only: s aggregate_loop_simps, auto)
qed

lemma aggregate_returns_finite: "\<exists>r. aggregate_loop F (source_of cs) acc = Some r \<and> r \<noteq> AggregatePanic"
proof (induction cs arbitrary: acc)
  case (Cons c cs)
  then show ?case by (cases c) auto
qed auto

lemma aggregate_returns_crashed: "\<exists>r. aggregate_loop F (chain (source_of cs) Crashed) acc = Some r"
proof (induction cs arbitrary: acc)
  case (Cons c cs)
  then show ?case by (cases c) auto
qed auto

text \<open>The parser of server-sent events reaches a terminal chunk, whatever the body.\<close>

lemma sse_poll_moves:
  assumes "sse_poll_next parse lat p = (Some c, p')"
  shows "is_terminal c \<or> ((length (sp_inner p'), length (sp_buffer p')), (length (sp_inner p), length (sp_buffer p))) \<in> less_than <*lex*> less_than"
  using assms
proof (induction parse lat p arbitrary: c p' rule: sse_poll_next.induct)
  case (1 parse lat p)
  obtain q buf where parsed: "try_parse parse (sp_backend_id p) lat (sp_buffer p) = (q, buf)" by fastforce
  show ?case
  proof (cases q)
    case (Some x)
    then show ?thesis using "1.prems" parsed try_parse_spec [OF parsed] by (auto simp: sse_poll_next.simps [of parse lat p])
  next
    case None
    then have quiet: "find_char NEWLINE buf = None" using try_parse_spec [OF parsed] by simp
    show ?thesis
    proof (cases "sp_inner p")
      case Nil
      then have "is_terminal c"
        using "1.prems" parsed None quiet try_parse.simps [of parse "sp_backend_id p" lat buf]
        by (auto simp: sse_poll_next.simps [of parse lat p] split: if_splits)
      then show ?thesis by simp
    next
      case (Cons piece rest)
      show ?thesis
      proof (cases piece)
        case (Inl e)
        then show ?thesis using "1.prems" parsed None Cons by (auto simp: sse_poll_next.simps [of parse lat p])
      next
        case (Inr bytes)
        then have "sse_poll_next parse lat (p\<lparr>sp_inner := rest, sp_buffer := buf @ from_utf8_lossy bytes\<rparr>) = (Some c, p')"
          using "1.prems" parsed None Cons by (simp add: sse_poll_next.simps [of parse lat p])
        from "1.IH" [OF parsed [symmetric] None Cons Inr this] show ?thesis by (auto simp: Cons)
      qed
    qed
  qed
qed

lemma sse_reaches_terminal: "\<exists>n c. item n (sse_stream parse lat k p) = Some c \<and> is_terminal c"
proof -
  have "wf (inv_image (less_than <*lex*> less_than) (\<lambda>p. (length (sp_inner p), length (sp_buffer p))))" by auto
  then show ?thesis
  proof (induction p arbitrary: k rule: wf_induct_rule)
    case (less p)
    obtain c p' where poll: "sse_poll_next parse (lat k) p = (Some c, p')"
      using sse_poll_some [of parse "lat k" p] by (metis fst_conv not_None_eq surj_pair)
    note first = sse_stream_Next [of parse lat k p, OF poll]
    show ?case
    proof (cases "is_terminal c")
      case True
      then show ?thesis using first by (intro exI [of _ 0] exI [of _ c]) simp
    next
      case False
      then have "(p', p) \<in> inv_image (less_than <*lex*> less_than) (\<lambda>p. (length (sp_inner p), length (sp_buffer p)))"
        using sse_poll_moves [OF poll] by simp
      from less.IH [OF this, of "Suc k"] obtain n x where "item n (sse_stream parse lat (Suc k) p') = Some x" "is_terminal x" by blast
      then show ?thesis using first by (intro exI [of _ "Suc n"] exI [of _ x]) simp
    qed
  qed
qed

lemma open_ai_aggregates:
  "open_ai_forward json_parse parse post lat b req c = Inr stream \<Longrightarrow> \<exists>r. aggregate_loop F stream acc = Some r \<and> r \<noteq> AggregatePanic"
  using sse_reaches_terminal aggregate_returns_item
  by (auto simp: open_ai_forward_def split: sum.splits if_splits) metis

lemma generate_aggregates:
  "\<exists>r. aggregate_loop F (generate_stream parse lat 0 (generate_new body b)) acc = Some r \<and> (r = AggregatePanic \<longrightarrow> splits_character parse)"
  using open_stream_ends [of "generate_new body b" parse lat 0]
    aggregate_returns_finite [of F] aggregate_returns_crashed [of F]
  by (auto simp: generate_new_def) metis

text \<open>C20. Whatever connector the configuration asks for and whatever the backend answers, the aggregation of a non-streaming response returns,
  though the chunk stream of an OpenAI-compatible connector itself goes on for ever. It returns a response or the error of a backend; a
  panic is possible on the native endpoint of SGLang only, with a text that has a character of several bytes. The body of an answer is
  a finite list of pieces, bytes or errors of reading, since the HTTP clients of both connectors give up an exchange after 300
  seconds.\<close>

theorem response_returns:
  assumes "cn_forward (configured_connector fwd cfg) w b req = Inr stream"
  shows "\<exists>r. aggregate_chunk_stream F now stream rid model req = Some r \<and>
    (r = ChatPanic \<longrightarrow> bc_backend_type cfg = SglangEngine \<and> fc_emit_token_ids fwd \<and> ir_token_ids req \<noteq> [] \<and> splits_character (ow_generate_chunk w))"
proof -
  let ?native = "bc_backend_type cfg = SglangEngine \<and> fc_emit_token_ids fwd \<and> ir_token_ids req \<noteq> []"
  have "\<exists>r. aggregate_loop F stream aggregate_start = Some r \<and> (r = AggregatePanic \<longrightarrow> ?native \<and> splits_character (ow_generate_chunk w))"
  proof (cases ?native)
    case True
    then have "\<exists>lat body. stream = generate_stream (ow_generate_chunk w) lat 0 (generate_new body b)"
      using assms by (auto simp: configured_connector_def sglang_object_def Let_def sglang_forward_def forward_generate_def
          sglang_with_emit_token_ids_def split: sum.splits if_splits)
    then show ?thesis using True generate_aggregates [of F "ow_generate_chunk w"] by auto
  next
    case False
    then have "\<exists>json_parse parse post lat c. open_ai_forward json_parse parse post lat b req c = Inr stream"
      using assms by (auto simp: configured_connector_def open_ai_object_def sglang_object_def dynamo_object_def Let_def sglang_forward_def
          sglang_with_emit_token_ids_def split: backend_type.splits) blast+
    then show ?thesis using open_ai_aggregates by blast
  qed
  then obtain r where r: "aggregate_loop F stream aggregate_start = Some r" "r = AggregatePanic \<longrightarrow> ?native \<and> splits_character (ow_generate_chunk w)"
    by blast
  then show ?thesis by (auto simp: aggregate_chunk_stream_def split: aggregate_result.split)
qed

definition demo_config :: backend_config where
  "demo_config = \<lparr>bc_backend_type = VllmEngine, bc_endpoint = \<lparr>ep_url = ''http://a'', ep_protocol = Http\<rparr>, bc_models = [''m''],
     bc_region = RegionId ''eu'', bc_kv_block_size = 16, bc_quantization = None\<rparr>"

definition demo_inference :: inference_request where
  "demo_inference = \<lparr>ir_request_id = RequestId ''r'', ir_model = ''m'', ir_messages = [], ir_token_ids = [1, 2], ir_max_tokens = 8,
     ir_temperature = Fin 1, ir_stream = False, ir_tools = [], ir_lora_name = None\<rparr>"

definition answering :: "body \<Rightarrow> outside" where
  "answering body = demo_outside\<lparr>ow_post := (\<lambda>url b. Inr \<lparr>hr_status = 200, hr_body = body\<rparr>)\<rparr>"

theorem response_returns_witness:
  "\<exists>stream r. cn_forward (configured_connector \<lparr>fc_emit_token_ids = True\<rparr> demo_config) (answering [Inl ''reset'']) (BackendId (RegionId ''eu'') (BackendInstanceId ''a'')) demo_inference = Inr stream \<and>
     aggregate_chunk_stream exact_fpu 0 stream ''r'' ''m'' demo_inference = Some r \<and> r \<noteq> ChatPanic"
proof -
  let ?forward = "cn_forward (configured_connector \<lparr>fc_emit_token_ids = True\<rparr> demo_config) (answering [Inl ''reset'']) (BackendId (RegionId ''eu'') (BackendInstanceId ''a'')) demo_inference"
  obtain stream where stream: "?forward = Inr stream"
    by (simp add: configured_connector_def demo_config_def open_ai_object_def open_ai_forward_def answering_def is_success_def)
  have "bc_backend_type demo_config \<noteq> SglangEngine" by (simp add: demo_config_def)
  then show ?thesis using response_returns [OF stream, of exact_fpu 0 "''r''" "''m''"] stream by auto
qed

section \<open>The two forms of a response\<close>

text \<open>What a chunk contributes: text, tokens, and a reason to finish.\<close>

fun chunk_tokens :: "fpu \<Rightarrow> inference_chunk \<Rightarrow> u64" where
  "chunk_tokens F (Delta text fr) = (if text = [] then 0 else approx_token_count F text)"
| "chunk_tokens F c = 0"

fun chunk_reason :: "inference_chunk \<Rightarrow> string option" where
  "chunk_reason (Delta text fr) = fr"
| "chunk_reason c = None"

definition final_reason :: "string option \<Rightarrow> inference_chunk list \<Rightarrow> string option" where
  "final_reason r cs = foldl (\<lambda>r c. case chunk_reason c of Some x \<Rightarrow> Some x | None \<Rightarrow> r) r cs"

lemma final_reason_simps [simp]:
  "final_reason r [] = r"
  "final_reason r (c # cs) = final_reason (case chunk_reason c of Some x \<Rightarrow> Some x | None \<Rightarrow> r) cs"
  by (simp_all add: final_reason_def)

lemma aggregate_loop_done:
  "list_all (\<lambda>c. \<not> is_terminal c) cs \<Longrightarrow>
   aggregate_loop F (chain (source_of cs) (Next (Done b l) s)) acc =
     Some (Aggregated \<lparr>ag_content = ag_content acc @ concat (map chunk_text cs),
       ag_finish_reason = Some (case final_reason (ag_finish_reason acc) cs of Some r \<Rightarrow> r | None \<Rightarrow> ''stop''),
       ag_completion_tokens = ag_completion_tokens acc + sum_list (map (chunk_tokens F) cs)\<rparr>)"
proof (induction cs arbitrary: acc)
  case Nil
  show ?case by (cases acc) (simp split: option.split)
next
  case (Cons c cs)
  then show ?case by (cases c) (auto simp: Let_def add.assoc split: option.split)
qed

lemma aggregate_loop_error:
  "list_all (\<lambda>c. \<not> is_terminal c) cs \<Longrightarrow>
   aggregate_loop F (chain (source_of cs) (Next (ChunkError code message) s)) acc = Some (ErrorChunk code message)"
proof (induction cs arbitrary: acc)
  case (Cons c cs)
  then show ?case by (cases c) auto
qed simp

text \<open>C19. A stream that reaches Done gives a response with the texts of all its deltas in order, the sum of their token estimates, and the
  last finish reason of a delta, or stop; what comes after Done is not read. A stream that reaches an error chunk first gives
  its code and message, and the text before is dropped.\<close>

theorem response_collects:
  assumes "list_all (\<lambda>c. \<not> is_terminal c) cs"
  shows "aggregate_chunk_stream F now (chain (source_of cs) (Next (Done b l) s)) rid model req =
      Some (ChatResponse (response_from_text now rid model (concat (map chunk_text cs))
        (Some (case final_reason None cs of Some r \<Rightarrow> r | None \<Rightarrow> ''stop'')) (prompt_tokens F req) (sum_list (map (chunk_tokens F) cs)))) \<and>
    aggregate_chunk_stream F now (chain (source_of cs) (Next (ChunkError code message) s)) rid model req = Some (ChatErrorChunk code message)"
  using aggregate_loop_done [OF assms] aggregate_loop_error [OF assms] by (simp add: aggregate_chunk_stream_def aggregate_start_def)

theorem response_collects_witness:
  "list_all (\<lambda>c. \<not> is_terminal c) [Delta ''Hel'' None, ToolCall ''1'' ''f'' ''{}'', Delta ''lo'' (Some ''length'')] \<and>
   aggregate_chunk_stream exact_fpu 0 (chain (source_of [Delta ''Hel'' None, ToolCall ''1'' ''f'' ''{}'', Delta ''lo'' (Some ''length'')])
       (Next (Done (BackendId (RegionId ''eu'') (BackendInstanceId ''a'')) 7) Crashed)) ''r'' ''m'' demo_inference =
     Some (ChatResponse (response_from_text 0 ''r'' ''m'' ''Hello'' (Some ''length'') (prompt_tokens exact_fpu demo_inference)
       (approx_token_count exact_fpu ''Hel'' + approx_token_count exact_fpu ''lo'')))"
  using response_collects [of "[Delta ''Hel'' None, ToolCall ''1'' ''f'' ''{}'', Delta ''lo'' (Some ''length'')]" exact_fpu 0] by simp

text \<open>The contents that a streaming client concatenates.\<close>

definition client_text :: "open_ai_chat_chunk list \<Rightarrow> string" where
  "client_text ks = concat (map (\<lambda>k. concat (map (\<lambda>ch. unwrap_or_default (od_content (occ_delta ch))) (ok_choices k))) ks)"

lemma client_text_chunk:
  "client_text [chunk_to_openai now rid model c] = (if chunk_reason c = None then chunk_text c else [])"
  by (cases c) (simp_all add: client_text_def chunk_to_openai_def delta_chunk_def finish_chunk_def one_choice_def unwrap_or_default_def
      split: option.split)

lemma client_text_Cons: "client_text (k # ks) = client_text [k] @ client_text ks"
  by (simp add: client_text_def)

lemma client_text_length: "length (client_text (map (chunk_to_openai now rid model) cs)) \<le> length (concat (map chunk_text cs))"
  by (induction cs) (simp_all add: client_text_def [of "[]"] client_text_Cons [of "chunk_to_openai now rid model c" for c] client_text_chunk)

lemma client_text_lossless:
  "client_text (map (chunk_to_openai now rid model) cs) = concat (map chunk_text cs) \<longleftrightarrow>
     list_all (\<lambda>c. chunk_reason c = None \<or> chunk_text c = []) cs"
proof (induction cs)
  case (Cons c cs)
  show ?case
  proof (cases "chunk_reason c = None")
    case True
    then show ?thesis using Cons by (simp add: client_text_Cons [of "chunk_to_openai now rid model c"] client_text_chunk)
  next
    case False
    have "client_text (map (chunk_to_openai now rid model) cs) \<noteq> chunk_text c @ concat (map chunk_text cs)" if "chunk_text c \<noteq> []"
    proof
      assume "client_text (map (chunk_to_openai now rid model) cs) = chunk_text c @ concat (map chunk_text cs)"
      then show False using client_text_length [of now rid model cs] that by simp
    qed
    then show ?thesis using False Cons by (auto simp: client_text_Cons [of "chunk_to_openai now rid model c"] client_text_chunk)
  qed
qed (simp add: client_text_def)

lemma client_text_append: "client_text (xs @ ys) = client_text xs @ client_text ys"
  by (simp add: client_text_def)

text \<open>The chunks a streaming client is sent for the chunks of the backend: the role, and one for each.\<close>

definition streamed_chunks :: "i64 \<Rightarrow> string \<Rightarrow> string \<Rightarrow> inference_chunk list \<Rightarrow> open_ai_chat_chunk list" where
  "streamed_chunks now rid model cs = role_chunk now rid model # map (chunk_to_openai now rid model) cs"

lemma streamed_chunks_sent:
  "n < length (streamed_chunks now rid model cs) \<Longrightarrow>
   item n (build_sse_response to_json now rid model (chain (source_of cs) s)) = Some (sse_event to_json (streamed_chunks now rid model cs ! n))"
proof -
  have sent: "item i (chain (source_map f (chain (source_map g (chain (source_of cs) s)) t)) u) = Some (f (g (cs ! i)))" if "i < length cs"
    for i t u and f :: "open_ai_chat_chunk \<Rightarrow> string" and g :: "inference_chunk \<Rightarrow> open_ai_chat_chunk"
    using that
  proof (induction cs arbitrary: i)
    case (Cons c cs)
    then show ?case by (cases i) simp_all
  qed simp
  assume "n < length (streamed_chunks now rid model cs)"
  then show ?thesis
    using sent by (cases n) (simp_all add: build_sse_response_def streamed_chunks_def)
qed

text \<open>C26. The two forms of a response to the same stream of a backend, one that reaches Done: the non-streaming response has one choice, and the
  text a streaming client puts together of the chunks it is sent is the content of that choice exactly when no delta has both a text and a
  finish reason: such a text is lost in the streaming form only. The chunks of the client are the first events of the event stream.\<close>

theorem streamed_text_agrees:
  assumes "list_all (\<lambda>c. \<not> is_terminal c) cs"
  shows "\<exists>resp. aggregate_chunk_stream F now (chain (source_of cs) (Next (Done b l) s)) rid model req = Some (ChatResponse resp) \<and>
    length (or_choices resp) = 1 \<and>
    (client_text (streamed_chunks now rid model (cs @ [Done b l])) = och_content (hd (or_choices resp)) \<longleftrightarrow>
      list_all (\<lambda>c. chunk_reason c = None \<or> chunk_text c = []) cs) \<and>
    (\<forall>n < length cs + 2. item n (build_sse_response to_json now rid model (chain (source_of cs) (Next (Done b l) s))) =
      Some (sse_event to_json (streamed_chunks now rid model (cs @ [Done b l]) ! n)))"
proof -
  have "client_text [role_chunk now rid model] = []" "client_text [chunk_to_openai now rid model (Done b l)] = []"
    by (simp_all add: client_text_def role_chunk_def one_choice_def unwrap_or_default_def chunk_to_openai_def finish_chunk_def)
  then have "client_text (streamed_chunks now rid model (cs @ [Done b l])) = client_text (map (chunk_to_openai now rid model) cs)"
    using client_text_append [of "[role_chunk now rid model]"] by (simp add: streamed_chunks_def client_text_append)
  moreover have "chain (source_of cs) (Next (Done b l) s) = chain (source_of (cs @ [Done b l])) s" by (induction cs) simp_all
  ultimately show ?thesis
    using aggregate_loop_done [OF assms, of F b l s aggregate_start] client_text_lossless [of now rid model cs]
      streamed_chunks_sent [of _ now rid model "cs @ [Done b l]" to_json s]
    by (simp add: aggregate_chunk_stream_def aggregate_start_def response_from_text_def streamed_chunks_def)
qed

theorem streamed_text_agrees_witness:
  "client_text (streamed_chunks 0 ''r'' ''m'' [Delta ''Hel'' None, Delta ''lo'' (Some ''length''), Done (BackendId (RegionId ''eu'') (BackendInstanceId ''a'')) 7]) = ''Hel'' \<and>
   (\<exists>resp. aggregate_chunk_stream exact_fpu 0 (chain (source_of [Delta ''Hel'' None, Delta ''lo'' (Some ''length'')])
       (Next (Done (BackendId (RegionId ''eu'') (BackendInstanceId ''a'')) 7) Ended)) ''r'' ''m'' demo_inference = Some (ChatResponse resp) \<and>
     och_content (hd (or_choices resp)) \<noteq> ''Hel'')"
proof -
  let ?b = "BackendId (RegionId ''eu'') (BackendInstanceId ''a'')" and ?cs = "[Delta ''Hel'' None, Delta ''lo'' (Some ''length'')]"
  have shown: "client_text (streamed_chunks 0 ''r'' ''m'' (?cs @ [Done ?b 7])) = ''Hel''"
    by (simp add: client_text_def streamed_chunks_def role_chunk_def one_choice_def unwrap_or_default_def chunk_to_openai_def finish_chunk_def delta_chunk_def)
  obtain resp where "aggregate_chunk_stream exact_fpu 0 (chain (source_of ?cs) (Next (Done ?b 7) Ended)) ''r'' ''m'' demo_inference = Some (ChatResponse resp)"
    "client_text (streamed_chunks 0 ''r'' ''m'' (?cs @ [Done ?b 7])) \<noteq> och_content (hd (or_choices resp))"
    using streamed_text_agrees [of ?cs exact_fpu 0 ?b 7 Ended "''r''" "''m''" demo_inference] by auto
  then show ?thesis using shown by auto
qed

section \<open>Endless event streams\<close>

lemma build_sse_endless:
  "endless s \<Longrightarrow> build_sse_response to_json now rid model s =
     Next (sse_event to_json (role_chunk now rid model)) (source_map (\<lambda>c. sse_event to_json (chunk_to_openai now rid model c)) s)"
proof -
  assume s: "endless s"
  have fuse: "source_map f (source_map g s) = source_map (\<lambda>x. f (g x)) s" for f :: "'b \<Rightarrow> 'c" and g :: "'a \<Rightarrow> 'b" and s
  proof (coinduction arbitrary: s)
    case Eq_source
    then show ?case by (cases s) auto
  qed
  show ?thesis
    using s by (simp add: build_sse_response_def endless_chain endless_map endless_Next fuse)
qed

text \<open>C21. For an OpenAI-compatible backend that answers with success and an error-free body, cut into pieces at character boundaries, the events of the streaming response are the
  role, one event per line of the body that has a chunk, and then the chunk that finishes with stop, for ever: the stream is never closed and the event
  DONE is never sent.\<close>

theorem streaming_never_done:
  assumes "post (oc_base_url c @ ''/v1/chat/completions'') (build_request_body json_parse req (oc_emit_token_ids c)) = Inr resp"
    "is_success resp" "hr_body resp = map Inr pieces" "list_all utf8_ok pieces"
  shows "\<exists>stream. open_ai_forward json_parse parse post lat b req c = Inr stream \<and>
    (\<forall>n. item n (build_sse_response to_json now rid model stream) = Some (sse_event to_json
      (let ls = speaking parse (concat pieces)
       in if n = 0 then role_chunk now rid model
          else if n \<le> length ls then chunk_to_openai now rid model (the (line_chunk parse b (lat (n - 1)) (ls ! (n - 1))))
          else finish_chunk now rid model ''stop'')))"
proof -
  let ?s = "sse_stream parse lat 0 (sse_new (map Inr pieces) b)" and ?ls = "speaking parse (concat pieces)"
  have forward: "open_ai_forward json_parse parse post lat b req c = Inr ?s" using assms(1-3) by (simp add: open_ai_forward_def)
  have no_error: "\<not> list_ex isl (map Inr pieces :: body)" by (induction pieces) simp_all
  have "map from_utf8_lossy pieces = pieces" using assms(4) by (auto simp: list_all_iff lossy_ok intro: map_idI)
  then have nth: "item n ?s = Some (if n < length ?ls then the (line_chunk parse b (lat n) (?ls ! n)) else Done b (lat n))" for n
    using no_error sse_stream_item [of "sse_new (map Inr pieces) b" n parse lat 0] by (simp add: sse_new_def unread_def comp_def Let_def)
  have "item n (build_sse_response to_json now rid model ?s) = Some (sse_event to_json
      (if n = 0 then role_chunk now rid model
       else if n \<le> length ?ls then chunk_to_openai now rid model (the (line_chunk parse b (lat (n - 1)) (?ls ! (n - 1))))
       else finish_chunk now rid model ''stop''))" for n
    by (cases n) (simp_all add: build_sse_endless sse_stream_endless item_map nth chunk_to_openai_def Suc_le_eq)
  then show ?thesis using forward by (auto simp: Let_def)
qed

theorem streaming_never_done_witness:
  "\<exists>stream. open_ai_forward (\<lambda>s. None) (\<lambda>s. None) (\<lambda>url b. Inr \<lparr>hr_status = 200, hr_body = []\<rparr>) (\<lambda>k. 7)
      (BackendId (RegionId ''eu'') (BackendInstanceId ''a'')) demo_inference (open_ai_new ''http://a'' VllmEngine (RegionId ''eu'') ''a'' [''m''] 16) = Inr stream \<and>
    item 5 (build_sse_response (\<lambda>c. Some (ok_id c)) 0 ''r'' ''m'' stream) = Some ''r''"
proof -
  have "complete_lines [] = []" by (simp add: complete_lines.simps find_char_def)
  then show ?thesis
    using streaming_never_done [of "\<lambda>url b. Inr \<lparr>hr_status = 200, hr_body = []\<rparr>" "open_ai_new ''http://a'' VllmEngine (RegionId ''eu'') ''a'' [''m''] 16"
        "\<lambda>s. None" demo_inference "\<lparr>hr_status = 200, hr_body = []\<rparr>" "[]" "\<lambda>s. None" "\<lambda>k. 7" "BackendId (RegionId ''eu'') (BackendInstanceId ''a'')"
        "\<lambda>c. Some (ok_id c)" 0 "''r''" "''m''"]
    by (auto simp: is_success_def speaking_def sse_event_def finish_chunk_def one_choice_def Let_def)
qed

section \<open>From the SGLang server to the client\<close>

lemma delta_not_terminal: "list_all is_delta cs \<Longrightarrow> list_all (\<lambda>c. \<not> is_terminal c) cs"
  by (induction cs) (auto elim: is_delta.elims)

text \<open>C22. Requests with token identifiers, which go to the native \<open>/generate\<close> endpoint: when the SGLang server sends the text generated so far with
  every event, each text extending the one before, and a finish reason with the last event at most, then the non-streaming response to
  the client holds exactly the last of these texts. The events are lines of data; blank lines may stand between them and after them, as
  in the protocol, a line \<open>[DONE]\<close> may follow, and the network may cut the body at any character boundary.\<close>

theorem sglang_response:
  assumes "sg_emit_token_ids c" "ir_token_ids req \<noteq> []" "gpost (sg_base_url c @ ''/generate'') (generate_body req) = Inr resp"
    "is_success resp" "hr_body resp = map Inr pieces" "list_all utf8_ok pieces" "framed ds (concat pieces)"
    "growing gparse [] ds"
  shows "\<exists>stream reason tokens. sglang_forward json_parse parse gparse post gpost lat b req c = Inr stream \<and>
    aggregate_chunk_stream F now stream rid model req =
      Some (ChatResponse (response_from_text now rid model (final_text gparse [] ds) (Some reason) (prompt_tokens F req) tokens))"
proof -
  obtain cs l where "generate_stream gparse lat 0 (generate_new (map Inr pieces) b) = source_of (cs @ [Done b l])"
    and cs: "list_all is_delta cs" "concat (map chunk_text cs) = final_text gparse [] ds"
    using generate_increments [OF assms(6-8)] by blast
  then have "sglang_forward json_parse parse gparse post gpost lat b req c = Inr (chain (source_of cs) (Next (Done b l) Ended))"
    using assms(1-5) by (simp add: sglang_forward_def forward_generate_def chain_source_of flip: source_of.simps)
  then show ?thesis
    using aggregate_loop_done [OF delta_not_terminal [OF cs(1)]] cs(2) by (auto simp: aggregate_chunk_stream_def aggregate_start_def)
qed

theorem sglang_response_witness:
  "\<exists>stream reason tokens. sglang_forward (\<lambda>s. None) (\<lambda>s. None) (\<lambda>d. Some \<lparr>gsc_text = d, gsc_meta_info = None\<rparr>) (\<lambda>url b. Inl ''refused'')
      (\<lambda>url b. Inr \<lparr>hr_status = 200, hr_body = map Inr [''data: h'', [NEWLINE, NEWLINE], ''data: hi'' @ [NEWLINE], [NEWLINE], ''data: [DONE]'' @ [NEWLINE, NEWLINE]]\<rparr>) (\<lambda>k. 0)
      (BackendId (RegionId ''eu'') (BackendInstanceId ''a'')) demo_inference
      (sglang_with_emit_token_ids True (sglang_new ''http://a'' (RegionId ''eu'') ''a'' [''m''] 16)) = Inr stream \<and>
    aggregate_chunk_stream exact_fpu 0 stream ''r'' ''m'' demo_inference =
      Some (ChatResponse (response_from_text 0 ''r'' ''m'' ''hi'' (Some reason) (prompt_tokens exact_fpu demo_inference) tokens))"
proof -
  let ?parse = "\<lambda>d. Some \<lparr>gsc_text = d, gsc_meta_info = None\<rparr>"
    and ?pieces = "[''data: h'', [NEWLINE, NEWLINE], ''data: hi'' @ [NEWLINE], [NEWLINE], ''data: [DONE]'' @ [NEWLINE, NEWLINE]]"
    and ?c = "sglang_with_emit_token_ids True (sglang_new ''http://a'' (RegionId ''eu'') ''a'' [''m''] 16)"
  let ?resp = "\<lparr>hr_status = 200, hr_body = map Inr ?pieces\<rparr>"
  have "list_all ascii ?pieces" "ascii ''h''" "ascii ''hi''" by (simp_all add: ascii_def byte_def NEWLINE_def)
  then have "list_all utf8_ok ?pieces" "growing ?parse [] [''h'', ''hi'']"
    by (simp_all add: ascii_ok plain_data_def ascii_trim ascii_trim_def NEWLINE_def white_space_def byte_def)
  moreover have "framed [''h'', ''hi''] (event_line ''h'' @ NEWLINE # NEWLINE # event_line ''hi'' @ NEWLINE # NEWLINE # event_line ''[DONE]'' @ NEWLINE # [NEWLINE])"
    by (intro framed_event framed_blank framed_done)
  then have "framed [''h'', ''hi''] (concat ?pieces)" by (simp add: event_line_def)
  moreover have "sg_emit_token_ids ?c" "ir_token_ids demo_inference \<noteq> []" "is_success ?resp" "hr_body ?resp = map Inr ?pieces"
    by (simp_all add: sglang_with_emit_token_ids_def demo_inference_def is_success_def)
  ultimately show ?thesis
    using sglang_response [of ?c demo_inference "\<lambda>url b. Inr ?resp" ?resp ?pieces "[''h'', ''hi'']" ?parse "\<lambda>s. None" "\<lambda>s. None"
        "\<lambda>url b. Inl ''refused''" "\<lambda>k. 0" "BackendId (RegionId ''eu'') (BackendInstanceId ''a'')" exact_fpu 0 "''r''" "''m''"] by simp
qed

end
