(* ===== verification/Telemetry.thy ===== *)
theory Telemetry
  imports Ring Inference
begin

text \<open>
  Decision events, \<open>crates/hier-kv-gateway-core/src/decision_event.rs\<close>, and the sinks they are emitted to,
  \<open>crates/hier-kv-gateway-api/src/telemetry.rs\<close>. Serialisation is the parameter \<open>json\<close>; the tracing subscriber is the list of the
  records it gets, the file the list of the lines written to it.
\<close>

section \<open>Events\<close>

record candidate_score =
  cand_backend :: string
  cand_score :: f64
  cand_kv_overlap :: u32

record forward_attempt =
  fa_backend :: string
  fa_success :: bool
  fa_skipped_open_circuit :: bool
  fa_error :: "string option"

datatype decision_outcome = OutcomeSuccess | OutcomeRoutingFailed | OutcomeAllCandidatesFailed

record weights_used =
  wu_kv :: f64
  wu_load :: f64
  wu_topology :: f64

record decision_event =
  de_event_id :: string
  de_timestamp_unix_ms :: i64
  de_gateway_instance :: string
  de_gateway_region :: string
  de_request_id :: string
  de_model :: string
  de_session_id :: "string option"
  de_strategy :: string
  de_weights :: "weights_used option"
  de_candidates :: "candidate_score list"
  de_attempts :: "forward_attempt list"
  de_selected_backend :: "string option"
  de_kv_overlap :: u32
  de_prompt_blocks :: u32
  de_routing_latency_us :: u64
  de_total_latency_us :: u64
  de_outcome :: decision_outcome

section \<open>Sinks\<close>

datatype telemetry_mode = TelemetryNone | TelemetryTracing | TelemetryFile

record telemetry_config =
  tc_mode :: telemetry_mode
  tc_file_path :: string
  tc_buffer_size :: nat

definition telemetry_default :: telemetry_config where
  "telemetry_default = \<lparr>tc_mode = TelemetryNone, tc_file_path = ''decision_events.ndjson'', tc_buffer_size = 256\<rparr>"

datatype sink = NoopSink | RingBufferSink | TracingSink | NdjsonFileSink | MultiSink "sink list"

text \<open>
  What the sinks share: the ring buffer with its capacity, the tracing records, and the channel of the file writer with its
  state. The channel is unbounded.
\<close>

record telemetry =
  te_buffer :: "decision_event list"
  te_capacity :: nat
  te_records :: "string list"
  te_channel :: "string list"
  te_file :: "string list"
  te_disabled :: bool

definition telemetry_start :: "telemetry_config \<Rightarrow> telemetry" where
  "telemetry_start cfg = \<lparr>te_buffer = [], te_capacity = tc_buffer_size cfg, te_records = [], te_channel = [], te_file = [], te_disabled = False\<rparr>"

definition buffer_push :: "decision_event \<Rightarrow> telemetry \<Rightarrow> telemetry" where
  "buffer_push ev t =
     (if te_capacity t = 0 then t
      else let buf = (if te_capacity t \<le> length (te_buffer t) then tl (te_buffer t) else te_buffer t)
           in t\<lparr>te_buffer := buf @ [ev]\<rparr>)"

definition buffer_snapshot :: "nat \<Rightarrow> telemetry \<Rightarrow> decision_event list" where
  "buffer_snapshot limit t =
     (let len = length (te_buffer t); keep = (if limit = 0 then len else min limit len) in drop (len - keep) (te_buffer t))"

fun sink_emit :: "(decision_event \<Rightarrow> string option) \<Rightarrow> decision_event \<Rightarrow> sink \<Rightarrow> telemetry \<Rightarrow> telemetry" where
  "sink_emit json ev NoopSink t = t"
| "sink_emit json ev RingBufferSink t = buffer_push ev t"
| "sink_emit json ev TracingSink t = (case json ev of Some s \<Rightarrow> t\<lparr>te_records := te_records t @ [s]\<rparr> | None \<Rightarrow> t)"
| "sink_emit json ev NdjsonFileSink t = (case json ev of Some s \<Rightarrow> t\<lparr>te_channel := te_channel t @ [s @ [NEWLINE]]\<rparr> | None \<Rightarrow> t)"
| "sink_emit json ev (MultiSink sinks) t = foldl (\<lambda>t s. sink_emit json ev s t) t sinks"

text \<open>One turn of the writer task; whether the write and the flush succeed is an argument.\<close>

definition writer_turn :: "bool \<times> bool \<Rightarrow> telemetry \<Rightarrow> telemetry" where
  "writer_turn io t =
     (case te_channel t of
        [] \<Rightarrow> t
      | line # rest \<Rightarrow>
          (if te_disabled t then t\<lparr>te_channel := rest\<rparr>
           else if \<not> fst io then t\<lparr>te_channel := rest, te_disabled := True\<rparr>
           else t\<lparr>te_channel := rest, te_file := te_file t @ [line], te_disabled := \<not> snd io\<rparr>))"

definition build_telemetry :: "bool \<Rightarrow> telemetry_config \<Rightarrow> sink" where
  "build_telemetry file_opens cfg =
     (let sinks = (if 0 < tc_buffer_size cfg then [RingBufferSink] else []) @
            (case tc_mode cfg of TelemetryNone \<Rightarrow> [] | TelemetryTracing \<Rightarrow> [TracingSink]
             | TelemetryFile \<Rightarrow> if file_opens then [NdjsonFileSink] else [])
      in case sinks of [] \<Rightarrow> NoopSink | [s] \<Rightarrow> s | _ \<Rightarrow> MultiSink sinks)"

section \<open>What the sinks keep\<close>

datatype telemetry_action = EmitEvent decision_event | WriterTurn "bool \<times> bool"

fun telemetry_step :: "(decision_event \<Rightarrow> string option) \<Rightarrow> sink \<Rightarrow> telemetry_action \<Rightarrow> telemetry \<Rightarrow> telemetry" where
  "telemetry_step json s (EmitEvent ev) t = sink_emit json ev s t"
| "telemetry_step json s (WriterTurn io) t = writer_turn io t"

definition telemetry_run :: "(decision_event \<Rightarrow> string option) \<Rightarrow> sink \<Rightarrow> telemetry_action list \<Rightarrow> telemetry \<Rightarrow> telemetry" where
  "telemetry_run json s steps t = fold (telemetry_step json s) steps t"

fun emitted :: "telemetry_action list \<Rightarrow> decision_event list" where
  "emitted [] = []"
| "emitted (EmitEvent ev # steps) = ev # emitted steps"
| "emitted (WriterTurn io # steps) = emitted steps"

lemma buffer_push_simps [simp]:
  "te_capacity (buffer_push ev t) = te_capacity t" "te_records (buffer_push ev t) = te_records t" "te_channel (buffer_push ev t) = te_channel t"
  "te_file (buffer_push ev t) = te_file t" "te_disabled (buffer_push ev t) = te_disabled t"
  by (simp_all add: buffer_push_def)

lemma buffer_push_window:
  assumes "te_buffer t = last_n (te_capacity t) evs"
  shows "te_buffer (buffer_push ev t) = last_n (te_capacity t) (evs @ [ev])"
proof (cases "te_capacity t = 0")
  case True
  then show ?thesis using assms by (simp add: buffer_push_def last_n_def)
next
  case False
  then show ?thesis using assms last_n_snoc [of "te_capacity t" evs ev] by (simp add: buffer_push_def Let_def not_le)
qed

lemma map_filter_append: "List.map_filter f (xs @ ys) = List.map_filter f xs @ List.map_filter f ys"
  by (simp add: List.map_filter_def)

definition file_lines :: "(decision_event \<Rightarrow> string option) \<Rightarrow> bool \<Rightarrow> telemetry_config \<Rightarrow> decision_event list \<Rightarrow> string list" where
  "file_lines json opens cfg evs = (if tc_mode cfg = TelemetryFile \<and> opens then map (\<lambda>s. s @ [NEWLINE]) (List.map_filter json evs) else [])"

text \<open>The invariant of a run: window, records, and the file as a prefix of the lines.\<close>

definition telemetry_ok :: "(decision_event \<Rightarrow> string option) \<Rightarrow> bool \<Rightarrow> telemetry_config \<Rightarrow> decision_event list \<Rightarrow> telemetry \<Rightarrow> bool" where
  "telemetry_ok json opens cfg evs t \<longleftrightarrow>
     te_capacity t = tc_buffer_size cfg \<and> te_buffer t = last_n (tc_buffer_size cfg) evs \<and>
     te_records t = (if tc_mode cfg = TelemetryTracing then List.map_filter json evs else []) \<and>
     (\<exists>lost. te_file t @ lost @ te_channel t = file_lines json opens cfg evs \<and> (te_disabled t \<or> lost = []))"

lemma telemetry_ok_emit:
  assumes "telemetry_ok json opens cfg evs t"
  shows "telemetry_ok json opens cfg (evs @ [ev]) (sink_emit json ev (build_telemetry opens cfg) t)"
proof -
  have window: "te_buffer (buffer_push ev t) = last_n (tc_buffer_size cfg) (evs @ [ev])"
    using buffer_push_window [of t evs ev] assms by (simp add: telemetry_ok_def)
  have none: "tc_buffer_size cfg = 0 \<Longrightarrow> te_buffer t = last_n (tc_buffer_size cfg) (evs @ [ev])"
    using assms by (simp add: telemetry_ok_def last_n_def)
  show ?thesis
    using assms window none
    by (cases "tc_mode cfg"; cases opens; cases "tc_buffer_size cfg = 0"; cases "json ev")
      (auto simp: telemetry_ok_def file_lines_def build_telemetry_def map_filter_append List.map_filter_simps intro: exI [of _ "[]"])
qed

lemma telemetry_ok_writer:
  assumes "telemetry_ok json opens cfg evs t"
  shows "telemetry_ok json opens cfg evs (writer_turn io t)"
proof (cases "te_channel t")
  case (Cons line rest)
  obtain lost where "te_file t @ lost @ te_channel t = file_lines json opens cfg evs" "te_disabled t \<or> lost = []"
    using assms by (auto simp: telemetry_ok_def)
  then have "te_file (writer_turn io t) @ (if te_disabled t \<or> \<not> fst io then lost @ [line] else lost) @ te_channel (writer_turn io t) = file_lines json opens cfg evs"
    "te_disabled (writer_turn io t) \<or> (if te_disabled t \<or> \<not> fst io then lost @ [line] else lost) = []"
    by (auto simp: writer_turn_def Cons)
  moreover have "te_capacity (writer_turn io t) = te_capacity t" "te_buffer (writer_turn io t) = te_buffer t" "te_records (writer_turn io t) = te_records t"
    by (simp_all add: writer_turn_def Cons)
  ultimately show ?thesis using assms unfolding telemetry_ok_def by simp blast
qed (use assms in \<open>simp add: writer_turn_def\<close>)

lemma telemetry_ok_run:
  "telemetry_ok json opens cfg (emitted steps) (telemetry_run json (build_telemetry opens cfg) steps (telemetry_start cfg))"
proof -
  have "telemetry_ok json opens cfg (evs @ emitted steps) (fold (telemetry_step json (build_telemetry opens cfg)) steps t)"
    if "telemetry_ok json opens cfg evs t" for evs t
    using that
  proof (induction steps arbitrary: evs t)
    case (Cons s steps)
    show ?case
    proof (cases s)
      case (EmitEvent ev)
      then show ?thesis using Cons.IH [OF telemetry_ok_emit [OF Cons.prems, of ev]] by simp
    next
      case (WriterTurn io)
      then show ?thesis using Cons.IH [OF telemetry_ok_writer [OF Cons.prems, of io]] by simp
    qed
  qed simp
  moreover have "telemetry_ok json opens cfg [] (telemetry_start cfg)"
    by (auto simp: telemetry_ok_def file_lines_def telemetry_start_def last_n_def List.map_filter_simps)
  ultimately have "telemetry_ok json opens cfg ([] @ emitted steps) (fold (telemetry_step json (build_telemetry opens cfg)) steps (telemetry_start cfg))" by blast
  then show ?thesis by (simp add: telemetry_run_def)
qed

text \<open>C25. However emissions and turns of the file writer interleave, the ring buffer shows the newest events up to its capacity in order, and
  up to a limit if one is given; the tracing sink has every event that serialises; and as long as no write has
  failed, the file followed by what is queued for it is one line for each such event, in order, none lost or repeated.\<close>

theorem telemetry_keeps:
  assumes "t = telemetry_run json (build_telemetry opens cfg) steps (telemetry_start cfg)"
  shows "buffer_snapshot 0 t = last_n (tc_buffer_size cfg) (emitted steps) \<and>
    (0 < limit \<longrightarrow> buffer_snapshot limit t = last_n (min limit (tc_buffer_size cfg)) (emitted steps)) \<and>
    (tc_mode cfg = TelemetryTracing \<longrightarrow> te_records t = List.map_filter json (emitted steps)) \<and>
    (tc_mode cfg = TelemetryFile \<and> opens \<and> \<not> te_disabled t \<longrightarrow>
       te_file t @ te_channel t = map (\<lambda>s. s @ [NEWLINE]) (List.map_filter json (emitted steps)))"
proof -
  have "last_n l (last_n c xs) = last_n (min l c) xs" for l c and xs :: "decision_event list"
  proof -
    have "length xs - (length xs - c) - l + (length xs - c) = length xs - min l c" by (simp add: min_def) arith
    then show ?thesis by (simp add: last_n_def)
  qed
  moreover have "buffer_snapshot 0 t = te_buffer t" "0 < limit \<Longrightarrow> buffer_snapshot limit t = last_n limit (te_buffer t)"
    by (simp_all add: buffer_snapshot_def last_n_def Let_def min_def)
  ultimately show ?thesis
    using telemetry_ok_run [of json opens cfg steps] unfolding assms [symmetric]
    by (auto simp: telemetry_ok_def file_lines_def)
qed

text \<open>With the default configuration, the newest of two events.\<close>

theorem telemetry_keeps_witness:
  "\<exists>a b. a \<noteq> b \<and> buffer_snapshot 1 (telemetry_run (\<lambda>ev. None) (build_telemetry False telemetry_default) [EmitEvent a, WriterTurn (True, True), EmitEvent b]
     (telemetry_start telemetry_default)) = [b]"
proof -
  obtain a b :: decision_event where "a \<noteq> b"
    by (metis decision_event.select_convs(1) list.distinct(1))
  moreover have "0 < (1 :: nat)" "last_n (min 1 (tc_buffer_size telemetry_default)) (emitted [EmitEvent a, WriterTurn (True, True), EmitEvent b]) = [b]"
    by (simp_all add: telemetry_default_def last_n_def)
  ultimately show ?thesis
    using telemetry_keeps [OF refl, of "\<lambda>ev. None" False telemetry_default "[EmitEvent a, WriterTurn (True, True), EmitEvent b]" 1] by metis
qed

end
