(* ===== verification/Forward.thy ===== *)
theory Forward
  imports Chat Telemetry Engine Resilience Coalescer
begin

text \<open>
  The state of the HTTP layer and the forwarding loop of \<open>crates/hier-kv-gateway-api/src/handlers.rs\<close>: \<open>AppState\<close>, \<open>RoutingMeta\<close> and
  \<open>forward_with_retries\<close>.

  Other requests run while a request sleeps or waits for a backend. What they do to the state is a parameter, \<open>fe_meanwhile\<close>, applied
  before each check of a breaker and again before the outcome of a call is recorded; the calls that record one outcome have no
  await between them and are one step. The clock, the answers of the backends and the registry of connectors are parameters by the
  position of the candidate.
\<close>

section \<open>State\<close>

datatype strategy_type = UseHybrid | UseKv | UseModel | UseLoad | UseTopology | UseRoundRobin

record routing_config =
  rg_strategy :: strategy_type
  rg_kv_block_size :: u32
  rg_overlap_score_credit :: f64
  rg_prefill_load_scale :: f64
  rg_temperature :: f64
  rg_session_affinity_ttl_secs :: u64
  rg_max_retries :: u32
  rg_weights :: strategy_weights
  rg_adaptive :: adaptive_config

text \<open>
  The sink and the ring buffer share the telemetry state. A registrar is what it answers to an address.
\<close>

record app_state =
  as_metadata :: metadata_store
  as_routing :: routing_engine
  as_connectors :: connector_registry
  as_routing_config :: routing_config
  as_breakers :: circuit_registry
  as_retry_policy :: retry_policy
  as_peer_registrar :: "(string \<Rightarrow> string + unit) option"
  as_decision_sink :: sink
  as_decision_buffer :: bool
  as_telemetry :: telemetry
  as_gateway_instance :: string
  as_gateway_region :: string
  as_coalescer :: request_coalescer

record routing_meta =
  rm_backend :: string
  rm_strategy :: string
  rm_kv_overlap :: u32

definition from_decision :: "route_decision \<Rightarrow> routing_meta" where
  "from_decision d = \<lparr>rm_backend = backend_display (rd_backend d), rm_strategy = rd_strategy d, rm_kv_overlap = rd_kv_overlap d\<rparr>"

text \<open>The texts of \<open>HierKvGatewayError\<close>.\<close>

fun error_to_string :: "gateway_error \<Rightarrow> string" where
  "error_to_string BackendUnavailable = ''No available backend instance''"
| "error_to_string (RoutingFailed s) = ''Routing failed: '' @ s"
| "error_to_string (ConnectorError s) = ''Connector error: '' @ s"
| "error_to_string (MetricsError s) = ''Metrics error: '' @ s"
| "error_to_string (ConfigError s) = ''Configuration error: '' @ s"
| "error_to_string (ClusterError s) = ''Cluster error: '' @ s"
| "error_to_string (NotFound s) = ''Not found: '' @ s"
| "error_to_string RateLimited = ''Rate limited''"
| "error_to_string (InternalError s) = ''Internal error: '' @ s"

section \<open>The forwarding loop\<close>

datatype phase = AtGate | AtOutcome

record forward_env =
  fe_meanwhile :: "nat \<Rightarrow> phase \<Rightarrow> app_state \<Rightarrow> app_state"
  fe_now :: "nat \<Rightarrow> phase \<Rightarrow> nat"
  fe_connectors :: "nat \<Rightarrow> connector_registry"
  fe_outside :: "nat \<Rightarrow> outside"
  fe_elapsed :: "nat \<Rightarrow> nat"

definition adapt :: "(adaptive_controller \<Rightarrow> adaptive_controller) \<Rightarrow> app_state \<Rightarrow> app_state" where
  "adapt f s = s\<lparr>as_routing := (as_routing s)\<lparr>re_hybrid := (re_hybrid (as_routing s))\<lparr>hy_adaptive :=
     map_option f (hy_adaptive (re_hybrid (as_routing s)))\<rparr>\<rparr>\<rparr>"

text \<open>What a call leaves: the state, the attempts, the failures so far with the last error, and the sleeps in their order.\<close>

record forward_state =
  fs_app :: app_state
  fs_attempts :: "forward_attempt list"
  fs_failures :: u32
  fs_last_err :: "gateway_error option"
  fs_sleeps :: "duration list"

definition attempt_skipped :: "backend_id \<Rightarrow> forward_attempt" where
  "attempt_skipped b = \<lparr>fa_backend = backend_display b, fa_success = False, fa_skipped_open_circuit = True, fa_error = None\<rparr>"

definition attempt_failed :: "backend_id \<Rightarrow> gateway_error \<Rightarrow> forward_attempt" where
  "attempt_failed b e = \<lparr>fa_backend = backend_display b, fa_success = False, fa_skipped_open_circuit = False, fa_error = Some (error_to_string e)\<rparr>"

definition attempt_succeeded :: "backend_id \<Rightarrow> forward_attempt" where
  "attempt_succeeded b = \<lparr>fa_backend = backend_display b, fa_success = True, fa_skipped_open_circuit = False, fa_error = None\<rparr>"

definition no_connector :: "backend_id \<Rightarrow> gateway_error" where
  "no_connector b = ConnectorError (''no connector for backend '' @ backend_display b)"

text \<open>The gate: the breaker of the candidate.\<close>

definition pass_gate :: "forward_env \<Rightarrow> nat \<Rightarrow> backend_id \<Rightarrow> app_state \<Rightarrow> bool \<times> app_state" where
  "pass_gate env j b s =
     (let s0 = fe_meanwhile env j AtGate s;
          (ok, r) = allow (fe_now env j AtGate) b (as_breakers s0)
      in (ok, s0\<lparr>as_breakers := r\<rparr>))"

text \<open>
  The attempt on a candidate that passed: what it yields, and the state with its outcome recorded. A missing connector does not count
  against the breaker.
\<close>

definition attempt :: "fpu \<Rightarrow> forward_env \<Rightarrow> inference_request \<Rightarrow> u32 \<Rightarrow> nat \<Rightarrow> route_decision \<Rightarrow> app_state
    \<Rightarrow> (gateway_error + inference_chunk source) \<times> app_state" where
  "attempt F env req prompt_blocks j d s =
     (let b = rd_backend d in
      case connector_get b (fe_connectors env j) of
        None \<Rightarrow> (Inl (no_connector b), adapt (record_failure F b) (fe_meanwhile env j AtOutcome s))
      | Some c \<Rightarrow>
          (let s1 = fe_meanwhile env j AtOutcome s in
           case cn_forward c (fe_outside env j) b req of
             Inr stream \<Rightarrow>
               (Inr stream, adapt (\<lambda>ctl. record_kv_overlap F (rd_kv_overlap d) prompt_blocks (record_success F b (fe_elapsed env j) ctl))
                  (s1\<lparr>as_breakers := on_success b (as_breakers s1)\<rparr>))
           | Inl e \<Rightarrow> (Inl e, adapt (record_failure F b) (s1\<lparr>as_breakers := on_failure (fe_now env j AtOutcome) b (as_breakers s1)\<rparr>))))"

definition log_attempt :: "forward_attempt \<Rightarrow> forward_state \<Rightarrow> forward_state" where
  "log_attempt a fs = fs\<lparr>fs_attempts := fs_attempts fs @ [a]\<rparr>"

definition sleep_between :: "forward_state \<Rightarrow> forward_state" where
  "sleep_between fs =
     (if 0 < fs_failures fs then fs\<lparr>fs_sleeps := fs_sleeps fs @ [backoff (as_retry_policy (fs_app fs)) (fs_failures fs - 1)]\<rparr> else fs)"

fun forward_loop :: "fpu \<Rightarrow> forward_env \<Rightarrow> inference_request \<Rightarrow> u32 \<Rightarrow> nat \<Rightarrow> route_decision list \<Rightarrow> forward_state
    \<Rightarrow> (gateway_error + inference_chunk source \<times> routing_meta) \<times> forward_state" where
  "forward_loop F env req pb j [] fs = (Inl (case fs_last_err fs of Some e \<Rightarrow> e | None \<Rightarrow> BackendUnavailable), fs)"
| "forward_loop F env req pb j (d # ds) fs =
     (let b = rd_backend d; (ok, s) = pass_gate env j b (fs_app fs); fs1 = fs\<lparr>fs_app := s\<rparr> in
      if \<not> ok then forward_loop F env req pb (Suc j) ds (log_attempt (attempt_skipped b) fs1)
      else let fs2 = sleep_between fs1; (r, s') = attempt F env req pb j d (fs_app fs2); fs3 = fs2\<lparr>fs_app := s'\<rparr> in
        case r of
          Inr stream \<Rightarrow> (Inr (stream, from_decision d), log_attempt (attempt_succeeded b) fs3)
        | Inl e \<Rightarrow> forward_loop F env req pb (Suc j) ds
            (log_attempt (attempt_failed b e) (fs3\<lparr>fs_failures := fs_failures fs3 + 1, fs_last_err := Some e\<rparr>)))"

definition forward_start :: "app_state \<Rightarrow> forward_state" where
  "forward_start s = \<lparr>fs_app = s, fs_attempts = [], fs_failures = 0, fs_last_err = None, fs_sleeps = []\<rparr>"

definition forward_with_retries :: "fpu \<Rightarrow> forward_env \<Rightarrow> route_decision list \<Rightarrow> inference_request \<Rightarrow> u32 \<Rightarrow> app_state
    \<Rightarrow> (gateway_error + inference_chunk source \<times> routing_meta) \<times> forward_state" where
  "forward_with_retries F env ds req pb s = forward_loop F env req pb 0 ds (forward_start s)"

section \<open>The log of a call\<close>

definition tried :: "forward_attempt \<Rightarrow> bool" where
  "tried a \<longleftrightarrow> \<not> fa_skipped_open_circuit a"

lemma tried_simps [simp]:
  "\<not> tried (attempt_skipped b)" "tried (attempt_failed b e)" "tried (attempt_succeeded b)"
  by (simp_all add: tried_def attempt_skipped_def attempt_failed_def attempt_succeeded_def)

lemma attempt_fields [simp]:
  "fa_backend (attempt_skipped b) = backend_display b" "fa_backend (attempt_failed b e) = backend_display b"
  "fa_backend (attempt_succeeded b) = backend_display b" "\<not> fa_success (attempt_skipped b)" "\<not> fa_success (attempt_failed b e)"
  "fa_success (attempt_succeeded b)" "fa_error (attempt_failed b e) = Some (error_to_string e)"
  by (simp_all add: attempt_skipped_def attempt_failed_def attempt_succeeded_def)

definition keeps_policy :: "forward_env \<Rightarrow> bool" where
  "keeps_policy env \<longleftrightarrow> (\<forall>j p s. as_retry_policy (fe_meanwhile env j p s) = as_retry_policy s)"

definition answered :: "forward_env \<Rightarrow> inference_request \<Rightarrow> nat \<Rightarrow> backend_id \<Rightarrow> gateway_error + inference_chunk source" where
  "answered env req j b =
     (case connector_get b (fe_connectors env j) of None \<Rightarrow> Inl (no_connector b) | Some c \<Rightarrow> cn_forward c (fe_outside env j) b req)"

lemma attempt_answered: "fst (attempt F env req pb j d s) = answered env req j (rd_backend d)"
  by (auto simp: attempt_def answered_def Let_def split: option.split sum.split)

lemma adapt_simps [simp]:
  "as_retry_policy (adapt f s) = as_retry_policy s" "as_breakers (adapt f s) = as_breakers s" "as_telemetry (adapt f s) = as_telemetry s"
  by (simp_all add: adapt_def)

lemma attempt_policy:
  "keeps_policy env \<Longrightarrow> as_retry_policy (snd (attempt F env req pb j d s)) = as_retry_policy s"
  "keeps_policy env \<Longrightarrow> as_retry_policy (snd (pass_gate env j b s)) = as_retry_policy s"
  by (auto simp: attempt_def pass_gate_def keeps_policy_def Let_def split: option.split sum.split prod.split)

text \<open>The attempts a call appends, and what it returns.\<close>

definition log_of :: "forward_env \<Rightarrow> inference_request \<Rightarrow> nat \<Rightarrow> route_decision list \<Rightarrow> gateway_error option
    \<Rightarrow> gateway_error + inference_chunk source \<times> routing_meta \<Rightarrow> forward_attempt list \<Rightarrow> bool" where
  "log_of env req j ds err r entries \<longleftrightarrow>
     map fa_backend entries = map (\<lambda>d. backend_display (rd_backend d)) (take (length entries) ds) \<and>
     (case r of
        Inr (stream, meta) \<Rightarrow> entries \<noteq> [] \<and> length entries \<le> length ds \<and> fa_success (last entries) \<and> list_all (\<lambda>a. \<not> fa_success a) (butlast entries) \<and>
          tried (last entries) \<and> meta = from_decision (ds ! (length entries - 1)) \<and>
          answered env req (j + length entries - 1) (rd_backend (ds ! (length entries - 1))) = Inr stream
      | Inl e \<Rightarrow> length entries = length ds \<and> list_all (\<lambda>a. \<not> fa_success a) entries \<and>
          (if filter tried entries = [] then e = (case err of Some x \<Rightarrow> x | None \<Rightarrow> BackendUnavailable)
           else fa_error (last (filter tried entries)) = Some (error_to_string e)))"

lemma log_of_step:
  assumes "log_of env req (Suc j) ds err' r entries" "fa_backend a = backend_display (rd_backend d)" "\<not> fa_success a"
    and "if tried a then \<exists>e. err' = Some e \<and> fa_error a = Some (error_to_string e) else err' = err"
  shows "log_of env req j (d # ds) err r (a # entries)"
proof (cases r)
  case (Inl e)
  then show ?thesis using assms by (auto simp: log_of_def split: if_splits)
next
  case (Inr x)
  obtain stream meta where x: "x = (stream, meta)" by fastforce
  have "entries \<noteq> []" using assms(1) Inr x by (simp add: log_of_def)
  then obtain n where "length entries = Suc n" by (cases entries) simp_all
  then show ?thesis using assms Inr x \<open>entries \<noteq> []\<close> by (simp add: log_of_def)
qed

lemma unat_Suc: "unat n + k < 2 ^ 32 \<Longrightarrow> 0 < k \<Longrightarrow> unat (n + 1) = Suc (unat n)" for n :: u32
  by (subst unat_add_lem [THEN iffD1]) simp_all

lemma sleeps_step:
  "(if 0 < n then [f (n - 1)] else []) @ map (\<lambda>i. f (i - 1)) [Suc n..<Suc n + m] = map (\<lambda>i. f (i - 1)) [max 1 n..<n + Suc m]"
  by (cases n) (simp_all add: upt_conv_Cons max_def del: upt_Suc)

lemma of_nat_pred: "n \<noteq> 0 \<Longrightarrow> of_nat (unat n - Suc 0) = n - 1" for n :: u32
  by (simp add: of_nat_diff Suc_leI unat_gt_0)

lemma forward_loop_log:
  assumes "keeps_policy env" "unat (fs_failures fs) + length ds < 2 ^ 32" "forward_loop F env req pb j ds fs = (r, fs')"
  shows "\<exists>entries. fs_attempts fs' = fs_attempts fs @ entries \<and> log_of env req j ds (fs_last_err fs) r entries \<and>
    fs_sleeps fs' = fs_sleeps fs @ map (\<lambda>i. backoff (as_retry_policy (fs_app fs)) (of_nat (i - 1)))
      [max 1 (unat (fs_failures fs))..<unat (fs_failures fs) + length (filter tried entries)]"
  using assms(2,3)
proof (induction ds arbitrary: j fs)
  case Nil
  then show ?case by (intro exI [of _ "[]"]) (auto simp: log_of_def)
next
  case (Cons d ds)
  let ?b = "rd_backend d" and ?n = "unat (fs_failures fs)" and ?P = "as_retry_policy (fs_app fs)"
  obtain ok s where gate: "pass_gate env j ?b (fs_app fs) = (ok, s)" by fastforce
  have s: "as_retry_policy s = ?P" using attempt_policy(2) [OF assms(1), of j ?b "fs_app fs"] gate by simp
  let ?fs1 = "fs\<lparr>fs_app := s\<rparr>"
  show ?case
  proof (cases ok)
    case False
    let ?fs = "log_attempt (attempt_skipped ?b) ?fs1"
    have "forward_loop F env req pb (Suc j) ds ?fs = (r, fs')" using Cons.prems(2) gate False by simp
    from Cons.IH [OF _ this] obtain entries where entries: "fs_attempts fs' = fs_attempts fs @ attempt_skipped ?b # entries"
      "log_of env req (Suc j) ds (fs_last_err fs) r entries"
      "fs_sleeps fs' = fs_sleeps fs @ map (\<lambda>i. backoff ?P (of_nat (i - 1))) [max 1 ?n..<?n + length (filter tried entries)]"
      using Cons.prems(1) s by (auto simp: log_attempt_def)
    moreover have "log_of env req j (d # ds) (fs_last_err fs) r (attempt_skipped ?b # entries)"
      by (rule log_of_step [OF entries(2)]) simp_all
    ultimately show ?thesis by (intro exI [of _ "attempt_skipped ?b # entries"]) simp
  next
    case True
    let ?fs2 = "sleep_between ?fs1"
    have fs2: "fs_app ?fs2 = s" "fs_attempts ?fs2 = fs_attempts fs" "fs_failures ?fs2 = fs_failures fs" "fs_last_err ?fs2 = fs_last_err fs"
      "fs_sleeps ?fs2 = fs_sleeps fs @ (if 0 < ?n then [backoff ?P (of_nat (?n - 1))] else [])"
      using s by (auto simp: sleep_between_def word_gt_0 unat_eq_0 unat_gt_0 of_nat_pred)
    obtain a s' where att: "attempt F env req pb j d s = (a, s')" by fastforce
    have a: "a = answered env req j ?b" using attempt_answered [of F env req pb j d s] att by simp
    have s': "as_retry_policy s' = ?P" using attempt_policy(1) [OF assms(1), of F req pb j d s] att s by simp
    show ?thesis
    proof (cases a)
      case (Inr stream)
      then have "r = Inr (stream, from_decision d)" "fs' = log_attempt (attempt_succeeded ?b) (?fs2\<lparr>fs_app := s'\<rparr>)"
        using Cons.prems(2) gate True fs2(1) att by simp_all
      then show ?thesis using fs2 a Inr
        by (intro exI [of _ "[attempt_succeeded ?b]"]) (auto simp: log_of_def log_attempt_def)
    next
      case (Inl e)
      let ?fs = "log_attempt (attempt_failed ?b e) (?fs2\<lparr>fs_app := s', fs_failures := fs_failures fs + 1, fs_last_err := Some e\<rparr>)"
      have n: "unat (fs_failures fs + 1) = Suc ?n" using Cons.prems(1) by (intro unat_Suc [of _ "length (d # ds)"]) simp_all
      have "forward_loop F env req pb (Suc j) ds ?fs = (r, fs')" using Cons.prems(2) gate True fs2 att Inl by simp
      from Cons.IH [OF _ this] obtain entries where entries: "fs_attempts fs' = fs_attempts fs @ attempt_failed ?b e # entries"
        "log_of env req (Suc j) ds (Some e) r entries"
        "fs_sleeps fs' = fs_sleeps ?fs2 @ map (\<lambda>i. backoff ?P (of_nat (i - 1))) [Suc ?n..<Suc ?n + length (filter tried entries)]"
        using Cons.prems(1) s' fs2 n by (auto simp: log_attempt_def)
      have "(if 0 < ?n then [backoff ?P (of_nat (?n - 1))] else []) @ map (\<lambda>i. backoff ?P (of_nat (i - 1))) [Suc ?n..<Suc ?n + length (filter tried entries)] =
          map (\<lambda>i. backoff ?P (of_nat (i - 1))) [max 1 ?n..<?n + length (filter tried (attempt_failed ?b e # entries))]"
        using sleeps_step [of ?n "\<lambda>i. backoff ?P (of_nat i)" "length (filter tried entries)"] by simp
      moreover have "log_of env req j (d # ds) (fs_last_err fs) r (attempt_failed ?b e # entries)"
        by (rule log_of_step [OF entries(2)]) simp_all
      ultimately show ?thesis using entries fs2(5) by (intro exI [of _ "attempt_failed ?b e # entries"]) simp
    qed
  qed
qed

text \<open>C18. The forwarding loop considers the candidates in their ranking and logs each one once. A success is the first one in
  the log: it ends the loop, the routing metadata is that of its candidate and the stream is what its connector returned. A failure means
  that the log covers every candidate without a success; the error is that of the last attempt, or BackendUnavailable when every
  breaker refused. Before the attempt that follows the i-th failed one the loop sleeps the back-off of number i, and never otherwise.
  Other requests may change the breakers and the weights at any time.\<close>

theorem forwarding_log:
  assumes "\<forall>j p s. as_retry_policy (fe_meanwhile env j p s) = as_retry_policy s" "length ds < 2 ^ 32"
    and "forward_with_retries F env ds req pb s = (r, fs)"
  shows "map fa_backend (fs_attempts fs) = map (\<lambda>d. backend_display (rd_backend d)) (take (length (fs_attempts fs)) ds) \<and>
    fs_sleeps fs = map (\<lambda>i. backoff (as_retry_policy s) (of_nat i)) [0..<length (filter tried (fs_attempts fs)) - 1] \<and>
    (case r of
       Inr (stream, meta) \<Rightarrow> (\<exists>k < length ds. length (fs_attempts fs) = Suc k \<and> fa_success (fs_attempts fs ! k) \<and>
         list_all (\<lambda>a. \<not> fa_success a) (take k (fs_attempts fs)) \<and> meta = from_decision (ds ! k) \<and>
         answered env req k (rd_backend (ds ! k)) = Inr stream)
     | Inl e \<Rightarrow> length (fs_attempts fs) = length ds \<and> list_all (\<lambda>a. \<not> fa_success a) (fs_attempts fs) \<and>
         (if filter tried (fs_attempts fs) = [] then e = BackendUnavailable
          else fa_error (last (filter tried (fs_attempts fs))) = Some (error_to_string e)))"
proof -
  have "keeps_policy env" using assms(1) by (simp add: keeps_policy_def)
  moreover have "unat (fs_failures (forward_start s)) + length ds < 2 ^ 32" using assms(2) by (simp add: forward_start_def)
  moreover have "forward_loop F env req pb 0 ds (forward_start s) = (r, fs)" using assms(3) by (simp add: forward_with_retries_def)
  ultimately obtain entries where entries: "fs_attempts fs = entries" "log_of env req 0 ds None r entries"
    "fs_sleeps fs = map (\<lambda>i. backoff (as_retry_policy s) (of_nat (i - 1))) [1..<length (filter tried entries)]"
    using forward_loop_log by (fastforce simp: forward_start_def)
  have "[1..<n] = map Suc [0..<n - 1]" for n by (cases n) (simp_all add: map_Suc_upt del: upt_Suc)
  then have "fs_sleeps fs = map (\<lambda>i. backoff (as_retry_policy s) (of_nat i)) [0..<length (filter tried entries) - 1]"
    using entries(3) by (simp add: comp_def)
  moreover have "\<exists>k < length ds. length entries = Suc k \<and> fa_success (entries ! k) \<and> list_all (\<lambda>a. \<not> fa_success a) (take k entries) \<and>
      meta = from_decision (ds ! k) \<and> answered env req k (rd_backend (ds ! k)) = Inr stream" if "r = Inr (stream, meta)" for stream meta
  proof -
    have "entries \<noteq> []" "length entries \<le> length ds" using entries(2) that by (simp_all add: log_of_def)
    then obtain k where k: "length entries = Suc k" "k < length ds" by (cases entries) auto
    then have "butlast entries = take k entries" "last entries = entries ! k" using \<open>entries \<noteq> []\<close> by (simp_all add: butlast_conv_take last_conv_nth)
    then show ?thesis using entries(2) that k by (intro exI [of _ k]) (simp add: log_of_def)
  qed
  ultimately show ?thesis using entries(1,2) by (auto simp: log_of_def split: sum.splits)
qed

section \<open>The first usable candidate wins\<close>

text \<open>The breaker of a candidate after it was considered, when nobody else touches it.\<close>

definition considered :: "forward_env \<Rightarrow> inference_request \<Rightarrow> nat \<Rightarrow> backend_id \<Rightarrow> circuit_registry \<Rightarrow> breaker_state" where
  "considered env req j b r =
     (let x = next_state r (fe_now env j AtGate) Allow (breaker b r)
      in if \<not> fst (allow (fe_now env j AtGate) b r) \<or> connector_get b (fe_connectors env j) = None then x
         else if isl (answered env req j b) then next_state r (fe_now env j AtOutcome) Failure x
         else next_state r (fe_now env j AtOutcome) Success x)"

definition usable :: "forward_env \<Rightarrow> inference_request \<Rightarrow> circuit_registry \<Rightarrow> nat \<Rightarrow> backend_id \<Rightarrow> bool" where
  "usable env req r j b \<longleftrightarrow> fst (allow (fe_now env j AtGate) b r) \<and> \<not> isl (answered env req j b)"

definition same_breaker :: "backend_id \<Rightarrow> circuit_registry \<Rightarrow> circuit_registry \<Rightarrow> bool" where
  "same_breaker b r r' \<longleftrightarrow> breaker b r' = breaker b r \<and> cb_failure_threshold r' = cb_failure_threshold r \<and>
     cb_cooldown r' = cb_cooldown r \<and> cb_success_threshold r' = cb_success_threshold r"

definition undisturbed :: "forward_env \<Rightarrow> backend_id set \<Rightarrow> bool" where
  "undisturbed env B \<longleftrightarrow> (\<forall>j p s. \<forall>b \<in> B. same_breaker b (as_breakers s) (as_breakers (fe_meanwhile env j p s)))"

lemma same_breaker_refl [simp]: "same_breaker b r r"
  by (simp add: same_breaker_def)

lemma same_breaker_trans: "same_breaker b r r' \<Longrightarrow> same_breaker b r' r'' \<Longrightarrow> same_breaker b r r''"
  by (simp add: same_breaker_def)

lemma same_breaker_next: "same_breaker b r r' \<Longrightarrow> next_state r' now op x = next_state r now op x"
  by (cases "(r, now, op, x)" rule: next_state.cases) (simp_all add: same_breaker_def)

lemma same_breaker_allow: "same_breaker b r r' \<Longrightarrow> fst (allow now b r') = fst (allow now b r)"
  by (simp add: same_breaker_def allow_def split: breaker_state.split)

lemma same_breaker_step:
  assumes "b \<noteq> i"
  shows "same_breaker b r (snd (allow now i r))" "same_breaker b r (on_success i r)" "same_breaker b r (on_failure now i r)"
  using assms circuit_step_breaker [of b now i Allow r] circuit_step_breaker [of b now i Success r] circuit_step_breaker [of b now i Failure r]
    circuit_step_config [of "(now, i, Allow)" r] circuit_step_config [of "(now, i, Success)" r] circuit_step_config [of "(now, i, Failure)" r]
  by (simp_all add: same_breaker_def circuit_step.simps)

definition same_limits :: "circuit_registry \<Rightarrow> circuit_registry \<Rightarrow> bool" where
  "same_limits r r' \<longleftrightarrow> cb_failure_threshold r' = cb_failure_threshold r \<and> cb_cooldown r' = cb_cooldown r \<and>
     cb_success_threshold r' = cb_success_threshold r"

lemma same_limits_next: "same_limits r r' \<Longrightarrow> next_state r' now op x = next_state r now op x"
  by (cases "(r, now, op, x)" rule: next_state.cases) (simp_all add: same_limits_def)

lemma gate_frame:
  assumes "undisturbed env B" "b \<in> B" "b \<noteq> i"
  shows "same_breaker b (as_breakers s) (as_breakers (snd (pass_gate env j i s)))"
  using assms same_breaker_trans [OF _ same_breaker_step(1) [OF assms(3)]]
  by (simp add: pass_gate_def undisturbed_def Let_def split: prod.split) (metis snd_conv)

lemma attempt_frame:
  assumes "undisturbed env B" "b \<in> B" "b \<noteq> rd_backend d"
  shows "same_breaker b (as_breakers s) (as_breakers (snd (attempt F env req pb j d s)))"
proof -
  have m: "same_breaker b (as_breakers s) (as_breakers (fe_meanwhile env j AtOutcome s))" using assms by (simp add: undisturbed_def)
  then show ?thesis
    using same_breaker_trans [OF m same_breaker_step(2) [OF assms(3)]] same_breaker_trans [OF m same_breaker_step(3) [OF assms(3)]]
    by (auto simp: attempt_def Let_def split: option.split sum.split)
qed

lemma gate_own:
  assumes "undisturbed env B" "b \<in> B" "pass_gate env j b s = (ok, s')"
  shows "ok = fst (allow (fe_now env j AtGate) b (as_breakers s))"
    "breaker b (as_breakers s') = next_state (as_breakers s) (fe_now env j AtGate) Allow (breaker b (as_breakers s))"
    "same_limits (as_breakers s) (as_breakers s')"
proof -
  let ?m = "as_breakers (fe_meanwhile env j AtGate s)" and ?t = "fe_now env j AtGate"
  have m: "same_breaker b (as_breakers s) ?m" using assms(1,2) by (simp add: undisturbed_def)
  have s': "ok = fst (allow ?t b ?m)" "as_breakers s' = circuit_step (?t, b, Allow) ?m"
    using assms(3) by (auto simp: pass_gate_def Let_def circuit_step.simps split: prod.splits)
  show "ok = fst (allow ?t b (as_breakers s))" using s'(1) same_breaker_allow [OF m] by simp
  show "breaker b (as_breakers s') = next_state (as_breakers s) ?t Allow (breaker b (as_breakers s))"
    using s'(2) m same_breaker_next [OF m] by (simp add: circuit_step_breaker same_breaker_def)
  show "same_limits (as_breakers s) (as_breakers s')" using m s'(2) by (simp add: same_breaker_def same_limits_def)
qed

lemma attempt_own:
  assumes "undisturbed env B" "b \<in> B" "b = rd_backend d" "attempt F env req pb j d s = (r, s')"
  shows "breaker b (as_breakers s') =
      (if connector_get b (fe_connectors env j) = None then breaker b (as_breakers s)
       else if isl r then next_state (as_breakers s) (fe_now env j AtOutcome) Failure (breaker b (as_breakers s))
       else next_state (as_breakers s) (fe_now env j AtOutcome) Success (breaker b (as_breakers s)))"
proof -
  let ?m = "as_breakers (fe_meanwhile env j AtOutcome s)" and ?t = "fe_now env j AtOutcome"
  have m: "same_breaker b (as_breakers s) ?m" using assms(1,2) by (simp add: undisturbed_def)
  have "breaker b (on_success b ?m) = next_state ?m ?t Success (breaker b ?m)" "breaker b (on_failure ?t b ?m) = next_state ?m ?t Failure (breaker b ?m)"
    using circuit_step_breaker [of b ?t b Success ?m] circuit_step_breaker [of b ?t b Failure ?m] by (simp_all add: circuit_step.simps)
  moreover have "breaker b ?m = breaker b (as_breakers s)" using m by (simp add: same_breaker_def)
  ultimately have own: "breaker b (on_success b ?m) = next_state (as_breakers s) ?t Success (breaker b (as_breakers s))"
    "breaker b (on_failure ?t b ?m) = next_state (as_breakers s) ?t Failure (breaker b (as_breakers s))" "breaker b ?m = breaker b (as_breakers s)"
    using same_breaker_next [OF m] by simp_all
  show ?thesis
  proof (cases "connector_get b (fe_connectors env j)")
    case None
    then show ?thesis using own(3) assms(3,4) by (auto simp: attempt_def Let_def)
  next
    case (Some c)
    show ?thesis
    proof (cases "cn_forward c (fe_outside env j) b req")
      case (Inl e)
      then have "r = Inl e" "as_breakers s' = on_failure ?t b ?m" using Some assms(3,4) by (auto simp: attempt_def Let_def)
      then show ?thesis using own Some by simp
    next
      case (Inr stream)
      then have "r = Inr stream" "as_breakers s' = on_success b ?m" using Some assms(3,4) by (auto simp: attempt_def Let_def)
      then show ?thesis using own Some by simp
    qed
  qed
qed

lemma forward_loop_step:
  assumes "forward_loop F env req pb j (d # ds) fs = (r, fs')"
  obtains (skipped) s fs1 where "pass_gate env j (rd_backend d) (fs_app fs) = (False, s)" "fs_app fs1 = s"
      "forward_loop F env req pb (Suc j) ds fs1 = (r, fs')" "fs_attempts fs1 = fs_attempts fs @ [attempt_skipped (rd_backend d)]"
      "fs_last_err fs1 = fs_last_err fs"
    | (won) s stream s' where "pass_gate env j (rd_backend d) (fs_app fs) = (True, s)" "attempt F env req pb j d s = (Inr stream, s')"
      "r = Inr (stream, from_decision d)" "fs_app fs' = s'" "fs_attempts fs' = fs_attempts fs @ [attempt_succeeded (rd_backend d)]"
    | (failed) s e s' fs1 where "pass_gate env j (rd_backend d) (fs_app fs) = (True, s)" "attempt F env req pb j d s = (Inl e, s')"
      "fs_app fs1 = s'" "forward_loop F env req pb (Suc j) ds fs1 = (r, fs')"
      "fs_attempts fs1 = fs_attempts fs @ [attempt_failed (rd_backend d) e]" "fs_last_err fs1 = Some e"
proof -
  obtain ok s where gate: "pass_gate env j (rd_backend d) (fs_app fs) = (ok, s)" by fastforce
  let ?fs2 = "sleep_between (fs\<lparr>fs_app := s\<rparr>)"
  have sleep: "fs_app ?fs2 = s" "fs_attempts ?fs2 = fs_attempts fs" by (simp_all add: sleep_between_def)
  obtain a s' where att: "attempt F env req pb j d s = (a, s')" by fastforce
  show thesis
  proof (cases ok)
    case False
    then show thesis using assms gate by (intro skipped [of s "log_attempt (attempt_skipped (rd_backend d)) (fs\<lparr>fs_app := s\<rparr>)"]) (simp_all add: log_attempt_def)
  next
    case True
    show thesis
    proof (cases a)
      case (Inr stream)
      then show thesis using assms gate True att sleep by (intro won [of s stream s']) (auto simp: log_attempt_def Let_def)
    next
      case (Inl e)
      let ?fs3 = "?fs2\<lparr>fs_app := s'\<rparr>"
      let ?fs4 = "log_attempt (attempt_failed (rd_backend d) e) (?fs3\<lparr>fs_failures := fs_failures ?fs3 + 1, fs_last_err := Some e\<rparr>)"
      show thesis
        using assms gate True att sleep Inl by (intro failed [of s e s' ?fs4]) (simp_all add: log_attempt_def Let_def)
    qed
  qed
qed

text \<open>The log of a call, without any condition on the number of candidates or on the other requests.\<close>

lemma forward_loop_attempts:
  assumes "forward_loop F env req pb j ds fs = (r, fs')"
  shows "\<exists>entries. fs_attempts fs' = fs_attempts fs @ entries \<and> log_of env req j ds (fs_last_err fs) r entries"
  using assms
proof (induction ds arbitrary: j fs)
  case Nil
  then show ?case by (intro exI [of _ "[]"]) (auto simp: log_of_def)
next
  case (Cons d ds)
  let ?b = "rd_backend d"
  from Cons.prems show ?case
  proof (cases rule: forward_loop_step)
    case (skipped s fs1)
    obtain entries where entries: "fs_attempts fs' = fs_attempts fs1 @ entries" "log_of env req (Suc j) ds (fs_last_err fs) r entries"
      using Cons.IH [OF skipped(3)] skipped(5) by auto
    have "log_of env req j (d # ds) (fs_last_err fs) r (attempt_skipped ?b # entries)" by (rule log_of_step [OF entries(2)]) simp_all
    then show ?thesis using entries(1) skipped(4) by (intro exI [of _ "attempt_skipped ?b # entries"]) simp
  next
    case (won s stream s')
    then have "answered env req j ?b = Inr stream" using attempt_answered [of F env req pb j d s] by simp
    then show ?thesis using won(3,5) by (intro exI [of _ "[attempt_succeeded ?b]"]) (simp add: log_of_def)
  next
    case (failed s e s' fs1)
    obtain entries where entries: "fs_attempts fs' = fs_attempts fs1 @ entries" "log_of env req (Suc j) ds (Some e) r entries"
      using Cons.IH [OF failed(4)] failed(6) by auto
    have "log_of env req j (d # ds) (fs_last_err fs) r (attempt_failed ?b e # entries)" by (rule log_of_step [OF entries(2)]) simp_all
    then show ?thesis using entries(1) failed(5) by (intro exI [of _ "attempt_failed ?b e # entries"]) simp
  qed
qed

lemma loop_frame:
  assumes "undisturbed env B" "b \<in> B" "b \<notin> rd_backend ` set ds" "forward_loop F env req pb j ds fs = (r, fs')"
  shows "same_breaker b (as_breakers (fs_app fs)) (as_breakers (fs_app fs'))"
  using assms(3,4)
proof (induction ds arbitrary: j fs)
  case (Cons d ds)
  have d: "b \<noteq> rd_backend d" and b: "b \<notin> rd_backend ` set ds" using Cons.prems(1) by auto
  note g = gate_frame [OF assms(1,2) d, of "fs_app fs" j] and a = attempt_frame [OF assms(1,2) d, of _ F req pb j]
  from Cons.prems(2) show ?case
  proof (cases rule: forward_loop_step)
    case (skipped s fs1)
    then show ?thesis using g same_breaker_trans Cons.IH [OF b skipped(3)] by auto
  next
    case (won s stream s')
    then show ?thesis using g same_breaker_trans a [of s] by auto
  next
    case (failed s e s' fs1)
    then show ?thesis using g same_breaker_trans a [of s] Cons.IH [OF b failed(4)] by (metis snd_conv)
  qed
qed simp

lemma forward_loop_first:
  assumes "undisturbed env B" "rd_backend ` set ds \<subseteq> B" "distinct (map rd_backend ds)"
    and "\<And>b. b \<in> rd_backend ` set ds \<Longrightarrow> same_breaker b r0 (as_breakers (fs_app fs))"
    and "forward_loop F env req pb j ds fs = (r, fs')"
  defines "U \<equiv> \<lambda>i. usable env req r0 (j + i) (rd_backend (ds ! i))"
  shows "(\<forall>k < length ds. U k \<and> (\<forall>i < k. \<not> U i) \<longrightarrow>
      (\<exists>stream. answered env req (j + k) (rd_backend (ds ! k)) = Inr stream \<and> r = Inr (stream, from_decision (ds ! k)))) \<and>
    ((\<forall>k < length ds. \<not> U k) \<longrightarrow> isl r) \<and>
    (\<forall>i < length ds. breaker (rd_backend (ds ! i)) (as_breakers (fs_app fs')) =
       (if \<forall>k < i. \<not> U k then considered env req (j + i) (rd_backend (ds ! i)) r0 else breaker (rd_backend (ds ! i)) r0))"
  using assms(2-5) unfolding U_def
proof (induction ds arbitrary: j fs)
  case (Cons d ds)
  let ?b = "rd_backend d" and ?U = "\<lambda>i. usable env req r0 (j + i) (rd_backend ((d # ds) ! i))" and ?as = "as_breakers (fs_app fs)"
  have b: "?b \<in> B" "?b \<notin> rd_backend ` set ds" "rd_backend ` set ds \<subseteq> B" "distinct (map rd_backend ds)" using Cons.prems(1,2) by auto
  have head: "same_breaker ?b r0 ?as" using Cons.prems(3) [of ?b] by simp
  have tail: "same_breaker x r0 (as_breakers s)" if "x \<in> rd_backend ` set ds" "same_breaker x ?as (as_breakers s)" for x s
    using Cons.prems(3) [of x] that same_breaker_trans by auto
  have apart: "x \<in> B" "x \<noteq> ?b" if "x \<in> rd_backend ` set ds" for x using that b(2,3) by blast+
  note gf = gate_frame [OF assms(1) apart, of _ "fs_app fs" j] and af = attempt_frame [OF assms(1) apart, of _ _ F req pb j]
  have own: "ok = fst (allow (fe_now env j AtGate) ?b r0)"
      "breaker ?b (as_breakers s) = next_state r0 (fe_now env j AtGate) Allow (breaker ?b r0)" "same_limits r0 (as_breakers s)"
    if "pass_gate env j ?b (fs_app fs) = (ok, s)" for ok s
    using gate_own [OF assms(1) b(1) that] same_breaker_allow [OF head] same_breaker_next [OF head] head
    by (auto simp: same_breaker_def same_limits_def)
  have all_less_Suc: "(\<forall>k < Suc n. P k) \<longleftrightarrow> P 0 \<and> (\<forall>k < n. P (Suc k))" for n and P :: "nat \<Rightarrow> bool"
    by (metis less_Suc_eq_0_disj)
  from Cons.prems(4) show ?case
  proof (cases rule: forward_loop_step)
    case (skipped s fs1)
    have no: "\<not> ?U 0" using own(1) [OF skipped(1)] by (simp add: usable_def)
    have "same_breaker x r0 (as_breakers (fs_app fs1))" if "x \<in> rd_backend ` set ds" for x
      using tail [OF that] gf [OF that that] skipped by simp
    note IH = Cons.IH [OF b(3,4) this skipped(3)]
    have "breaker ?b (as_breakers (fs_app fs')) = considered env req j ?b r0"
      using loop_frame [OF assms(1) b(1,2) skipped(3)] own(1,2) [OF skipped(1)] skipped(2) by (simp add: considered_def same_breaker_def Let_def)
    then show ?thesis using IH no by (simp add: all_less_Suc) blast
  next
    case (won s stream s')
    have a: "answered env req j ?b = Inr stream" using attempt_answered [of F env req pb j d s] won(2) by simp
    have yes: "?U 0" using own(1) [OF won(1)] a by (simp add: usable_def)
    obtain c where "connector_get ?b (fe_connectors env j) = Some c" using a by (auto simp: answered_def split: option.splits)
    then have "breaker ?b (as_breakers (fs_app fs')) = considered env req j ?b r0"
      using attempt_own [OF assms(1) b(1) refl won(2)] own [OF won(1)] a won(4) same_limits_next by (simp add: considered_def Let_def)
    moreover have "same_breaker x r0 (as_breakers (fs_app fs'))" if "x \<in> rd_backend ` set ds" for x
      using same_breaker_trans [OF tail [OF that, of s] af [OF that that, of s]] gf [OF that that] won by simp
    ultimately show ?thesis using yes a won(3) by (auto simp: all_less_Suc same_breaker_def)
  next
    case (failed s e s' fs1)
    have a: "answered env req j ?b = Inl e" using attempt_answered [of F env req pb j d s] failed(2) by simp
    have no: "\<not> ?U 0" using a by (simp add: usable_def)
    have "same_breaker x r0 (as_breakers (fs_app fs1))" if "x \<in> rd_backend ` set ds" for x
      using same_breaker_trans [OF tail [OF that, of s] af [OF that that, of s]] gf [OF that that] failed by simp
    note IH = Cons.IH [OF b(3,4) this failed(4)]
    have "breaker ?b (as_breakers s') = considered env req j ?b r0"
      using attempt_own [OF assms(1) b(1) refl failed(2)] own [OF failed(1)] a same_limits_next by (simp add: considered_def Let_def)
    then have "breaker ?b (as_breakers (fs_app fs')) = considered env req j ?b r0"
      using loop_frame [OF assms(1) b(1,2) failed(4)] failed(3) by (simp add: same_breaker_def)
    then show ?thesis using IH no by (simp add: all_less_Suc) blast
  qed
qed (auto simp: isl_def)

text \<open>C17. While no other request changes the breakers of its candidates, which are distinct, the forwarding loop picks the first candidate
  whose breaker lets it through and whose connector exists and answers: its stream and its metadata are returned. It fails only if there is no
  such candidate. Each candidate up to that one has its breaker moved as by one check and, if it was called, by one outcome; the breakers of the
  candidates after it are not touched, and a candidate without a connector counts no failure.\<close>

theorem first_usable_wins:
  assumes "distinct (map rd_backend ds)"
    and "\<forall>j p s. \<forall>b \<in> rd_backend ` set ds. same_breaker b (as_breakers s) (as_breakers (fe_meanwhile env j p s))"
    and "forward_with_retries F env ds req pb s = (r, fs)"
  shows "(\<forall>k < length ds. usable env req (as_breakers s) k (rd_backend (ds ! k)) \<and>
        (\<forall>i < k. \<not> usable env req (as_breakers s) i (rd_backend (ds ! i))) \<longrightarrow>
      (\<exists>stream. answered env req k (rd_backend (ds ! k)) = Inr stream \<and> r = Inr (stream, from_decision (ds ! k)))) \<and>
    ((\<forall>k < length ds. \<not> usable env req (as_breakers s) k (rd_backend (ds ! k))) \<longrightarrow> isl r) \<and>
    (\<forall>i < length ds. breaker (rd_backend (ds ! i)) (as_breakers (fs_app fs)) =
       (if \<forall>k < i. \<not> usable env req (as_breakers s) k (rd_backend (ds ! k)) then considered env req i (rd_backend (ds ! i)) (as_breakers s)
        else breaker (rd_backend (ds ! i)) (as_breakers s)))"
proof -
  have "undisturbed env (rd_backend ` set ds)" using assms(2) by (simp add: undisturbed_def)
  moreover have "forward_loop F env req pb 0 ds (forward_start s) = (r, fs)" using assms(3) by (simp add: forward_with_retries_def)
  ultimately show ?thesis
    using forward_loop_first [of env "rd_backend ` set ds" ds "as_breakers s" "forward_start s" F req pb 0 r fs] assms(1)
    by (simp add: forward_start_def) blast
qed

section \<open>A concrete run\<close>

definition demo_app :: app_state where
  "demo_app = \<lparr>as_metadata = demo_store, as_routing = demo_engine, as_connectors = connector_register demo_connector connectors_new,
     as_routing_config = \<lparr>rg_strategy = UseRoundRobin, rg_kv_block_size = 16, rg_overlap_score_credit = Fin 0, rg_prefill_load_scale = Fin 1,
       rg_temperature = Fin 0, rg_session_affinity_ttl_secs = 600, rg_max_retries = 2, rg_weights = thirds, rg_adaptive = adaptive_default exact_fpu\<rparr>,
     as_breakers = registry_new resilience_default, as_retry_policy = retry_default, as_peer_registrar = None,
     as_decision_sink = RingBufferSink, as_decision_buffer = True, as_telemetry = telemetry_start telemetry_default,
     as_gateway_instance = ''g'', as_gateway_region = ''eu'', as_coalescer = coalescer_new coalescing_default\<rparr>"

definition demo_env :: forward_env where
  "demo_env = \<lparr>fe_meanwhile = (\<lambda>j p s. s), fe_now = (\<lambda>j p. 0), fe_connectors = (\<lambda>j. connector_register demo_connector connectors_new),
     fe_outside = (\<lambda>j. answering []), fe_elapsed = (\<lambda>j. 0)\<rparr>"

definition demo_decision :: "string \<Rightarrow> route_decision" where
  "demo_decision inst = \<lparr>rd_backend = BackendId (RegionId ''eu'') (BackendInstanceId inst), rd_strategy = ''round_robin'', rd_kv_overlap = 0, rd_scores = []\<rparr>"

lemma demo_answers:
  "answered demo_env req j (rd_backend (demo_decision ''gone'')) = Inl (no_connector (rd_backend (demo_decision ''gone'')))"
  "\<exists>stream. answered demo_env req j (rd_backend (demo_decision ''a'')) = Inr stream"
  by (simp_all add: answered_def demo_env_def demo_decision_def connector_get_def connector_register_def connectors_new_def demo_connector_def
      open_ai_object_def open_ai_backend_id_def open_ai_new_def open_ai_forward_def answering_def is_success_def)

lemma demo_gate: "fst (allow t b (as_breakers demo_app))"
  by (simp add: demo_app_def registry_new_def allow_def breaker_def breaker_new_def)

theorem forwarding_log_witness:
  "\<exists>r fs. forward_with_retries exact_fpu demo_env [demo_decision ''gone'', demo_decision ''a''] demo_inference 0 demo_app = (r, fs) \<and>
     fs_sleeps fs = map (\<lambda>i. backoff retry_default (of_nat i)) [0..<length (filter tried (fs_attempts fs)) - 1]"
proof -
  let ?ds = "[demo_decision ''gone'', demo_decision ''a'']"
  obtain r fs where run: "forward_with_retries exact_fpu demo_env ?ds demo_inference 0 demo_app = (r, fs)" by fastforce
  have "\<forall>j p s. as_retry_policy (fe_meanwhile demo_env j p s) = as_retry_policy s" by (simp add: demo_env_def)
  from forwarding_log [OF this _ run] show ?thesis using run by (intro exI [of _ r] exI [of _ fs]) (simp add: demo_app_def)
qed

theorem first_usable_wins_witness:
  "\<exists>stream fs. forward_with_retries exact_fpu demo_env [demo_decision ''gone'', demo_decision ''a''] demo_inference 0 demo_app =
     (Inr (stream, from_decision (demo_decision ''a'')), fs)"
proof -
  let ?ds = "[demo_decision ''gone'', demo_decision ''a'']"
  obtain r fs where run: "forward_with_retries exact_fpu demo_env ?ds demo_inference 0 demo_app = (r, fs)" by fastforce
  obtain stream where a: "answered demo_env demo_inference 1 (rd_backend (demo_decision ''a'')) = Inr stream" using demo_answers(2) by blast
  have distinct: "distinct (map rd_backend ?ds)" by (simp add: demo_decision_def)
  have quiet: "\<forall>j p s. \<forall>b \<in> rd_backend ` set ?ds. same_breaker b (as_breakers s) (as_breakers (fe_meanwhile demo_env j p s))"
    by (simp add: demo_env_def)
  have first: "usable demo_env demo_inference (as_breakers demo_app) 1 (rd_backend (?ds ! 1)) \<and>
      (\<forall>i < 1. \<not> usable demo_env demo_inference (as_breakers demo_app) i (rd_backend (?ds ! i)))"
    using a demo_answers(1) demo_gate by (simp add: usable_def)
  have "\<exists>stream. answered demo_env demo_inference 1 (rd_backend (?ds ! 1)) = Inr stream \<and> r = Inr (stream, from_decision (?ds ! 1))"
    by (rule first_usable_wins [OF distinct quiet run, THEN conjunct1, rule_format, OF _ first]) simp
  then show ?thesis using run by auto
qed

end
