(* ===== verification/Gateway.thy ===== *)
theory Gateway
  imports Forward
begin

text \<open>
  The HTTP handlers of \<open>crates/hier-kv-gateway-api/src/handlers.rs\<close>: chat completions, direct and through the coalescer, the
  decision event of a request, and the admin endpoints. What a request meets is the parameter \<open>chat_world\<close>: the clock, identifiers, the
  forwarding environment, serialisation and the check of header values. The routing decision is one step.
\<close>

section \<open>Replies\<close>

datatype reply_body =
    ErrorBody (eb_message: string) (eb_type: string)
  | ResponseBody open_ai_chat_response
  | EventStream "string source"
  | BytesBody "u8 list"
  | StatusBody string
  | ModelsBody "open_ai_model list"
  | BackendsBody "backend_info list"
  | MetricsBody backend_metrics
  | EventsBody "decision_event list"
  | PeersBody bool string

record reply =
  ht_status :: nat
  ht_headers :: "(string \<times> string) list"
  ht_body :: reply_body

text \<open>A handler replies, panics, or waits for ever for a stream that goes on.\<close>

datatype chat_outcome = Reply reply | Panicking | Hanging

fun error_type_name :: "gateway_error \<Rightarrow> string" where
  "error_type_name BackendUnavailable = ''backend_unavailable''"
| "error_type_name (RoutingFailed s) = ''routing_failed''"
| "error_type_name (ConnectorError s) = ''connector_error''"
| "error_type_name (MetricsError s) = ''metrics_error''"
| "error_type_name (ConfigError s) = ''config_error''"
| "error_type_name (ClusterError s) = ''cluster_error''"
| "error_type_name (NotFound s) = ''not_found''"
| "error_type_name RateLimited = ''rate_limited''"
| "error_type_name (InternalError s) = ''internal_error''"

definition error_response :: "nat \<Rightarrow> gateway_error \<Rightarrow> reply" where
  "error_response status e = \<lparr>ht_status = status, ht_headers = [], ht_body = ErrorBody (error_to_string e) (error_type_name e)\<rparr>"

definition json_reply :: "nat \<Rightarrow> reply_body \<Rightarrow> reply" where
  "json_reply status b = \<lparr>ht_status = status, ht_headers = [], ht_body = b\<rparr>"

definition insert_header :: "(string \<Rightarrow> bool) \<Rightarrow> string \<Rightarrow> string \<Rightarrow> (string \<times> string) list \<Rightarrow> (string \<times> string) list" where
  "insert_header valid name v headers = (if valid v then AList.update name v headers else headers)"

definition apply_to_headers :: "(string \<Rightarrow> bool) \<Rightarrow> routing_meta \<Rightarrow> (string \<times> string) list \<Rightarrow> (string \<times> string) list" where
  "apply_to_headers valid m headers =
     insert_header valid ''X-Hier-KV-Gateway-KV-Overlap'' (show_nat (unat (rm_kv_overlap m)))
       (insert_header valid ''X-Hier-KV-Gateway-Strategy'' (rm_strategy m)
         (insert_header valid ''X-Hier-KV-Gateway-Backend'' (rm_backend m) headers))"

lemma apply_to_headers_fields [simp]:
  "apply_to_headers valid \<lparr>rm_backend = rm_backend m, rm_strategy = rm_strategy m, rm_kv_overlap = rm_kv_overlap m\<rparr> h = apply_to_headers valid m h"
  by (simp add: apply_to_headers_def)

text \<open>\<open>StatusCode::from_u16\<close>.\<close>

definition status_code :: "nat \<Rightarrow> nat option" where
  "status_code n = (if 100 \<le> n \<and> n < 1000 then Some n else None)"

section \<open>The request\<close>

record chat_world =
  cw_fpu :: fpu
  cw_xxh :: xxh3
  cw_draw :: "nat \<Rightarrow> f64 list \<Rightarrow> nat option"
  cw_inst :: nat
  cw_now :: u64
  cw_forward :: forward_env
  cw_before_event :: "app_state \<Rightarrow> app_state"
  cw_uuid :: string
  cw_event_id :: string
  cw_event_time :: i64
  cw_created :: i64
  cw_routing_latency_us :: u64
  cw_total_latency_us :: u64
  cw_print_json :: "json \<Rightarrow> string option"
  cw_json_event :: "decision_event \<Rightarrow> string option"
  cw_json_chunk :: "open_ai_chat_chunk \<Rightarrow> string option"
  cw_json_response :: "open_ai_chat_response \<Rightarrow> string + u8 list"
  cw_valid_header :: "string \<Rightarrow> bool"

definition request_hashes :: "xxh3 \<Rightarrow> routing_config \<Rightarrow> inference_request \<Rightarrow> u64 list" where
  "request_hashes xxh cfg inq =
     (if ir_token_ids inq \<noteq> [] then
        compute_block_hashes xxh \<lparr>bh_tokens = ir_token_ids inq, bh_kv_block_size = rg_kv_block_size cfg, bh_cache_namespace = None,
          bh_lora_name = ir_lora_name inq\<rparr>
      else [])"

definition request_context :: "xxh3 \<Rightarrow> routing_config \<Rightarrow> open_ai_chat_request \<Rightarrow> inference_request \<Rightarrow> routing_context" where
  "request_context xxh cfg req inq =
     \<lparr>rc_request_id = Some (ir_request_id inq), rc_session_id = map_option SessionId (oq_session req), rc_tenant_id = None,
      rc_model_name = Some (oq_model req), rc_token_ids = ir_token_ids inq, rc_block_hashes = request_hashes xxh cfg inq,
      rc_block_size = rg_kv_block_size cfg, rc_lora_name = ir_lora_name inq, rc_cache_namespace = None,
      rc_estimated_output_tokens = ir_max_tokens inq, rc_requires_tool_calling = (ir_tools inq \<noteq> [])\<rparr>"

definition max_attempts :: "routing_config \<Rightarrow> nat" where
  "max_attempts cfg = unat (sat_add (rg_max_retries cfg) 1)"

definition route_step :: "chat_world \<Rightarrow> routing_context \<Rightarrow> app_state \<Rightarrow> (failure + route_decision list) \<times> app_state" where
  "route_step w ctx s =
     (case route_candidates (cw_fpu w) (cw_xxh w) (cw_draw w) (cw_inst w) (cw_now w) ctx (max_attempts (as_routing_config s)) (as_routing s) (as_metadata s) of
        (r, eng, meta) \<Rightarrow> (r, s\<lparr>as_routing := eng, as_metadata := meta\<rparr>))"

section \<open>The decision event\<close>

record decision_event_params =
  ep_request_id :: string
  ep_model :: string
  ep_session_id :: "string option"
  ep_decisions :: "route_decision list"
  ep_attempts :: "forward_attempt list"
  ep_selected :: "routing_meta option"
  ep_prompt_blocks :: u32
  ep_outcome :: decision_outcome

definition candidate_of :: "route_decision \<Rightarrow> candidate_score" where
  "candidate_of d = \<lparr>cand_backend = backend_display (rd_backend d),
     cand_score = (if rd_scores d = [] then Fin 0 else snd (last (rd_scores d))), cand_kv_overlap = rd_kv_overlap d\<rparr>"

definition event_weights :: "fpu \<Rightarrow> decision_event_params \<Rightarrow> routing_engine \<Rightarrow> weights_used option" where
  "event_weights F p eng =
     (let name = st_name (hybrid F (re_hybrid eng));
          won = (case ep_selected p of Some m \<Rightarrow> rm_strategy m = name | None \<Rightarrow> False) \<or>
                (case ep_decisions p of d # ds \<Rightarrow> rd_strategy d = name | [] \<Rightarrow> False);
          ws = weight_snapshot (re_hybrid eng)
      in if won then Some \<lparr>wu_kv = sw_kv ws, wu_load = sw_load ws, wu_topology = sw_topology ws\<rparr> else None)"

definition decision_event_of :: "chat_world \<Rightarrow> decision_event_params \<Rightarrow> app_state \<Rightarrow> decision_event" where
  "decision_event_of w p s =
     \<lparr>de_event_id = cw_event_id w, de_timestamp_unix_ms = cw_event_time w, de_gateway_instance = as_gateway_instance s,
      de_gateway_region = as_gateway_region s, de_request_id = ep_request_id p, de_model = ep_model p, de_session_id = ep_session_id p,
      de_strategy = (case ep_decisions p of d # ds \<Rightarrow> rd_strategy d | [] \<Rightarrow> ''none''),
      de_weights = event_weights (cw_fpu w) p (as_routing s), de_candidates = map candidate_of (ep_decisions p), de_attempts = ep_attempts p,
      de_selected_backend = map_option rm_backend (ep_selected p),
      de_kv_overlap = (case ep_selected p of Some m \<Rightarrow> rm_kv_overlap m | None \<Rightarrow> 0), de_prompt_blocks = ep_prompt_blocks p,
      de_routing_latency_us = cw_routing_latency_us w, de_total_latency_us = cw_total_latency_us w, de_outcome = ep_outcome p\<rparr>"

definition emit_decision_event :: "chat_world \<Rightarrow> decision_event_params \<Rightarrow> app_state \<Rightarrow> app_state" where
  "emit_decision_event w p s0 =
     (let s = cw_before_event w s0
      in s\<lparr>as_telemetry := sink_emit (cw_json_event w) (decision_event_of w p s) (as_decision_sink s) (as_telemetry s)\<rparr>)"

section \<open>Chat completions\<close>

definition request_id_of :: "inference_request \<Rightarrow> string" where
  "request_id_of inq = request_str (ir_request_id inq)"

definition build_non_stream_response :: "chat_world \<Rightarrow> inference_chunk source \<Rightarrow> string \<Rightarrow> routing_meta \<Rightarrow> inference_request \<Rightarrow> chat_outcome" where
  "build_non_stream_response w stream model m inq =
     (case aggregate_chunk_stream (cw_fpu w) (cw_created w) stream (request_id_of inq) model inq of
        None \<Rightarrow> Hanging
      | Some ChatPanic \<Rightarrow> Panicking
      | Some (ChatResponse resp) \<Rightarrow>
          Reply \<lparr>ht_status = 200, ht_headers = apply_to_headers (cw_valid_header w) m [], ht_body = ResponseBody resp\<rparr>
      | Some (ChatErrorChunk code message) \<Rightarrow>
          Reply (error_response (case status_code (unat code) of Some n \<Rightarrow> n | None \<Rightarrow> 502) (ConnectorError (''backend error: '' @ message))))"

definition stream_reply :: "chat_world \<Rightarrow> inference_chunk source \<Rightarrow> string \<Rightarrow> routing_meta \<Rightarrow> inference_request \<Rightarrow> reply" where
  "stream_reply w stream model m inq =
     \<lparr>ht_status = 200, ht_headers = apply_to_headers (cw_valid_header w) m [],
      ht_body = EventStream (build_sse_response (cw_json_chunk w) (cw_created w) (request_id_of inq) model stream)\<rparr>"

text \<open>The direct path of \<open>chat_completions\<close>.\<close>

definition chat_direct :: "chat_world \<Rightarrow> open_ai_chat_request \<Rightarrow> app_state \<Rightarrow> chat_outcome \<times> app_state" where
  "chat_direct w req s =
     (let inq = to_inference_request (cw_print_json w) (cw_uuid w) req;
          ctx = request_context (cw_xxh w) (as_routing_config s) req inq;
          pb = of_nat (length (rc_block_hashes ctx));
          (routed, s1) = route_step w ctx s
      in case routed of
           Inl Panicked \<Rightarrow> (Panicking, s1)
         | Inr [] \<Rightarrow>
             (Reply (error_response 503 BackendUnavailable),
              emit_decision_event w
                \<lparr>ep_request_id = request_str (ir_request_id inq), ep_model = oq_model req, ep_session_id = oq_session req,
                 ep_decisions = [], ep_attempts = [], ep_selected = None, ep_prompt_blocks = pb, ep_outcome = OutcomeRoutingFailed\<rparr> s1)
         | Inl (Err e) \<Rightarrow>
             (Reply (error_response 503 e),
              emit_decision_event w
                \<lparr>ep_request_id = request_str (ir_request_id inq), ep_model = oq_model req, ep_session_id = oq_session req,
                 ep_decisions = [], ep_attempts = [], ep_selected = None, ep_prompt_blocks = pb, ep_outcome = OutcomeRoutingFailed\<rparr> s1)
         | Inr (d # ds) \<Rightarrow>
             (let (forwarded, fs) = forward_with_retries (cw_fpu w) (cw_forward w) (d # ds) inq pb s1
              in case forwarded of
                   Inr (stream, m) \<Rightarrow>
                     (let s2 = emit_decision_event w
                        \<lparr>ep_request_id = request_str (ir_request_id inq), ep_model = oq_model req, ep_session_id = oq_session req,
                         ep_decisions = d # ds, ep_attempts = fs_attempts fs, ep_selected = Some m, ep_prompt_blocks = pb, ep_outcome = OutcomeSuccess\<rparr> (fs_app fs)
                      in (if oq_stream req then Reply (stream_reply w stream (oq_model req) m inq)
                          else build_non_stream_response w stream (oq_model req) m inq, s2))
                 | Inl e \<Rightarrow>
                     (Reply (error_response 502 e),
                      emit_decision_event w
                        \<lparr>ep_request_id = request_str (ir_request_id inq), ep_model = oq_model req, ep_session_id = oq_session req,
                         ep_decisions = d # ds, ep_attempts = fs_attempts fs, ep_selected = None, ep_prompt_blocks = pb, ep_outcome = OutcomeAllCandidatesFailed\<rparr> (fs_app fs))))"

text \<open>The producer of the coalesced path: its result, unless it panics or hangs.\<close>

datatype forward_outcome = Forwarded coalesce_result | ForwardPanic | ForwardHangs

definition coalesced_context :: "xxh3 \<Rightarrow> routing_config \<Rightarrow> open_ai_chat_request \<Rightarrow> inference_request \<Rightarrow> routing_context" where
  "coalesced_context xxh cfg req inq =
     (let hashes = (if ir_token_ids inq \<noteq> [] then
            compute_block_hashes xxh \<lparr>bh_tokens = ir_token_ids inq, bh_kv_block_size = rg_kv_block_size cfg, bh_cache_namespace = None,
              bh_lora_name = ir_lora_name inq\<rparr>
          else [])
      in \<lparr>rc_request_id = Some (ir_request_id inq), rc_session_id = map_option SessionId (oq_session req), rc_tenant_id = None,
          rc_model_name = Some (oq_model req), rc_token_ids = ir_token_ids inq, rc_block_hashes = hashes,
          rc_block_size = rg_kv_block_size cfg, rc_lora_name = ir_lora_name inq, rc_cache_namespace = None,
          rc_estimated_output_tokens = ir_max_tokens inq, rc_requires_tool_calling = (ir_tools inq \<noteq> [])\<rparr>)"

definition run_coalesced_forward :: "chat_world \<Rightarrow> open_ai_chat_request \<Rightarrow> app_state \<Rightarrow> forward_outcome \<times> app_state" where
  "run_coalesced_forward w req s =
     (let inq = to_inference_request (cw_print_json w) (cw_uuid w) req;
          ctx = coalesced_context (cw_xxh w) (as_routing_config s) req inq;
          pb = of_nat (length (rc_block_hashes ctx));
          (routed, s1) = route_step w ctx s
      in case routed of
           Inl Panicked \<Rightarrow> (ForwardPanic, s1)
         | Inr [] \<Rightarrow>
             (Forwarded (Inl (CoalesceError (error_to_string BackendUnavailable))),
              emit_decision_event w
                \<lparr>ep_request_id = request_str (ir_request_id inq), ep_model = oq_model req, ep_session_id = oq_session req,
                 ep_decisions = [], ep_attempts = [], ep_selected = None, ep_prompt_blocks = pb, ep_outcome = OutcomeRoutingFailed\<rparr> s1)
         | Inl (Err e) \<Rightarrow>
             (Forwarded (Inl (CoalesceError (error_to_string e))),
              emit_decision_event w
                \<lparr>ep_request_id = request_str (ir_request_id inq), ep_model = oq_model req, ep_session_id = oq_session req,
                 ep_decisions = [], ep_attempts = [], ep_selected = None, ep_prompt_blocks = pb, ep_outcome = OutcomeRoutingFailed\<rparr> s1)
         | Inr (d # ds) \<Rightarrow>
             (let (forwarded, fs) = forward_with_retries (cw_fpu w) (cw_forward w) (d # ds) inq pb s1
              in case forwarded of
                   Inr (stream, m) \<Rightarrow>
                     (let s2 = emit_decision_event w
                        \<lparr>ep_request_id = request_str (ir_request_id inq), ep_model = oq_model req, ep_session_id = oq_session req,
                         ep_decisions = d # ds, ep_attempts = fs_attempts fs, ep_selected = Some m, ep_prompt_blocks = pb, ep_outcome = OutcomeSuccess\<rparr> (fs_app fs)
                      in (case aggregate_chunk_stream (cw_fpu w) (cw_created w) stream (request_id_of inq) (oq_model req) inq of
                            None \<Rightarrow> ForwardHangs
                          | Some ChatPanic \<Rightarrow> ForwardPanic
                          | Some (ChatResponse resp) \<Rightarrow>
                              (case cw_json_response w resp of
                                 Inl e \<Rightarrow> Forwarded (Inl (CoalesceError e))
                               | Inr bytes \<Rightarrow> Forwarded (Inr \<lparr>cr_status = 200, cr_body = bytes, cr_backend = rm_backend m,
                                   cr_strategy = rm_strategy m, cr_kv_overlap = rm_kv_overlap m\<rparr>))
                          | Some (ChatErrorChunk code message) \<Rightarrow>
                              Forwarded (Inl (CoalesceError (error_to_string (ConnectorError (''backend error: '' @ message))))), s2))
                 | Inl e \<Rightarrow>
                     (Forwarded (Inl (CoalesceError (error_to_string e))),
                      emit_decision_event w
                        \<lparr>ep_request_id = request_str (ir_request_id inq), ep_model = oq_model req, ep_session_id = oq_session req,
                         ep_decisions = d # ds, ep_attempts = fs_attempts fs, ep_selected = None, ep_prompt_blocks = pb, ep_outcome = OutcomeAllCandidatesFailed\<rparr> (fs_app fs))))"

definition build_coalesced_response :: "(string \<Rightarrow> bool) \<Rightarrow> coalesced_response \<Rightarrow> reply" where
  "build_coalesced_response valid c =
     \<lparr>ht_status = (case status_code (unat (cr_status c)) of Some n \<Rightarrow> n | None \<Rightarrow> 500),
      ht_headers = AList.update ''X-Hier-KV-Gateway-Coalesced'' ''true''
        (apply_to_headers valid \<lparr>rm_backend = cr_backend c, rm_strategy = cr_strategy c, rm_kv_overlap = cr_kv_overlap c\<rparr> []),
      ht_body = BytesBody (cr_body c)\<rparr>"

text \<open>What each caller of the coalescer replies with the result it gets.\<close>

definition coalesced_reply :: "(string \<Rightarrow> bool) \<Rightarrow> coalesce_result \<Rightarrow> reply" where
  "coalesced_reply valid r =
     (case r of
        Inr c \<Rightarrow> build_coalesced_response valid c
      | Inl (CoalesceError e) \<Rightarrow> error_response 502 (ConnectorError e))"

text \<open>Which path a request takes, and the key of the coalesced one.\<close>

definition coalesces :: "open_ai_chat_request \<Rightarrow> app_state \<Rightarrow> bool" where
  "coalesces req s \<longleftrightarrow> \<not> oq_stream req \<and> coalescing_active (co_cfg (as_coalescer s))"

section \<open>Other endpoints\<close>

definition health_endpoint :: reply where
  "health_endpoint = json_reply 200 (StatusBody ''ok'')"

definition models_endpoint :: "i64 \<Rightarrow> app_state \<Rightarrow> reply" where
  "models_endpoint now s = json_reply 200 (ModelsBody (list_models now (as_metadata s)))"

definition admin_backends :: "app_state \<Rightarrow> reply" where
  "admin_backends s = json_reply 200 (BackendsBody (backends_all (as_metadata s)))"

definition admin_metrics :: "string \<Rightarrow> app_state \<Rightarrow> reply" where
  "admin_metrics i s =
     (case backend_parse i of
        None \<Rightarrow> json_reply 400 (ErrorBody (''invalid backend id: '' @ i @ '', expected '' @ [CHR 0x27] @ ''<region>/<instance>'' @ [CHR 0x27]) ''invalid_argument'')
      | Some b \<Rightarrow>
          (case load_get b (ms_load (as_metadata s)) of
             Some m \<Rightarrow> json_reply 200 (MetricsBody m)
           | None \<Rightarrow> json_reply 404 (ErrorBody (''no metrics for backend '' @ i) ''not_found'')))"

definition admin_decision_events :: "nat option \<Rightarrow> app_state \<Rightarrow> reply" where
  "admin_decision_events limit s =
     (if as_decision_buffer s then
        json_reply 200 (EventsBody (buffer_snapshot (case limit of Some n \<Rightarrow> n | None \<Rightarrow> 0) (as_telemetry s)))
      else json_reply 404 (ErrorBody ''decision event buffer is disabled (telemetry.buffer_size = 0)'' ''not_found''))"

definition cluster_peers :: "string \<Rightarrow> app_state \<Rightarrow> reply" where
  "cluster_peers peer_addr s =
     (case as_peer_registrar s of
        None \<Rightarrow> json_reply 503 (PeersBody False ''cluster transport is not enabled on this gateway'')
      | Some meet \<Rightarrow>
          (case meet peer_addr of
             Inr u \<Rightarrow> json_reply 200 (PeersBody True (''Meet sent to '' @ peer_addr))
           | Inl e \<Rightarrow> json_reply 200 (PeersBody False (''Failed to send Meet to '' @ peer_addr @ '': '' @ e))))"

section \<open>The two paths\<close>

text \<open>The routing and forwarding of a request by itself: an error with its status, or the stream. Each of the two
  paths is that and what it makes of it.\<close>

datatype served = ServeError nat gateway_error | ServeStream "inference_chunk source" routing_meta | ServePanic

definition serve_request :: "chat_world \<Rightarrow> open_ai_chat_request \<Rightarrow> inference_request \<Rightarrow> app_state \<Rightarrow> served \<times> app_state" where
  "serve_request w req inq s =
     (let ctx = request_context (cw_xxh w) (as_routing_config s) req inq; pb = of_nat (length (rc_block_hashes ctx));
          p = \<lparr>ep_request_id = request_str (ir_request_id inq), ep_model = oq_model req, ep_session_id = oq_session req, ep_decisions = [], ep_attempts = [],
               ep_selected = None, ep_prompt_blocks = pb, ep_outcome = OutcomeRoutingFailed\<rparr>;
          (routed, s1) = route_step w ctx s
      in case routed of
           Inl Panicked \<Rightarrow> (ServePanic, s1)
         | Inl (Err e) \<Rightarrow> (ServeError 503 e, emit_decision_event w p s1)
         | Inr [] \<Rightarrow> (ServeError 503 BackendUnavailable, emit_decision_event w p s1)
         | Inr (d # ds) \<Rightarrow>
             (let (r, fs) = forward_with_retries (cw_fpu w) (cw_forward w) (d # ds) inq pb s1;
                  q = p\<lparr>ep_decisions := d # ds, ep_attempts := fs_attempts fs\<rparr>
              in case r of
                   Inr (stream, m) \<Rightarrow> (ServeStream stream m, emit_decision_event w (q\<lparr>ep_selected := Some m, ep_outcome := OutcomeSuccess\<rparr>) (fs_app fs))
                 | Inl e \<Rightarrow> (ServeError 502 e, emit_decision_event w (q\<lparr>ep_outcome := OutcomeAllCandidatesFailed\<rparr>) (fs_app fs))))"

lemma coalesced_context: "coalesced_context = request_context"
  by (intro ext) (simp add: coalesced_context_def request_context_def request_hashes_def)

lemma chat_direct_serves:
  "chat_direct w req s =
     (let inq = to_inference_request (cw_print_json w) (cw_uuid w) req; (r, s') = serve_request w req inq s
      in (case r of
            ServePanic \<Rightarrow> Panicking
          | ServeError status e \<Rightarrow> Reply (error_response status e)
          | ServeStream stream m \<Rightarrow>
              if oq_stream req then Reply (stream_reply w stream (oq_model req) m inq)
              else build_non_stream_response w stream (oq_model req) m inq, s'))"
  by (simp add: chat_direct_def serve_request_def Let_def split: prod.split sum.split failure.split list.split)

lemma coalesced_forward_serves:
  "run_coalesced_forward w req s =
     (let inq = to_inference_request (cw_print_json w) (cw_uuid w) req; (r, s') = serve_request w req inq s
      in (case r of
            ServePanic \<Rightarrow> ForwardPanic
          | ServeError status e \<Rightarrow> Forwarded (Inl (CoalesceError (error_to_string e)))
          | ServeStream stream m \<Rightarrow>
              (case aggregate_chunk_stream (cw_fpu w) (cw_created w) stream (request_id_of inq) (oq_model req) inq of
                 None \<Rightarrow> ForwardHangs
               | Some ChatPanic \<Rightarrow> ForwardPanic
               | Some (ChatResponse resp) \<Rightarrow>
                   (case cw_json_response w resp of
                      Inl e \<Rightarrow> Forwarded (Inl (CoalesceError e))
                    | Inr bytes \<Rightarrow> Forwarded (Inr \<lparr>cr_status = 200, cr_body = bytes, cr_backend = rm_backend m, cr_strategy = rm_strategy m,
                                     cr_kv_overlap = rm_kv_overlap m\<rparr>))
               | Some (ChatErrorChunk code message) \<Rightarrow>
                   Forwarded (Inl (CoalesceError (error_to_string (ConnectorError (''backend error: '' @ message)))))), s'))"
  by (simp add: run_coalesced_forward_def coalesced_context serve_request_def Let_def split: prod.split sum.split failure.split list.split)

text \<open>A concrete world: two registered backends, both with a connector whose backend answers with an empty body.\<close>

definition demo_world :: chat_world where
  "demo_world = \<lparr>cw_fpu = exact_fpu, cw_xxh = (\<lambda>_ s. s), cw_draw = (\<lambda>_ _. None), cw_inst = 0, cw_now = 9,
     cw_forward = demo_env\<lparr>fe_connectors := (\<lambda>j. [(eu_backend ''a'', demo_connector), (eu_backend ''b'', demo_connector)])\<rparr>,
     cw_before_event = (\<lambda>s. s), cw_uuid = ''r'', cw_event_id = ''e'', cw_event_time = 0, cw_created = 0, cw_routing_latency_us = 0,
     cw_total_latency_us = 0, cw_print_json = (\<lambda>j. None), cw_json_event = (\<lambda>ev. Some (de_request_id ev)), cw_json_chunk = (\<lambda>c. None),
     cw_json_response = (\<lambda>r. Inr []), cw_valid_header = (\<lambda>v. True)\<rparr>"

definition demo_chat :: open_ai_chat_request where
  "demo_chat = \<lparr>oq_model = ''m'', oq_messages = [], oq_max_tokens = default_max_tokens, oq_temperature = default_temperature, oq_stream = False,
     oq_tools = [], oq_lora_name = None, oq_session = None, oq_token_ids = []\<rparr>"

text \<open>C23. The forward that a leader runs for its callers, \<open>run_coalesced_forward\<close>, against the direct path on the same non-streaming
  request: it leaves the same state, its decision event included. (Callers that wait run nothing and emit no event; they reply
  with the leader's result too.) When the direct reply is a response, so is the coalesced one, with the response serialised and one header
  more; should the serialisation fail, it is an error. When the direct reply is an error with any status, the coalesced one has the
  status 502 and the type of a connector error: the 503 of a failed routing decision and the status of a backend are lost, and the
  message is wrapped once more.\<close>

theorem coalesced_path_agrees:
  assumes "\<not> oq_stream req" "chat_direct w req s = (direct, s1)" "run_coalesced_forward w req s = (forward, s2)"
  shows "s2 = s1 \<and>
    (direct = Panicking \<longrightarrow> forward = ForwardPanic) \<and> (direct = Hanging \<longrightarrow> forward = ForwardHangs) \<and>
    (\<forall>rep. direct = Reply rep \<longrightarrow>
       (case ht_body rep of
          ResponseBody resp \<Rightarrow> ht_status rep = 200 \<and>
            (case cw_json_response w resp of
               Inr bytes \<Rightarrow> (\<exists>c. forward = Forwarded (Inr c) \<and> coalesced_reply (cw_valid_header w) (Inr c) =
                  \<lparr>ht_status = 200, ht_headers = AList.update ''X-Hier-KV-Gateway-Coalesced'' ''true'' (ht_headers rep), ht_body = BytesBody bytes\<rparr>)
             | Inl e \<Rightarrow> forward = Forwarded (Inl (CoalesceError e)))
        | ErrorBody message ty \<Rightarrow> (\<exists>r. forward = Forwarded r \<and>
            coalesced_reply (cw_valid_header w) r = error_response 502 (ConnectorError message))
        | _ \<Rightarrow> False))"
proof -
  obtain r s' where serve: "serve_request w req (to_inference_request (cw_print_json w) (cw_uuid w) req) s = (r, s')" by fastforce
  show ?thesis
  proof (cases r)
    case (ServeStream stream m)
    then show ?thesis
      using assms serve ServeStream
      by (auto simp: chat_direct_serves coalesced_forward_serves build_non_stream_response_def coalesced_reply_def build_coalesced_response_def
          status_code_def error_response_def Let_def split: option.splits chat_result.splits sum.splits)
  qed (use assms serve in \<open>auto simp: chat_direct_serves coalesced_forward_serves coalesced_reply_def error_response_def\<close>)
qed

text \<open>The same gateway before a backend has registered.\<close>

definition idle_app :: app_state where
  "idle_app = demo_app\<lparr>as_metadata := store_new\<rparr>"

lemma idle_direct:
  "fst (chat_direct demo_world demo_chat idle_app) = Reply (error_response 503 BackendUnavailable)"
proof -
  have none: "route_pool None ctx store_new = []" for ctx
    by (simp add: route_pool_def backends_all_def model_find_backends_def collect_ids_def store_new_def split: option.split)
  have "route_candidates F xxh draw inst now ctx limit eng store_new = (Inl (Err BackendUnavailable), eng, store_new)"
    if "rc_session_id ctx = None" "0 < limit" for F xxh draw inst now ctx limit eng
    using that by (simp add: route_candidates_def affinity_head_def none)
  moreover have "0 < max_attempts (as_routing_config idle_app)" by (simp add: max_attempts_def unat_sat_add)
  ultimately have "fst (route_step demo_world ctx idle_app) = Inl (Err BackendUnavailable)" if "rc_session_id ctx = None" for ctx
    using that by (simp add: route_step_def) (simp add: idle_app_def)
  then show ?thesis
    by (simp add: chat_direct_def request_context_def demo_chat_def Let_def case_prod_beta)
qed

theorem coalesced_path_agrees_witness:
  "snd (run_coalesced_forward demo_world demo_chat idle_app) = snd (chat_direct demo_world demo_chat idle_app) \<and>
   fst (chat_direct demo_world demo_chat idle_app) = Reply (error_response 503 BackendUnavailable) \<and>
   (\<exists>r. fst (run_coalesced_forward demo_world demo_chat idle_app) = Forwarded r \<and>
      coalesced_reply (cw_valid_header demo_world) r = error_response 502 (ConnectorError (error_to_string BackendUnavailable)))"
proof -
  have "\<not> oq_stream demo_chat" by (simp add: demo_chat_def)
  from coalesced_path_agrees [OF this surjective_pairing surjective_pairing, of demo_world idle_app] show ?thesis
    using idle_direct by (simp add: error_response_def)
qed

section \<open>One event for each request\<close>

text \<open>What other requests leave alone: the parts of the state that never change, and the telemetry.\<close>

definition leaves_telemetry :: "(app_state \<Rightarrow> app_state) \<Rightarrow> bool" where
  "leaves_telemetry f \<longleftrightarrow> (\<forall>s. as_telemetry (f s) = as_telemetry s \<and> as_decision_sink (f s) = as_decision_sink s \<and>
     as_retry_policy (f s) = as_retry_policy s)"

lemma forward_leaves_telemetry:
  assumes "\<And>j p. leaves_telemetry (fe_meanwhile env j p)" "forward_loop F env inq pb j ds fs = (r, fs')"
  shows "as_telemetry (fs_app fs') = as_telemetry (fs_app fs) \<and> as_decision_sink (fs_app fs') = as_decision_sink (fs_app fs)"
  using assms(2)
proof (induction ds arbitrary: j fs)
  case (Cons d ds)
  have adapt: "as_decision_sink (adapt f s) = as_decision_sink s" for f s by (simp add: adapt_def)
  have gate: "as_telemetry (snd (pass_gate env j b s)) = as_telemetry s \<and> as_decision_sink (snd (pass_gate env j b s)) = as_decision_sink s" for b s
    using assms(1) by (simp add: pass_gate_def leaves_telemetry_def Let_def split: prod.split)
  have att: "as_telemetry (snd (attempt F env inq pb j d s)) = as_telemetry s \<and> as_decision_sink (snd (attempt F env inq pb j d s)) = as_decision_sink s" for s
    using assms(1) by (simp add: attempt_def leaves_telemetry_def adapt Let_def split: option.split sum.split)
  from Cons.prems show ?case
  proof (cases rule: forward_loop_step)
    case (skipped s fs1)
    then show ?thesis using Cons.IH [OF skipped(3)] gate [of "rd_backend d" "fs_app fs"] by simp
  next
    case (won s stream s')
    then show ?thesis using gate [of "rd_backend d" "fs_app fs"] att [of s] by simp
  next
    case (failed s e s' fs1)
    then show ?thesis using Cons.IH [OF failed(4)] gate [of "rd_backend d" "fs_app fs"] att [of s] by simp
  qed
qed simp

text \<open>What an event says about the reply of its request.\<close>

definition event_matches :: "chat_world \<Rightarrow> decision_event \<Rightarrow> chat_outcome \<Rightarrow> bool" where
  "event_matches w ev out \<longleftrightarrow>
     (case de_outcome ev of
        OutcomeRoutingFailed \<Rightarrow> (\<exists>e. out = Reply (error_response 503 e)) \<and> de_candidates ev = [] \<and> de_attempts ev = [] \<and> de_selected_backend ev = None
      | OutcomeAllCandidatesFailed \<Rightarrow> (\<exists>e. out = Reply (error_response 502 e)) \<and> de_selected_backend ev = None \<and>
          map fa_backend (de_attempts ev) = map cand_backend (de_candidates ev) \<and> list_all (\<lambda>a. \<not> fa_success a) (de_attempts ev)
      | OutcomeSuccess \<Rightarrow> (\<exists>k < length (de_candidates ev). length (de_attempts ev) = Suc k \<and>
          map fa_backend (de_attempts ev) = map cand_backend (take (Suc k) (de_candidates ev)) \<and>
          map fa_success (de_attempts ev) = replicate k False @ [True] \<and>
          de_selected_backend ev = Some (cand_backend (de_candidates ev ! k)) \<and> de_kv_overlap ev = cand_kv_overlap (de_candidates ev ! k) \<and>
          (\<forall>rep. out = Reply rep \<and> (\<forall>message ty. ht_body rep \<noteq> ErrorBody message ty) \<and> cw_valid_header w (cand_backend (de_candidates ev ! k)) \<longrightarrow>
             map_of (ht_headers rep) ''X-Hier-KV-Gateway-Backend'' = de_selected_backend ev)))"

lemma log_of_success:
  assumes "log_of env inq 0 ds err (Inr (stream, m)) entries"
  obtains k where "k < length ds" "length entries = Suc k" "map fa_success entries = replicate k False @ [True]" "m = from_decision (ds ! k)"
    "map fa_backend entries = map (\<lambda>d. backend_display (rd_backend d)) (take (Suc k) ds)"
proof -
  have e: "entries \<noteq> []" "length entries \<le> length ds" "fa_success (last entries)" "list_all (\<lambda>a. \<not> fa_success a) (butlast entries)"
    using assms by (simp_all add: log_of_def)
  then obtain k where k: "length entries = Suc k" by (cases entries) auto
  have "map fa_success (butlast entries) = replicate k False"
    using e(4) k by (simp add: list_eq_iff_nth_eq list_all_length)
  then have "map fa_success (butlast entries @ [last entries]) = replicate k False @ [True]" using e(3) by (simp only: map_append) simp
  then show thesis using assms e k by (intro that [of k]) (simp_all add: log_of_def)
qed

lemma header_backend:
  "valid (rm_backend m) \<Longrightarrow> map_of (apply_to_headers valid m []) ''X-Hier-KV-Gateway-Backend'' = Some (rm_backend m)"
  by (simp add: apply_to_headers_def insert_header_def update_conv)

lemma reply_names_backend:
  assumes "out = (if oq_stream req then Reply (stream_reply w stream model m inq) else build_non_stream_response w stream model m inq)"
    and "out = Reply rep" "\<forall>message ty. ht_body rep \<noteq> ErrorBody message ty" "cw_valid_header w (rm_backend m)"
  shows "map_of (ht_headers rep) ''X-Hier-KV-Gateway-Backend'' = Some (rm_backend m)"
  using assms header_backend [of "cw_valid_header w" m]
  by (auto simp: stream_reply_def build_non_stream_response_def error_response_def split: if_splits option.splits chat_result.splits)

lemma serve_event:
  assumes "\<And>j p. leaves_telemetry (fe_meanwhile (cw_forward w) j p)" "leaves_telemetry (cw_before_event w)"
    and "serve_request w req inq s = (r, s')" "r \<noteq> ServePanic"
  obtains ev where "as_telemetry s' = sink_emit (cw_json_event w) ev (as_decision_sink s) (as_telemetry s)"
    "de_request_id ev = request_id_of inq" "de_model ev = oq_model req"
    "case de_outcome ev of
       OutcomeRoutingFailed \<Rightarrow> (\<exists>e. r = ServeError 503 e) \<and> de_candidates ev = [] \<and> de_attempts ev = [] \<and> de_selected_backend ev = None
     | OutcomeAllCandidatesFailed \<Rightarrow> (\<exists>e. r = ServeError 502 e) \<and> de_selected_backend ev = None \<and>
         map fa_backend (de_attempts ev) = map cand_backend (de_candidates ev) \<and> list_all (\<lambda>a. \<not> fa_success a) (de_attempts ev)
     | OutcomeSuccess \<Rightarrow> (\<exists>stream m k. r = ServeStream stream m \<and> k < length (de_candidates ev) \<and>
         map fa_backend (de_attempts ev) = map cand_backend (take (Suc k) (de_candidates ev)) \<and>
         map fa_success (de_attempts ev) = replicate k False @ [True] \<and> rm_backend m = cand_backend (de_candidates ev ! k) \<and>
         rm_kv_overlap m = cand_kv_overlap (de_candidates ev ! k) \<and> de_selected_backend ev = Some (rm_backend m) \<and> de_kv_overlap ev = rm_kv_overlap m)"
proof -
  let ?ctx = "request_context (cw_xxh w) (as_routing_config s) req inq"
  let ?pb = "of_nat (length (rc_block_hashes ?ctx)) :: u32"
  obtain routed s1 where route: "route_step w ?ctx s = (routed, s1)" by fastforce
  have s1: "as_telemetry s1 = as_telemetry s" "as_decision_sink s1 = as_decision_sink s"
    using route by (auto simp: route_step_def split: prod.splits)
  have emit: "as_telemetry (emit_decision_event w p t) =
      sink_emit (cw_json_event w) (decision_event_of w p (cw_before_event w t)) (as_decision_sink t) (as_telemetry t)" for p t
    using assms(2) by (simp add: emit_decision_event_def leaves_telemetry_def Let_def)
  let ?p = "\<lparr>ep_request_id = request_str (ir_request_id inq), ep_model = oq_model req, ep_session_id = oq_session req, ep_decisions = [],
    ep_attempts = [], ep_selected = None, ep_prompt_blocks = ?pb, ep_outcome = OutcomeRoutingFailed\<rparr>"
  show thesis
  proof (cases "\<exists>d ds. routed = Inr (d # ds)")
    case False
    then have "\<exists>e. r = ServeError 503 e" "s' = emit_decision_event w ?p s1"
      using assms(3,4) route by (auto simp: serve_request_def Let_def split: sum.splits failure.splits list.splits)
    then show thesis
      by (intro that [of "decision_event_of w ?p (cw_before_event w s1)"]) (simp_all add: emit s1 decision_event_of_def request_id_of_def)
  next
    case True
    then obtain d ds where routed: "routed = Inr (d # ds)" by blast
    let ?ds = "d # ds"
    obtain f fs where run: "forward_with_retries (cw_fpu w) (cw_forward w) ?ds inq ?pb s1 = (f, fs)" by fastforce
    then have loop: "forward_loop (cw_fpu w) (cw_forward w) inq ?pb 0 ?ds (forward_start s1) = (f, fs)" by (simp add: forward_with_retries_def)
    have frame: "as_telemetry (fs_app fs) = as_telemetry s" "as_decision_sink (fs_app fs) = as_decision_sink s"
      using forward_leaves_telemetry [OF assms(1) loop] s1 by (simp_all add: forward_start_def)
    have log_ok: "log_of (cw_forward w) inq 0 ?ds None f (fs_attempts fs)"
      using forward_loop_attempts [OF loop] by (auto simp: forward_start_def)
    show thesis
    proof (cases f)
      case (Inl e)
      let ?q = "?p\<lparr>ep_decisions := ?ds, ep_attempts := fs_attempts fs, ep_outcome := OutcomeAllCandidatesFailed\<rparr>"
      have "r = ServeError 502 e" "s' = emit_decision_event w ?q (fs_app fs)"
        using assms(3) route routed run Inl by (auto simp: serve_request_def Let_def)
      moreover have "map fa_backend (fs_attempts fs) = map cand_backend (map candidate_of ?ds)" "list_all (\<lambda>a. \<not> fa_success a) (fs_attempts fs)"
        using log_ok Inl by (simp_all add: log_of_def candidate_of_def comp_def)
      ultimately show thesis
        by (intro that [of "decision_event_of w ?q (cw_before_event w (fs_app fs))"]) (simp_all add: emit frame decision_event_of_def request_id_of_def)
    next
      case (Inr x)
      obtain stream m where x: "x = (stream, m)" by fastforce
      let ?q = "?p\<lparr>ep_decisions := ?ds, ep_attempts := fs_attempts fs, ep_selected := Some m, ep_outcome := OutcomeSuccess\<rparr>"
      have r: "r = ServeStream stream m" "s' = emit_decision_event w ?q (fs_app fs)"
        using assms(3) route routed run Inr x by (auto simp: serve_request_def Let_def)
      obtain k where k: "k < length ?ds" "map fa_success (fs_attempts fs) = replicate k False @ [True]" "m = from_decision (?ds ! k)"
          "map fa_backend (fs_attempts fs) = map (\<lambda>d. backend_display (rd_backend d)) (take (Suc k) ?ds)"
        using log_of_success [OF log_ok [unfolded Inr x]] by metis
      have "map fa_backend (fs_attempts fs) = map cand_backend (take (Suc k) (map candidate_of ?ds))"
        using k(4) by (simp only: take_map map_map) (simp add: comp_def candidate_of_def)
      moreover have "map candidate_of ?ds ! k = candidate_of (?ds ! k)" using k(1) by (simp only: nth_map)
      ultimately show thesis
        using r k(1-3)
        by (intro that [of "decision_event_of w ?q (cw_before_event w (fs_app fs))"])
          (auto simp: emit frame decision_event_of_def request_id_of_def from_decision_def candidate_of_def intro!: exI [of _ k])
    qed
  qed
qed

text \<open>C10. A request that is not lost to a panic of the routing decision emits exactly one decision event, and it matches the reply: after a
  failed decision the reply is a 503 and the event has no candidates; when every candidate failed the reply is a 502 and the event
  lists an unsuccessful attempt on each of them in order; otherwise the attempts are those on the first candidates, only the last one
  succeeded, and the header of a response names the backend the event has as selected. (The documents ask for 503 in the second case
  too.)\<close>

theorem one_decision_event:
  assumes "\<forall>j p t. as_telemetry (fe_meanwhile (cw_forward w) j p t) = as_telemetry t \<and>
      as_decision_sink (fe_meanwhile (cw_forward w) j p t) = as_decision_sink t \<and> as_retry_policy (fe_meanwhile (cw_forward w) j p t) = as_retry_policy t"
    and "\<forall>t. as_telemetry (cw_before_event w t) = as_telemetry t \<and> as_decision_sink (cw_before_event w t) = as_decision_sink t \<and>
      as_retry_policy (cw_before_event w t) = as_retry_policy t"
    and "fst (route_step w (request_context (cw_xxh w) (as_routing_config s) req (to_inference_request (cw_print_json w) (cw_uuid w) req)) s) \<noteq> Inl Panicked"
    and "chat_direct w req s = (out, s')"
  shows "\<exists>ev. as_telemetry s' = sink_emit (cw_json_event w) ev (as_decision_sink s) (as_telemetry s) \<and>
    de_request_id ev = cw_uuid w \<and> de_model ev = oq_model req \<and> event_matches w ev out"
proof -
  let ?inq = "to_inference_request (cw_print_json w) (cw_uuid w) req"
  obtain r t where serve: "serve_request w req ?inq s = (r, t)" by fastforce
  have leaves: "\<And>j p. leaves_telemetry (fe_meanwhile (cw_forward w) j p)" "leaves_telemetry (cw_before_event w)"
    using assms(1,2) by (simp_all add: leaves_telemetry_def)
  have "r \<noteq> ServePanic"
    using assms(3) serve by (auto simp: serve_request_def Let_def split: prod.splits sum.splits failure.splits list.splits)
  from serve_event [OF leaves serve this] obtain ev where ev: "as_telemetry t = sink_emit (cw_json_event w) ev (as_decision_sink s) (as_telemetry s)"
      "de_request_id ev = request_id_of ?inq" "de_model ev = oq_model req" and outcome: "case de_outcome ev of
         OutcomeRoutingFailed \<Rightarrow> (\<exists>e. r = ServeError 503 e) \<and> de_candidates ev = [] \<and> de_attempts ev = [] \<and> de_selected_backend ev = None
       | OutcomeAllCandidatesFailed \<Rightarrow> (\<exists>e. r = ServeError 502 e) \<and> de_selected_backend ev = None \<and>
           map fa_backend (de_attempts ev) = map cand_backend (de_candidates ev) \<and> list_all (\<lambda>a. \<not> fa_success a) (de_attempts ev)
       | OutcomeSuccess \<Rightarrow> (\<exists>stream m k. r = ServeStream stream m \<and> k < length (de_candidates ev) \<and>
           map fa_backend (de_attempts ev) = map cand_backend (take (Suc k) (de_candidates ev)) \<and>
           map fa_success (de_attempts ev) = replicate k False @ [True] \<and> rm_backend m = cand_backend (de_candidates ev ! k) \<and>
           rm_kv_overlap m = cand_kv_overlap (de_candidates ev ! k) \<and> de_selected_backend ev = Some (rm_backend m) \<and> de_kv_overlap ev = rm_kv_overlap m)"
    by blast
  have "request_id_of ?inq = cw_uuid w" by (simp add: request_id_of_def to_inference_request_def)
  moreover have "s' = t" using assms(4) serve by (simp add: chat_direct_serves Let_def)
  moreover have "event_matches w ev out"
  proof (cases "de_outcome ev")
    case OutcomeSuccess
    then obtain stream m k where k: "r = ServeStream stream m" "k < length (de_candidates ev)"
      "map fa_backend (de_attempts ev) = map cand_backend (take (Suc k) (de_candidates ev))"
      "map fa_success (de_attempts ev) = replicate k False @ [True]" "rm_backend m = cand_backend (de_candidates ev ! k)"
      "rm_kv_overlap m = cand_kv_overlap (de_candidates ev ! k)" "de_selected_backend ev = Some (rm_backend m)" "de_kv_overlap ev = rm_kv_overlap m"
      using outcome by auto
    have out: "out = (if oq_stream req then Reply (stream_reply w stream (oq_model req) m ?inq) else build_non_stream_response w stream (oq_model req) m ?inq)"
      using assms(4) serve k(1) by (simp add: chat_direct_serves Let_def)
    note out [THEN reply_names_backend]
    moreover have "length (de_attempts ev) = Suc k" using arg_cong [OF k(4), of length] by simp
    ultimately show ?thesis using OutcomeSuccess k by (auto simp: event_matches_def intro!: exI [of _ k])
  qed (use outcome assms(4) serve in \<open>auto simp: event_matches_def chat_direct_serves Let_def\<close>)
  ultimately show ?thesis using ev by auto
qed

lemma demo_world_quiet:
  "fe_meanwhile (cw_forward demo_world) j p t = t" "cw_before_event demo_world t = t"
  by (simp_all add: demo_world_def demo_env_def)

lemma demo_world_routes: "\<exists>ds. fst (route_step demo_world ctx demo_app) = Inr ds"
proof -
  have quiet: "degradation_is_available 9 demo_store" "backends_all demo_store \<noteq> []"
    by (simp_all add: degradation_available_iff demo_store_def register_backend_def store_new_def load_freshness_def load_get_def backends_all_def
        sample_backend_def eu_backend_def load_new_def)
  have engine: "\<not> re_trace_sub_scores demo_engine" "f64_le (re_temperature demo_engine) (Fin 0)"
    by (simp_all add: demo_engine_def with_primary_strategy_def routing_engine_new_def demo_hybrid_def hybrid_new_def f64_le_def)
  have "never_panics exact_fpu 0 9 ctx demo_engine (ms_kv demo_store)" using demo_no_panic by (simp add: never_panics_def)
  from degraded_routes_ok [OF this quiet engine, where limit = "max_attempts (as_routing_config demo_app)" and xxh = "\<lambda>_ s. s" and draw = "\<lambda>_ _. None"]
  show ?thesis by (auto simp: route_step_def demo_world_def demo_app_def max_attempts_def unat_sat_add)
qed

theorem one_decision_event_witness:
  "\<exists>ev. as_telemetry (snd (chat_direct demo_world demo_chat demo_app)) =
      sink_emit (\<lambda>ev. Some (de_request_id ev)) ev RingBufferSink (telemetry_start telemetry_default) \<and> de_request_id ev = ''r'' \<and>
    event_matches demo_world ev (fst (chat_direct demo_world demo_chat demo_app))"
proof -
  have "fst (route_step demo_world ctx demo_app) \<noteq> Inl Panicked" for ctx using demo_world_routes [of ctx] by auto
  from one_decision_event [OF _ _ this surjective_pairing, of demo_chat] obtain ev where
    "as_telemetry (snd (chat_direct demo_world demo_chat demo_app)) = sink_emit (cw_json_event demo_world) ev (as_decision_sink demo_app) (as_telemetry demo_app)"
    "de_request_id ev = cw_uuid demo_world" "event_matches demo_world ev (fst (chat_direct demo_world demo_chat demo_app))"
    using demo_world_quiet by auto
  then show ?thesis by (intro exI [of _ ev]) (simp add: demo_world_def demo_app_def)
qed

section \<open>From routing to the reply\<close>



end
