(* ===== verification/KvEstimate.thy ===== *)
theory KvEstimate
  imports Request "HOL-Library.Sublist"
begin

text \<open>
  The estimate of the KV cache a request needs, crate \<open>hier-kv-gateway-kv-estimate\<close>: model specifications (\<open>spec.rs\<close>), the
  formulas (\<open>estimate.rs\<close>), the builtin catalogue (\<open>catalog.rs\<close>), estimators (\<open>plugin.rs\<close>), their registry (\<open>registry.rs\<close>) and
  the configuration (\<open>config.rs\<close>). The arithmetic is that of a release build, it wraps. Strings are the lists of their bytes.
\<close>

section \<open>Specifications\<close>

datatype attention_kind = StandardAttention | Mla

datatype kv_dtype = KvFp32 | KvFp16 | KvBf16 | KvFp8 | KvInt8

fun dtype_bytes :: "kv_dtype \<Rightarrow> u32" where
  "dtype_bytes KvFp32 = 4"
| "dtype_bytes KvFp16 = 2"
| "dtype_bytes KvBf16 = 2"
| "dtype_bytes KvFp8 = 1"
| "dtype_bytes KvInt8 = 1"

record model_spec =
  sp_num_layers :: u32
  sp_num_kv_heads :: u32
  sp_head_dim :: u32
  sp_attention :: attention_kind
  sp_dtype :: kv_dtype
  sp_kv_lora_rank :: u32
  sp_qk_rope_head_dim :: u32
  sp_sliding_window :: u32

definition spec_literal :: "u32 \<Rightarrow> u32 \<Rightarrow> u32 \<Rightarrow> attention_kind \<Rightarrow> kv_dtype \<Rightarrow> u32 \<Rightarrow> u32 \<Rightarrow> u32 \<Rightarrow> model_spec" where
  "spec_literal layers heads hdim attention dtype rank rope window =
     \<lparr>sp_num_layers = layers, sp_num_kv_heads = heads, sp_head_dim = hdim, sp_attention = attention, sp_dtype = dtype,
      sp_kv_lora_rank = rank, sp_qk_rope_head_dim = rope, sp_sliding_window = window\<rparr>"

definition spec_standard :: "u32 \<Rightarrow> u32 \<Rightarrow> u32 \<Rightarrow> kv_dtype \<Rightarrow> model_spec" where
  "spec_standard layers heads hdim dtype = spec_literal layers heads hdim StandardAttention dtype 0 0 0"

definition spec_mla :: "u32 \<Rightarrow> u32 \<Rightarrow> u32 \<Rightarrow> kv_dtype \<Rightarrow> model_spec" where
  "spec_mla layers rank rope dtype = spec_literal layers 0 0 Mla dtype rank rope 0"

definition with_sliding_window :: "u32 \<Rightarrow> model_spec \<Rightarrow> model_spec" where
  "with_sliding_window window s = s\<lparr>sp_sliding_window := window\<rparr>"

definition spec_default :: model_spec where
  "spec_default = spec_literal 0 0 0 StandardAttention KvBf16 0 0 0"

record named_model_spec =
  nm_name :: string
  nm_spec :: model_spec

section \<open>The formulas\<close>

record estimate_input =
  ei_batch_size :: u32
  ei_input_tokens :: u32
  ei_output_tokens :: u32
  ei_block_size :: u32

definition estimate_input_new :: "u32 \<Rightarrow> u32 \<Rightarrow> estimate_input" where
  "estimate_input_new input output = \<lparr>ei_batch_size = 1, ei_input_tokens = input, ei_output_tokens = output, ei_block_size = 0\<rparr>"

definition with_batch :: "u32 \<Rightarrow> estimate_input \<Rightarrow> estimate_input" where
  "with_batch n i = i\<lparr>ei_batch_size := n\<rparr>"

definition with_block_size :: "u32 \<Rightarrow> estimate_input \<Rightarrow> estimate_input" where
  "with_block_size n i = i\<lparr>ei_block_size := n\<rparr>"

record kv_estimate =
  ke_bytes :: u64
  ke_blocks :: u64
  ke_per_token_bytes :: u64
  ke_effective_seq_len :: u32
  ke_batch_size :: u32

definition estimate_mib :: "fpu \<Rightarrow> kv_estimate \<Rightarrow> f64" where
  "estimate_mib F e = f64_div F (of_usize F (unat (ke_bytes e))) (Fin (2 ^ 20))"

definition estimate_mb :: "fpu \<Rightarrow> kv_estimate \<Rightarrow> f64" where
  "estimate_mb F e = f64_div F (of_usize F (unat (ke_bytes e))) (Fin (10 ^ 6))"

definition per_token_bytes :: "model_spec \<Rightarrow> u64" where
  "per_token_bytes s =
     (let db = ucast (dtype_bytes (sp_dtype s))
      in case sp_attention s of
           StandardAttention \<Rightarrow> 2 * ucast (sp_num_layers s) * ucast (sp_num_kv_heads s) * ucast (sp_head_dim s) * db
         | Mla \<Rightarrow> ucast (sp_num_layers s) * (ucast (sp_kv_lora_rank s) + ucast (sp_qk_rope_head_dim s)) * db)"

definition per_block_bytes :: "model_spec \<Rightarrow> u32 \<Rightarrow> u64" where
  "per_block_bytes s block_size = per_token_bytes s * ucast block_size"

definition div_ceil :: "u64 \<Rightarrow> u64 \<Rightarrow> u64" where
  "div_ceil a b = (if 0 < a mod b then a div b + 1 else a div b)"

definition effective_len :: "model_spec \<Rightarrow> estimate_input \<Rightarrow> u32" where
  "effective_len s i =
     (let seq_len = sat_add (ei_input_tokens i) (ei_output_tokens i)
      in if 0 < sp_sliding_window s \<and> sp_sliding_window s < seq_len then sp_sliding_window s else seq_len)"

definition estimate_kv :: "model_spec \<Rightarrow> estimate_input \<Rightarrow> kv_estimate" where
  "estimate_kv s i =
     (let per_token = per_token_bytes s; effective = effective_len s i;
          batch = (if ei_batch_size i = 0 then 1 else ei_batch_size i);
          (bytes, blocks) =
            (if 0 < ei_block_size i then
               let blocks_per_seq = div_ceil (ucast effective) (ucast (ei_block_size i));
                   total_blocks = blocks_per_seq * ucast batch; padded_per_seq = blocks_per_seq * ucast (ei_block_size i)
               in (per_token * ucast batch * padded_per_seq, total_blocks)
             else (per_token * ucast batch * ucast effective, 0))
      in \<lparr>ke_bytes = bytes, ke_blocks = blocks, ke_per_token_bytes = per_token, ke_effective_seq_len = effective, ke_batch_size = batch\<rparr>)"

section \<open>The builtin catalogue\<close>

definition BUILTIN_SPECS :: "model_spec list" where
  "BUILTIN_SPECS =
    [spec_literal 32 32 128 StandardAttention KvFp16 0 0 0,
     spec_literal 40 40 128 StandardAttention KvFp16 0 0 0,
     spec_literal 80 8 128 StandardAttention KvFp16 0 0 0,
     spec_literal 32 8 128 StandardAttention KvBf16 0 0 0,
     spec_literal 80 8 128 StandardAttention KvBf16 0 0 0,
     spec_literal 126 8 128 StandardAttention KvBf16 0 0 0,
     spec_literal 28 4 128 StandardAttention KvBf16 0 0 0,
     spec_literal 48 8 128 StandardAttention KvBf16 0 0 0,
     spec_literal 64 8 128 StandardAttention KvBf16 0 0 0,
     spec_literal 80 8 128 StandardAttention KvBf16 0 0 0,
     spec_literal 32 8 128 StandardAttention KvFp16 0 0 4096,
     spec_literal 32 8 128 StandardAttention KvFp16 0 0 4096,
     spec_literal 56 8 128 StandardAttention KvFp16 0 0 4096,
     spec_literal 42 8 256 StandardAttention KvBf16 0 0 4096,
     spec_literal 46 16 256 StandardAttention KvBf16 0 0 4096,
     spec_literal 27 0 0 Mla KvBf16 512 64 0,
     spec_literal 61 0 0 Mla KvBf16 512 64 0,
     spec_literal 28 2 128 StandardAttention KvFp16 0 0 0]"

definition BUILTIN_NAME_MAP :: "(string \<times> nat) list" where
  "BUILTIN_NAME_MAP =
    [(''llama-2-7b'', 0), (''llama2-7b'', 0), (''llama-2-13b'', 1), (''llama2-13b'', 1), (''llama-2-70b'', 2), (''llama2-70b'', 2),
     (''llama-3.1-405b'', 5), (''llama-3.3-70b'', 4), (''llama-3.1-70b'', 4), (''llama-3-70b'', 4), (''llama-3.1-8b'', 3),
     (''llama-3-8b'', 3), (''qwen2.5-72b'', 9), (''qwen2.5-32b'', 8), (''qwen2.5-14b'', 7), (''qwen2.5-7b'', 6),
     (''qwen2.5-coder'', 6), (''qwen2-72b'', 9), (''qwen2-7b'', 6), (''mixtral-8x22b'', 12), (''mixtral-8x7b'', 11),
     (''mistral-large'', 11), (''mistral-7b'', 10), (''gemma-2-27b'', 14), (''gemma-2-9b'', 13), (''deepseek-r1'', 16),
     (''deepseek-v3'', 16), (''deepseek-v2-lite'', 15), (''deepseek-v2'', 15), (''chatglm3'', 17), (''glm-3'', 17)]"

definition ascii_lower :: "char \<Rightarrow> char" where
  "ascii_lower c = (if CHR ''A'' \<le> c \<and> c \<le> CHR ''Z'' then char_of (of_char c + 32 :: nat) else c)"

text \<open>The two loops of \<open>contains_ascii_ci\<close>: one position against the needle, then every position.\<close>

function window_matches :: "string \<Rightarrow> string \<Rightarrow> nat \<Rightarrow> nat \<Rightarrow> bool" where
  "window_matches h n i j = (if j < length n then ascii_lower (h ! (i + j)) = n ! j \<and> window_matches h n i (Suc j) else True)"
  by pat_completeness auto

termination window_matches by (relation "measure (\<lambda>(h, n, i, j). length n - j)") auto

function any_window :: "string \<Rightarrow> string \<Rightarrow> nat \<Rightarrow> bool" where
  "any_window h n i = (if i \<le> length h - length n then window_matches h n i 0 \<or> any_window h n (Suc i) else False)"
  by pat_completeness auto

termination any_window by (relation "measure (\<lambda>(h, n, i). Suc (length h - length n) - i)") auto

definition contains_ascii_ci :: "string \<Rightarrow> string \<Rightarrow> bool" where
  "contains_ascii_ci h n = (if n = [] then True else if length h < length n then False else any_window h n 0)"

fun lookup_entries :: "string \<Rightarrow> (string \<times> nat) list \<Rightarrow> model_spec option" where
  "lookup_entries model [] = None"
| "lookup_entries model ((pattern, idx) # rest) =
     (if contains_ascii_ci model pattern then Some (BUILTIN_SPECS ! idx) else lookup_entries model rest)"

definition lookup_builtin :: "string \<Rightarrow> model_spec option" where
  "lookup_builtin model = lookup_entries model BUILTIN_NAME_MAP"

definition builtin_entries :: "(string \<times> model_spec) list" where
  "builtin_entries = map (\<lambda>(p, idx). (p, BUILTIN_SPECS ! idx)) BUILTIN_NAME_MAP"

section \<open>Estimators and their registry\<close>

text \<open>The trait; the estimators of the source keep no state.\<close>

record kv_estimator =
  es_name :: string
  es_spec_for :: "string \<Rightarrow> model_spec option"
  es_estimate :: "model_spec \<Rightarrow> estimate_input \<Rightarrow> kv_estimate"

text \<open>The operator's specifications by name, a hash map.\<close>

type_synonym spec_catalog = "(string \<times> model_spec) list"

definition catalog_from_specs :: "(string \<times> model_spec) list \<Rightarrow> spec_catalog" where
  "catalog_from_specs specs = fold (\<lambda>(name, spec). AList.update name spec) specs []"

definition catalog_insert :: "string \<Rightarrow> model_spec \<Rightarrow> spec_catalog \<Rightarrow> spec_catalog" where
  "catalog_insert name spec c = AList.update name spec c"

definition catalog_lookup :: "spec_catalog \<Rightarrow> string \<Rightarrow> model_spec option" where
  "catalog_lookup c model = (case map_of c model of Some s \<Rightarrow> Some s | None \<Rightarrow> lookup_builtin model)"

definition standard_estimator :: "spec_catalog \<Rightarrow> kv_estimator" where
  "standard_estimator c = \<lparr>es_name = ''standard'', es_spec_for = catalog_lookup c, es_estimate = estimate_kv\<rparr>"

type_synonym estimation_registry = "kv_estimator list"

definition registry_with_catalog :: "spec_catalog \<Rightarrow> estimation_registry" where
  "registry_with_catalog c = [standard_estimator c]"

definition with_estimator :: "kv_estimator \<Rightarrow> estimation_registry \<Rightarrow> estimation_registry" where
  "with_estimator p r = r @ [p]"

definition with_estimator_front :: "kv_estimator \<Rightarrow> estimation_registry \<Rightarrow> estimation_registry" where
  "with_estimator_front p r = p # r"

fun registry_spec_for :: "string \<Rightarrow> estimation_registry \<Rightarrow> model_spec option" where
  "registry_spec_for model [] = None"
| "registry_spec_for model (e # es) = (case es_spec_for e model of Some s \<Rightarrow> Some s | None \<Rightarrow> registry_spec_for model es)"

fun registry_estimate :: "string \<Rightarrow> estimate_input \<Rightarrow> estimation_registry \<Rightarrow> kv_estimate option" where
  "registry_estimate model i [] = None"
| "registry_estimate model i (e # es) = (case es_spec_for e model of Some s \<Rightarrow> Some (es_estimate e s i) | None \<Rightarrow> registry_estimate model i es)"

section \<open>Configuration\<close>

record kv_estimate_config =
  kec_enabled :: bool
  kec_weight :: f64
  kec_gpu_mem_safety_fraction :: f64
  kec_exclude_on_unknown_spec :: bool
  kec_models :: "named_model_spec list"

definition kv_estimate_config_default :: "fpu \<Rightarrow> kv_estimate_config" where
  "kv_estimate_config_default F = \<lparr>kec_enabled = False, kec_weight = fp_round F (20 / 100), kec_gpu_mem_safety_fraction = Fin (1 / 2),
     kec_exclude_on_unknown_spec = False, kec_models = []\<rparr>"

definition custom_specs :: "kv_estimate_config \<Rightarrow> (string \<times> model_spec) list" where
  "custom_specs cfg = map (\<lambda>n. (nm_name n, nm_spec n)) (kec_models cfg)"

definition build_catalog :: "kv_estimate_config \<Rightarrow> spec_catalog" where
  "build_catalog cfg = catalog_from_specs (custom_specs cfg)"

section \<open>Looking a model up\<close>

declare window_matches.simps [simp del] any_window.simps [simp del]

lemma window_matches_iff: "window_matches h n i j \<longleftrightarrow> (\<forall>k. j \<le> k \<and> k < length n \<longrightarrow> ascii_lower (h ! (i + k)) = n ! k)"
proof (induction h n i j rule: window_matches.induct)
  case (1 h n i j)
  show ?case
    by (subst window_matches.simps) (use 1 in \<open>auto simp: Suc_le_eq elim: le_neq_implies_less\<close>)
qed

lemma from_here: "(\<exists>k. i \<le> k \<and> P k) \<longleftrightarrow> P i \<or> (\<exists>k. Suc i \<le> k \<and> P k)"
  by (metis Suc_leD Suc_leI le_neq_implies_less order_refl)

lemma any_window_iff: "any_window h n i \<longleftrightarrow> (\<exists>k. i \<le> k \<and> k \<le> length h - length n \<and> window_matches h n k 0)"
proof (induction h n i rule: any_window.induct)
  case (1 h n i)
  have "(\<exists>k. i \<le> k \<and> k \<le> length h - length n \<and> window_matches h n k 0) \<longleftrightarrow> i \<le> length h - length n \<and>
      (window_matches h n i 0 \<or> (\<exists>k. Suc i \<le> k \<and> k \<le> length h - length n \<and> window_matches h n k 0))"
    using from_here [of i "\<lambda>k. k \<le> length h - length n \<and> window_matches h n k 0"] by auto
  then show ?case using 1 by (subst any_window.simps) auto
qed

lemma window_take: "i + length n \<le> length h \<Longrightarrow> window_matches h n i 0 \<longleftrightarrow> take (length n) (drop i (map ascii_lower h)) = n"
  by (auto simp: window_matches_iff list_eq_iff_nth_eq)

lemma sublist_at: "sublist n h \<longleftrightarrow> (\<exists>i. i + length n \<le> length h \<and> take (length n) (drop i h) = n)"
proof
  assume "sublist n h"
  then obtain ps ss where "h = ps @ n @ ss" by (auto simp: sublist_def)
  then show "\<exists>i. i + length n \<le> length h \<and> take (length n) (drop i h) = n" by (intro exI [of _ "length ps"]) simp
next
  assume "\<exists>i. i + length n \<le> length h \<and> take (length n) (drop i h) = n"
  then obtain i where "take (length n) (drop i h) = n" by blast
  then show "sublist n h" by (metis sublist_drop sublist_order.order_trans sublist_take)
qed

lemma contains_iff: "contains_ascii_ci h n \<longleftrightarrow> sublist n (map ascii_lower h)"
proof (cases "length h < length n")
  case True
  then show ?thesis by (auto simp: contains_ascii_ci_def dest: sublist_length_le)
next
  case False
  then have "contains_ascii_ci h n \<longleftrightarrow> (\<exists>k. k + length n \<le> length h \<and> window_matches h n k 0)"
    using any_window_iff [of h n 0] by (cases "n = []") (auto simp: contains_ascii_ci_def window_matches_iff le_diff_conv2)
  then show ?thesis using window_take by (auto simp: sublist_at)
qed

lemma lookup_entries_find:
  "lookup_entries model es = map_option (\<lambda>(p, i). BUILTIN_SPECS ! i) (List.find (\<lambda>(p, i). sublist p (map ascii_lower model)) es)"
  by (induction model es rule: lookup_entries.induct) (simp_all add: contains_iff)

text \<open>C39. The builtin lookup returns the specification of the first pattern that the lower-cased model name contains, every pattern is
  lower case, and every index is one of the table, so no lookup panics.\<close>

lemma builtin_lookup:
  "lookup_builtin model = map_option (\<lambda>(p, i). BUILTIN_SPECS ! i) (List.find (\<lambda>(p, i). sublist p (map ascii_lower model)) BUILTIN_NAME_MAP) \<and>
   list_all (\<lambda>(p, i). map ascii_lower p = p \<and> i < length BUILTIN_SPECS) BUILTIN_NAME_MAP"
  by (simp add: lookup_builtin_def lookup_entries_find) (simp add: BUILTIN_NAME_MAP_def BUILTIN_SPECS_def ascii_lower_def)

text \<open>The pattern for the coder models comes after those with a size, and names of coder models do not contain these: every coder
  model gets the specification of the smallest.\<close>

lemma coder_models_alike:
  "lookup_builtin ''Qwen2.5-Coder-32B-Instruct'' = lookup_builtin ''Qwen2.5-7B-Instruct''"
  "lookup_builtin ''Qwen2.5-Coder-32B-Instruct'' \<noteq> lookup_builtin ''Qwen2.5-32B-Instruct''"
  by code_simp+

section \<open>The footprint\<close>

definition per_token_exact :: "model_spec \<Rightarrow> nat" where
  "per_token_exact s =
     (case sp_attention s of
        StandardAttention \<Rightarrow> 2 * unat (sp_num_layers s) * unat (sp_num_kv_heads s) * unat (sp_head_dim s) * unat (dtype_bytes (sp_dtype s))
      | Mla \<Rightarrow> unat (sp_num_layers s) * (unat (sp_kv_lora_rank s) + unat (sp_qk_rope_head_dim s)) * unat (dtype_bytes (sp_dtype s)))"

definition cached_exact :: "model_spec \<Rightarrow> estimate_input \<Rightarrow> nat" where
  "cached_exact s i =
     (let n = min (2 ^ 32 - 1) (unat (ei_input_tokens i) + unat (ei_output_tokens i)); w = unat (sp_sliding_window s)
      in if w = 0 then n else min w n)"

definition blocks_exact :: "nat \<Rightarrow> nat \<Rightarrow> nat" where
  "blocks_exact n bs = (n + bs - 1) div bs"

lemma blocks_exact_least:
  assumes "0 < bs"
  shows "n \<le> blocks_exact n bs * bs" "k * bs \<ge> n \<Longrightarrow> blocks_exact n bs \<le> k"
proof -
  have "n + bs - 1 < (blocks_exact n bs + 1) * bs" using assms dividend_less_div_times [of bs "n + bs - 1"] by (simp add: blocks_exact_def)
  then show "n \<le> blocks_exact n bs * bs" using assms by simp
  show "k * bs \<ge> n \<Longrightarrow> blocks_exact n bs \<le> k"
    using assms by (simp add: blocks_exact_def less_Suc_eq_le [symmetric] div_less_iff_less_mult)
qed

lemma per_token_word: "per_token_bytes s = of_nat (per_token_exact s)"
  by (simp add: per_token_bytes_def per_token_exact_def Let_def split: attention_kind.split)

lemma effective_exact: "unat (effective_len s i) = cached_exact s i"
  by (auto simp: effective_len_def cached_exact_def Let_def unat_sat_add word_less_nat_alt min_def)


lemma ceil_div: "0 < b \<Longrightarrow> (n + b - 1) div b = (if 0 < n mod b then n div b + 1 else n div b)" for n b :: nat
proof -
  assume b: "0 < b"
  have e: "n + b - 1 = (n mod b + b - 1) + n div b * b" using b div_mult_mod_eq [of n b] by linarith
  have "(n + b - 1) div b = n div b + (n mod b + b - 1) div b" unfolding e by (rule div_mult_self1) (use b in simp)
  moreover have "(n mod b + b - 1) div b = (if 0 < n mod b then 1 else 0)"
    using b mod_less_divisor [OF b, of n] by (auto intro: div_nat_eqI)
  ultimately show ?thesis by simp
qed

lemma padded_small: "0 < bs \<Longrightarrow> blocks_exact n bs * bs < n + bs"
  unfolding blocks_exact_def by (metis Suc_pred' add_gr_0 div_times_less_eq_dividend le_imp_less_Suc add_Suc_right Suc_diff_1)

lemma div_ceil_exact:
  fixes e b :: u32
  assumes "b \<noteq> 0"
  shows "div_ceil (ucast e) (ucast b) = of_nat (blocks_exact (unat e) (unat b))"
proof -
  have pos: "0 < unat b" using assms by (simp add: unat_gt_0)
  have u: "unat (ucast x :: u64) = unat x" for x :: u32 by (simp add: unsigned_ucast_eq take_bit_nat_eq_self unsigned_less [of x, THEN less_trans])
  have "blocks_exact (unat e) (unat b) = (if 0 < unat e mod unat b then unat e div unat b + 1 else unat e div unat b)"
    using pos ceil_div [of "unat b" "unat e"] by (simp add: blocks_exact_def)
  moreover have "(ucast e :: u64) div ucast b = of_nat (unat e div unat b)"
    by (subst u [symmetric], subst u [of b, symmetric], subst unat_div [symmetric]) simp
  moreover have "0 < (ucast e :: u64) mod ucast b \<longleftrightarrow> 0 < unat e mod unat b"
    by (simp only: word_less_nat_alt unat_mod u) simp
  ultimately show ?thesis by (simp add: div_ceil_def)
qed

text \<open>The arithmetic of the release build is exact modulo \<open>2 ^ 64\<close>; the number of blocks never wraps.\<close>

lemma estimate_words:
  fixes s i
  defines "n \<equiv> cached_exact s i" and "bs \<equiv> unat (ei_block_size i)" and "batch \<equiv> max 1 (unat (ei_batch_size i))"
  shows "unat (ke_bytes (estimate_kv s i)) = per_token_exact s * batch * (if bs = 0 then n else blocks_exact n bs * bs) mod 2 ^ 64"
    "unat (ke_blocks (estimate_kv s i)) = (if bs = 0 then 0 else blocks_exact n bs * batch)"
proof -
  let ?e = "effective_len s i" and ?b = "if ei_batch_size i = 0 then 1 else ei_batch_size i"
  have n: "n = unat ?e" and b: "batch = unat ?b" by (simp_all add: n_def effective_exact batch_def unat_gt_0 Suc_leI max_absorb2)
  have w: "(ucast x :: u64) = of_nat (unat x)" for x :: u32 by simp
  have bytes: "ke_bytes (estimate_kv s i) = of_nat (per_token_exact s * batch * (if bs = 0 then n else blocks_exact n bs * bs))"
  proof (cases "bs = 0")
    case True
    then have z: "ei_block_size i = 0" by (simp add: bs_def unsigned_eq_0_iff)
    show ?thesis unfolding estimate_kv_def Let_def b n
      using True by (simp add: z per_token_word w del: of_nat_unat)
  next
    case False
    then have nz: "ei_block_size i \<noteq> 0" by (auto simp: bs_def)
    have "div_ceil (of_nat (unat ?e)) (of_nat (unat (ei_block_size i))) = of_nat (blocks_exact (unat ?e) (unat (ei_block_size i)))"
      using div_ceil_exact [OF nz, of ?e] by (simp only: w)
    then show ?thesis unfolding estimate_kv_def Let_def b n
      using False nz by (simp add: bs_def per_token_word w word_gt_0 del: of_nat_unat)
  qed
  then show "unat (ke_bytes (estimate_kv s i)) = per_token_exact s * batch * (if bs = 0 then n else blocks_exact n bs * bs) mod 2 ^ 64"
    by (simp only: unat_of_nat) simp
  show "unat (ke_blocks (estimate_kv s i)) = (if bs = 0 then 0 else blocks_exact n bs * batch)"
  proof (cases "bs = 0")
    case True
    then have z: "ei_block_size i = 0" by (simp add: bs_def unsigned_eq_0_iff)
    then show ?thesis using True by (simp add: estimate_kv_def Let_def)
  next
    case False
    then have nz: "ei_block_size i \<noteq> 0" by (auto simp: bs_def)
    have "blocks_exact n bs \<le> n" using False blocks_exact_least(2) [of bs n n] by simp
    moreover have "n < 2 ^ 32" "batch < 2 ^ 32" unfolding n b using unsigned_less [of ?e, where 'a = nat] unsigned_less [of ?b, where 'a = nat] by simp_all
    ultimately have "blocks_exact n bs * batch < 2 ^ 32 * 2 ^ 32" by (intro mult_strict_mono') simp_all
    moreover have "ke_blocks (estimate_kv s i) = of_nat (blocks_exact n bs * batch)"
      unfolding estimate_kv_def Let_def b n using False nz div_ceil_exact [OF nz, of ?e] by (simp add: bs_def word_gt_0)
    ultimately show ?thesis using False by (simp add: unat_of_nat del: of_nat_mult)
  qed
qed


text \<open>The builtin specifications need less than \<open>2 ^ 20\<close> bytes per token.\<close>

lemma builtin_per_token: "list_all (\<lambda>s. per_token_exact s < 2 ^ 20) BUILTIN_SPECS"
  by (simp add: BUILTIN_SPECS_def per_token_exact_def spec_literal_def)

lemma lookup_in_table: "lookup_builtin model = Some s \<Longrightarrow> s \<in> set BUILTIN_SPECS"
proof -
  assume l: "lookup_builtin model = Some s"
  have b: "list_all (\<lambda>(p, i). map ascii_lower p = p \<and> i < length BUILTIN_SPECS) BUILTIN_NAME_MAP"
    by (simp add: BUILTIN_NAME_MAP_def BUILTIN_SPECS_def ascii_lower_def)
  obtain p i where "(p, i) \<in> set BUILTIN_NAME_MAP" "s = BUILTIN_SPECS ! i"
    using l by (auto simp: lookup_builtin_def lookup_entries_find find_Some_iff) (metis nth_mem)
  then show ?thesis using b by (auto simp: list_all_iff)
qed

lemma builtin_exact:
  assumes "lookup_builtin model = Some s" "ei_batch_size i \<le> 1"
    and n: "n = cached_exact s i" and bs: "bs = unat (ei_block_size i)"
  shows "unat (ke_bytes (estimate_kv s i)) = per_token_exact s * (if bs = 0 then n else blocks_exact n bs * bs)"
    "per_token_exact s * (if bs = 0 then n else blocks_exact n bs * bs) < 2 ^ 53"
    "unat (ke_blocks (estimate_kv s i)) = (if bs = 0 then 0 else blocks_exact n bs)"
    "unat (ke_per_token_bytes (estimate_kv s i)) = per_token_exact s"
proof -
  have pt: "per_token_exact s < 2 ^ 20" using lookup_in_table [OF assms(1)] builtin_per_token by (simp add: list_all_iff)
  have batch: "max 1 (unat (ei_batch_size i)) = 1" using assms(2) by (simp add: word_le_nat_alt max_absorb1)
  note words = estimate_words [of s i, unfolded batch, folded n bs]
  have small: "n < 2 ^ 32" "bs < 2 ^ 32" unfolding n bs effective_exact [symmetric]
    using unsigned_less [of "effective_len s i", where 'a = nat] unsigned_less [of "ei_block_size i", where 'a = nat] by simp_all
  define len where "len = (if bs = 0 then n else blocks_exact n bs * bs)"
  have len: "len < 2 ^ 33" using small padded_small [of bs n] by (auto simp: len_def)
  have "per_token_exact s * len < 2 ^ 20 * 2 ^ 33" using pt len by (intro mult_strict_mono') simp_all
  then have bytes: "per_token_exact s * len < 2 ^ 53" by simp
  then show "per_token_exact s * (if bs = 0 then n else blocks_exact n bs * bs) < 2 ^ 53" by (simp only: len_def)
  show "unat (ke_bytes (estimate_kv s i)) = per_token_exact s * (if bs = 0 then n else blocks_exact n bs * bs)"
    using words(1) bytes by (simp add: len_def)
  show "unat (ke_blocks (estimate_kv s i)) = (if bs = 0 then 0 else blocks_exact n bs)" using words(2) by simp
  show "unat (ke_per_token_bytes (estimate_kv s i)) = per_token_exact s"
    using pt by (simp add: estimate_kv_def Let_def per_token_word unat_of_nat)
qed

text \<open>C16. The estimate of a builtin model for one request never wraps: the footprint is the bytes per token times the tokens the window
  and the blocks make it keep, the blocks are the fewest that hold the cached tokens, and the number of bytes is below \<open>2 ^ 53\<close>, so
  its conversion to a double is exact.\<close>

lemma builtin_estimate:
  assumes "lookup_builtin model = Some s" "ei_batch_size i \<le> 1"
    and e: "e = estimate_kv s i" and n: "n = cached_exact s i" and bs: "bs = unat (ei_block_size i)"
  shows "unat (ke_bytes e) = unat (ke_per_token_bytes e) * (if bs = 0 then n else unat (ke_blocks e) * bs) \<and>
    unat (ke_per_token_bytes e) = per_token_exact s \<and> unat (ke_bytes e) < 2 ^ 53 \<and>
    (0 < bs \<longrightarrow> n \<le> unat (ke_blocks e) * bs \<and> unat (ke_blocks e) * bs < n + bs)"
  unfolding e builtin_exact [OF assms(1,2) n bs]
  using builtin_exact(2) [OF assms(1,2) n bs] blocks_exact_least(1) [of bs n] padded_small [of bs n] by simp

lemma builtin_estimate_witness:
  "let e = estimate_kv (spec_literal 32 8 128 StandardAttention KvFp16 0 0 4096) (with_block_size 16 (estimate_input_new 5000 100)) in
   unat (ke_bytes e) = unat (ke_per_token_bytes e) * (unat (ke_blocks e) * 16) \<and> 4096 \<le> unat (ke_blocks e) * 16 \<and> unat (ke_blocks e) * 16 < 4096 + 16"
proof -
  have "lookup_builtin ''Mistral-7B-v0.1'' = Some (spec_literal 32 8 128 StandardAttention KvFp16 0 0 4096)" by code_simp
  from builtin_estimate [OF this _ refl refl refl, where i = "with_block_size 16 (estimate_input_new 5000 100)"]
  show ?thesis by (simp add: Let_def with_block_size_def estimate_input_new_def cached_exact_def spec_literal_def)
qed

section \<open>Resolution\<close>

text \<open>An estimator in front overrides the registry for the models it knows, one at the back is asked last, and the specification and the
  estimate come from the same estimator.\<close>

lemma registry_resolution:
  "registry_estimate m i (with_estimator_front p r) = (case es_spec_for p m of Some s \<Rightarrow> Some (es_estimate p s i) | None \<Rightarrow> registry_estimate m i r)"
  "registry_estimate m i (with_estimator p r) =
     (case registry_estimate m i r of Some e \<Rightarrow> Some e | None \<Rightarrow> map_option (\<lambda>s. es_estimate p s i) (es_spec_for p m))"
  "registry_estimate m i r = None \<longleftrightarrow> registry_spec_for m r = None"
  by (induction r) (auto simp: with_estimator_def with_estimator_front_def split: option.split)

lemma catalog_last_wins: "map_of (catalog_from_specs specs) m = map_of (rev specs) m"
proof -
  have "map_of (fold (\<lambda>(name, spec). AList.update name spec) specs acc) m = (case map_of (rev specs) m of Some s \<Rightarrow> Some s | None \<Rightarrow> map_of acc m)" for acc
    by (induction specs arbitrary: acc) (auto simp: update_conv' map_add_def split: option.split)
  then show ?thesis by (simp add: catalog_from_specs_def split: option.split)
qed

text \<open>The registry of a configuration: the last entry of exactly this name, else the builtin table, always with the standard formulas.\<close>

lemma configured_estimate:
  "registry_estimate m i (registry_with_catalog (build_catalog cfg)) =
     map_option (\<lambda>s. estimate_kv s i) (case map_of (rev (custom_specs cfg)) m of Some s \<Rightarrow> Some s | None \<Rightarrow> lookup_builtin m)"
  by (simp add: registry_with_catalog_def standard_estimator_def catalog_lookup_def build_catalog_def catalog_last_wins split: option.split)

end
