(* ===== verification/Policies.thy ===== *)
theory Policies
  imports Engine KvEstimate
begin

text \<open>
  The optional strategies of \<open>crates/hier-kv-gateway-routing\<close>: prices (\<open>cost_aware.rs\<close> with \<open>cost.rs\<close> of the core crate), small and
  large models (\<open>model_tier.rs\<close>, in both crates) and KV capacity (\<open>kv_capacity.rs\<close>). They keep no state. Numbers without a unit are
  in the units of the code: dollars, tokens, bytes.
\<close>

section \<open>The model a backend serves\<close>

definition resolve_served_model :: "backend_id \<Rightarrow> string option \<Rightarrow> metadata_store \<Rightarrow> string option" where
  "resolve_served_model b requested meta =
     (let instances = models_get_instances b (ms_models meta)
      in if instances = [] then None
         else case requested of
                Some name \<Rightarrow> (case List.find (\<lambda>i. model_name i = name) instances of
                                Some m \<Rightarrow> Some (model_name m) | None \<Rightarrow> Some (model_name (hd instances)))
              | None \<Rightarrow> Some (model_name (hd instances)))"

text \<open>The three modules have the same estimate of the prompt; \<open>as u32\<close> truncates and the product wraps.\<close>

definition estimate_prompt_tokens :: "routing_context \<Rightarrow> u32" where
  "estimate_prompt_tokens ctx =
     (if rc_token_ids ctx \<noteq> [] then of_nat (length (rc_token_ids ctx))
      else if rc_block_hashes ctx \<noteq> [] \<and> 0 < rc_block_size ctx then of_nat (length (rc_block_hashes ctx)) * rc_block_size ctx
      else 0)"

section \<open>Prices\<close>

record model_price =
  mp_input_per_1m :: f64
  mp_output_per_1m :: f64

definition MODEL_PRICE_FREE :: model_price where
  "MODEL_PRICE_FREE = \<lparr>mp_input_per_1m = Fin 0, mp_output_per_1m = Fin 0\<rparr>"

text \<open>A price catalogue, the trait \<open>CostModel\<close>; its projection is the default method.\<close>

type_synonym cost_model = "string \<Rightarrow> model_price option"

definition projected_cost :: "fpu \<Rightarrow> cost_model \<Rightarrow> string \<Rightarrow> u32 \<Rightarrow> u32 \<Rightarrow> f64 option" where
  "projected_cost F price_for model prompt_tokens est_output_tokens =
     map_option (\<lambda>p.
       let c_in = f64_mul F (f64_div F (of_usize F (unat prompt_tokens)) (Fin (10 ^ 6))) (mp_input_per_1m p);
           c_out = f64_mul F (f64_div F (of_usize F (unat est_output_tokens)) (Fin (10 ^ 6))) (mp_output_per_1m p)
       in f64_add F c_in c_out) (price_for model)"

record price_entry =
  pe_model :: string
  pe_input_per_1m :: f64
  pe_output_per_1m :: f64

definition to_price :: "price_entry \<Rightarrow> model_price" where
  "to_price e = \<lparr>mp_input_per_1m = pe_input_per_1m e, mp_output_per_1m = pe_output_per_1m e\<rparr>"

text \<open>The static catalogue, a hash map collected from the entries.\<close>

type_synonym static_cost_model = "(string \<times> model_price) list"

definition static_cost_model_new :: "(string \<times> model_price) list \<Rightarrow> static_cost_model" where
  "static_cost_model_new entries = fold (\<lambda>(model, price). AList.update model price) entries []"

definition static_from_entries :: "price_entry list \<Rightarrow> static_cost_model" where
  "static_from_entries entries = static_cost_model_new (map (\<lambda>e. (pe_model e, to_price e)) entries)"

definition static_price_for :: "static_cost_model \<Rightarrow> cost_model" where
  "static_price_for prices = map_of prices"

record cost_config =
  ccf_enabled :: bool
  ccf_prices :: "price_entry list"
  ccf_weight :: f64
  ccf_output_cost_scale :: f64
  ccf_exclude_on_unknown_price :: bool

definition cost_config_default :: "fpu \<Rightarrow> cost_config" where
  "cost_config_default F = \<lparr>ccf_enabled = False, ccf_prices = [], ccf_weight = fp_round F (15 / 100), ccf_output_cost_scale = Fin 1,
     ccf_exclude_on_unknown_price = False\<rparr>"

definition build_cost_model :: "cost_config \<Rightarrow> static_cost_model" where
  "build_cost_model cfg = static_from_entries (ccf_prices cfg)"

definition SCORE_COST_SCALE :: rat where
  "SCORE_COST_SCALE = 10 ^ 6"

text \<open>\<open>as u32\<close> on a double: truncated towards zero, within the range.\<close>

fun f64_to_u32 :: "f64 \<Rightarrow> u32" where
  "f64_to_u32 (Fin x) = (if x \<le> 0 then 0 else if 2 ^ 32 \<le> x then - 1 else of_int \<lfloor>x\<rfloor>)"
| "f64_to_u32 PInf = - 1"
| "f64_to_u32 NInf = 0"
| "f64_to_u32 NaN = 0"

definition unknown_price :: "cost_config \<Rightarrow> backend_id \<Rightarrow> scored_backend" where
  "unknown_price cfg cand = (if ccf_exclude_on_unknown_price cfg then score_entry cand (Fin 0) PInf else score_entry cand (Fin 1) (Fin 0))"

definition cost_aware_score :: "fpu \<Rightarrow> cost_model \<Rightarrow> cost_config \<Rightarrow> routing_context \<Rightarrow> metadata_store \<Rightarrow> backend_id \<Rightarrow> scored_backend" where
  "cost_aware_score F price_for cfg ctx meta cand =
     (let est_out = f64_mul F (of_usize F (unat (rc_estimated_output_tokens ctx))) (ccf_output_cost_scale cfg);
          prompt_tokens = estimate_prompt_tokens ctx
      in case resolve_served_model cand (rc_model_name ctx) meta of
           None \<Rightarrow> unknown_price cfg cand
         | Some served \<Rightarrow>
             (case projected_cost F price_for served prompt_tokens (f64_to_u32 est_out) of
                None \<Rightarrow> unknown_price cfg cand
              | Some c0 \<Rightarrow>
                  let c = f64_max c0 (Fin 0)
                  in score_entry cand (f64_div F (Fin 1) (f64_add F (Fin 1) (f64_mul F c (Fin SCORE_COST_SCALE)))) c))"

definition cost_aware_evaluate :: "fpu \<Rightarrow> cost_model \<Rightarrow> cost_config \<Rightarrow> routing_context \<Rightarrow> backend_id list \<Rightarrow> metadata_store \<Rightarrow> scored_backend list" where
  "cost_aware_evaluate F price_for cfg ctx cs meta = map (cost_aware_score F price_for cfg ctx meta) cs"

primcorec cost_aware :: "fpu \<Rightarrow> cost_model \<Rightarrow> cost_config \<Rightarrow> strategy" where
  "st_name (cost_aware F price_for cfg) = ''cost_aware''"
| "st_weight (cost_aware F price_for cfg) = ccf_weight cfg"
| "st_is_available (cost_aware F price_for cfg) = (\<lambda>now meta. True)"
| "st_evaluate (cost_aware F price_for cfg) =
     (\<lambda>inst now ctx candidates meta. (Inr (cost_aware_evaluate F price_for cfg ctx candidates meta), cost_aware F price_for cfg))"

section \<open>Model tiers\<close>

datatype model_tier = SmallTier | LargeTier

datatype tier_policy = Pick u32 u32 bool | Fallback

definition tier_policy_default :: tier_policy where
  "tier_policy_default = Pick 2048 1024 True"

record tier_entry =
  te_model :: string
  te_tier :: model_tier

record model_tier_config =
  mtc_enabled :: bool
  mtc_weight :: f64
  mtc_policy :: tier_policy
  mtc_tiers :: "tier_entry list"

definition model_tier_config_default :: "fpu \<Rightarrow> model_tier_config" where
  "model_tier_config_default F = \<lparr>mtc_enabled = False, mtc_weight = fp_round F (20 / 100), mtc_policy = tier_policy_default, mtc_tiers = []\<rparr>"

definition tier_for :: "model_tier_config \<Rightarrow> string \<Rightarrow> model_tier option" where
  "tier_for cfg model = map_option te_tier (List.find (\<lambda>e. te_model e = model) (mtc_tiers cfg))"

definition resolve_tier :: "model_tier_config \<Rightarrow> backend_id \<Rightarrow> string option \<Rightarrow> metadata_store \<Rightarrow> model_tier option" where
  "resolve_tier cfg b requested meta =
     (let instances = models_get_instances b (ms_models meta);
          first_listed = List.find (\<lambda>t. t \<noteq> None) (map (\<lambda>i. tier_for cfg (model_name i)) instances);
          fallback = (case first_listed of Some t \<Rightarrow> t | None \<Rightarrow> None)
      in if instances = [] then None
         else case requested of
                Some name \<Rightarrow>
                  if list_ex (\<lambda>i. model_name i = name) instances
                  then (case tier_for cfg name of Some t \<Rightarrow> Some t | None \<Rightarrow> fallback)
                  else fallback
              | None \<Rightarrow> fallback)"

definition is_complex :: "model_tier_config \<Rightarrow> routing_context \<Rightarrow> bool" where
  "is_complex cfg ctx =
     (case mtc_policy cfg of
        Pick prompt_threshold max_threshold prefer_large_for_tools \<Rightarrow>
          prompt_threshold < estimate_prompt_tokens ctx \<or> max_threshold < rc_estimated_output_tokens ctx \<or>
          prefer_large_for_tools \<and> rc_requires_tool_calling ctx
      | Fallback \<Rightarrow> False)"

definition pick_cost :: "model_tier \<Rightarrow> model_tier option \<Rightarrow> rat" where
  "pick_cost desired tier = (case tier of Some t \<Rightarrow> if t = desired then 0 else 1 | None \<Rightarrow> 1 / 2)"

definition fallback_score :: "model_tier option \<Rightarrow> rat" where
  "fallback_score tier = (case tier of Some SmallTier \<Rightarrow> 1 | Some LargeTier \<Rightarrow> 0 | None \<Rightarrow> 1 / 2)"

definition tier_evaluate :: "fpu \<Rightarrow> model_tier_config \<Rightarrow> routing_context \<Rightarrow> backend_id list \<Rightarrow> metadata_store \<Rightarrow> scored_backend list" where
  "tier_evaluate F cfg ctx cs meta =
     (let requested = rc_model_name ctx
      in case mtc_policy cfg of
           Pick _ _ _ \<Rightarrow>
             (let desired = (if is_complex cfg ctx then LargeTier else SmallTier)
              in map (\<lambda>cand. let raw_cost = pick_cost desired (resolve_tier cfg cand requested meta)
                             in score_entry cand (f64_sub F (Fin 1) (Fin raw_cost)) (Fin raw_cost)) cs)
         | Fallback \<Rightarrow>
             map (\<lambda>cand. let score = fallback_score (resolve_tier cfg cand requested meta) in score_entry cand (Fin score) (Fin (- score))) cs)"

primcorec model_tier_strategy :: "fpu \<Rightarrow> model_tier_config \<Rightarrow> strategy" where
  "st_name (model_tier_strategy F cfg) = ''model_tier''"
| "st_weight (model_tier_strategy F cfg) = mtc_weight cfg"
| "st_is_available (model_tier_strategy F cfg) = (\<lambda>now meta. mtc_tiers cfg \<noteq> [])"
| "st_evaluate (model_tier_strategy F cfg) = (\<lambda>inst now ctx candidates meta. (Inr (tier_evaluate F cfg ctx candidates meta), model_tier_strategy F cfg))"

section \<open>KV capacity\<close>

definition BYTES_PER_MB :: rat where
  "BYTES_PER_MB = 10 ^ 6"

text \<open>The bytes a backend has left for the request; \<open>None\<close> when it reports no capacity.\<close>

definition available_bytes :: "fpu \<Rightarrow> kv_estimate \<Rightarrow> backend_metrics \<Rightarrow> u32 \<Rightarrow> f64 \<Rightarrow> f64 option" where
  "available_bytes F est m block_size safety =
     (let per_block = (if 0 < block_size then sat_mul (ke_per_token_bytes est) (ucast block_size) else 0)
      in if 0 < kv_total_blocks m \<and> 0 < block_size \<and> 0 < per_block then
           Some (f64_mul F (of_usize F (unat (sat_sub (kv_total_blocks m) (kv_used_blocks m)))) (of_usize F (unat per_block)))
         else if 0 < gpu_memory_total_mb m then
           Some (f64_mul F (f64_mul F (of_usize F (unat (sat_sub (gpu_memory_total_mb m) (gpu_memory_used_mb m)))) (Fin BYTES_PER_MB)) safety)
         else None)"

definition score_capacity :: "fpu \<Rightarrow> kv_estimate \<Rightarrow> backend_metrics \<Rightarrow> u32 \<Rightarrow> f64 \<Rightarrow> f64 \<times> f64" where
  "score_capacity F est m block_size safety =
     (case available_bytes F est m block_size safety of
        None \<Rightarrow> (Fin 0, Fin 1)
      | Some available \<Rightarrow>
          if f64_le available (Fin 0) then (PInf, Fin 0)
          else let footprint = of_usize F (unat (ke_bytes est))
               in if f64_less available footprint then (PInf, Fin 0)
                  else let ratio = f64_clamp (Fin 0) (Fin 1) (f64_div F footprint available)
                       in (ratio, f64_div F (Fin 1) (f64_add F (Fin 1) ratio)))"

definition kv_capacity_score :: "fpu \<Rightarrow> estimation_registry \<Rightarrow> kv_estimate_config \<Rightarrow> routing_context \<Rightarrow> metadata_store \<Rightarrow> backend_id \<Rightarrow> scored_backend" where
  "kv_capacity_score F registry cfg ctx meta cand =
     (let input = with_block_size (rc_block_size ctx) (estimate_input_new (estimate_prompt_tokens ctx) (rc_estimated_output_tokens ctx))
      in case resolve_served_model cand (rc_model_name ctx) meta of
           None \<Rightarrow> score_entry cand (Fin 1) (Fin 0)
         | Some served \<Rightarrow>
             (case registry_estimate served input registry of
                None \<Rightarrow> if kec_exclude_on_unknown_spec cfg then score_entry cand (Fin 0) PInf else score_entry cand (Fin 1) (Fin 0)
              | Some est \<Rightarrow>
                  (case load_get cand (ms_load meta) of
                     None \<Rightarrow> score_entry cand (Fin 1) (Fin 0)
                   | Some m \<Rightarrow>
                       let (cost, score) = score_capacity F est m (rc_block_size ctx) (kec_gpu_mem_safety_fraction cfg)
                       in score_entry cand score cost)))"

definition kv_capacity_evaluate :: "fpu \<Rightarrow> estimation_registry \<Rightarrow> kv_estimate_config \<Rightarrow> routing_context \<Rightarrow> backend_id list \<Rightarrow> metadata_store \<Rightarrow> scored_backend list" where
  "kv_capacity_evaluate F registry cfg ctx cs meta = map (kv_capacity_score F registry cfg ctx meta) cs"

primcorec kv_capacity :: "fpu \<Rightarrow> estimation_registry \<Rightarrow> kv_estimate_config \<Rightarrow> strategy" where
  "st_name (kv_capacity F registry cfg) = ''kv_capacity''"
| "st_weight (kv_capacity F registry cfg) = kec_weight cfg"
| "st_is_available (kv_capacity F registry cfg) = (\<lambda>now meta. True)"
| "st_evaluate (kv_capacity F registry cfg) =
     (\<lambda>inst now ctx candidates meta. (Inr (kv_capacity_evaluate F registry cfg ctx candidates meta), kv_capacity F registry cfg))"

section \<open>Contracts\<close>

lemma policy_score_ids [simp]:
  "sb_backend_id (cost_aware_score F price_for cfg ctx meta cand) = cand" "sb_backend_id (kv_capacity_score F registry kcfg ctx meta cand) = cand"
  by (simp_all add: cost_aware_score_def unknown_price_def kv_capacity_score_def Let_def split: option.split prod.split)

lemma policy_ids [simp]:
  "map sb_backend_id (cost_aware_evaluate F price_for cfg ctx cs meta) = cs"
  "map sb_backend_id (tier_evaluate F tcfg ctx cs meta) = cs"
  "map sb_backend_id (kv_capacity_evaluate F registry kcfg ctx cs meta) = cs"
  by (simp_all add: cost_aware_evaluate_def tier_evaluate_def kv_capacity_evaluate_def comp_def Let_def split: tier_policy.split)

lemma policies_sound:
  "sound_strategy (cost_aware F price_for cfg)" "sound_strategy (model_tier_strategy F tcfg)" "sound_strategy (kv_capacity F registry kcfg)"
  by (rule stateless_sound; auto intro: scores_candidates_ids)+

section \<open>Prices and the ranking\<close>

text \<open>The scores of a stateless strategy list every candidate once.\<close>

lemma map_of_graph: "map_of (map (\<lambda>x. (x, g x)) xs) b = (if b \<in> set xs then Some (g b) else None)"
  by (induction xs) auto

lemma cost_in_map:
  assumes "\<And>c. sb_backend_id (f c) = c"
  shows "cost_in (map f cs) b = (if b \<in> set cs then Some (sb_raw_cost (f b)) else None)"
  by (simp add: cost_in_def assms comp_def rev_map map_of_graph)

text \<open>Unit prices that are finite and not negative, and at most those of another model.\<close>

definition no_pricier :: "model_price \<Rightarrow> model_price \<Rightarrow> bool" where
  "no_pricier p q \<longleftrightarrow> above (mp_input_per_1m q) (mp_input_per_1m p) \<and> above (mp_output_per_1m q) (mp_output_per_1m p)"

definition price_of :: "cost_model \<Rightarrow> routing_context \<Rightarrow> metadata_store \<Rightarrow> backend_id \<Rightarrow> model_price option" where
  "price_of price_for ctx meta b = (case resolve_served_model b (rc_model_name ctx) meta of None \<Rightarrow> None | Some m \<Rightarrow> price_for m)"

lemma cost_of_unknown:
  assumes "price_of price_for ctx meta b = None"
  shows "cost_aware_score F price_for cfg ctx meta b = unknown_price cfg b"
  using assms by (simp add: price_of_def cost_aware_score_def projected_cost_def Let_def split: option.splits)

lemma above_max: "above x y \<Longrightarrow> f64_max x (Fin 0) = x" "above x y \<Longrightarrow> f64_max y (Fin 0) = y"
  by (auto simp: above_def f64_max_def)

lemma cost_of_priced:
  assumes "rounds F rnd" "price_of price_for ctx meta a = Some p" "price_of price_for ctx meta b = Some q" "no_pricier p q"
  shows "above (sb_raw_cost (cost_aware_score F price_for cfg ctx meta b)) (sb_raw_cost (cost_aware_score F price_for cfg ctx meta a))"
proof -
  define tokens where "tokens n = f64_div F (of_usize F n) (Fin (10 ^ 6))" for n
  have tokens: "\<exists>k \<ge> 0. tokens n = Fin k" for n
    using rounds_nonneg [OF assms(1)] by (simp add: tokens_def rounds_ops [OF assms(1)] rounds_fp [OF assms(1)])
  define est where "est = f64_to_u32 (f64_mul F (of_usize F (unat (rc_estimated_output_tokens ctx))) (ccf_output_cost_scale cfg))"
  define c where "c m = f64_add F (f64_mul F (tokens (unat (estimate_prompt_tokens ctx))) (mp_input_per_1m m)) (f64_mul F (tokens (unat est)) (mp_output_per_1m m))" for m :: model_price
  have c: "sb_raw_cost (cost_aware_score F price_for cfg ctx meta x) = f64_max (c m) (Fin 0)" if known: "price_of price_for ctx meta x = Some m" for x m
  proof -
    obtain served where "resolve_served_model x (rc_model_name ctx) meta = Some served" "price_for served = Some m"
      using known by (auto simp: price_of_def split: option.splits)
    then show ?thesis by (simp add: cost_aware_score_def projected_cost_def Let_def c_def tokens_def est_def)
  qed
  obtain k l where kl: "tokens (unat (estimate_prompt_tokens ctx)) = Fin k" "0 \<le> k" "tokens (unat est) = Fin l" "0 \<le> l" using tokens by metis
  have "above (c q) (c p)" unfolding c_def kl(1,3)
    using assms(4) by (simp add: no_pricier_def above_ops [OF assms(1)] kl)
  then show ?thesis using above_max c [OF assms(2)] c [OF assms(3)] by metis
qed

lemma above_finite: "above x y \<Longrightarrow> \<exists>p q. x = Fin p \<and> y = Fin q \<and> q \<le> p"
  by (auto simp: above_def)

text \<open>C15. Prices in the ranking, in every rounding: between candidates whose models have prices, the one whose two unit prices are no
  higher gets at least the normalised score of the other; a candidate without a price gets the normalised score 0 when unknown prices
  are to be excluded, and when they are to be neutral at least the score of every candidate, whatever the others cost.\<close>

theorem cost_ranking:
  assumes "rounds F rnd" "a \<in> set cs" "b \<in> set cs"
    and prices: "\<forall>c \<in> set cs. \<forall>p. price_of price_for ctx meta c = Some p \<longrightarrow> no_pricier p p"
    and n: "n = (\<lambda>c. score_of_map (normalize_costs F (cost_aware_evaluate F price_for cfg ctx cs meta)) c)"
  shows "(\<forall>p q. price_of price_for ctx meta a = Some p \<and> price_of price_for ctx meta b = Some q \<and> no_pricier p q \<longrightarrow> above (n a) (n b)) \<and>
    (price_of price_for ctx meta a = None \<longrightarrow> (if ccf_exclude_on_unknown_price cfg then n a = Fin 0 else above (n a) (n b)))"
proof -
  let ?f = "cost_aware_score F price_for cfg ctx meta" and ?out = "cost_aware_evaluate F price_for cfg ctx cs meta"
  have cost: "cost_in ?out c = Some (sb_raw_cost (?f c))" if "c \<in> set cs" for c
    unfolding cost_aware_evaluate_def using that by (simp add: cost_in_map)
  have priced: "above (n a) (n b)" if "price_of price_for ctx meta a = Some p" "price_of price_for ctx meta b = Some q" "no_pricier p q" for p q
    unfolding n using cost_of_priced [OF assms(1) that, of cfg] cost assms(2,3)
    by (intro no_dearer_above [OF assms(1)]) (force simp: no_dearer_def above_def)
  moreover have "n a = Fin 0" if "price_of price_for ctx meta a = None" "ccf_exclude_on_unknown_price cfg"
    unfolding n using cost [OF assms(2)] that
    by (simp add: cost_of_unknown unknown_price_def normalize_costs_eq score_of_map_def normalized_score_def)
  moreover have "above (n a) (n b)" if un: "price_of price_for ctx meta a = None" "\<not> ccf_exclude_on_unknown_price cfg"
  proof -
    have a: "cost_in ?out a = Some (Fin 0)" using cost [OF assms(2)] un by (simp add: cost_of_unknown unknown_price_def)
    have "\<exists>r \<ge> 0. sb_raw_cost (?f b) = Fin r"
    proof (cases "price_of price_for ctx meta b")
      case None
      then show ?thesis using un by (simp add: cost_of_unknown unknown_price_def)
    next
      case (Some q)
      then show ?thesis using cost_of_priced [OF assms(1) Some Some, of cfg] prices assms(3) by (auto simp: above_def)
    qed
    then show ?thesis unfolding n using a cost [OF assms(3)]
      by (intro no_dearer_above [OF assms(1)]) (auto simp: no_dearer_def)
  qed
  ultimately show ?thesis by simp
qed

text \<open>Three backends: a cheap model, a dear one, and one whose model has no price.\<close>

definition priced_store :: metadata_store where
  "priced_store = store_new\<lparr>ms_models := [(eu_backend ''a'', [(instance_of 8 True)\<lparr>model_name := ''small''\<rparr>]),
     (eu_backend ''b'', [(instance_of 8 True)\<lparr>model_name := ''large''\<rparr>]), (eu_backend ''c'', [instance_of 8 True])]\<rparr>"

definition demo_prices :: cost_config where
  "demo_prices = (cost_config_default exact_fpu)\<lparr>ccf_enabled := True,
     ccf_prices := [\<lparr>pe_model = ''small'', pe_input_per_1m = Fin 1, pe_output_per_1m = Fin 2\<rparr>,
       \<lparr>pe_model = ''large'', pe_input_per_1m = Fin 3, pe_output_per_1m = Fin 12\<rparr>]\<rparr>"

lemma demo_price_of:
  "price_of (static_price_for (build_cost_model demo_prices)) long_request priced_store b =
     (if b = eu_backend ''a'' then Some \<lparr>mp_input_per_1m = Fin 1, mp_output_per_1m = Fin 2\<rparr>
      else if b = eu_backend ''b'' then Some \<lparr>mp_input_per_1m = Fin 3, mp_output_per_1m = Fin 12\<rparr> else None)"
  by (simp add: price_of_def static_price_for_def build_cost_model_def static_from_entries_def static_cost_model_new_def demo_prices_def
      to_price_def resolve_served_model_def models_get_instances_def priced_store_def store_new_def long_request_def instance_of_def)

theorem cost_ranking_witness:
  "let n = score_of_map (normalize_costs exact_fpu (cost_aware_evaluate exact_fpu (static_price_for (build_cost_model demo_prices)) demo_prices
     long_request [eu_backend ''a'', eu_backend ''b'', eu_backend ''c''] priced_store))
   in above (n (eu_backend ''a'')) (n (eu_backend ''b'')) \<and> above (n (eu_backend ''c'')) (n (eu_backend ''a''))"
proof -
  have p: "\<forall>c \<in> set [eu_backend ''a'', eu_backend ''b'', eu_backend ''c'']. \<forall>p.
      price_of (static_price_for (build_cost_model demo_prices)) long_request priced_store c = Some p \<longrightarrow> no_pricier p p"
    by (simp add: demo_price_of no_pricier_def above_def eu_backend_def)
  have "no_pricier \<lparr>mp_input_per_1m = Fin 1, mp_output_per_1m = Fin 2\<rparr> \<lparr>mp_input_per_1m = Fin 3, mp_output_per_1m = Fin 12\<rparr>"
    by (simp add: no_pricier_def above_def)
  then show ?thesis
    using cost_ranking [OF rounds_exact _ _ p refl, of "eu_backend ''a''" "eu_backend ''b''" demo_prices]
      cost_ranking [OF rounds_exact _ _ p refl, of "eu_backend ''c''" "eu_backend ''a''" demo_prices]
    by (simp add: demo_price_of Let_def) (simp add: demo_prices_def cost_config_default_def eu_backend_def)
qed

section \<open>Small models first\<close>

text \<open>How the first tier rule sees a backend: one that serves the requested model has the tier of that model.\<close>

lemma named_tier:
  assumes "rc_model_name ctx = Some name" "tier_for cfg name = Some t" "\<exists>i \<in> set (models_get_instances b (ms_models meta)). model_name i = name"
  shows "resolve_tier cfg b (rc_model_name ctx) meta = Some t"
  using assms by (auto simp: resolve_tier_def Let_def list_ex_iff)

text \<open>So the fallback order does not tell the candidates for a listed model apart: with the pool of the engine it matters only when the
  request names an architecture, an unknown model or no model.\<close>

lemma fallback_blind_to_named_model:
  assumes "mtc_policy cfg = Fallback" "rc_model_name ctx = Some name" "tier_for cfg name = Some t"
    and "\<forall>b \<in> set cs. \<exists>i \<in> set (models_get_instances b (ms_models meta)). model_name i = name"
  shows "\<forall>s \<in> set (tier_evaluate F cfg ctx cs meta). sb_score s = Fin (fallback_score (Some t))"
  using assms named_tier [OF assms(2,3)] by (simp add: tier_evaluate_def Let_def)

lemma fallback_evaluate:
  assumes "mtc_policy cfg = Fallback"
  shows "tier_evaluate F cfg ctx cs meta = map (\<lambda>b. let s = fallback_score (resolve_tier cfg b (rc_model_name ctx) meta) in score_entry b (Fin s) (Fin (- s))) cs"
  using assms by (simp add: tier_evaluate_def Let_def)

text \<open>C14. With the fallback policy as the primary strategy, greedy selection tries every candidate, each backend of a small model before every
  backend without a tier, and those before every backend of a large model.\<close>

theorem fallback_order:
  assumes "mtc_policy cfg = Fallback" "distinct cs" "f64_le temperature (Fin 0)"
    and tier: "tier = (\<lambda>b. resolve_tier cfg b (rc_model_name ctx) meta)"
    and ranked: "ranked = map sb_backend_id (select_ranked F draw (tier_evaluate F cfg ctx cs meta) temperature (length cs))"
  shows "mset ranked = mset cs \<and> sorted_wrt (\<lambda>x y. (tier y = Some SmallTier \<longrightarrow> tier x = Some SmallTier) \<and> (tier x = Some LargeTier \<longrightarrow> tier y = Some LargeTier)) ranked"
proof -
  let ?out = "tier_evaluate F cfg ctx cs meta"
  have ev: "?out = map (\<lambda>b. score_entry b (Fin (fallback_score (tier b))) (Fin (- fallback_score (tier b)))) cs"
    by (simp add: fallback_evaluate [OF assms(1)] tier Let_def)
  have "numeric ?out" "distinct (map sb_backend_id ?out)" using assms(2) by (auto simp: numeric_def ev comp_def)
  then have sel: "select_ranked F draw ?out temperature (length cs) = rev (sort_key sb_score ?out)"
    using select_loop_greedy [of ?out temperature F draw "length cs" "[]"] assms(3) by (simp add: select_ranked_def ev)
  have "mset ranked = mset (map sb_backend_id ?out)" unfolding ranked sel by (simp del: policy_ids)
  then have "mset ranked = mset cs" by (simp only: policy_ids)
  moreover have "sorted_wrt (\<lambda>x y. sb_score y \<le> sb_score x) (rev (sort_key sb_score ?out))"
    using sorted_sort_key [of sb_score ?out] by (simp add: sorted_wrt_rev sorted_map)
  then have "sorted_wrt (\<lambda>x y. fallback_score (tier y) \<le> fallback_score (tier x)) ranked"
    unfolding ranked sel sorted_wrt_map
    by (rule sorted_wrt_mono_rel [rotated]) (auto simp: ev less_eq_f64_def less_f64_def)
  then have "sorted_wrt (\<lambda>x y. (tier y = Some SmallTier \<longrightarrow> tier x = Some SmallTier) \<and> (tier x = Some LargeTier \<longrightarrow> tier y = Some LargeTier)) ranked"
    by (rule sorted_wrt_mono_rel [rotated]) (auto simp: fallback_score_def split: option.splits model_tier.splits)
  ultimately show ?thesis by simp
qed

definition demo_tiers :: model_tier_config where
  "demo_tiers = (model_tier_config_default exact_fpu)\<lparr>mtc_enabled := True, mtc_policy := Fallback,
     mtc_tiers := [\<lparr>te_model = ''small'', te_tier = SmallTier\<rparr>, \<lparr>te_model = ''large'', te_tier = LargeTier\<rparr>]\<rparr>"

theorem fallback_order_witness:
  "map sb_backend_id (select_ranked exact_fpu (\<lambda>_ _. None) (tier_evaluate exact_fpu demo_tiers long_request
     [eu_backend ''b'', eu_backend ''a''] priced_store) (Fin 0) (length [eu_backend ''b'', eu_backend ''a''])) = [eu_backend ''a'', eu_backend ''b'']"
proof -
  let ?tier = "\<lambda>b. resolve_tier demo_tiers b (rc_model_name long_request) priced_store"
  let ?ranked = "map sb_backend_id (select_ranked exact_fpu (\<lambda>_ _. None) (tier_evaluate exact_fpu demo_tiers long_request
     [eu_backend ''b'', eu_backend ''a''] priced_store) (Fin 0) (length [eu_backend ''b'', eu_backend ''a'']))"
  have tiers: "?tier (eu_backend ''a'') = Some SmallTier" "?tier (eu_backend ''b'') = Some LargeTier"
    by (simp_all add: resolve_tier_def models_get_instances_def priced_store_def store_new_def eu_backend_def demo_tiers_def tier_for_def long_request_def)
  have "mset ?ranked = mset [eu_backend ''b'', eu_backend ''a'']" "sorted_wrt (\<lambda>x y. (?tier y = Some SmallTier \<longrightarrow> ?tier x = Some SmallTier) \<and> (?tier x = Some LargeTier \<longrightarrow> ?tier y = Some LargeTier)) ?ranked"
    using fallback_order [of demo_tiers "[eu_backend ''b'', eu_backend ''a'']" "Fin 0", OF _ _ _ refl refl, of exact_fpu "\<lambda>_ _. None" long_request priced_store]
    by (simp_all add: demo_tiers_def f64_le_def eu_backend_def)
  moreover have "xs = [eu_backend ''b'', eu_backend ''a''] \<or> xs = [eu_backend ''a'', eu_backend ''b'']" if "mset xs = mset [eu_backend ''b'', eu_backend ''a'']" for xs
  proof -
    have "length xs = 2" using that by (metis size_mset length_Cons list.size(3) numeral_2_eq_2)
    then obtain x y where "xs = [x, y]" by (cases xs; cases "tl xs") auto
    moreover have "set xs = {eu_backend ''b'', eu_backend ''a''}" using mset_eq_setD [OF that] by simp
    ultimately show ?thesis by (auto simp: doubleton_eq_iff)
  qed
  ultimately show ?thesis using tiers by force
qed

section \<open>Capacity\<close>

lemma per_block_exact:
  assumes "lookup_builtin model = Some s" "ei_batch_size i \<le> 1"
  shows "unat (sat_mul (ke_per_token_bytes (estimate_kv s i)) (ucast bs)) = per_token_exact s * unat (bs :: u32)"
proof -
  have "per_token_exact s < 2 ^ 20" using lookup_in_table [OF assms(1)] builtin_per_token by (simp add: list_all_iff)
  moreover have "unat (ucast bs :: u64) = unat bs" by (simp add: unsigned_ucast_eq take_bit_nat_eq_self unsigned_less [of bs, THEN less_trans])
  ultimately have "per_token_exact s * unat bs < 2 ^ 20 * 2 ^ 32" using unsigned_less [of bs, where 'a = nat] by (intro mult_strict_mono') simp_all
  then show ?thesis using \<open>unat (ucast bs :: u64) = unat bs\<close> by (simp add: unat_sat_mul builtin_exact(4) [OF assms refl refl])
qed

lemma cancel_factor: "0 < p \<Longrightarrow> of_nat (n * p) / of_nat (f * p) = (of_nat n / of_nat f :: rat)" for p :: nat
  by simp

text \<open>What doubles do with natural numbers: every number up to \<open>2 ^ 53\<close> is one.\<close>

definition keeps_naturals :: "(rat \<Rightarrow> rat) \<Rightarrow> bool" where
  "keeps_naturals rnd \<longleftrightarrow> (\<forall>n \<le> 2 ^ 53. rnd (of_nat n) = of_nat n)"

lemma keeps_id: "keeps_naturals id"
  by (simp add: keeps_naturals_def)

text \<open>The product of two rounded naturals: exact while it fits, and never below \<open>2 ^ 53\<close> when it does not.\<close>

lemma rounded_product:
  assumes F: "rounds F rnd" "keeps_naturals rnd" and p: "0 < p" "p \<le> 2 ^ 53"
  shows "n * p \<le> 2 ^ 53 \<Longrightarrow> rnd (rnd (of_nat n) * rnd (of_nat p)) = of_nat (n * p)"
    "2 ^ 53 < n * p \<Longrightarrow> 2 ^ 53 \<le> rnd (rnd (of_nat n) * rnd (of_nat p))"
proof -
  have keep: "rnd (of_nat k) = of_nat k" if "k \<le> 2 ^ 53" for k using F(2) that by (simp add: keeps_naturals_def)
  have top: "rnd (2 ^ 53) = 2 ^ 53" using F(1) unfolding rounds_def by blast
  show "rnd (rnd (of_nat n) * rnd (of_nat p)) = of_nat (n * p)" if np: "n * p \<le> 2 ^ 53"
  proof -
    have "n \<le> n * p" using p(1) by simp
    then have "n \<le> 2 ^ 53" using np by linarith
    then have "rnd (of_nat n) * rnd (of_nat p) = of_nat (n * p)" using p(2) by (simp add: keep)
    then show ?thesis using keep [OF np] by simp
  qed
  show "2 ^ 53 \<le> rnd (rnd (of_nat n) * rnd (of_nat p))" if np: "2 ^ 53 < n * p"
  proof -
    have "2 ^ 53 \<le> rnd (of_nat n) * of_nat p"
    proof (cases "n \<le> 2 ^ 53")
      case True
      have "(of_nat (2 ^ 53) :: rat) \<le> of_nat (n * p)" using np by (simp only: of_nat_le_iff)
      then show ?thesis using keep [OF True] by simp
    next
      case False
      have "rnd (of_nat (2 ^ 53)) \<le> rnd (of_nat n)" using False by (intro rounds_mono [OF F(1)]) (simp only: of_nat_le_iff)
      then have low: "2 ^ 53 \<le> rnd (of_nat n)" using keep [of "2 ^ 53"] by simp
      have "(1 :: rat) \<le> of_nat p" using p(1) by simp
      then show ?thesis using mult_mono [OF low, of 1 "of_nat p"] low by simp
    qed
    then have "rnd (2 ^ 53) \<le> rnd (rnd (of_nat n) * of_nat p)" by (rule rounds_mono [OF F(1)])
    then show ?thesis using top keep [OF p(2)] by simp
  qed
qed

text \<open>The score when the available bytes are a finite number.\<close>

lemma score_capacity_finite:
  assumes F: "rounds F rnd" and av: "available_bytes F e m bs safety = Some (Fin a)"
    and fp: "rnd (of_nat (unat (ke_bytes e))) = of_nat (unat (ke_bytes e))"
  defines "f \<equiv> of_nat (unat (ke_bytes e))"
  shows "\<not> (0 < a \<and> f \<le> a) \<Longrightarrow> score_capacity F e m bs safety = (PInf, Fin 0)"
    "0 < a \<Longrightarrow> f \<le> a \<Longrightarrow> score_capacity F e m bs safety = (Fin (rnd (f / a)), Fin (rnd (1 / rnd (1 + rnd (f / a))))) \<and>
       0 \<le> rnd (f / a) \<and> rnd (f / a) \<le> 1 \<and> 1 / 2 \<le> rnd (1 / rnd (1 + rnd (f / a)))"
proof -
  note ops = rounds_ops [OF F]
  show "score_capacity F e m bs safety = (PInf, Fin 0)" if "\<not> (0 < a \<and> f \<le> a)"
    using that av fp unfolding f_def by (auto simp: score_capacity_def ops f64_le_def Let_def)
  assume a: "0 < a" "f \<le> a"
  define r where "r = rnd (f / a)"
  have "0 \<le> f / a" "f / a \<le> 1" using a by (simp_all add: f_def del: of_nat_unat)
  then have r: "0 \<le> r" "r \<le> 1" using rounds_nonneg [OF F] rounds_le_one [OF F] by (simp_all add: r_def)
  have "rnd 1 \<le> rnd (1 + r)" "rnd (1 + r) \<le> rnd (2 ^ 1)" using r by (auto intro!: rounds_mono [OF F])
  moreover have "rnd (2 ^ 1) = 2 ^ 1" "rnd (1 / 2 ^ 1) = 1 / 2 ^ 1" using F unfolding rounds_def by blast+
  ultimately have d: "1 \<le> rnd (1 + r)" "rnd (1 + r) \<le> 2" "rnd (1 / 2) = 1 / 2" using rounds_one [OF F] by simp_all
  then have "1 / 2 \<le> 1 / rnd (1 + r)" by (simp add: field_simps)
  then have half: "1 / 2 \<le> rnd (1 / rnd (1 + r))" using rounds_mono [OF F, of "1 / 2" "1 / rnd (1 + r)"] d(3) by simp
  have "f64_div F (Fin f) (Fin a) = Fin r" using a ops(4) by (simp add: r_def)
  moreover have "f64_clamp (Fin 0) (Fin 1) (Fin r) = Fin r" using r by (simp add: f64_clamp_def)
  moreover have "f64_div F (Fin 1) (f64_add F (Fin 1) (Fin r)) = Fin (rnd (1 / rnd (1 + r)))" using d(1) ops(1,4) by simp
  ultimately have "score_capacity F e m bs safety = (Fin r, Fin (rnd (1 / rnd (1 + r))))"
    using a av fp by (simp add: score_capacity_def ops(5) f64_le_def Let_def not_le f_def del: of_nat_unat)
  then show "score_capacity F e m bs safety = (Fin (rnd (f / a)), Fin (rnd (1 / rnd (1 + rnd (f / a))))) \<and>
      0 \<le> rnd (f / a) \<and> rnd (f / a) \<le> 1 \<and> 1 / 2 \<le> rnd (1 / rnd (1 + rnd (f / a)))"
    using r half by (simp add: r_def)
qed

text \<open>C13. The admission by KV blocks does not depend on rounding: for a builtin model and a backend that reports its blocks, a request with a
  block size is admitted exactly when the backend has free blocks and they are at least the blocks of the estimate, for every rounding that is
  monotone and keeps the powers of two and the natural numbers up to \<open>2 ^ 53\<close>, as that of the doubles is. An admitted request costs at most 1 and scores at
  least 1/2; its cost is the correctly rounded share of the free blocks that it takes, as long as the free bytes are at most \<open>2 ^ 53\<close>. A
  request that is not admitted has an infinite cost and the score 0.\<close>

theorem capacity_admission:
  assumes "lookup_builtin model = Some s" "0 < ei_block_size i" "ei_batch_size i \<le> 1" "0 < per_token_exact s" "0 < kv_total_blocks m"
    and "e = estimate_kv s i" "free = unat (kv_total_blocks m) - unat (kv_used_blocks m)"
    and "rounds F rnd" "keeps_naturals rnd"
  shows "if 0 < free \<and> unat (ke_blocks e) \<le> free
    then \<exists>ratio. score_capacity F e m (ei_block_size i) safety = (Fin ratio, Fin (rnd (1 / rnd (1 + ratio)))) \<and>
      0 \<le> ratio \<and> ratio \<le> 1 \<and> 1 / 2 \<le> rnd (1 / rnd (1 + ratio)) \<and>
      (free * (per_token_exact s * unat (ei_block_size i)) \<le> 2 ^ 53 \<longrightarrow> ratio = rnd (of_nat (unat (ke_blocks e)) / of_nat free))
    else score_capacity F e m (ei_block_size i) safety = (PInf, Fin 0)"
proof -
  let ?bs = "unat (ei_block_size i)" and ?pb = "per_token_exact s * unat (ei_block_size i)"
  have pos: "0 < ?bs" using assms(2) by (simp add: word_less_nat_alt)
  have pb: "unat (sat_mul (ke_per_token_bytes e) (ucast (ei_block_size i))) = ?pb" unfolding assms(6) by (rule per_block_exact [OF assms(1,3)])
  then have "0 < sat_mul (ke_per_token_bytes e) (ucast (ei_block_size i))" using pos assms(4) by (simp add: word_less_nat_alt)
  then have av: "available_bytes F e m (ei_block_size i) safety = Some (Fin (rnd (rnd (of_nat free) * rnd (of_nat ?pb))))"
    using assms(2,5) pb rounds_ops [OF assms(8)] by (simp add: available_bytes_def Let_def unat_sat_sub assms(7))
  have pb0: "0 < ?pb" using pos assms(4) by simp
  have "per_token_exact s < 2 ^ 20" using lookup_in_table [OF assms(1)] builtin_per_token by (simp add: list_all_iff)
  then have "?pb < 2 ^ 20 * 2 ^ 32" using unsigned_less [of "ei_block_size i", where 'a = nat] by (intro mult_strict_mono') simp_all
  then have pb53: "?pb \<le> 2 ^ 53" by simp
  have bytes: "unat (ke_bytes e) = unat (ke_blocks e) * ?pb" "unat (ke_bytes e) < 2 ^ 53"
    using builtin_exact [OF assms(1,3) refl refl] pos by (simp_all add: assms(6))
  define a where "a = rnd (rnd (of_nat free) * rnd (of_nat ?pb))"
  note prod = rounded_product [OF assms(8,9) pb0 pb53, of free, folded a_def]
  have keep: "rnd (of_nat (unat (ke_bytes e))) = of_nat (unat (ke_bytes e))" using assms(9) bytes(2) by (simp add: keeps_naturals_def del: of_nat_unat)
  note score = score_capacity_finite [OF assms(8) av [folded a_def] keep]
  have big: "0 < free" "unat (ke_blocks e) \<le> free" "0 < a" "of_nat (unat (ke_bytes e)) \<le> a" if "2 ^ 53 < free * ?pb"
  proof -
    have "unat (ke_blocks e) * ?pb < free * ?pb" using that bytes by linarith
    then show "0 < free" "unat (ke_blocks e) \<le> free" by simp_all
    have "(of_nat (unat (ke_bytes e)) :: rat) < of_nat (2 ^ 53)" using bytes(2) by (simp only: of_nat_less_iff)
    then show "0 < a" "of_nat (unat (ke_bytes e)) \<le> a" using prod(2) [OF that] by (simp_all del: of_nat_unat)
  qed
  have small: "0 < a \<longleftrightarrow> 0 < free" "of_nat (unat (ke_bytes e)) \<le> a \<longleftrightarrow> unat (ke_blocks e) \<le> free"
    "of_nat (unat (ke_bytes e)) / a = of_nat (unat (ke_blocks e)) / of_nat free" if "free * ?pb \<le> 2 ^ 53"
    unfolding prod(1) [OF that] bytes(1) of_nat_0_less_iff of_nat_le_iff using pb0 by (simp_all only: cancel_factor) simp_all
  show ?thesis
  proof (cases "free * ?pb \<le> 2 ^ 53")
    case True
    then show ?thesis using score small [OF True] by simp
  next
    case False
    then show ?thesis using score(2) big by simp
  qed
qed

definition with_blocks :: "u64 \<Rightarrow> u64 \<Rightarrow> backend_metrics" where
  "with_blocks n used = fresh_metrics\<lparr>kv_used_blocks := used, kv_total_blocks := n\<rparr>"

theorem capacity_admission_witness:
  "score_capacity exact_fpu (estimate_kv (spec_literal 28 4 128 StandardAttention KvBf16 0 0 0) (with_block_size 16 (estimate_input_new 100 60)))
     (with_blocks 50 30) 16 (Fin (1 / 2)) = (Fin (1 / 2), Fin (2 / 3)) \<and>
   score_capacity exact_fpu (estimate_kv (spec_literal 28 4 128 StandardAttention KvBf16 0 0 0) (with_block_size 16 (estimate_input_new 100 60)))
     (with_blocks 50 41) 16 (Fin (1 / 2)) = (PInf, Fin 0)"
proof -
  let ?s = "spec_literal 28 4 128 StandardAttention KvBf16 0 0 0" and ?i = "with_block_size 16 (estimate_input_new 100 60)"
  have known: "lookup_builtin ''Qwen2.5-7B'' = Some ?s" by code_simp
  have pt: "0 < per_token_exact ?s" by (simp add: per_token_exact_def spec_literal_def)
  have i: "0 < ei_block_size ?i" "ei_batch_size ?i \<le> 1" "ei_block_size ?i = 16" by (simp_all add: with_block_size_def estimate_input_new_def)
  have blocks: "unat (ke_blocks (estimate_kv ?s ?i)) = 10"
    by (simp add: estimate_kv_def Let_def effective_len_def sat_add_def div_ceil_def with_block_size_def estimate_input_new_def spec_literal_def)
  have share: "20 * (per_token_exact ?s * unat (ei_block_size ?i)) \<le> 2 ^ 53"
    by (simp add: i(3) per_token_exact_def spec_literal_def)
  define e where "e = estimate_kv ?s ?i"
  have ten: "unat (ke_blocks e) = 10" using blocks by (simp add: e_def)
  note ca = capacity_admission [OF known i(1,2) pt _ e_def refl rounds_exact keeps_id, of _ "Fin (1 / 2)"]
  obtain ratio where r: "score_capacity exact_fpu e (with_blocks 50 30) 16 (Fin (1 / 2)) = (Fin ratio, Fin (1 / (1 + ratio)))" "ratio * 2 = 1"
    using ca [of "with_blocks 50 30"] share unfolding i(3) ten by (auto simp: with_blocks_def)
  then have "ratio = 1 / 2" by simp
  with r(1) have "score_capacity exact_fpu e (with_blocks 50 30) 16 (Fin (1 / 2)) = (Fin (1 / 2), Fin (2 / 3))" by simp
  moreover have "score_capacity exact_fpu e (with_blocks 50 41) 16 (Fin (1 / 2)) = (PInf, Fin 0)"
    using ca [of "with_blocks 50 41"] unfolding i(3) ten by (simp add: with_blocks_def)
  ultimately show ?thesis by (simp only: e_def)
qed

text \<open>A backend without metrics costs nothing, so its normalised score is at least that of every backend that reports its load.\<close>

lemma no_signal_is_best:
  assumes "load_get a (ms_load meta) = None" "kec_exclude_on_unknown_spec cfg = False"
  shows "sb_raw_cost (kv_capacity_score F registry cfg ctx meta a) = Fin 0"
  using assms by (simp add: kv_capacity_score_def Let_def split: option.split)

text \<open>The plugins only add terms to the score: every candidate that passes the model filter is in the ranking of the hybrid strategy,
  also one that a plugin marks as excluded.\<close>

lemma excluded_still_ranked:
  assumes "hybrid_evaluate F inst now ctx cs meta hy = (Inr out, hy')" "cs \<noteq> []"
    and "fst (st_evaluate (hy_model hy) inst now ctx cs meta) = Inr ms" "s \<in> set ms" "f64_less (Fin 0) (sb_score s)"
  shows "sb_backend_id s \<in> sb_backend_id ` set out"
  using assms(1,2)
proof (rule hybrid_Inr)
  fix ms' passing base hy2 w ks ls ts ps
  assume "fst (st_evaluate (hy_model hy) inst now ctx cs meta) = Inr ms'"
    and p: "passing = map sb_backend_id (filter (\<lambda>s. f64_less (Fin 0) (sb_score s)) ms')" and out: "out = combine_scores F w passing ks ls ts ps"
  then have "sb_backend_id s \<in> set passing" using assms(3-5) by auto
  then show ?thesis using combine_ids [of F w passing ks ls ts ps] unfolding out [symmetric] by (metis list.set_map mset_eq_setD)
qed

text \<open>The comment on the scale of the cost score gives 0.99 for a cent; the score is below a thousandth.\<close>

lemma cent_scores_low: "f64_div exact_fpu (Fin 1) (f64_add exact_fpu (Fin 1) (f64_mul exact_fpu (Fin (1 / 100)) (Fin SCORE_COST_SCALE))) = Fin (1 / 10001)"
  by (simp add: exact_fpu_def SCORE_COST_SCALE_def)

end
