(* ===== verification/Tenants.thy ===== *)
theory Tenants
  imports Adaptive Inference
begin

text \<open>
  Tenants: the quotas and decisions of \<open>crates/hier-kv-gateway-core/src/tenant.rs\<close>, their section of \<open>config.rs\<close>, and the admission
  scheduler of \<open>crates/hier-kv-gateway-routing/src/tenant_scheduler.rs\<close> with its token buckets. An \<open>Instant\<close> is a number of
  nanoseconds; a bucket that is made during a call reads the clock before the call does.
\<close>

section \<open>Quotas and decisions\<close>

datatype tenant_priority = Background | NormalPriority | Premium

record tenant_quota =
  tq_tenant_id :: tenant_id
  tq_priority :: tenant_priority
  tq_max_rps :: "f64 option"
  tq_max_input_tpm :: "u64 option"
  tq_max_output_tpm :: "u64 option"
  tq_max_concurrent :: "u32 option"
  tq_reserved_capacity_fraction :: f64

definition tenant_quota_new :: "tenant_id \<Rightarrow> tenant_quota" where
  "tenant_quota_new t = \<lparr>tq_tenant_id = t, tq_priority = NormalPriority, tq_max_rps = None, tq_max_input_tpm = None,
     tq_max_output_tpm = None, tq_max_concurrent = None, tq_reserved_capacity_fraction = Fin 0\<rparr>"

definition quota_with_priority :: "tenant_id \<Rightarrow> tenant_priority \<Rightarrow> tenant_quota" where
  "quota_with_priority t p = (tenant_quota_new t)\<lparr>tq_priority := p\<rparr>"

definition quota_premium :: "tenant_id \<Rightarrow> f64 \<Rightarrow> tenant_quota" where
  "quota_premium t reserved = (tenant_quota_new t)\<lparr>tq_priority := Premium, tq_reserved_capacity_fraction := reserved\<rparr>"

definition has_any_limit :: "tenant_quota \<Rightarrow> bool" where
  "has_any_limit q \<longleftrightarrow> tq_max_rps q \<noteq> None \<or> tq_max_input_tpm q \<noteq> None \<or> tq_max_output_tpm q \<noteq> None \<or> tq_max_concurrent q \<noteq> None"

record tenant_state =
  tst_tenant_id :: tenant_id
  tst_priority :: tenant_priority
  tst_in_flight :: u32
  tst_input_tokens_this_minute :: u64
  tst_output_tokens_this_minute :: u64
  tst_requests_this_second :: u64
  tst_last_request_time :: nat
  tst_tpm_window_start :: nat
  tst_rps_window_start :: nat

definition tenant_state_new :: "nat \<Rightarrow> tenant_id \<Rightarrow> tenant_priority \<Rightarrow> tenant_state" where
  "tenant_state_new now t p = \<lparr>tst_tenant_id = t, tst_priority = p, tst_in_flight = 0, tst_input_tokens_this_minute = 0,
     tst_output_tokens_this_minute = 0, tst_requests_this_second = 0, tst_last_request_time = now, tst_tpm_window_start = now,
     tst_rps_window_start = now\<rparr>"

definition maybe_reset_tpm_window :: "nat \<Rightarrow> tenant_state \<Rightarrow> tenant_state" where
  "maybe_reset_tpm_window now s =
     (if 60 \<le> (now - tst_tpm_window_start s) div 10 ^ 9 then
        s\<lparr>tst_input_tokens_this_minute := 0, tst_output_tokens_this_minute := 0, tst_tpm_window_start := now\<rparr> else s)"

definition maybe_reset_rps_window :: "nat \<Rightarrow> tenant_state \<Rightarrow> tenant_state" where
  "maybe_reset_rps_window now s =
     (if 1 \<le> (now - tst_rps_window_start s) div 10 ^ 9 then s\<lparr>tst_requests_this_second := 0, tst_rps_window_start := now\<rparr> else s)"

datatype admission_decision = Admitted | RateLimitedFor u64 string | Queued

record saturation_state =
  sat_capacity_used :: f64
  sat_is_saturated :: bool
  sat_total_capacity :: u64
  sat_used_capacity :: u64

definition saturation_new :: "fpu \<Rightarrow> u64 \<Rightarrow> u64 \<Rightarrow> saturation_state" where
  "saturation_new F cap used =
     (let c = (if 0 < cap then f64_div F (of_usize F (unat used)) (of_usize F (unat cap)) else Fin 0)
      in \<lparr>sat_capacity_used = c, sat_is_saturated = f64_le (fp_round F (8 / 10)) c, sat_total_capacity = cap, sat_used_capacity = used\<rparr>)"

record tenant_quota_config =
  tqc_id :: string
  tqc_priority :: tenant_priority
  tqc_max_rps :: "f64 option"
  tqc_max_concurrent :: "u32 option"
  tqc_reserved_capacity_fraction :: f64

record tenant_config =
  tcf_enabled :: bool
  tcf_default_max_rps :: "f64 option"
  tcf_default_max_concurrent :: "u32 option"
  tcf_saturation_threshold :: f64
  tcf_tenants :: "tenant_quota_config list"

definition tenant_config_default :: "fpu \<Rightarrow> tenant_config" where
  "tenant_config_default F = \<lparr>tcf_enabled = False, tcf_default_max_rps = None, tcf_default_max_concurrent = None,
     tcf_saturation_threshold = fp_round F (8 / 10), tcf_tenants = []\<rparr>"

section \<open>Token buckets\<close>

record token_bucket =
  tb_rate :: f64
  tb_max_burst :: f64
  tb_tokens :: f64
  tb_last_refill :: nat

definition token_bucket_new :: "nat \<Rightarrow> f64 \<Rightarrow> f64 option \<Rightarrow> token_bucket" where
  "token_bucket_new now rate max_burst =
     (let burst = (case max_burst of Some b \<Rightarrow> b | None \<Rightarrow> f64_max rate (Fin 1))
      in \<lparr>tb_rate = rate, tb_max_burst = burst, tb_tokens = burst, tb_last_refill = now\<rparr>)"

definition refill :: "fpu \<Rightarrow> nat \<Rightarrow> token_bucket \<Rightarrow> token_bucket" where
  "refill F now b =
     (let elapsed = as_secs_f64 F (now - tb_last_refill b)
      in if f64_less (Fin 0) elapsed then
           b\<lparr>tb_tokens := f64_min (f64_add F (tb_tokens b) (f64_mul F elapsed (tb_rate b))) (tb_max_burst b), tb_last_refill := now\<rparr>
         else b)"

definition try_consume :: "fpu \<Rightarrow> f64 \<Rightarrow> nat \<Rightarrow> token_bucket \<Rightarrow> bool \<times> token_bucket" where
  "try_consume F n now old =
     (let b = refill F now old
      in if f64_le n (tb_tokens b) then (True, b\<lparr>tb_tokens := f64_sub F (tb_tokens b) n\<rparr>) else (False, b))"

definition time_until_available :: "fpu \<Rightarrow> f64 \<Rightarrow> token_bucket \<Rightarrow> f64" where
  "time_until_available F n b =
     (if f64_le n (tb_tokens b) then Fin 0
      else f64_div F (f64_sub F n (tb_tokens b)) (f64_max (tb_rate b) (fp_round F (1 / 10 ^ 9))))"

section \<open>The scheduler\<close>

record tenant_bucket =
  tn_quota :: tenant_quota
  tn_bucket :: token_bucket
  tn_in_flight :: u64

definition tenant_bucket_new :: "nat \<Rightarrow> tenant_quota \<Rightarrow> tenant_bucket" where
  "tenant_bucket_new now q =
     (let rate = (case tq_max_rps q of Some r \<Rightarrow> r | None \<Rightarrow> Fin F64_MAX)
      in \<lparr>tn_quota = q, tn_bucket = token_bucket_new now rate (Some (f64_max rate (Fin 1))), tn_in_flight = 0\<rparr>)"

record tenant_scheduler =
  tsc_config :: tenant_config
  tsc_buckets :: "(tenant_id \<times> tenant_bucket) list"
  tsc_total_capacity :: u64
  tsc_used_capacity :: u64

definition scheduler_new :: "tenant_config \<Rightarrow> tenant_scheduler" where
  "scheduler_new cfg = \<lparr>tsc_config = cfg, tsc_buckets = [], tsc_total_capacity = 100, tsc_used_capacity = 0\<rparr>"

definition update_capacity :: "u64 \<Rightarrow> u64 \<Rightarrow> tenant_scheduler \<Rightarrow> tenant_scheduler" where
  "update_capacity cap used s = s\<lparr>tsc_total_capacity := max cap 1, tsc_used_capacity := used\<rparr>"

definition saturation_of :: "fpu \<Rightarrow> tenant_scheduler \<Rightarrow> saturation_state" where
  "saturation_of F s = saturation_new F (tsc_total_capacity s) (tsc_used_capacity s)"

definition or_else :: "'a option \<Rightarrow> 'a option \<Rightarrow> 'a option" where
  "or_else x y = (case x of Some v \<Rightarrow> Some v | None \<Rightarrow> y)"

definition resolve_quota :: "tenant_config \<Rightarrow> tenant_id \<Rightarrow> tenant_quota" where
  "resolve_quota cfg t =
     (case List.find (\<lambda>c. tqc_id c = tenant_str t) (tcf_tenants cfg) of
        Some c \<Rightarrow> \<lparr>tq_tenant_id = t, tq_priority = tqc_priority c, tq_max_rps = or_else (tqc_max_rps c) (tcf_default_max_rps cfg),
           tq_max_input_tpm = None, tq_max_output_tpm = None, tq_max_concurrent = or_else (tqc_max_concurrent c) (tcf_default_max_concurrent cfg),
           tq_reserved_capacity_fraction = (if tqc_priority c = Premium then tqc_reserved_capacity_fraction c else Fin 0)\<rparr>
      | None \<Rightarrow> \<lparr>tq_tenant_id = t, tq_priority = NormalPriority, tq_max_rps = tcf_default_max_rps cfg, tq_max_input_tpm = None,
           tq_max_output_tpm = None, tq_max_concurrent = tcf_default_max_concurrent cfg, tq_reserved_capacity_fraction = Fin 0\<rparr>)"

definition get_or_create_bucket :: "nat \<Rightarrow> tenant_id \<Rightarrow> tenant_scheduler \<Rightarrow> tenant_bucket \<times> tenant_scheduler" where
  "get_or_create_bucket now t s =
     (case map_of (tsc_buckets s) t of
        Some b \<Rightarrow> (b, s)
      | None \<Rightarrow> let b = tenant_bucket_new now (resolve_quota (tsc_config s) t) in (b, s\<lparr>tsc_buckets := AList.update t b (tsc_buckets s)\<rparr>))"

definition set_bucket_of :: "tenant_id \<Rightarrow> tenant_bucket \<Rightarrow> tenant_scheduler \<Rightarrow> tenant_scheduler" where
  "set_bucket_of t b s = s\<lparr>tsc_buckets := AList.update t b (tsc_buckets s)\<rparr>"

definition total_reserved_fraction :: "fpu \<Rightarrow> tenant_scheduler \<Rightarrow> f64" where
  "total_reserved_fraction F s =
     f64_min (foldl (\<lambda>cap (t, b). if tq_priority (tn_quota b) = Premium then f64_add F cap (tq_reserved_capacity_fraction (tn_quota b)) else cap)
        (Fin 0) (tsc_buckets s)) (fp_round F (9 / 10))"

text \<open>The texts of a refusal; a number of requests per second is printed without decimals, \<open>show_rps\<close>.\<close>

definition rps_reason :: "(f64 \<Rightarrow> string) \<Rightarrow> tenant_id \<Rightarrow> tenant_quota \<Rightarrow> string" where
  "rps_reason show_rps t q =
     ''tenant '' @ tenant_str t @ '' exceeded RPS limit of '' @ show_rps (case tq_max_rps q of Some r \<Rightarrow> r | None \<Rightarrow> Fin F64_MAX)"

definition concurrent_reason :: "tenant_id \<Rightarrow> u32 \<Rightarrow> string" where
  "concurrent_reason t n = ''tenant '' @ tenant_str t @ '' at max concurrent requests ('' @ show_nat (unat n) @ '')''"

definition priority_decision :: "fpu \<Rightarrow> tenant_quota \<Rightarrow> tenant_scheduler \<Rightarrow> admission_decision" where
  "priority_decision F q s =
     (let used = sat_capacity_used (saturation_of F s)
      in if f64_le (tcf_saturation_threshold (tsc_config s)) used then
           (case tq_priority q of
              Premium \<Rightarrow> Admitted
            | NormalPriority \<Rightarrow> if f64_less used (f64_sub F (Fin 1) (total_reserved_fraction F s)) then Admitted else Queued
            | Background \<Rightarrow> Queued)
         else Admitted)"

definition check_admission :: "fpu \<Rightarrow> (f64 \<Rightarrow> string) \<Rightarrow> nat \<Rightarrow> nat \<Rightarrow> tenant_id \<Rightarrow> tenant_scheduler \<Rightarrow> admission_decision \<times> tenant_scheduler" where
  "check_admission F show_rps created now t s0 =
     (if \<not> tcf_enabled (tsc_config s0) then (Admitted, s0)
      else let (b, s1) = get_or_create_bucket created t s0;
               (ok, bucket) = try_consume F (Fin 1) now (tn_bucket b);
               s = set_bucket_of t (b\<lparr>tn_bucket := bucket\<rparr>) s1; q = tn_quota b
      in if \<not> ok then
           (RateLimitedFor (max (f64_to_u64 (f64_ceil (time_until_available F (Fin 1) bucket))) 1) (rps_reason show_rps t q), s)
         else case tq_max_concurrent q of
                Some limit \<Rightarrow> if unat limit \<le> unat (tn_in_flight b) then (RateLimitedFor 1 (concurrent_reason t limit), s)
                              else (priority_decision F q s, s)
              | None \<Rightarrow> (priority_decision F q s, s))"

definition record_request_start :: "nat \<Rightarrow> tenant_id \<Rightarrow> tenant_scheduler \<Rightarrow> tenant_scheduler" where
  "record_request_start created t s0 =
     (let (b, s) = get_or_create_bucket created t s0 in set_bucket_of t (b\<lparr>tn_in_flight := tn_in_flight b + 1\<rparr>) s)"

definition record_request_end :: "tenant_id \<Rightarrow> tenant_scheduler \<Rightarrow> tenant_scheduler" where
  "record_request_end t s =
     (case map_of (tsc_buckets s) t of
        Some b \<Rightarrow> set_bucket_of t (b\<lparr>tn_in_flight := tn_in_flight b - 1\<rparr>) s
      | None \<Rightarrow> s)"

section \<open>Token buckets in exact arithmetic\<close>

abbreviation secs :: "nat \<Rightarrow> rat" where
  "secs n \<equiv> of_nat n / 10 ^ 9"

lemma split_quotient: "0 < k \<Longrightarrow> of_nat (n div k) + of_nat (n mod k) / of_nat k = (of_nat n / of_nat k :: rat)"
  by (simp add: field_simps flip: of_nat_mult of_nat_add)

lemma as_secs_exact: "as_secs_f64 exact_fpu n = Fin (secs n)"
  using split_quotient [of "10 ^ 9" n] by (simp add: as_secs_f64_def of_usize_def exact_fpu_def)

definition refilled :: "rat \<Rightarrow> rat \<Rightarrow> rat \<Rightarrow> nat \<Rightarrow> nat \<Rightarrow> rat" where
  "refilled r m x t0 now = (if t0 < now then min (x + secs (now - t0) * r) m else x)"

lemma exact_ops:
  "fp_round exact_fpu x = Fin x"
  "f64_add exact_fpu (Fin x) (Fin y) = Fin (x + y)" "f64_sub exact_fpu (Fin x) (Fin y) = Fin (x - y)"
  "f64_mul exact_fpu (Fin x) (Fin y) = Fin (x * y)" "f64_min (Fin x) (Fin y) = Fin (min x y)"
  "f64_max (Fin x) (Fin y) = Fin (max x y)" "f64_less (Fin x) (Fin y) \<longleftrightarrow> x < y" "f64_le (Fin x) (Fin y) \<longleftrightarrow> x \<le> y"
  by (simp_all add: exact_fpu_def f64_min_def f64_max_def f64_sub_def f64_le_def min_def max_def le_less)

lemma refill_exact:
  assumes "tb_rate b = Fin r" "tb_max_burst b = Fin m" "tb_tokens b = Fin x"
  shows "refill exact_fpu now b = b\<lparr>tb_tokens := Fin (refilled r m x (tb_last_refill b) now), tb_last_refill := max (tb_last_refill b) now\<rparr>"
  using assms by (cases b) (simp add: refill_def as_secs_exact refilled_def exact_ops max_def)

lemma consume_exact:
  assumes "tb_rate b = Fin r" "tb_max_burst b = Fin m" "tb_tokens b = Fin x"
  shows "try_consume exact_fpu (Fin 1) now b =
    (let y = refilled r m x (tb_last_refill b) now
     in (1 \<le> y, b\<lparr>tb_tokens := Fin (if 1 \<le> y then y - 1 else y), tb_last_refill := max (tb_last_refill b) now\<rparr>))"
  by (simp add: try_consume_def Let_def exact_ops refill_exact [OF assms])

text \<open>A bucket between its limits, last filled at \<open>hi\<close> at the latest; and how many requests it has paid for since \<open>a\<close>.\<close>

definition bucket_sound :: "rat \<Rightarrow> rat \<Rightarrow> nat \<Rightarrow> token_bucket \<Rightarrow> bool" where
  "bucket_sound r m hi b \<longleftrightarrow> tb_rate b = Fin r \<and> tb_max_burst b = Fin m \<and> tb_last_refill b \<le> hi \<and>
     (\<exists>x. tb_tokens b = Fin x \<and> 0 \<le> x \<and> x \<le> m)"

definition paid_since :: "rat \<Rightarrow> rat \<Rightarrow> nat \<Rightarrow> nat \<Rightarrow> token_bucket \<Rightarrow> bool" where
  "paid_since r m a n b \<longleftrightarrow>
     (n = 0 \<and> tb_last_refill b \<le> a) \<or>
     (a \<le> tb_last_refill b \<and> (\<exists>x. tb_tokens b = Fin x \<and> of_nat n + x \<le> m + r * secs (tb_last_refill b - a)))"

lemma refilled_bounds: "0 \<le> r \<Longrightarrow> 0 \<le> m \<Longrightarrow> 0 \<le> x \<Longrightarrow> x \<le> m \<Longrightarrow> 0 \<le> refilled r m x l now \<and> refilled r m x l now \<le> m"
  by (simp add: refilled_def)

lemma consume_sound:
  assumes "bucket_sound r m hi b" "0 \<le> r" "0 \<le> m" "now \<le> hi'" "hi \<le> hi'"
  shows "bucket_sound r m hi' (snd (try_consume exact_fpu (Fin 1) now b))"
proof -
  obtain x where x: "tb_rate b = Fin r" "tb_max_burst b = Fin m" "tb_tokens b = Fin x" "0 \<le> x" "x \<le> m" "tb_last_refill b \<le> hi"
    using assms(1) by (auto simp: bucket_sound_def)
  show ?thesis
    using refilled_bounds [OF assms(2,3) x(4,5), of "tb_last_refill b" now] assms(4,5) x
    unfolding consume_exact [OF x(1-3)] Let_def by (auto simp: bucket_sound_def)
qed

lemma consume_paid:
  assumes "bucket_sound r m hi b" "0 \<le> r" "0 \<le> m" "a \<le> now" "paid_since r m a n b" "try_consume exact_fpu (Fin 1) now b = (ok, b')"
  shows "paid_since r m a (if ok then Suc n else n) b'"
proof -
  obtain x where x: "tb_rate b = Fin r" "tb_max_burst b = Fin m" "tb_tokens b = Fin x" "0 \<le> x" "x \<le> m" using assms(1) by (auto simp: bucket_sound_def)
  let ?l = "tb_last_refill b"
  let ?y = "refilled r m x ?l now"
  have b': "ok \<longleftrightarrow> 1 \<le> ?y" "tb_tokens b' = Fin (if 1 \<le> ?y then ?y - 1 else ?y)" "tb_last_refill b' = max ?l now"
    using assms(6) unfolding consume_exact [OF x(1-3)] Let_def by auto
  have le: "a \<le> max ?l now" using assms(4) by simp
  have "of_nat n + ?y \<le> m + r * secs (max ?l now - a)"
  proof (cases "n = 0 \<and> ?l \<le> a")
    case True
    then show ?thesis using refilled_bounds [OF assms(2,3) x(4,5), of ?l now] assms(2) by (simp add: add_increasing2)
  next
    case False
    then have l: "a \<le> ?l" "of_nat n + x \<le> m + r * secs (?l - a)" using assms(5) x(3) by (auto simp: paid_since_def)
    show ?thesis
    proof (cases "?l < now")
      case True
      have "secs (?l - a) + secs (now - ?l) = secs (now - a)" using True l(1) by (simp add: of_nat_diff flip: add_divide_distrib)
      then have "r * secs (now - a) = r * secs (?l - a) + secs (now - ?l) * r" by (metis distrib_left mult.commute)
      moreover have "?y \<le> x + secs (now - ?l) * r" using True by (simp only: refilled_def if_True min.cobounded1)
      ultimately show ?thesis using True l(2) by (simp only: max_def less_imp_le if_True)
    next
      case False
      then show ?thesis using l(2) by (simp add: refilled_def max_def)
    qed
  qed
  then show ?thesis using b' le by (auto simp: paid_since_def)
qed


section \<open>Runs of the scheduler\<close>

text \<open>
  What callers do to a scheduler: ask for a request at some time (the first number is the clock when a bucket is made, the second the
  one the check reads), start one, finish one, or publish the capacity in use.
\<close>

datatype sched_event = Check nat nat tenant_id | Start nat tenant_id | Finish tenant_id | Capacity u64 u64

fun sched_step :: "fpu \<Rightarrow> (f64 \<Rightarrow> string) \<Rightarrow> sched_event \<Rightarrow> tenant_scheduler \<Rightarrow> (tenant_id \<times> admission_decision) list \<times> tenant_scheduler" where
  "sched_step F show_rps (Check created now t) s = (let (d, s1) = check_admission F show_rps created now t s in ([(t, d)], s1))"
| "sched_step F show_rps (Start created t) s = ([], record_request_start created t s)"
| "sched_step F show_rps (Finish t) s = ([], record_request_end t s)"
| "sched_step F show_rps (Capacity cap used) s = ([], update_capacity cap used s)"

fun sched_run :: "fpu \<Rightarrow> (f64 \<Rightarrow> string) \<Rightarrow> sched_event list \<Rightarrow> tenant_scheduler \<Rightarrow> (tenant_id \<times> admission_decision) list \<times> tenant_scheduler" where
  "sched_run F show_rps [] s = ([], s)"
| "sched_run F show_rps (e # es) s =
     (let (ds, s1) = sched_step F show_rps e s; (rest, s2) = sched_run F show_rps es s1 in (ds @ rest, s2))"

fun in_window :: "nat \<Rightarrow> nat \<Rightarrow> sched_event \<Rightarrow> bool" where
  "in_window a b (Check created now t) \<longleftrightarrow> a \<le> created \<and> created \<le> now \<and> now \<le> b"
| "in_window a b (Start created t) \<longleftrightarrow> a \<le> created \<and> created \<le> b"
| "in_window a b _ \<longleftrightarrow> True"

definition admitted_for :: "tenant_id \<Rightarrow> (tenant_id \<times> admission_decision) list \<Rightarrow> nat" where
  "admitted_for t ds = length (filter (\<lambda>(u, d). u = t \<and> d = Admitted) ds)"

text \<open>The bucket of a tenant whose rate is \<open>r\<close>, and what it has paid since \<open>a\<close>.\<close>

definition tenant_sound :: "tenant_id \<Rightarrow> rat \<Rightarrow> nat \<Rightarrow> tenant_scheduler \<Rightarrow> bool" where
  "tenant_sound t r hi s \<longleftrightarrow> tcf_enabled (tsc_config s) \<and> tq_max_rps (resolve_quota (tsc_config s) t) = Some (Fin r) \<and>
     (\<forall>b. map_of (tsc_buckets s) t = Some b \<longrightarrow> tn_quota b = resolve_quota (tsc_config s) t \<and> bucket_sound r (max r 1) hi (tn_bucket b))"

definition tenant_paid :: "tenant_id \<Rightarrow> rat \<Rightarrow> nat \<Rightarrow> nat \<Rightarrow> tenant_scheduler \<Rightarrow> bool" where
  "tenant_paid t r a n s \<longleftrightarrow> (case map_of (tsc_buckets s) t of None \<Rightarrow> n = 0 | Some b \<Rightarrow> paid_since r (max r 1) a n (tn_bucket b))"

lemma get_or_create_kept:
  assumes "get_or_create_bucket created u s = (b, s1)"
  shows "tsc_config s1 = tsc_config s" "map_of (tsc_buckets s1) u = Some b" "t \<noteq> u \<Longrightarrow> map_of (tsc_buckets s1) t = map_of (tsc_buckets s) t"
    "map_of (tsc_buckets s) u = Some b \<or> map_of (tsc_buckets s) u = None \<and> b = tenant_bucket_new created (resolve_quota (tsc_config s) u)"
  using assms by (auto simp: get_or_create_bucket_def Let_def update_conv' split: option.splits)

lemma set_bucket_kept [simp]:
  "tsc_config (set_bucket_of u b s) = tsc_config s"
  "map_of (tsc_buckets (set_bucket_of u b s)) t = (if t = u then Some b else map_of (tsc_buckets s) t)"
  by (auto simp: set_bucket_of_def update_conv')

lemma new_bucket_sound:
  assumes "tq_max_rps q = Some (Fin r)" "0 \<le> r" "created \<le> hi"
  shows "bucket_sound r (max r 1) hi (tn_bucket (tenant_bucket_new created q))"
    "a \<le> created \<Longrightarrow> paid_since r (max r 1) a 0 (tn_bucket (tenant_bucket_new created q))"
  using assms by (auto simp: tenant_bucket_new_def Let_def token_bucket_new_def bucket_sound_def paid_since_def exact_ops)

lemma get_or_create_sound:
  assumes "tenant_sound t r hi s" "0 \<le> r" "created \<le> hi" "get_or_create_bucket created u s = (b, s1)"
  shows "tenant_sound t r hi s1" "u = t \<Longrightarrow> bucket_sound r (max r 1) hi (tn_bucket b)" "tn_quota b = resolve_quota (tsc_config s) u \<or> u \<noteq> t"
proof -
  note kept = get_or_create_kept [OF assms(4)]
  show q: "tn_quota b = resolve_quota (tsc_config s) u \<or> u \<noteq> t"
    using kept(4) assms(1) by (auto simp: tenant_sound_def tenant_bucket_new_def Let_def)
  show b: "u = t \<Longrightarrow> bucket_sound r (max r 1) hi (tn_bucket b)"
    using kept(4) assms(1) new_bucket_sound(1) [OF _ assms(2,3)] by (auto simp: tenant_sound_def)
  show "tenant_sound t r hi s1" using q b kept assms(1) by (cases "u = t") (auto simp: tenant_sound_def)
qed

lemma get_or_create_paid:
  assumes "tenant_sound t r hi s" "0 \<le> r" "a \<le> created" "created \<le> hi" "tenant_paid t r a n s" "get_or_create_bucket created u s = (b, s1)"
  shows "tenant_paid t r a n s1" "u = t \<Longrightarrow> paid_since r (max r 1) a n (tn_bucket b)"
proof -
  note kept = get_or_create_kept [OF assms(6)]
  show b: "u = t \<Longrightarrow> paid_since r (max r 1) a n (tn_bucket b)"
    using kept(4) assms(1,5) new_bucket_sound(2) [OF _ assms(2,4,3)] by (auto simp: tenant_sound_def tenant_paid_def)
  show "tenant_paid t r a n s1" using b kept assms(5) by (cases "u = t") (auto simp: tenant_paid_def)
qed

lemma check_split:
  assumes "tcf_enabled (tsc_config s)" "get_or_create_bucket created u s = (b, s1)" "try_consume F (Fin 1) now (tn_bucket b) = (ok, bucket)"
  shows "snd (check_admission F show_rps created now u s) = set_bucket_of u (b\<lparr>tn_bucket := bucket\<rparr>) s1"
    "\<not> ok \<Longrightarrow> fst (check_admission F show_rps created now u s) =
      RateLimitedFor (max (f64_to_u64 (f64_ceil (time_until_available F (Fin 1) bucket))) 1) (rps_reason show_rps u (tn_quota b))"
  using assms by (auto simp: check_admission_def Let_def split: option.splits)

lemma set_bucket_sound:
  assumes "tenant_sound t r hi s" "u = t \<Longrightarrow> tn_quota b = resolve_quota (tsc_config s) t \<and> bucket_sound r (max r 1) hi (tn_bucket b)"
  shows "tenant_sound t r hi (set_bucket_of u b s)"
  using assms by (simp add: tenant_sound_def)

lemma step_sound:
  assumes "tenant_sound t r hi s" "0 \<le> r" "in_window a hi e"
  shows "tenant_sound t r hi (snd (sched_step exact_fpu show_rps e s))"
proof (cases e)
  case (Check created now u)
  then have le: "created \<le> hi" "now \<le> hi" using assms(3) by auto
  obtain b s1 where g: "get_or_create_bucket created u s = (b, s1)" by fastforce
  obtain ok bk where tc: "try_consume exact_fpu (Fin 1) now (tn_bucket b) = (ok, bk)" by fastforce
  note kept = get_or_create_sound [OF assms(1,2) le(1) g]
  have "u = t \<Longrightarrow> bucket_sound r (max r 1) hi bk" using consume_sound [OF kept(2) assms(2) _ le(2) order_refl] tc by simp
  moreover have en: "tcf_enabled (tsc_config s)" using assms(1) by (simp add: tenant_sound_def)
  moreover have "u = t \<Longrightarrow> tn_quota b = resolve_quota (tsc_config s1) t"
    using kept(1) get_or_create_kept(2) [OF g] by (simp add: tenant_sound_def)
  ultimately have "tenant_sound t r hi (set_bucket_of u (b\<lparr>tn_bucket := bk\<rparr>) s1)" using kept(1) by (simp add: tenant_sound_def)
  then show ?thesis using Check check_split(1) [OF en g tc] by (simp add: split_beta Let_def)
next
  case (Start created u)
  obtain b s1 where g: "get_or_create_bucket created u s = (b, s1)" by fastforce
  have le: "created \<le> hi" using assms(3) Start by simp
  note kept = get_or_create_sound [OF assms(1,2) le g]
  have "u = t \<Longrightarrow> tn_quota b = resolve_quota (tsc_config s1) t"
    using kept(1) get_or_create_kept(2) [OF g] by (simp add: tenant_sound_def)
  then have "tenant_sound t r hi (set_bucket_of u (b\<lparr>tn_in_flight := tn_in_flight b + 1\<rparr>) s1)"
    using kept(2) by (intro set_bucket_sound [OF kept(1)]) simp
  then show ?thesis using Start g by (simp add: record_request_start_def)
next
  case (Finish u)
  show ?thesis
  proof (cases "map_of (tsc_buckets s) u")
    case (Some b)
    then have "tenant_sound t r hi (set_bucket_of u (b\<lparr>tn_in_flight := tn_in_flight b - 1\<rparr>) s)"
      using assms(1) by (intro set_bucket_sound [OF assms(1)]) (simp add: tenant_sound_def)
    then show ?thesis using Some Finish by (simp add: record_request_end_def)
  next
    case None
    then show ?thesis using Finish assms(1) by (simp add: record_request_end_def)
  qed
next
  case (Capacity cap used)
  then show ?thesis using assms(1) by (simp add: tenant_sound_def update_capacity_def)
qed

lemma step_paid:
  assumes "tenant_sound t r hi s" "0 \<le> r" "in_window a hi e" "tenant_paid t r a n s"
  shows "\<exists>k. admitted_for t (fst (sched_step exact_fpu show_rps e s)) \<le> k \<and> tenant_paid t r a (n + k) (snd (sched_step exact_fpu show_rps e s))"
proof (cases e)
  case (Check created now u)
  then have le: "a \<le> created" "created \<le> hi" "a \<le> now" using assms(3) by auto
  obtain b s1 where g: "get_or_create_bucket created u s = (b, s1)" by fastforce
  obtain ok bk where tc: "try_consume exact_fpu (Fin 1) now (tn_bucket b) = (ok, bk)" by fastforce
  have en: "tcf_enabled (tsc_config s)" using assms(1) by (simp add: tenant_sound_def)
  note kept = get_or_create_paid [OF assms(1,2) le(1,2) assms(4) g] and after = check_split [OF en g tc]
  show ?thesis
  proof (cases "u = t")
    case True
    have "paid_since r (max r 1) a (if ok then Suc n else n) bk"
      using consume_paid [OF get_or_create_sound(2) [OF assms(1,2) le(2) g True] assms(2) _ le(3) kept(2) [OF True] tc] by simp
    then show ?thesis using True Check after by (intro exI [of _ "if ok then 1 else 0"]) (auto simp: tenant_paid_def admitted_for_def split_beta Let_def)
  next
    case False
    then show ?thesis using kept(1) Check after(1) by (intro exI [of _ 0]) (simp add: tenant_paid_def admitted_for_def split_beta Let_def)
  qed
next
  case (Start created u)
  obtain b s1 where g: "get_or_create_bucket created u s = (b, s1)" by fastforce
  show ?thesis using get_or_create_paid [OF assms(1,2) _ _ assms(4) g] assms(3) Start g
    by (intro exI [of _ 0]) (auto simp: tenant_paid_def record_request_start_def admitted_for_def)
next
  case (Finish u)
  then show ?thesis using assms(4)
    by (intro exI [of _ 0]) (auto simp: tenant_paid_def record_request_end_def admitted_for_def split: option.splits)
next
  case (Capacity cap used)
  then show ?thesis using assms(4) by (intro exI [of _ 0]) (simp add: tenant_paid_def update_capacity_def admitted_for_def)
qed

lemma run_sound:
  assumes "tenant_sound t r hi s" "0 \<le> r" "list_all (in_window a hi) es"
  shows "tenant_sound t r hi (snd (sched_run exact_fpu show_rps es s))"
  using assms
proof (induction es arbitrary: s)
  case (Cons e es)
  then show ?case using step_sound [OF Cons.prems(1,2), of a e show_rps] by (simp add: split_beta Let_def)
qed simp

lemma run_paid:
  assumes "tenant_sound t r hi s" "0 \<le> r" "list_all (in_window a hi) es" "tenant_paid t r a n s"
  shows "\<exists>k. admitted_for t (fst (sched_run exact_fpu show_rps es s)) \<le> k \<and> tenant_paid t r a (n + k) (snd (sched_run exact_fpu show_rps es s))"
  using assms
proof (induction es arbitrary: s n)
  case (Cons e es)
  let ?s = "snd (sched_step exact_fpu show_rps e s)"
  have e: "in_window a hi e" and es: "list_all (in_window a hi) es" using Cons.prems(3) by auto
  obtain k where k: "admitted_for t (fst (sched_step exact_fpu show_rps e s)) \<le> k" "tenant_paid t r a (n + k) ?s"
    using step_paid [OF Cons.prems(1,2) e Cons.prems(4)] by blast
  obtain l where l: "admitted_for t (fst (sched_run exact_fpu show_rps es ?s)) \<le> l" "tenant_paid t r a (n + k + l) (snd (sched_run exact_fpu show_rps es ?s))"
    using Cons.IH [OF step_sound [OF Cons.prems(1,2) e] Cons.prems(2) es k(2)] by blast
  then show ?case using k(1) by (intro exI [of _ "k + l"]) (simp add: split_beta Let_def admitted_for_def add.assoc)
next
  case Nil
  then show ?case by (intro exI [of _ 0]) (simp add: admitted_for_def)
qed

lemma paid_bound:
  assumes "tenant_sound t r hi s" "0 \<le> r" "a \<le> hi" "tenant_paid t r a n s"
  shows "of_nat n \<le> max r 1 + r * secs (hi - a)"
proof (cases "map_of (tsc_buckets s) t")
  case None
  then show ?thesis using assms by (simp add: tenant_paid_def add_increasing2)
next
  case (Some b)
  then have b: "bucket_sound r (max r 1) hi (tn_bucket b)" "paid_since r (max r 1) a n (tn_bucket b)"
    using assms by (auto simp: tenant_sound_def tenant_paid_def)
  let ?l = "tb_last_refill (tn_bucket b)"
  have "secs (?l - a) \<le> secs (hi - a)" using b(1) by (simp add: bucket_sound_def divide_right_mono diff_le_mono)
  then have "r * secs (?l - a) \<le> r * secs (hi - a)" using assms(2) by (rule mult_left_mono)
  moreover have "0 \<le> r * secs (hi - a)" using assms(2) by simp
  ultimately show ?thesis using b unfolding bucket_sound_def paid_since_def by fastforce
qed

text \<open>C12. The rate limit of a tenant holds over every window of time: whatever the tenants asked for before, between two moments
  \<open>a\<close> and \<open>b\<close> at most a burst, the rate or one request, and the rate times the seconds between them are admitted, in exact arithmetic.\<close>

lemma admission_rate:
  assumes "tcf_enabled cfg" "tq_max_rps (resolve_quota cfg t) = Some (Fin r)" "0 \<le> r" "a \<le> b"
    and before: "list_all (in_window 0 a) before" and window: "list_all (in_window a b) window"
  shows "of_nat (admitted_for t (fst (sched_run exact_fpu show_rps window (snd (sched_run exact_fpu show_rps before (scheduler_new cfg))))))
    \<le> max r 1 + r * secs (b - a)"
proof -
  let ?s = "snd (sched_run exact_fpu show_rps before (scheduler_new cfg))"
  have new: "tenant_sound t r a (scheduler_new cfg)" using assms(1,2) by (simp add: tenant_sound_def scheduler_new_def)
  have s: "tenant_sound t r a ?s" by (rule run_sound [OF new assms(3) before])
  then have s': "tenant_sound t r b ?s" using assms(4) by (auto simp: tenant_sound_def bucket_sound_def)
  have "tenant_paid t r a 0 ?s" using s by (auto simp: tenant_sound_def tenant_paid_def bucket_sound_def paid_since_def split: option.splits)
  then obtain k where k: "admitted_for t (fst (sched_run exact_fpu show_rps window ?s)) \<le> k" "tenant_paid t r a k (snd (sched_run exact_fpu show_rps window ?s))"
    using run_paid [OF s' assms(3) window] by fastforce
  have "of_nat k \<le> max r 1 + r * secs (b - a)" by (rule paid_bound [OF run_sound [OF s' assms(3) window] assms(3,4) k(2)])
  then show ?thesis using k(1) by (meson order_trans of_nat_mono)
qed

definition demo_tenants :: tenant_config where
  "demo_tenants = (tenant_config_default exact_fpu)\<lparr>tcf_enabled := True, tcf_default_max_rps := Some (Fin (1 / 2))\<rparr>"

lemma demo_quota: "resolve_quota demo_tenants t = (tenant_quota_new t)\<lparr>tq_max_rps := Some (Fin (1 / 2))\<rparr>" "tcf_enabled demo_tenants"
  by (simp_all add: demo_tenants_def tenant_config_default_def resolve_quota_def tenant_quota_new_def)

lemma admission_rate_witness:
  "of_nat (admitted_for (TenantId ''a'') (fst (sched_run exact_fpu (\<lambda>_. ''1'')
      [Check 10 10 (TenantId ''a''), Check 11 11 (TenantId ''b''), Start 12 (TenantId ''a''), Check 13 20 (TenantId ''a''), Check 30 30 (TenantId ''a'')]
      (snd (sched_run exact_fpu (\<lambda>_. ''1'') [Check 5 6 (TenantId ''a''), Capacity 10 9] (scheduler_new demo_tenants))))))
    \<le> max (1 / 2) 1 + 1 / 2 * secs (30 - 10)"
  using admission_rate [of demo_tenants "TenantId ''a''" "1 / 2" 10 30 "[Check 5 6 (TenantId ''a''), Capacity 10 9]"
      "[Check 10 10 (TenantId ''a''), Check 11 11 (TenantId ''b''), Start 12 (TenantId ''a''), Check 13 20 (TenantId ''a''), Check 30 30 (TenantId ''a'')]"
      "\<lambda>_. ''1''"]
  by (simp add: demo_quota)


section \<open>The wait a refusal asks for\<close>

lemma whole_seconds:
  assumes "0 \<le> x" "x \<le> 10 ^ 9"
  shows "x \<le> of_nat (unat (max (f64_to_u64 (f64_ceil (Fin x))) 1))"
proof -
  define c where "c = \<lceil>x\<rceil>"
  have c: "0 \<le> c" "c \<le> 10 ^ 9" using assms by (simp_all add: c_def ceiling_le_iff)
  then have "c < 2 ^ 64" by simp
  then have "unat (of_int c :: u64) = nat c" using c(1) \<open>c < 2 ^ 64\<close> by (simp add: unsigned_of_int take_bit_int_eq_self)
  moreover have "f64_to_u64 (Fin (of_int c)) = of_int c" using c by (cases "c = 0") auto
  moreover have "f64_ceil (Fin x) = Fin (of_int c)" by (simp add: c_def)
  moreover have "x \<le> of_nat (nat c)" using c(1) by (simp add: c_def le_of_int_ceiling)
  moreover have "unat u \<le> unat (max u 1)" for u :: u64 by (simp add: max_def word_le_nat_alt)
  ultimately show ?thesis by (metis of_nat_mono order_trans)
qed

lemma wait_is_enough:
  assumes sound: "bucket_sound r (max r 1) now b" and r: "1 / 10 ^ 9 \<le> r"
    and refused: "try_consume exact_fpu (Fin 1) now b = (False, bk)"
    and later: "now + unat (max (f64_to_u64 (f64_ceil (time_until_available exact_fpu (Fin 1) bk))) 1) * 10 ^ 9 \<le> later"
  shows "fst (try_consume exact_fpu (Fin 1) later bk)"
proof -
  obtain x where x: "tb_rate b = Fin r" "tb_max_burst b = Fin (max r 1)" "tb_tokens b = Fin x" "0 \<le> x" "x \<le> max r 1" "tb_last_refill b \<le> now"
    using sound by (auto simp: bucket_sound_def)
  have r0: "0 < r" using r by (rule less_le_trans [rotated]) simp
  define y where "y = refilled r (max r 1) x (tb_last_refill b) now"
  have y: "0 \<le> y" "y < 1" using refilled_bounds [of r "max r 1" x "tb_last_refill b" now] refused r0 x
    unfolding consume_exact [OF x(1-3)] Let_def by (auto simp: y_def)
  have bk: "tb_rate bk = Fin r" "tb_max_burst bk = Fin (max r 1)" "tb_tokens bk = Fin y" "tb_last_refill bk = now"
    using refused x unfolding consume_exact [OF x(1-3)] Let_def y_def by (auto split: if_splits)
  define w where "w = (1 - y) / r"
  have tua: "time_until_available exact_fpu (Fin 1) bk = Fin w"
    using y r r0 bk by (simp add: time_until_available_def exact_ops max_absorb1 w_def)
  have w: "0 \<le> w" "w \<le> 10 ^ 9"
    using y r r0 by (simp_all add: w_def divide_le_eq)
  define k where "k = unat (max (f64_to_u64 (f64_ceil (Fin w))) 1)"
  have "now + k * 10 ^ 9 \<le> later" using later by (simp only: tua k_def)
  moreover have wk: "w \<le> of_nat k" using whole_seconds [OF w] by (simp only: k_def)
  ultimately have late: "w \<le> secs (later - now)" "now \<le> later"
    by (auto simp: le_divide_eq intro: order_trans [of _ "of_nat k"] dest: of_nat_mono [where 'a = rat])
  then have "1 - y \<le> secs (later - now) * r" using r0 by (simp add: w_def divide_le_eq)
  then have "1 \<le> refilled r (max r 1) y now later" using late y by (cases "now < later") (auto simp: refilled_def)
  then show ?thesis by (simp add: consume_exact [OF bk(1-3)] bk(4) Let_def)
qed

text \<open>Events that ask for nothing on behalf of a tenant leave its quota and its bucket.\<close>

fun spares :: "tenant_id \<Rightarrow> sched_event \<Rightarrow> bool" where
  "spares t (Check created now u) \<longleftrightarrow> u \<noteq> t"
| "spares t _ \<longleftrightarrow> True"

definition holds_bucket :: "tenant_id \<Rightarrow> tenant_config \<Rightarrow> tenant_quota \<Rightarrow> token_bucket \<Rightarrow> tenant_scheduler \<Rightarrow> bool" where
  "holds_bucket t cfg q bk s \<longleftrightarrow> tsc_config s = cfg \<and> (\<exists>n. map_of (tsc_buckets s) t = Some \<lparr>tn_quota = q, tn_bucket = bk, tn_in_flight = n\<rparr>)"

lemma step_spares:
  assumes "holds_bucket t cfg q bk s" "spares t e" "tcf_enabled cfg"
  shows "holds_bucket t cfg q bk (snd (sched_step F show_rps e s))"
proof (cases e)
  case (Check created now u)
  obtain b s1 where g: "get_or_create_bucket created u s = (b, s1)" by fastforce
  obtain ok bk' where tc: "try_consume F (Fin 1) now (tn_bucket b) = (ok, bk')" by fastforce
  have en: "tcf_enabled (tsc_config s)" using assms(1,3) by (auto simp: holds_bucket_def)
  show ?thesis using assms(1,2) Check check_split(1) [OF en g tc] get_or_create_kept [OF g]
    by (simp add: holds_bucket_def split_beta Let_def)
next
  case (Start created u)
  obtain b s1 where g: "get_or_create_bucket created u s = (b, s1)" by fastforce
  show ?thesis using assms(1) Start g get_or_create_kept [OF g]
    by (cases "u = t") (auto simp: holds_bucket_def record_request_start_def)
next
  case (Finish u)
  then show ?thesis using assms(1) by (cases "u = t") (auto simp: holds_bucket_def record_request_end_def split: option.splits)
next
  case (Capacity cap used)
  then show ?thesis using assms(1) by (simp add: holds_bucket_def update_capacity_def)
qed

lemma run_spares:
  "holds_bucket t cfg q bk s \<Longrightarrow> list_all (spares t) es \<Longrightarrow> tcf_enabled cfg \<Longrightarrow> holds_bucket t cfg q bk (snd (sched_run F show_rps es s))"
proof (induction es arbitrary: s)
  case (Cons e es)
  then show ?case using step_spares [OF Cons.prems(1), of e F show_rps] by (simp add: split_beta Let_def)
qed simp

lemma check_let_through:
  assumes "holds_bucket t cfg q bk s" "tcf_enabled cfg" "tq_max_concurrent q = None" "fst (try_consume F (Fin 1) now bk)"
  shows "fst (check_admission F show_rps created now t s) \<in> {Admitted, Queued}"
proof -
  obtain n where n: "map_of (tsc_buckets s) t = Some \<lparr>tn_quota = q, tn_bucket = bk, tn_in_flight = n\<rparr>" "tsc_config s = cfg"
    using assms(1) by (auto simp: holds_bucket_def)
  have p: "priority_decision F q s' \<in> {Admitted, Queued}" for s' by (auto simp: priority_decision_def Let_def split: tenant_priority.splits)
  show ?thesis using n assms(2-4) p by (auto simp: check_admission_def get_or_create_bucket_def split_beta Let_def)
qed

lemma refusal_by_rate:
  assumes "check_admission F show_rps created now t s = (RateLimitedFor k why, s1)" "tcf_enabled (tsc_config s)"
    "get_or_create_bucket created t s = (b, s2)" "tq_max_concurrent (tn_quota b) = None"
  obtains bk where "try_consume F (Fin 1) now (tn_bucket b) = (False, bk)"
    "k = max (f64_to_u64 (f64_ceil (time_until_available F (Fin 1) bk))) 1" "holds_bucket t (tsc_config s) (tn_quota b) bk s1"
proof -
  obtain ok bk where tc: "try_consume F (Fin 1) now (tn_bucket b) = (ok, bk)" by fastforce
  have "priority_decision F q s' \<noteq> RateLimitedFor k why" for q s' by (auto simp: priority_decision_def Let_def split: tenant_priority.splits)
  then have no: "\<not> ok" using assms tc by (auto simp: check_admission_def Let_def)
  have "s1 = set_bucket_of t (b\<lparr>tn_bucket := bk\<rparr>) s2" using check_split(1) [OF assms(2,3) tc, of show_rps] assms(1) by simp
  then have "holds_bucket t (tsc_config s) (tn_quota b) bk s1" using get_or_create_kept(1) [OF assms(3)] by (cases b) (simp add: holds_bucket_def)
  then show ?thesis using that tc no check_split(2) [OF assms(2,3) tc no, of show_rps] assms(1) by simp
qed

lemma step_config: "tsc_config (snd (sched_step F show_rps e s)) = tsc_config s"
proof (cases e)
  case (Check created now u)
  obtain b s1 where g: "get_or_create_bucket created u s = (b, s1)" by fastforce
  then show ?thesis using Check get_or_create_kept(1) [OF g]
    by (simp add: check_admission_def split_beta Let_def split: option.splits)
next
  case (Start created u)
  obtain b s1 where g: "get_or_create_bucket created u s = (b, s1)" by fastforce
  then show ?thesis using Start get_or_create_kept(1) [OF g] by (simp add: record_request_start_def)
qed (simp_all add: record_request_end_def update_capacity_def split: option.splits)

lemma run_config: "tsc_config (snd (sched_run F show_rps es s)) = tsc_config s"
  by (induction es arbitrary: s) (simp_all add: split_beta Let_def step_config)

text \<open>C38. The wait named in a refusal is long enough: a tenant without a limit on concurrent requests that is refused with \<open>k\<close> seconds is
  not refused when it asks again \<open>k\<close> seconds later, whatever ran before and whatever the other tenants do meanwhile (exact arithmetic,
  a rate of at least one request in \<open>10 ^ 9\<close> seconds).\<close>

lemma retry_after_suffices:
  assumes "tcf_enabled cfg" "tq_max_rps (resolve_quota cfg t) = Some (Fin r)" "tq_max_concurrent (resolve_quota cfg t) = None" "1 / 10 ^ 9 \<le> r"
    and before: "list_all (in_window 0 now) before" and "created \<le> now"
    and refused: "check_admission exact_fpu show_rps created now t (snd (sched_run exact_fpu show_rps before (scheduler_new cfg))) = (RateLimitedFor k why, s)"
    and others: "list_all (spares t) between" and later: "now + unat k * 10 ^ 9 \<le> later"
  shows "fst (check_admission exact_fpu show_rps again later t (snd (sched_run exact_fpu show_rps between s))) \<in> {Admitted, Queued}"
proof -
  let ?s = "snd (sched_run exact_fpu show_rps before (scheduler_new cfg))"
  have r: "0 \<le> r" by (rule order_trans [OF _ assms(4)]) simp
  have "tenant_sound t r now (scheduler_new cfg)" using assms(1,2) by (simp add: tenant_sound_def scheduler_new_def)
  then have s: "tenant_sound t r now ?s" by (rule run_sound [OF _ r before])
  have cfg: "tsc_config ?s = cfg" by (simp add: run_config scheduler_new_def)
  obtain b s2 where g: "get_or_create_bucket created t ?s = (b, s2)" by fastforce
  note b = get_or_create_sound [OF s r assms(6) g]
  have q: "tn_quota b = resolve_quota cfg t" using b(3) by (simp add: cfg)
  obtain bk where bk: "try_consume exact_fpu (Fin 1) now (tn_bucket b) = (False, bk)"
      "k = max (f64_to_u64 (f64_ceil (time_until_available exact_fpu (Fin 1) bk))) 1" "holds_bucket t cfg (resolve_quota cfg t) bk s"
    using refusal_by_rate [OF refused _ g] assms(1,3) by (metis cfg q)
  have "fst (try_consume exact_fpu (Fin 1) later bk)"
    by (rule wait_is_enough [OF b(2) assms(4) bk(1)]) (use later bk(2) in simp_all)
  then show ?thesis using check_let_through [OF run_spares [OF bk(3) others assms(1)] assms(1,3)] by simp
qed

lemma consume_eval:
  "try_consume exact_fpu (Fin 1) now \<lparr>tb_rate = Fin r, tb_max_burst = Fin m, tb_tokens = Fin x, tb_last_refill = l\<rparr> =
    (let y = refilled r m x l now
     in (1 \<le> y, \<lparr>tb_rate = Fin r, tb_max_burst = Fin m, tb_tokens = Fin (if 1 \<le> y then y - 1 else y), tb_last_refill = max l now\<rparr>))"
  by (simp add: consume_exact)

lemma demo_wait: "\<lceil>499999999 / 250000000 :: rat\<rceil> = 2"
  by (rule ceiling_unique) simp_all

lemma demo_refusal:
  "fst (check_admission exact_fpu (\<lambda>_. ''1'') 10 10 (TenantId ''a'')
      (snd (sched_run exact_fpu (\<lambda>_. ''1'') [Check 5 6 (TenantId ''a''), Capacity 10 9] (scheduler_new demo_tenants)))) =
    RateLimitedFor 2 ''tenant a exceeded RPS limit of 1''"
  by (simp add: demo_wait max_def word_le_nat_alt check_admission_def scheduler_new_def get_or_create_bucket_def Let_def tenant_bucket_new_def token_bucket_new_def
      demo_quota tenant_quota_new_def saturation_of_def saturation_new_def of_usize_def rps_reason_def time_until_available_def
      consume_eval refilled_def priority_decision_def update_capacity_def set_bucket_of_def exact_ops)

lemma retry_after_suffices_witness:
  "fst (check_admission exact_fpu (\<lambda>_. ''1'') 10 2000000010 (TenantId ''a'')
     (snd (sched_run exact_fpu (\<lambda>_. ''1'') [Start 11 (TenantId ''a''), Check 12 13 (TenantId ''b'')]
       (snd (check_admission exact_fpu (\<lambda>_. ''1'') 10 10 (TenantId ''a'')
         (snd (sched_run exact_fpu (\<lambda>_. ''1'') [Check 5 6 (TenantId ''a''), Capacity 10 9] (scheduler_new demo_tenants)))))))) \<in> {Admitted, Queued}"
proof (rule retry_after_suffices [OF demo_quota(2), where r = "1 / 2" and k = 2 and now = 10 and created = 10
      and before = "[Check 5 6 (TenantId ''a''), Capacity 10 9]" and why = "''tenant a exceeded RPS limit of 1''"])
  show "check_admission exact_fpu (\<lambda>_. ''1'') 10 10 (TenantId ''a'')
       (snd (sched_run exact_fpu (\<lambda>_. ''1'') [Check 5 6 (TenantId ''a''), Capacity 10 9] (scheduler_new demo_tenants))) =
     (RateLimitedFor 2 ''tenant a exceeded RPS limit of 1'', snd (check_admission exact_fpu (\<lambda>_. ''1'') 10 10 (TenantId ''a'')
       (snd (sched_run exact_fpu (\<lambda>_. ''1'') [Check 5 6 (TenantId ''a''), Capacity 10 9] (scheduler_new demo_tenants)))))"
    by (rule prod_eqI) (simp_all only: demo_refusal fst_conv snd_conv)
qed (simp_all add: demo_quota tenant_quota_new_def)

section \<open>What the scheduler does at its edges\<close>

text \<open>A request that is refused for the concurrency limit has already spent its token.\<close>

lemma refused_at_the_limit_pays:
  assumes "tcf_enabled (tsc_config s)" "map_of (tsc_buckets s) t = Some b" "tq_max_concurrent (tn_quota b) = Some limit"
    "unat limit \<le> unat (tn_in_flight b)" "try_consume F (Fin 1) now (tn_bucket b) = (True, bk)"
  shows "fst (check_admission F show_rps created now t s) = RateLimitedFor 1 (concurrent_reason t limit)"
    "map_of (tsc_buckets (snd (check_admission F show_rps created now t s))) t = Some (b\<lparr>tn_bucket := bk\<rparr>)"
  using assms by (simp_all add: check_admission_def get_or_create_bucket_def Let_def)

text \<open>The end of a request that was never counted takes the counter below zero: the tenant looks full.\<close>

lemma spurious_end_blocks:
  assumes "tcf_enabled (tsc_config s)" "map_of (tsc_buckets s) t = Some b" "tn_in_flight b = 0" "tq_max_concurrent (tn_quota b) = Some limit"
  shows "fst (check_admission F show_rps created now t (record_request_end t s)) \<notin> {Admitted, Queued}"
proof -
  have "unat limit \<le> unat (- 1 :: u64)" using unsigned_less [of limit, where 'a = nat] by (simp add: unsigned_minus_1_eq_mask mask_eq_exp_minus_1)
  then show ?thesis using assms by (auto simp: record_request_end_def check_admission_def get_or_create_bucket_def split_beta Let_def)
qed

text \<open>A check and the start it allows are two steps: with a limit of one, two requests checked before either starts are both admitted.\<close>

definition one_at_a_time :: tenant_config where
  "one_at_a_time = (tenant_config_default exact_fpu)\<lparr>tcf_enabled := True, tcf_default_max_rps := Some (Fin 100), tcf_default_max_concurrent := Some 1\<rparr>"

lemma limit_overrun:
  "map snd (fst (sched_run exact_fpu (\<lambda>_. ''1'')
     [Check 1 1 (TenantId ''a''), Check 1 1 (TenantId ''a''), Start 1 (TenantId ''a''), Start 1 (TenantId ''a''), Check 2 2 (TenantId ''a'')]
     (scheduler_new one_at_a_time))) = [Admitted, Admitted, RateLimitedFor 1 (concurrent_reason (TenantId ''a'') 1)]"
  by (simp add: one_at_a_time_def check_admission_def scheduler_new_def get_or_create_bucket_def Let_def tenant_bucket_new_def token_bucket_new_def
      tenant_config_default_def resolve_quota_def or_else_def saturation_of_def saturation_new_def of_usize_def total_reserved_fraction_def
      consume_eval refilled_def priority_decision_def update_capacity_def set_bucket_of_def exact_ops record_request_start_def)

text \<open>The capacity reserved for a premium tenant counts from its first request on, not before.\<close>

definition half_reserved :: tenant_config where
  "half_reserved = (tenant_config_default exact_fpu)\<lparr>tcf_enabled := True, tcf_default_max_rps := Some (Fin 100),
     tcf_tenants := [\<lparr>tqc_id = ''gold'', tqc_priority = Premium, tqc_max_rps = None, tqc_max_concurrent = None, tqc_reserved_capacity_fraction = Fin (1 / 2)\<rparr>]\<rparr>"

lemma reservation_starts_late:
  "map snd (fst (sched_run exact_fpu (\<lambda>_. ''1'')
     [Capacity 10 9, Check 1 1 (TenantId ''a''), Check 1 1 (TenantId ''gold''), Check 1 1 (TenantId ''a'')] (scheduler_new half_reserved))) =
   [Admitted, Admitted, Queued]"
  by (simp add: half_reserved_def check_admission_def scheduler_new_def get_or_create_bucket_def Let_def tenant_bucket_new_def token_bucket_new_def
      tenant_config_default_def resolve_quota_def or_else_def saturation_of_def saturation_new_def of_usize_def total_reserved_fraction_def
      consume_eval refilled_def priority_decision_def update_capacity_def set_bucket_of_def exact_ops)

end
