(* ===== verification/Assembly.thy ===== *)
theory Assembly
  imports Gateway Policies Tenants Bridge
begin

text \<open>
  The gateway binary, \<open>crates/hier-kv-gateway/src/main.rs\<close>: the configuration it reads, the assembly of the routing engine with its
  plugins and primary strategy, the start of the cluster engine, and the state the HTTP server starts with. What the connectors report
  at start-up, whether the transport binds and whether the telemetry file opens are parameters.
\<close>

section \<open>Configuration\<close>

record geo_coord_config =
  gcc_lat :: f64
  gcc_lon :: f64

record region_config =
  rgn_id :: region_id
  rgn_tier :: region_tier
  rgn_geo :: "geo_coord_config option"
  rgn_network_zone :: string

record listen_config =
  lc_addr :: string
  lc_port :: u16

record gateway_config =
  gc_instance_id :: instance_id
  gc_region :: region_config
  gc_listen :: listen_config
  gc_routing :: routing_config
  gc_cluster :: cluster_config
  gc_forwarding :: forwarding_config
  gc_resilience :: resilience_config
  gc_telemetry :: telemetry_config
  gc_backends :: "backend_config list"
  gc_tenant :: tenant_config
  gc_cost :: cost_config
  gc_model_tier :: model_tier_config
  gc_kv_estimate :: kv_estimate_config
  gc_coalescing :: coalescing_config

section \<open>The routing engine\<close>

definition configured_kv :: "fpu \<Rightarrow> xxh3 \<Rightarrow> gateway_config \<Rightarrow> strategy" where
  "configured_kv F xxh cfg = kv_aware F xxh \<lparr>ka_overlap_score_credit = rg_overlap_score_credit (gc_routing cfg),
     ka_prefill_load_scale = rg_prefill_load_scale (gc_routing cfg), ka_ckf_false_positive_penalty = Fin 0\<rparr>"

definition configured_topology :: "fpu \<Rightarrow> gateway_config \<Rightarrow> strategy" where
  "configured_topology F cfg = topology_aware F \<lparr>ta_rtt = Fin 1, ta_bw = Fin 0, ta_self_region = rgn_id (gc_region cfg)\<rparr>"

definition configured_plugins :: "fpu \<Rightarrow> gateway_config \<Rightarrow> routing_plugin list" where
  "configured_plugins F cfg =
     (if ccf_enabled (gc_cost cfg)
      then [from_strategy (cost_aware F (static_price_for (build_cost_model (gc_cost cfg))) (gc_cost cfg))] else []) @
     (if mtc_enabled (gc_model_tier cfg) \<and> mtc_policy (gc_model_tier cfg) \<noteq> Fallback
      then [from_strategy (model_tier_strategy F (gc_model_tier cfg))] else []) @
     (if kec_enabled (gc_kv_estimate cfg)
      then [from_strategy (kv_capacity F (registry_with_catalog (build_catalog (gc_kv_estimate cfg))) (gc_kv_estimate cfg))] else [])"

text \<open>The controller is made at the time \<open>inst\<close>.\<close>

definition configured_hybrid :: "fpu \<Rightarrow> xxh3 \<Rightarrow> nat \<Rightarrow> gateway_config \<Rightarrow> hybrid_strategy" where
  "configured_hybrid F xxh inst cfg =
     (let r = gc_routing cfg;
          base = hybrid_new (configured_kv F xxh cfg) (model_aware F) (load_aware F (load_aware_default F)) (configured_topology F cfg)
            (rg_weights r) (rg_temperature r);
          tuned = (if ac_enabled (rg_adaptive r) then with_adaptive (adaptive_new inst (rg_weights r) (rg_adaptive r)) base else base)
      in foldl (\<lambda>hy p. with_plugin p hy) tuned (configured_plugins F cfg))"

definition configured_primary :: "fpu \<Rightarrow> xxh3 \<Rightarrow> gateway_config \<Rightarrow> strategy option" where
  "configured_primary F xxh cfg =
     (if mtc_enabled (gc_model_tier cfg) \<and> mtc_policy (gc_model_tier cfg) = Fallback
      then Some (model_tier_strategy F (gc_model_tier cfg))
      else case rg_strategy (gc_routing cfg) of
             UseHybrid \<Rightarrow> None
           | UseRoundRobin \<Rightarrow> Some (round_robin F round_robin_new)
           | UseKv \<Rightarrow> Some (configured_kv F xxh cfg)
           | UseModel \<Rightarrow> Some (model_aware F)
           | UseLoad \<Rightarrow> Some (load_aware F (load_aware_default F))
           | UseTopology \<Rightarrow> Some (configured_topology F cfg))"

definition build_routing_engine :: "fpu \<Rightarrow> xxh3 \<Rightarrow> nat \<Rightarrow> gateway_config \<Rightarrow> routing_engine" where
  "build_routing_engine F xxh inst cfg =
     (let r = gc_routing cfg;
          engine = routing_engine_new (configured_hybrid F xxh inst cfg) (rg_session_affinity_ttl_secs r) (rg_max_retries r) (rgn_id (gc_region cfg))
      in case configured_primary F xxh cfg of Some p \<Rightarrow> with_primary_strategy p engine | None \<Rightarrow> engine)"

section \<open>Start-up\<close>

definition register_self_region :: "gateway_config \<Rightarrow> metadata_store \<Rightarrow> metadata_store" where
  "register_self_region cfg meta =
     store_topo_add_region
       \<lparr>ri_id = rgn_id (gc_region cfg), ri_tier = rgn_tier (gc_region cfg),
        ri_geo = map_option (\<lambda>g. \<lparr>geo_lat = gcc_lat g, geo_lon = gcc_lon g\<rparr>) (rgn_geo (gc_region cfg)),
        network_zone = rgn_network_zone (gc_region cfg), ri_endpoints = []\<rparr> meta"

text \<open>The cluster engine and the messages sent to the seeds; the handler shares the store of the gateway.\<close>

definition start_cluster :: "serde \<Rightarrow> (string + unit) \<Rightarrow> u64 \<Rightarrow> gateway_config \<Rightarrow> metadata_store \<Rightarrow> meta_handler engine option \<times> transport_cmd list" where
  "start_cluster S bound now cfg meta =
     (let c = gc_cluster cfg; e = engine_new (gc_instance_id cfg) (rgn_id (gc_region cfg)) (cc_bind_addr c) (meta_handler_new meta)
      in case engine_start (meta_gossip_handler S) bound now e of
           (Inl err, e1) \<Rightarrow> (None, [])
         | (Inr _, e1) \<Rightarrow> (Some e1, if cc_seed_peers c \<noteq> [] then join_cluster (cc_seed_peers c) e1 else []))"

text \<open>
  The state of the HTTP server: \<open>world\<close> is what each connector meets at the discovery, \<open>meet\<close> the answer of the transport to a \<open>Meet\<close>
  message, \<open>cluster_up\<close> whether the cluster engine started.
\<close>

definition gateway_start :: "fpu \<Rightarrow> xxh3 \<Rightarrow> nat \<Rightarrow> (connector \<Rightarrow> outside) \<Rightarrow> bool \<Rightarrow> (string \<Rightarrow> string + unit) \<Rightarrow> bool \<Rightarrow> gateway_config \<Rightarrow> app_state" where
  "gateway_start F xxh inst world file_opens meet cluster_up cfg =
     (let (connectors, meta) = discover_and_register world (connectors_from_configs (gc_backends cfg) (gc_forwarding cfg))
            (register_self_region cfg store_new)
      in \<lparr>as_metadata = meta, as_routing = build_routing_engine F xxh inst cfg, as_connectors = connectors, as_routing_config = gc_routing cfg,
          as_breakers = registry_new (gc_resilience cfg),
          as_retry_policy = retry_new (from_millis (retry_backoff_ms (gc_resilience cfg))) (from_millis (retry_max_backoff_ms (gc_resilience cfg))),
          as_peer_registrar = (if cluster_up then Some meet else None),
          as_decision_sink = build_telemetry file_opens (gc_telemetry cfg), as_decision_buffer = (0 < tc_buffer_size (gc_telemetry cfg)),
          as_telemetry = telemetry_start (gc_telemetry cfg), as_gateway_instance = inst_str (gc_instance_id cfg),
          as_gateway_region = region_str (rgn_id (gc_region cfg)), as_coalescer = coalescer_new (gc_coalescing cfg)\<rparr>)"

section \<open>The engine that is built\<close>

lemma plugins_added: "foldl (\<lambda>hy p. with_plugin p hy) hy ps = hy\<lparr>hy_plugins := hy_plugins hy @ ps\<rparr>"
  by (induction ps arbitrary: hy) (simp_all add: with_plugin_def)

lemma configured_hybrid_fields:
  "hy_model (configured_hybrid F xxh inst cfg) = model_aware F" "hy_plugins (configured_hybrid F xxh inst cfg) = configured_plugins F cfg"
  "hy_temperature (configured_hybrid F xxh inst cfg) = rg_temperature (gc_routing cfg)"
  by (simp_all add: configured_hybrid_def Let_def plugins_added with_adaptive_def hybrid_new_def)

lemma build_fields:
  "re_primary (build_routing_engine F xxh inst cfg) = configured_primary F xxh cfg"
  "re_hybrid (build_routing_engine F xxh inst cfg) = configured_hybrid F xxh inst cfg"
  "re_temperature (build_routing_engine F xxh inst cfg) = rg_temperature (gc_routing cfg)"
  "re_trace_sub_scores (build_routing_engine F xxh inst cfg) = False"
  by (simp_all add: build_routing_engine_def Let_def routing_engine_new_def with_primary_strategy_def configured_hybrid_fields split: option.split)

text \<open>Every configuration gives a scoring strategy that meets the contract of the engine.\<close>

lemma built_sound: "sound_strategy (scoring_strategy F (build_routing_engine F xxh inst cfg))"
proof (cases "configured_primary F xxh cfg")
  case None
  then show ?thesis by (simp add: scoring_strategy_def build_fields hybrid_sound configured_hybrid_fields sub_strategies_sound)
next
  case (Some p)
  then have "sound_strategy p"
    by (auto simp: configured_primary_def configured_kv_def configured_topology_def policies_sound sub_strategies_sound round_robin_sound
        split: if_splits strategy_type.splits)
  then show ?thesis using Some by (simp add: scoring_strategy_def build_fields)
qed

section \<open>After start-up\<close>

text \<open>No strategy of the source panics on an empty KV index.\<close>

lemma empty_index_overlap: "kv_find_global_overlap xxh hashes r kv_index_new \<noteq> None"
  by (simp add: kv_find_global_overlap_def kv_index_new_def consumer_new_def consumer_estimate_overlap_def consumer_lane_of_def)

lemma kv_aware_calm: "ms_kv meta = kv_index_new \<Longrightarrow> fst (st_evaluate (kv_aware F xxh ka) inst now ctx cs meta) \<noteq> Inl Panicked"
proof -
  assume kv: "ms_kv meta = kv_index_new"
  have "\<exists>out. kv_aware_loop F xxh ka hashes ovs cs meta = Inr out" for hashes ovs cs
    using empty_index_overlap by (induction cs) (auto simp: kv split: option.split)
  then show ?thesis by (auto simp: kv_aware_evaluate_def) (metis sum.distinct(1))
qed

lemma map_sum_Inl: "map_sum id f r = Inl e \<longleftrightarrow> r = Inl e"
  by (cases r) simp_all

lemma plugins_calm:
  assumes "\<forall>p \<in> fst ` set pws. fst (st_evaluate (rp_strategy p) inst now ctx passing meta) \<noteq> Inl Panicked"
  shows "fst (score_plugins F inst now ctx passing meta pws) \<noteq> Inl Panicked"
  using assms
proof (induction pws)
  case (Cons pw pws)
  obtain p w where pw: "pw = (p, w)" by fastforce
  obtain r ps where rest: "score_plugins F inst now ctx passing meta pws = (r, ps)" by fastforce
  obtain e st where ev: "st_evaluate (rp_strategy p) inst now ctx passing meta = (e, st)" by fastforce
  have "e \<noteq> Inl Panicked" "r \<noteq> Inl Panicked" using Cons by (auto simp: pw ev rest)
  then show ?case by (cases e) (simp_all add: pw rest ev map_sum_Inl)
qed simp

lemma score_sub_calm: "fst (st_evaluate st inst now ctx passing meta) \<noteq> Inl Panicked \<Longrightarrow> fst (score_sub w inst now ctx passing meta st) \<noteq> Inl Panicked"
  by (simp add: score_sub_def)

lemma score_filtered_calm:
  assumes "\<forall>st \<in> {hy_kv hy, hy_load hy, hy_topology hy} \<union> rp_strategy ` set (hy_plugins hy). fst (st_evaluate st inst now ctx passing meta) \<noteq> Inl Panicked"
  shows "fst (score_filtered F inst now ctx passing meta w hy) \<noteq> Inl Panicked"
proof -
  obtain rk sk where k: "score_sub (hw_kv w) inst now ctx passing meta (hy_kv hy) = (rk, sk)" by fastforce
  obtain rl sl where l: "score_sub (hw_load w) inst now ctx passing meta (hy_load hy) = (rl, sl)" by fastforce
  obtain rt st where t: "score_sub (hw_topology w) inst now ctx passing meta (hy_topology hy) = (rt, st)" by fastforce
  obtain rp sp where p: "score_plugins F inst now ctx passing meta (zip (hy_plugins hy) (hw_plugins w)) = (rp, sp)" by fastforce
  have "\<forall>p \<in> fst ` set (zip (hy_plugins hy) (hw_plugins w)). fst (st_evaluate (rp_strategy p) inst now ctx passing meta) \<noteq> Inl Panicked"
    using assms by (auto dest: set_zip_leftD)
  from plugins_calm [OF this] have "rp \<noteq> Inl Panicked" using p by (metis fst_conv)
  moreover have "rk \<noteq> Inl Panicked" "rl \<noteq> Inl Panicked" "rt \<noteq> Inl Panicked"
    using score_sub_calm [of "hy_kv hy" inst now ctx passing meta "hw_kv w"] score_sub_calm [of "hy_load hy" inst now ctx passing meta "hw_load w"]
      score_sub_calm [of "hy_topology hy" inst now ctx passing meta "hw_topology w"] assms k l t by simp_all
  ultimately show ?thesis by (cases rk; cases rl; cases rt) (simp_all add: score_filtered_def Let_def k l t p map_sum_Inl)
qed

lemma hybrid_calm:
  assumes "\<forall>st \<in> {hy_kv hy, hy_model hy, hy_load hy, hy_topology hy} \<union> rp_strategy ` set (hy_plugins hy). \<forall>cs.
      fst (st_evaluate st inst now ctx cs meta) \<noteq> Inl Panicked"
  shows "fst (hybrid_evaluate F inst now ctx cs meta hy) \<noteq> Inl Panicked"
proof -
  obtain r st where ev: "st_evaluate (hy_model hy) inst now ctx cs meta = (r, st)" by fastforce
  obtain base hy2 where eff: "effective_base_weights F inst meta (hy\<lparr>hy_model := st\<rparr>) = (base, hy2)" by fastforce
  have "hy_kv hy2 = hy_kv hy" "hy_load hy2 = hy_load hy" "hy_topology hy2 = hy_topology hy" "hy_plugins hy2 = hy_plugins hy"
    using effective_base_frame [of F inst meta "hy\<lparr>hy_model := st\<rparr>"] eff by simp_all
  then have "fst (score_filtered F inst now ctx passing meta w hy2) \<noteq> Inl Panicked" for passing w
    using assms by (intro score_filtered_calm) simp
  moreover have "r \<noteq> Inl Panicked" using assms ev by (metis UnI1 insertI1 insertI2 fst_conv)
  ultimately show ?thesis by (cases r) (simp_all add: hybrid_evaluate_def ev eff Let_def)
qed

lemma built_calm:
  assumes "ms_kv meta = kv_index_new"
  shows "fst (st_evaluate (scoring_strategy F (build_routing_engine F xxh inst0 cfg)) inst now ctx cs meta) \<noteq> Inl Panicked"
proof (cases "configured_primary F xxh cfg")
  case None
  have "hy_kv (configured_hybrid F xxh inst0 cfg) = configured_kv F xxh cfg" "hy_load (configured_hybrid F xxh inst0 cfg) = load_aware F (load_aware_default F)"
    "hy_topology (configured_hybrid F xxh inst0 cfg) = configured_topology F cfg"
    by (simp_all add: configured_hybrid_def Let_def plugins_added with_adaptive_def hybrid_new_def)
  then have "fst (hybrid_evaluate F inst now ctx cs meta (configured_hybrid F xxh inst0 cfg)) \<noteq> Inl Panicked"
    using kv_aware_calm [OF assms]
    by (intro hybrid_calm) (auto simp: configured_hybrid_fields configured_kv_def configured_topology_def configured_plugins_def from_strategy_def)
  then show ?thesis using None by (simp add: scoring_strategy_def build_fields)
next
  case (Some p)
  then have "fst (st_evaluate p inst now ctx cs meta) \<noteq> Inl Panicked"
    using kv_aware_calm [OF assms] by (auto simp: configured_primary_def configured_kv_def configured_topology_def split: if_splits strategy_type.splits)
  then show ?thesis using Some by (simp add: scoring_strategy_def build_fields)
qed

text \<open>What the discovery leaves of the empty store.\<close>

lemma register_frame: "ms_kv (register_backend info meta) = ms_kv meta" "ms_load (register_backend info meta) = ms_load meta"
  by (simp_all add: register_backend_def)

lemma discovered_frame:
  "foldl (\<lambda>s x. register_discovered (fst x) (snd x) s) (r, meta) xs = (r', meta') \<Longrightarrow>
    ms_kv meta' = ms_kv meta \<and> ms_load meta' = ms_load meta \<and> (routable meta \<longrightarrow> routable meta')"
proof (induction xs arbitrary: r meta)
  case (Cons x xs)
  then have "foldl (\<lambda>s x. register_discovered (fst x) (snd x) s) (register_alias (bi_id (snd x)) (fst x) r, register_backend (snd x) meta) xs = (r', meta')"
    by (simp add: register_discovered_def)
  from Cons.IH [OF this] show ?case using routable_register by (simp add: register_frame)
qed simp

lemma start_state:
  assumes "s = gateway_start F xxh inst world file_opens meet cluster_up cfg"
    and cs: "cs = connectors_all (connectors_from_configs (gc_backends cfg) (gc_forwarding cfg))"
  shows "routable (as_metadata s)" "ms_kv (as_metadata s) = kv_index_new" "ms_load (as_metadata s) = load_new"
    "as_routing s = build_routing_engine F xxh inst cfg"
    "backend_get b (as_metadata s) \<noteq> None \<longleftrightarrow> (\<exists>c \<in> set cs. \<exists>infos. cn_discover c (world c) = Inr infos \<and> b \<in> bi_id ` set infos)"
    "backend_get b (as_metadata s) \<noteq> None \<Longrightarrow> connector_get b (as_connectors s) \<noteq> None"
proof -
  let ?r = "connectors_from_configs (gc_backends cfg) (gc_forwarding cfg)" and ?m = "register_self_region cfg store_new"
  obtain r' meta' where d: "discover_and_register world ?r ?m = (r', meta')" by fastforce
  have s: "as_metadata s = meta'" "as_connectors s = r'" "as_routing s = build_routing_engine F xxh inst cfg"
    using assms(1) by (simp_all add: gateway_start_def d)
  note f = d [unfolded discover_reports]
  have m: "routable ?m" "ms_kv ?m = kv_index_new" "ms_load ?m = load_new" "backend_get b ?m = None"
    by (simp_all add: register_self_region_def store_topo_add_region_def routable_def store_new_def backend_get_def)
  show "routable (as_metadata s)" "ms_kv (as_metadata s) = kv_index_new" "ms_load (as_metadata s) = load_new"
    using discovered_frame [OF f] m s by simp_all
  show "as_routing s = build_routing_engine F xxh inst cfg" by (rule s(3))
  have mem: "b \<in> bi_id ` snd ` set (reports world cs) \<longleftrightarrow> (\<exists>c \<in> set cs. \<exists>infos. cn_discover c (world c) = Inr infos \<and> b \<in> bi_id ` set infos)"
    by (force simp: reports_def image_iff split: sum.splits)
  show known: "backend_get b (as_metadata s) \<noteq> None \<longleftrightarrow> (\<exists>c \<in> set cs. \<exists>infos. cn_discover c (world c) = Inr infos \<and> b \<in> bi_id ` set infos)"
    using registered_reports(1) [OF f, of b] m(4) s(1) mem cs by simp
  show "connector_get b (as_connectors s) \<noteq> None" if "backend_get b (as_metadata s) \<noteq> None"
  proof -
    have "b \<in> bi_id ` snd ` set (reports world cs)" using that known mem by simp
    then have "List.find (\<lambda>x. bi_id (snd x) = b) (reports world cs) \<noteq> None" by (auto simp: find_None_iff) blast
    then show ?thesis using registered_reports(2) [OF f, of b] s(2) cs by (auto split: option.splits)
  qed
qed

text \<open>A connector that the binary configures always reports its own backend, also when nothing answers.\<close>

lemma configured_discover:
  "\<exists>info. cn_discover (configured_connector fwd bc) w = Inr [info] \<and> bi_id info = cn_backend_id (configured_connector fwd bc)"
  by (cases "bc_backend_type bc")
    (simp_all add: configured_connector_def open_ai_object_def sglang_object_def dynamo_object_def open_ai_discover_def Let_def)

lemma update_subset: "set (AList.update k v xs) \<subseteq> insert (k, v) (set xs)"
  by (induction xs) auto

lemma registered_configs:
  "(b, c) \<in> set (connectors_from_configs configs fwd) \<Longrightarrow> c \<in> configured_connector fwd ` set configs \<and> b = cn_backend_id c"
  "connectors_from_configs configs fwd = [] \<longleftrightarrow> configs = []"
proof -
  show "(b, c) \<in> set (connectors_from_configs configs fwd) \<Longrightarrow> c \<in> configured_connector fwd ` set configs \<and> b = cn_backend_id c"
  proof (induction configs rule: rev_induct)
    case (snoc bc configs)
    then show ?case
      using update_subset [of "cn_backend_id (configured_connector fwd bc)" "configured_connector fwd bc" "connectors_from_configs configs fwd"]
      by (auto simp: connectors_from_configs_def connector_register_def)
  qed (simp add: connectors_from_configs_def connectors_new_def)
  show "connectors_from_configs configs fwd = [] \<longleftrightarrow> configs = []"
    by (cases configs rule: rev_cases) (auto simp: connectors_from_configs_def connectors_new_def connector_register_def update_nonempty)
qed

text \<open>C11. A gateway that has just started routes: for every configuration with a backend and greedy selection, whatever strategy, plugins and prices
  it names and even if no backend answers the discovery, every request gets candidates; they are at most as many as asked for, all
  different, each is a configured backend, and each has a connector to be forwarded through.\<close>

theorem fresh_gateway_routes:
  assumes s: "s = gateway_start F xxh inst world file_opens meet cluster_up cfg"
    and configured: "gc_backends cfg \<noteq> []" and greedy: "f64_le (rg_temperature (gc_routing cfg)) (Fin 0)" and limit: "0 < limit"
  shows "\<exists>ds eng' meta'. route_candidates F xxh draw inst' now ctx limit (as_routing s) (as_metadata s) = (Inr ds, eng', meta') \<and>
    ds \<noteq> [] \<and> length ds \<le> limit \<and> distinct (map rd_backend ds) \<and>
    (\<forall>b \<in> rd_backend ` set ds. connector_get b (as_connectors s) \<noteq> None \<and>
       b \<in> cn_backend_id ` configured_connector (gc_forwarding cfg) ` set (gc_backends cfg))"
proof -
  let ?r = "connectors_from_configs (gc_backends cfg) (gc_forwarding cfg)" and ?conf = "configured_connector (gc_forwarding cfg)"
  note st = start_state [OF s refl]
  have known: "backend_get b (as_metadata s) \<noteq> None \<longleftrightarrow> b \<in> cn_backend_id ` set (connectors_all ?r)" for b
  proof -
    have "\<exists>info. cn_discover c (world c) = Inr [info] \<and> bi_id info = cn_backend_id c" if "c \<in> set (connectors_all ?r)" for c
      using that registered_configs(1) configured_discover by (fastforce simp: connectors_all_def)
    then show ?thesis unfolding st(5) by force
  qed
  have all: "set (connectors_all ?r) \<subseteq> ?conf ` set (gc_backends cfg)" "connectors_all ?r \<noteq> []"
    using registered_configs configured by (force simp: connectors_all_def)+
  then have "\<exists>b. backend_get b (as_metadata s) \<noteq> None" using known by (metis ex_in_conv image_is_empty set_empty)
  then have "backends_all (as_metadata s) \<noteq> []" by (auto simp: backend_get_def backends_all_def)
  moreover have "degradation_is_available now (as_metadata s)" by (simp add: degradation_available_iff st(3) load_freshness_def load_get_def load_new_def)
  moreover have "never_panics F inst' now ctx (as_routing s) (ms_kv (as_metadata s))" by (simp add: never_panics_def st(2,4) built_calm)
  moreover have "\<not> re_trace_sub_scores (as_routing s)" "f64_le (re_temperature (as_routing s)) (Fin 0)" using greedy by (simp_all add: st(4) build_fields)
  ultimately obtain ds eng' meta' where route: "route_candidates F xxh draw inst' now ctx limit (as_routing s) (as_metadata s) = (Inr ds, eng', meta')"
    using degraded_routes_ok limit by blast
  have sound: "sound_strategy (scoring_strategy F (as_routing s))" by (simp add: st(4) built_sound)
  note r = route_sound [OF st(1) sound limit route]
  have "distinct (map rd_backend ds)" "\<forall>b \<in> rd_backend ` set ds. backend_get b (as_metadata s) \<noteq> None" using r(3) by (auto simp: decisions_ok_def)
  moreover have "\<forall>b. backend_get b (as_metadata s) \<noteq> None \<longrightarrow> b \<in> cn_backend_id ` ?conf ` set (gc_backends cfg)" using known all(1) by blast
  ultimately show ?thesis using route r(1,2) st(6) by blast
qed

text \<open>A configuration with every plugin.\<close>

definition demo_config :: gateway_config where
  "demo_config = \<lparr>gc_instance_id = InstanceId ''g'', gc_region = \<lparr>rgn_id = RegionId ''eu'', rgn_tier = Cloud, rgn_geo = None, rgn_network_zone = ''z''\<rparr>,
     gc_listen = \<lparr>lc_addr = ''0.0.0.0'', lc_port = 8080\<rparr>, gc_routing = (as_routing_config demo_app)\<lparr>rg_strategy := UseHybrid\<rparr>,
     gc_cluster = \<lparr>cc_bind_addr = ''127.0.0.1:1'', cc_seed_peers = [''127.0.0.1:2''], cc_gossip_interval_ms = 1000, cc_probe_timeout_ms = 3000,
       cc_suspect_timeout_secs = 30, cc_gossip_fanout = 3, cc_probe_interval_ms = 1000\<rparr>,
     gc_forwarding = \<lparr>fc_emit_token_ids = False\<rparr>, gc_resilience = resilience_default, gc_telemetry = telemetry_default,
     gc_backends = [\<lparr>bc_backend_type = SglangEngine, bc_endpoint = \<lparr>ep_url = ''http://a:1'', ep_protocol = Http\<rparr>, bc_models = [''m''],
       bc_region = RegionId ''eu'', bc_kv_block_size = 16, bc_quantization = None\<rparr>],
     gc_tenant = tenant_config_default exact_fpu, gc_cost = demo_prices, gc_model_tier = (model_tier_config_default exact_fpu)\<lparr>mtc_enabled := True\<rparr>,
     gc_kv_estimate = (kv_estimate_config_default exact_fpu)\<lparr>kec_enabled := True\<rparr>, gc_coalescing = coalescing_default\<rparr>"

theorem fresh_gateway_routes_witness:
  "\<exists>ds eng' meta'. route_candidates exact_fpu (\<lambda>_ s. s) (\<lambda>_ _. None) 0 9 demo_request 2
     (as_routing (gateway_start exact_fpu (\<lambda>_ s. s) 0 (\<lambda>c. demo_outside) False (\<lambda>a. Inr ()) True demo_config))
     (as_metadata (gateway_start exact_fpu (\<lambda>_ s. s) 0 (\<lambda>c. demo_outside) False (\<lambda>a. Inr ()) True demo_config)) = (Inr ds, eng', meta') \<and> ds \<noteq> []"
  using fresh_gateway_routes [OF refl, of demo_config 2 exact_fpu "\<lambda>_ s. s" "\<lambda>_ _. None" 0 9 demo_request 0 "\<lambda>c. demo_outside" False "\<lambda>a. Inr ()" True]
  by (simp add: demo_config_def demo_app_def f64_le_def) blast

section \<open>Which strategy routes\<close>

text \<open>The engine of a configuration: a model tier section with the fallback policy overrides the configured strategy; otherwise the strategy
  named in the routing section scores, with the hybrid for the default. The hybrid carries exactly the plugins whose sections are
  enabled, in the order prices, tiers, capacity, each with the weight of its section, and the tier plugin only under the pick policy.
  Sub-scores are never traced.\<close>

theorem configured_engine:
  assumes "eng = build_routing_engine F xxh inst cfg"
  shows "st_name (scoring_strategy F eng) =
      (if mtc_enabled (gc_model_tier cfg) \<and> mtc_policy (gc_model_tier cfg) = Fallback then ''model_tier''
       else case rg_strategy (gc_routing cfg) of UseHybrid \<Rightarrow> ''hybrid'' | UseRoundRobin \<Rightarrow> ''round_robin'' | UseKv \<Rightarrow> ''kv_aware''
         | UseModel \<Rightarrow> ''model_aware'' | UseLoad \<Rightarrow> ''load_aware'' | UseTopology \<Rightarrow> ''topology_aware'') \<and>
    map (\<lambda>p. (rp_id p, st_weight (rp_strategy p))) (hy_plugins (re_hybrid eng)) =
      (if ccf_enabled (gc_cost cfg) then [(''cost_aware'', ccf_weight (gc_cost cfg))] else []) @
      (if mtc_enabled (gc_model_tier cfg) \<and> mtc_policy (gc_model_tier cfg) \<noteq> Fallback then [(''model_tier'', mtc_weight (gc_model_tier cfg))] else []) @
      (if kec_enabled (gc_kv_estimate cfg) then [(''kv_capacity'', kec_weight (gc_kv_estimate cfg))] else []) \<and>
    re_temperature eng = rg_temperature (gc_routing cfg) \<and> \<not> re_trace_sub_scores eng"
  by (simp add: assms build_fields scoring_strategy_def configured_primary_def configured_hybrid_fields configured_plugins_def from_strategy_def
      configured_kv_def configured_topology_def split: strategy_type.split)

theorem configured_engine_witness:
  "let eng = build_routing_engine exact_fpu (\<lambda>_ s. s) 0 demo_config in st_name (scoring_strategy exact_fpu eng) = ''hybrid'' \<and>
   map (\<lambda>p. (rp_id p, st_weight (rp_strategy p))) (hy_plugins (re_hybrid eng)) =
     [(''cost_aware'', Fin (3 / 20)), (''model_tier'', Fin (1 / 5)), (''kv_capacity'', Fin (1 / 5))]"
  using configured_engine [OF refl, of exact_fpu "\<lambda>_ s. s" 0 demo_config]
  by (simp add: demo_config_def demo_app_def demo_prices_def cost_config_default_def model_tier_config_default_def tier_policy_default_def
      kv_estimate_config_default_def exact_fpu_def Let_def)

section \<open>The cluster engine\<close>

text \<open>A cluster engine that starts is running, knows itself alive, and greets the seeds in order; one that cannot bind leaves nothing behind, and
  the gateway answers every registration of a peer with 503.\<close>

lemma cluster_started:
  assumes "start_cluster S bound now cfg meta = (e, sent)"
  shows "e = None \<longleftrightarrow> isl bound" "e = None \<Longrightarrow> sent = []"
    "e = Some e1 \<Longrightarrow> ge_running e1 \<and> map cm_id (alive_members (ge_members e1)) = [gc_instance_id cfg] \<and>
      sent = map (\<lambda>seed. Send seed (Meet (gc_instance_id cfg) (rgn_id (gc_region cfg)) (cc_bind_addr (gc_cluster cfg)))) (cc_seed_peers (gc_cluster cfg))"
  using assms
  by (auto simp: start_cluster_def Let_def engine_start_def engine_new_def join_cluster_def meet_message_def upsert_def member_new_def
      alive_members_def split: sum.splits)

end
