(* ===== verification/Spec2Isabelle.thy ===== *)
theory Spec2Isabelle
  imports Relay SharedState Resilience Coalescer Engine Transport Gateway Assembly
begin

text \<open>
  Verification of the hierarchical KV gateway.

  \<^bold>\<open>The program.\<close> The gateway routes inference requests to backends, preferring a backend that already
  holds the KV-cache blocks of a request's prefix. A gateway knows its local backends from their KV events
  and remote regions from summaries: every region keeps a cuckoo filter of the block hashes its
  backends hold (CKF), publishes snapshots and deltas of it over a gossip cluster, and keeps a lane of
  buckets for every other region. Around this core are the metadata store the router reads, the
  membership protocol, a relay that publishes the filters, and the services of the request path: circuit
  breakers and retries, request coalescing, shared state with leases, dispatch history, the limits of tenants, and
  the routing engine that turns all of it into a decision, with plugins for prices, model tiers and KV capacity.

  \<^bold>\<open>Theories and sources\<close> (paths under \<open>src/crates\<close>, prefix \<open>hier-kv-gateway-\<close> left out).

  \<^item> \<open>Prelude\<close>: widths of machine integers, saturating addition, little-endian bytes, hash sets and hash maps
    as lists, calls that may panic (\<open>returns\<close>).
  \<^item> \<open>Ids\<close>, \<open>KvEvent\<close>, \<open>CoreTypes\<close>: \<open>core/src/ids.rs\<close>, \<open>kv_event.rs\<close>, and the data of \<open>metrics.rs\<close>, \<open>topology.rs\<close>, \<open>backend.rs\<close>.
  \<^item> \<open>Cuckoo\<close>: \<open>metadata/src/cuckoo_filter.rs\<close>, addresses, packed 16-bit slots, snapshots and deltas; the locale
    \<open>candidate_buckets\<close> states that the two addresses of a fingerprint determine each other.
  \<^item> \<open>Producer\<close>, \<open>Lane\<close>: \<open>metadata/src/ckf_producer.rs\<close>. \<open>Producer\<close> has the operations (ownership, insertion with at most
    \<open>MAX_KICKS\<close> kicks and rollback, every event) and their invariant; \<open>Lane\<close> states the contract over feeds of
    events: the ownership tables refine a map from hashes to sets of backends, membership answers are
    exact up to collisions, a failed insertion changes nothing.
  \<^item> \<open>PrefixQuery\<close>: the overlap loop shared by the three queries, with the locale \<open>prefix_query\<close> of what a query
    promises; interpreted for the radix tree, the local lanes and the remote lanes.
  \<^item> \<open>Consumer\<close>, \<open>Replica\<close>: \<open>metadata/src/ckf_consumer.rs\<close> and the link from a producer to a lane, a step relation with
    messages in flight. A settled replica equals the producer's filter, every reachable link can settle,
    and a remote overlap is backed by the blocks of the region up to collisions.
  \<^item> \<open>Radix\<close>, \<open>RadixProof\<close>: \<open>metadata/src/radix_tree.rs\<close>, the tree, the commands of its worker and the calls of its
    handle. The tree refines a map from paths to holders; removal reclaims nodes.
  \<^item> \<open>LocalCkf\<close>, \<open>KvIndex\<close>: \<open>metadata/src/local_ckf.rs\<close>, \<open>kv_index.rs\<close>. Lane assignment, accounting of a lane, both queries,
    isolation of a backend's events from the others.
  \<^item> \<open>Ring\<close>, \<open>Store\<close>, \<open>StoreProof\<close>: \<open>metadata/src/store.rs\<close>, \<open>load_stats.rs\<close>, \<open>model_registry.rs\<close>, \<open>topology_graph.rs\<close>,
    \<open>routing_history.rs\<close>. The ring buffer is a \<open>sliding_window\<close>; the reverse indexes agree with the registry.
  \<^item> \<open>Messages\<close>, \<open>Members\<close>, \<open>Gossip\<close>: \<open>cluster/src/messages.rs\<close>, \<open>member.rs\<close>, \<open>region_view.rs\<close>, \<open>gossip.rs\<close>. A step is one turn of a
    loop of the engine; the membership invariant, the failure detector, and that a member that is heard
    is alive.
  \<^item> \<open>Bridge\<close>: \<open>hier-kv-gateway/src/cluster_bridge.rs\<close>, the gossip handler on the store. The locale \<open>gossip_contract\<close> is
    what the engine needs of a handler; it is interpreted for the handler on the store and for the
    empty handler. The message loop never panics as long as snapshots fit their lane.
  \<^item> \<open>Relay\<close>: \<open>cluster/src/ckf_relay.rs\<close>, and the mesh of a relay, the messages in flight and the engine of a peer. The
    mesh refines the link of \<open>Replica\<close>, so regions converge end to end.
  \<^item> \<open>SharedState\<close>: \<open>cluster/src/shared_state.rs\<close>, the in-process implementation. Sessions, prefixes and metrics are
    interpretations of one locale, \<open>lease_map\<close>; locks exclude.
  \<^item> \<open>Resilience\<close>: \<open>connector/src/resilience.rs\<close> and its section of \<open>core/src/config.rs\<close>. Back-off doubles up to its cap; a breaker
    opens after a streak of failures, rejects for the cool-down and closes after enough successes.
  \<^item> \<open>Request\<close>: \<open>core/src/request.rs\<close>, \<open>error.rs\<close>, and the doubles of the routing layer: rationals with infinities and
    not-a-number under a rounding \<open>fpu\<close>.
  \<^item> \<open>PrefixHistory\<close>, \<open>RoundRobin\<close>, \<open>Degradation\<close>: \<open>routing/src/prefix_history.rs\<close>, \<open>round_robin.rs\<close>, \<open>degradation.rs\<close>, \<open>strategy.rs\<close>. Longest
    match with bounded eviction; fair rotation; a strategy as a codatatype with the methods of the
    trait, and the fallback that scores by dispatch history.
  \<^item> \<open>Strategies\<close>, \<open>Adaptive\<close>, \<open>Hybrid\<close>: \<open>routing/src/kv_aware.rs\<close>, \<open>model_aware.rs\<close>, \<open>load_aware.rs\<close>, \<open>topology_aware.rs\<close>, \<open>plugin.rs\<close>;
    \<open>adaptive.rs\<close>; \<open>hybrid.rs\<close>. The model filter; weights that sum to one above their floor; the ranking respects
    the order of costs for every monotone rounding, and what an excluded candidate does to it.
  \<^item> \<open>Selection\<close>, \<open>Engine\<close>: \<open>routing/src/engine.rs\<close>. Ranked selection is the stable descending sort when the temperature is
    not positive and a duplicate-free choice otherwise; every decision of \<open>route_candidates\<close> is a distinct
    registered backend with the affinity head first; sessions stick; degraded routing succeeds.
  \<^item> \<open>Transport\<close>: \<open>cluster/src/tcp_transport.rs\<close>. Frames survive the stream in order, oversized ones end it; life cycle.
  \<^item> \<open>Coalescer\<close>: \<open>api/src/coalescer.rs\<close>, \<open>core/src/coalescing.rs\<close>. The phases of a call interleave freely with other calls,
    completions, delayed removals and disconnects; single flight, delivery, accounting.

  \<^item> \<open>Text\<close>, \<open>Inference\<close>: UTF-8 text as the standard library treats it (lossy decoding, trimming, lines), and \<open>core/src/request.rs\<close>:
    requests, chunks, and streams of chunks as a codatatype that may end, panic or go on for ever.
  \<^item> \<open>OpenAiCompat\<close>, \<open>Sglang\<close>: \<open>connector/src/openai_compat.rs\<close>, \<open>sglang.rs\<close>. Request bodies, the parsers of the two event streams, metrics
    and discovery. The first parser yields the chunk of every line of the body and never ends; the second one ends, and turns
    accumulated text back into increments.
  \<^item> \<open>Connectors\<close>: \<open>connector/src/connector.rs\<close>, \<open>dynamo.rs\<close>, \<open>registry.rs\<close>, and the discovery of \<open>hier-kv-gateway/src/main.rs\<close>. A connector is a
    trait object; after discovery every known backend has a connector.
  \<^item> \<open>Telemetry\<close>: \<open>core/src/decision_event.rs\<close>, \<open>api/src/telemetry.rs\<close>: decision events, the ring buffer, the sinks and the file writer.
  \<^item> \<open>Chat\<close>: \<open>api/src/openai_types.rs\<close> and the part of \<open>handlers.rs\<close> that makes a response of a stream, in one piece or as events.
  \<^item> \<open>Forward\<close>, \<open>Gateway\<close>: the rest of \<open>api/src/handlers.rs\<close>. \<open>Forward\<close> has the loop over the ranked candidates with breakers, back-off and
    feedback, under any interference of other requests; the first usable candidate wins. \<open>Gateway\<close> composes routing, forwarding, the
    decision event and the response, directly and through the coalescer, and has the admin endpoints.
  \<^item> \<open>Tenants\<close>: \<open>core/src/tenant.rs\<close>, \<open>routing/src/tenant_scheduler.rs\<close>. A run is any sequence of admission checks, starts and ends of requests
    and capacity reports; the rate of a tenant bounds what is admitted in every window of time, and the wait named in a refusal is
    long enough.
  \<^item> \<open>KvEstimate\<close>: the crate \<open>kv-estimate\<close>. The builtin table and its lookup, the formulas on 64-bit words and when they are exact, custom
    specifications and estimators.
  \<^item> \<open>Policies\<close>: \<open>core/src/cost.rs\<close>, \<open>model_tier.rs\<close>, \<open>routing/src/cost_aware.rs\<close>, \<open>model_tier.rs\<close>, \<open>kv_capacity.rs\<close>. Each strategy meets the contract of
    the engine; what prices do to the ranking, small models before large ones, exact admission by KV blocks.
  \<^item> \<open>Assembly\<close>: \<open>hier-kv-gateway/src/main.rs\<close> and the whole of \<open>core/src/config.rs\<close>. The engine a configuration asks for, the start of the
    cluster, and the state the server starts with, from which every request is routed.

  \<^bold>\<open>How the code is modelled.\<close> A struct is a record, an enum a datatype, a 64-bit integer a \<open>64 word\<close> where its
  wrap-around or saturation matters. A call that may panic is an \<open>option\<close>. Locks and atomics make each
  operation one step; where the code gives them up between two accesses (gossip loops, relay and
  transport, coalescing) the steps are separate and every interleaving is a run. Hash maps are
  association lists with distinct keys; statements that depend on their order hold for every order.
  Clocks are arguments.

  \<^bold>\<open>Parameters.\<close> XXH3 is any function from bytes and a seed to 64 bits (\<open>xxh3\<close>). The codecs (postcard, base64, JSON of
  a region), the random order of probes, the rounding and exponential of doubles (\<open>fpu\<close>) and the sampler of the
  engine (\<open>draw\<close>) are parameters; laws they need are hypotheses of the
  theorem, with a concrete instance in its witness.

  \<^bold>\<open>Bounds.\<close> Every recursive function is total. The kick loop of the insertion runs on the constant of the
  code, the probe loops on their lists, so no fuel is involved. Theorems over feeds of events assume that
  the fleet has fewer than \<open>2 ^ 32\<close> backends, the width of a reference count.

  \<^bold>\<open>Not modelled.\<close> Sockets, HTTP, NATS, JSON and TOML are third-party crates, parameters where their results matter, so the
  connectors end at the bytes they send and receive, and the configuration starts as a record. The Redis
  backend of the shared state is calls to a service that runs scripts of its own. The router, the server,
  tracing, the command line and the shutdown on a signal are set-up of axum and tokio. The subscription to
  KV events of a NATS build only hands messages to a callback that nothing installs. The great-circle
  distance between regions is trigonometry on doubles that no decision uses.
\<close>

end
